(* ===== verification/Prelude.thy ===== *)
theory Prelude
  imports "HOL-Library.Word"
begin

text \<open>
  Shared vocabulary of the development: the C integer types as words, the two loop shapes
  of the sources and the word and list lemmas every component uses.

  The model follows the C code on a two's complement, little-endian machine with 32-bit
  \<^verbatim>\<open>int\<close> and 64-bit pointers and \<^verbatim>\<open>size_t\<close>: \<open>uint8_t\<close> to \<open>uint64_t\<close> are words of that
  width with wrap-around arithmetic; signed values are the same words read with
  \<^const>\<open>sint\<close>; array lengths and loop counters, which the code bounds by the sizes of
  its arrays, are natural numbers; an array is a list, updated by index.
\<close>

unbundle bit_operations_syntax

type_synonym u8 = "8 word"
type_synonym u16 = "16 word"
type_synonym u32 = "32 word"
type_synonym u64 = "64 word"

named_theorems c_bounds \<open>range facts of the model's operations\<close>
named_theorems c_length \<open>length facts of the model's array operations\<close>

section \<open>Words as integers\<close>

lemma uint_shl: "uint (push_bit n x :: 'a::len word) = (uint x * 2 ^ n) mod 2 ^ LENGTH('a)"
  unfolding unsigned_push_bit_eq by (simp add: take_bit_eq_mod push_bit_eq_mult)

lemma uint_shr: "uint (drop_bit n x :: 'a::len word) = uint x div 2 ^ n"
  unfolding unsigned_drop_bit_eq
  by (subst take_bit_int_eq_self) (auto simp: drop_bit_eq_div)

lemma uint_ucast_mod: "uint (ucast (x :: 'b::len word) :: 'a::len word) = uint x mod 2 ^ LENGTH('a)"
  unfolding unsigned_ucast_eq by (simp add: take_bit_eq_mod)

lemma uint_mult_mod: "uint (x * y :: 'a::len word) = (uint x * uint y) mod 2 ^ LENGTH('a)"
  by (simp add: uint_word_ariths)

lemma unat_shl: "unat (push_bit n x :: 'a::len word) = (unat x * 2 ^ n) mod 2 ^ LENGTH('a)"
  unfolding unsigned_push_bit_eq by (simp add: take_bit_eq_mod push_bit_eq_mult)

lemma unat_shr: "unat (drop_bit n x :: 'a::len word) = unat x div 2 ^ n"
  unfolding unsigned_drop_bit_eq
  by (subst take_bit_nat_eq_self) (auto simp: drop_bit_eq_div)

lemma unat_ucast_mod: "unat (ucast (x :: 'b::len word) :: 'a::len word) = unat x mod 2 ^ LENGTH('a)"
  unfolding unsigned_ucast_eq by (simp add: take_bit_eq_mod)

lemma uint8_lt: "uint (x :: u8) < 256"
  using uint_bounded [of x] by simp

lemma uint16_lt: "uint (x :: u16) < 65536"
  using uint_bounded [of x] by simp

lemma uint32_lt: "uint (x :: u32) < 4294967296"
  using uint_bounded [of x] by simp

lemma uint64_lt: "uint (x :: u64) < 18446744073709551616"
  using uint_bounded [of x] by simp

lemma shl_mod_int: "(v * 4294967296) mod 18446744073709551616 = (v mod 4294967296) * 4294967296"
  for v :: int
  using mod_mult_mult2 [of v 4294967296 4294967296] by simp

lemma div_range:
  "0 \<le> v div k \<and> v div k < m" if "0 \<le> v" "v < m * k" "0 < k" for v k m :: int
proof
  show "0 \<le> v div k" using that by (simp add: pos_imp_zdiv_nonneg_iff)
  have "v div k * k \<le> v" using that by (simp add: minus_mod_eq_div_mult [symmetric])
  then have "v div k * k < m * k" using that by linarith
  then show "v div k < m" using that by simp
qed

lemma mod_once: "p \<le> k \<Longrightarrow> k < 2 * p \<Longrightarrow> k mod p = k - p" for k p :: int
  using mod_pos_pos_trivial [of "k - p" p] mod_add_self2 [of "k - p" p] by simp

lemma mod_neg_once: "k < 0 \<Longrightarrow> - p \<le> k \<Longrightarrow> k mod p = k + p" for k p :: int
  using mod_pos_pos_trivial [of "k + p" p] mod_add_self2 [of k p] by simp

lemma sign_shift: "drop_bit 31 d = (if 2147483648 \<le> uint d then 1 else 0)" for d :: u32
proof -
  have "uint d div 2147483648 = (if 2147483648 \<le> uint d then 1 else 0)"
    using uint32_lt [of d] by (auto simp: div_pos_pos_trivial)
  then show ?thesis by (auto simp: word_uint_eq_iff uint_shr)
qed

lemma uint_and_low: "m = 2 ^ n - 1 \<Longrightarrow> uint (x AND m) = uint x mod 2 ^ n" for x m :: "'a::len word"
proof -
  assume "m = 2 ^ n - 1"
  then have "x AND m = take_bit n x" by (simp add: take_bit_eq_mask mask_eq_exp_minus_1)
  then show ?thesis by (simp only: unsigned_take_bit_eq) (simp add: take_bit_eq_mod)
qed

lemma or_shift: "uint a < 2 ^ n \<Longrightarrow> a OR push_bit n b = a + push_bit n b" for a b :: "'a::len word"
proof (rule disjunctive_add [symmetric])
  fix k
  assume a: "uint a < 2 ^ n"
  have "\<not> bit a k" if "n \<le> k"
  proof -
    have "uint a < 2 ^ k" by (rule order.strict_trans2 [OF a power_increasing [OF that]]) simp
    then have "\<not> bit (uint a) k" by (simp add: bit_iff_odd)
    then show ?thesis by (simp add: bit_unsigned_iff)
  qed
  then show "\<not> bit a k \<or> \<not> bit (push_bit n b) k" by (cases "n \<le> k") (simp_all add: bit_push_bit_iff)
qed

section \<open>Little-endian words\<close>

definition le_word64 :: "u8 list \<Rightarrow> u64" where
  "le_word64 bs = fold (\<lambda>i r. r OR push_bit (8 * i) (ucast (bs ! i))) [0..<8] 0"

definition le_bytes64 :: "u64 \<Rightarrow> u8 list" where
  "le_bytes64 w = map (\<lambda>i. ucast (drop_bit (8 * i) w)) [0..<8]"

lemma length_le_bytes64 [simp]: "length (le_bytes64 w) = 8"
  by (simp add: le_bytes64_def)

lemma bit_or_fold:
  "bit (fold (\<lambda>i r. r OR f i) xs r) n \<longleftrightarrow> bit r n \<or> (\<exists>i \<in> set xs. bit (f i) n)" for r :: "'a::len word"
  by (induction xs arbitrary: r) (auto simp: bit_or_iff)

lemma bit_le_word64:
  "bit (le_word64 bs) n \<longleftrightarrow> n < 64 \<and> bit (bs ! (n div 8)) (n mod 8)"
proof -
  have "bit (push_bit (8 * i) (ucast (bs ! i)) :: u64) n \<longleftrightarrow> n < 64 \<and> i = n div 8 \<and> bit (bs ! i) (n mod 8)"
    if "i < 8" for i
  proof -
    have "8 * i \<le> n \<and> n - 8 * i < 8 \<longleftrightarrow> i = n div 8" by (auto simp: div_nat_eqI)
    moreover have "i = n div 8 \<Longrightarrow> n - 8 * i = n mod 8" by (simp add: minus_mult_div_eq_mod)
    moreover have "bit (bs ! i) k \<Longrightarrow> k < 8" for k using bit_imp_le_length [of "bs ! i" k] by simp
    ultimately show ?thesis using that
      by (auto simp: bit_push_bit_iff bit_ucast_iff)
  qed
  then show ?thesis unfolding le_word64_def bit_or_fold by (auto simp del: upt.simps)
qed

lemma le_word64_bytes [simp]: "le_word64 (le_bytes64 w) = w"
proof (rule bit_word_eqI)
  fix n assume "n < LENGTH(64)"
  moreover from this have "n div 8 < 8" by simp
  ultimately show "bit (le_word64 (le_bytes64 w)) n \<longleftrightarrow> bit w n"
    by (simp add: bit_le_word64 le_bytes64_def bit_ucast_iff bit_drop_bit_eq del: upt.simps)
qed

lemma le_bytes64_word:
  assumes "length bs = 8"
  shows "le_bytes64 (le_word64 bs) = bs"
proof (rule nth_equalityI)
  fix i assume "i < length (le_bytes64 (le_word64 bs))"
  then have i: "i < 8" by simp
  show "le_bytes64 (le_word64 bs) ! i = bs ! i"
  proof (rule bit_word_eqI)
    fix k assume "k < LENGTH(8)"
    then show "bit (le_bytes64 (le_word64 bs) ! i) k \<longleftrightarrow> bit (bs ! i) k"
      using i by (simp add: bit_le_word64 le_bytes64_def bit_ucast_iff bit_drop_bit_eq del: upt.simps)
  qed
qed (use assms in simp)

section \<open>Array loops\<close>

text \<open>
  A counted loop \<^verbatim>\<open>for (u = 0; u < n; u ++) a[u] = \<dots>\<close> is a fold over the indices. The
  lemmas turn the loops that write each slot once into closed forms.
\<close>

lemma fold_update_const:
  "n \<le> length s \<Longrightarrow> fold (\<lambda>i s. s[i := g i]) [0..<n] s = map g [0..<n] @ drop n s"
proof (induction n)
  case (Suc n)
  then have "fold (\<lambda>i s. s[i := g i]) [0..<Suc n] s = (map g [0..<n] @ drop n s)[n := g n]"
    by simp
  also have "drop n s = s ! n # drop (Suc n) s" using Suc.prems by (simp add: Cons_nth_drop_Suc)
  finally show ?case by (simp add: list_update_append)
qed simp

lemma fold_update_self:
  "n \<le> length s \<Longrightarrow> fold (\<lambda>i s. s[i := g i (s ! i)]) [0..<n] s = map (\<lambda>i. g i (s ! i)) [0..<n] @ drop n s"
proof (induction n)
  case (Suc n)
  then have "fold (\<lambda>i s. s[i := g i (s ! i)]) [0..<Suc n] s
      = (let s' = map (\<lambda>i. g i (s ! i)) [0..<n] @ drop n s in s'[n := g n (s' ! n)])"
    by (simp add: Let_def)
  also have "drop n s = s ! n # drop (Suc n) s" using Suc.prems by (simp add: Cons_nth_drop_Suc)
  finally show ?case by (simp add: list_update_append nth_append)
qed simp

lemma fold_update_fixed:
  "i < length s \<Longrightarrow> fold (\<lambda>j s. s[i := h j (s ! i)]) js s = s[i := fold h js (s ! i)]"
  by (induction js arbitrary: s) simp_all

lemma fold_length_inv:
  "(\<And>x s. length (f x s) = length s) \<Longrightarrow> length (fold f xs s) = length s"
  by (induction xs arbitrary: s) simp_all

lemma map_nth_self: "length x = n \<Longrightarrow> map (\<lambda>u. f (x ! u)) [0..<n] = map f x"
  using map_nth [of x] by (metis map_map comp_def map_cong)

lemma list_ex_nth: "length x = n \<Longrightarrow> list_ex (\<lambda>u. P (x ! u)) [0..<n] \<longleftrightarrow> list_ex P x"
  unfolding list_ex_iff set_upt using in_set_conv_nth [of _ x] atLeastLessThan_iff [of _ 0 n] by (metis zero_le)

lemma take_drop_concat:
  "(\<And>x. x \<in> set xs \<Longrightarrow> length (f x) = k) \<Longrightarrow> i < length xs \<Longrightarrow> take k (drop (k * i) (concat (map f xs))) = f (xs ! i)"
proof (induction xs arbitrary: i)
  case (Cons x xs)
  show ?case
  proof (cases i)
    case (Suc j)
    then show ?thesis using Cons.IH [of j] Cons.prems by simp
  qed (use Cons.prems in simp)
qed simp

end
