(* ===== verification/Keccak.thy ===== *)
theory Keccak
  imports Prelude
begin

text \<open>
  The permutation Keccak-f[1600] of fips202.c: two unrolled rounds per iteration on 25 local
  variables. The rounds are shown to be the composition of the five step mappings of
  FIPS 202, with the rotation offsets and the round constants of the standard.
\<close>

section \<open>Model\<close>

definition ROL :: "u64 \<Rightarrow> nat \<Rightarrow> u64" where
  "ROL a offset = push_bit offset a XOR drop_bit (64 - offset) a"

definition KeccakF_RoundConstants :: "u64 list" where
  "KeccakF_RoundConstants =
     [0x0000000000000001, 0x0000000000008082,
      0x800000000000808a, 0x8000000080008000,
      0x000000000000808b, 0x0000000080000001,
      0x8000000080008081, 0x8000000000008009,
      0x000000000000008a, 0x0000000000000088,
      0x0000000080008009, 0x000000008000000a,
      0x000000008000808b, 0x800000000000008b,
      0x8000000000008089, 0x8000000000008003,
      0x8000000000008002, 0x8000000000000080,
      0x000000000000800a, 0x800000008000000a,
      0x8000000080008081, 0x8000000000008080,
      0x0000000080000001, 0x8000000080008008]"

definition keccak_round_even :: "nat \<Rightarrow> u64 list \<Rightarrow> u64 list" where
  "keccak_round_even round state =
     (let Aba = state ! 0;
          Abe = state ! 1;
          Abi = state ! 2;
          Abo = state ! 3;
          Abu = state ! 4;
          Aga = state ! 5;
          Age = state ! 6;
          Agi = state ! 7;
          Ago = state ! 8;
          Agu = state ! 9;
          Aka = state ! 10;
          Ake = state ! 11;
          Aki = state ! 12;
          Ako = state ! 13;
          Aku = state ! 14;
          Ama = state ! 15;
          Ame = state ! 16;
          Ami = state ! 17;
          Amo = state ! 18;
          Amu = state ! 19;
          Asa = state ! 20;
          Ase = state ! 21;
          Asi = state ! 22;
          Aso = state ! 23;
          Asu = state ! 24;
          BCa = Aba XOR Aga XOR Aka XOR Ama XOR Asa;
          BCe = Abe XOR Age XOR Ake XOR Ame XOR Ase;
          BCi = Abi XOR Agi XOR Aki XOR Ami XOR Asi;
          BCo = Abo XOR Ago XOR Ako XOR Amo XOR Aso;
          BCu = Abu XOR Agu XOR Aku XOR Amu XOR Asu;
          Da = BCu XOR (ROL BCe 1);
          De = BCa XOR (ROL BCi 1);
          Di = BCe XOR (ROL BCo 1);
          Do = BCi XOR (ROL BCu 1);
          Du = BCo XOR (ROL BCa 1);
          Aba = Aba XOR Da;
          BCa = Aba;
          Age = Age XOR De;
          BCe = ROL Age 44;
          Aki = Aki XOR Di;
          BCi = ROL Aki 43;
          Amo = Amo XOR Do;
          BCo = ROL Amo 21;
          Asu = Asu XOR Du;
          BCu = ROL Asu 14;
          Eba = BCa XOR ((NOT BCe) AND BCi);
          Eba = Eba XOR (KeccakF_RoundConstants ! round);
          Ebe = BCe XOR ((NOT BCi) AND BCo);
          Ebi = BCi XOR ((NOT BCo) AND BCu);
          Ebo = BCo XOR ((NOT BCu) AND BCa);
          Ebu = BCu XOR ((NOT BCa) AND BCe);
          Abo = Abo XOR Do;
          BCa = ROL Abo 28;
          Agu = Agu XOR Du;
          BCe = ROL Agu 20;
          Aka = Aka XOR Da;
          BCi = ROL Aka 3;
          Ame = Ame XOR De;
          BCo = ROL Ame 45;
          Asi = Asi XOR Di;
          BCu = ROL Asi 61;
          Ega = BCa XOR ((NOT BCe) AND BCi);
          Ege = BCe XOR ((NOT BCi) AND BCo);
          Egi = BCi XOR ((NOT BCo) AND BCu);
          Ego = BCo XOR ((NOT BCu) AND BCa);
          Egu = BCu XOR ((NOT BCa) AND BCe);
          Abe = Abe XOR De;
          BCa = ROL Abe 1;
          Agi = Agi XOR Di;
          BCe = ROL Agi 6;
          Ako = Ako XOR Do;
          BCi = ROL Ako 25;
          Amu = Amu XOR Du;
          BCo = ROL Amu 8;
          Asa = Asa XOR Da;
          BCu = ROL Asa 18;
          Eka = BCa XOR ((NOT BCe) AND BCi);
          Eke = BCe XOR ((NOT BCi) AND BCo);
          Eki = BCi XOR ((NOT BCo) AND BCu);
          Eko = BCo XOR ((NOT BCu) AND BCa);
          Eku = BCu XOR ((NOT BCa) AND BCe);
          Abu = Abu XOR Du;
          BCa = ROL Abu 27;
          Aga = Aga XOR Da;
          BCe = ROL Aga 36;
          Ake = Ake XOR De;
          BCi = ROL Ake 10;
          Ami = Ami XOR Di;
          BCo = ROL Ami 15;
          Aso = Aso XOR Do;
          BCu = ROL Aso 56;
          Ema = BCa XOR ((NOT BCe) AND BCi);
          Eme = BCe XOR ((NOT BCi) AND BCo);
          Emi = BCi XOR ((NOT BCo) AND BCu);
          Emo = BCo XOR ((NOT BCu) AND BCa);
          Emu = BCu XOR ((NOT BCa) AND BCe);
          Abi = Abi XOR Di;
          BCa = ROL Abi 62;
          Ago = Ago XOR Do;
          BCe = ROL Ago 55;
          Aku = Aku XOR Du;
          BCi = ROL Aku 39;
          Ama = Ama XOR Da;
          BCo = ROL Ama 41;
          Ase = Ase XOR De;
          BCu = ROL Ase 2;
          Esa = BCa XOR ((NOT BCe) AND BCi);
          Ese = BCe XOR ((NOT BCi) AND BCo);
          Esi = BCi XOR ((NOT BCo) AND BCu);
          Eso = BCo XOR ((NOT BCu) AND BCa);
          Esu = BCu XOR ((NOT BCa) AND BCe)
      in [Eba, Ebe, Ebi, Ebo, Ebu, Ega, Ege, Egi, Ego, Egu, Eka, Eke, Eki,
          Eko, Eku, Ema, Eme, Emi, Emo, Emu, Esa, Ese, Esi, Eso, Esu])"

definition keccak_round_odd :: "nat \<Rightarrow> u64 list \<Rightarrow> u64 list" where
  "keccak_round_odd round state =
     (let Eba = state ! 0;
          Ebe = state ! 1;
          Ebi = state ! 2;
          Ebo = state ! 3;
          Ebu = state ! 4;
          Ega = state ! 5;
          Ege = state ! 6;
          Egi = state ! 7;
          Ego = state ! 8;
          Egu = state ! 9;
          Eka = state ! 10;
          Eke = state ! 11;
          Eki = state ! 12;
          Eko = state ! 13;
          Eku = state ! 14;
          Ema = state ! 15;
          Eme = state ! 16;
          Emi = state ! 17;
          Emo = state ! 18;
          Emu = state ! 19;
          Esa = state ! 20;
          Ese = state ! 21;
          Esi = state ! 22;
          Eso = state ! 23;
          Esu = state ! 24;
          BCa = Eba XOR Ega XOR Eka XOR Ema XOR Esa;
          BCe = Ebe XOR Ege XOR Eke XOR Eme XOR Ese;
          BCi = Ebi XOR Egi XOR Eki XOR Emi XOR Esi;
          BCo = Ebo XOR Ego XOR Eko XOR Emo XOR Eso;
          BCu = Ebu XOR Egu XOR Eku XOR Emu XOR Esu;
          Da = BCu XOR (ROL BCe 1);
          De = BCa XOR (ROL BCi 1);
          Di = BCe XOR (ROL BCo 1);
          Do = BCi XOR (ROL BCu 1);
          Du = BCo XOR (ROL BCa 1);
          Eba = Eba XOR Da;
          BCa = Eba;
          Ege = Ege XOR De;
          BCe = ROL Ege 44;
          Eki = Eki XOR Di;
          BCi = ROL Eki 43;
          Emo = Emo XOR Do;
          BCo = ROL Emo 21;
          Esu = Esu XOR Du;
          BCu = ROL Esu 14;
          Aba = BCa XOR ((NOT BCe) AND BCi);
          Aba = Aba XOR (KeccakF_RoundConstants ! (round + 1));
          Abe = BCe XOR ((NOT BCi) AND BCo);
          Abi = BCi XOR ((NOT BCo) AND BCu);
          Abo = BCo XOR ((NOT BCu) AND BCa);
          Abu = BCu XOR ((NOT BCa) AND BCe);
          Ebo = Ebo XOR Do;
          BCa = ROL Ebo 28;
          Egu = Egu XOR Du;
          BCe = ROL Egu 20;
          Eka = Eka XOR Da;
          BCi = ROL Eka 3;
          Eme = Eme XOR De;
          BCo = ROL Eme 45;
          Esi = Esi XOR Di;
          BCu = ROL Esi 61;
          Aga = BCa XOR ((NOT BCe) AND BCi);
          Age = BCe XOR ((NOT BCi) AND BCo);
          Agi = BCi XOR ((NOT BCo) AND BCu);
          Ago = BCo XOR ((NOT BCu) AND BCa);
          Agu = BCu XOR ((NOT BCa) AND BCe);
          Ebe = Ebe XOR De;
          BCa = ROL Ebe 1;
          Egi = Egi XOR Di;
          BCe = ROL Egi 6;
          Eko = Eko XOR Do;
          BCi = ROL Eko 25;
          Emu = Emu XOR Du;
          BCo = ROL Emu 8;
          Esa = Esa XOR Da;
          BCu = ROL Esa 18;
          Aka = BCa XOR ((NOT BCe) AND BCi);
          Ake = BCe XOR ((NOT BCi) AND BCo);
          Aki = BCi XOR ((NOT BCo) AND BCu);
          Ako = BCo XOR ((NOT BCu) AND BCa);
          Aku = BCu XOR ((NOT BCa) AND BCe);
          Ebu = Ebu XOR Du;
          BCa = ROL Ebu 27;
          Ega = Ega XOR Da;
          BCe = ROL Ega 36;
          Eke = Eke XOR De;
          BCi = ROL Eke 10;
          Emi = Emi XOR Di;
          BCo = ROL Emi 15;
          Eso = Eso XOR Do;
          BCu = ROL Eso 56;
          Ama = BCa XOR ((NOT BCe) AND BCi);
          Ame = BCe XOR ((NOT BCi) AND BCo);
          Ami = BCi XOR ((NOT BCo) AND BCu);
          Amo = BCo XOR ((NOT BCu) AND BCa);
          Amu = BCu XOR ((NOT BCa) AND BCe);
          Ebi = Ebi XOR Di;
          BCa = ROL Ebi 62;
          Ego = Ego XOR Do;
          BCe = ROL Ego 55;
          Eku = Eku XOR Du;
          BCi = ROL Eku 39;
          Ema = Ema XOR Da;
          BCo = ROL Ema 41;
          Ese = Ese XOR De;
          BCu = ROL Ese 2;
          Asa = BCa XOR ((NOT BCe) AND BCi);
          Ase = BCe XOR ((NOT BCi) AND BCo);
          Asi = BCi XOR ((NOT BCo) AND BCu);
          Aso = BCo XOR ((NOT BCu) AND BCa);
          Asu = BCu XOR ((NOT BCa) AND BCe)
      in [Aba, Abe, Abi, Abo, Abu, Aga, Age, Agi, Ago, Agu, Aka, Ake, Aki,
          Ako, Aku, Ama, Ame, Ami, Amo, Amu, Asa, Ase, Asi, Aso, Asu])"

text \<open>The state has 25 lanes, possibly followed by the counter of the incremental API, which is kept.\<close>

definition KeccakF1600_StatePermute :: "u64 list \<Rightarrow> u64 list" where
  "KeccakF1600_StatePermute state =
     (let A = take 25 state;
          A = fold (\<lambda>k A. let round = 2 * k in keccak_round_odd round (keccak_round_even round A)) [0..<12] A
      in A @ drop 25 state)"

section \<open>The step mappings of the standard\<close>

definition parity :: "(nat \<Rightarrow> u64) \<Rightarrow> nat \<Rightarrow> u64" where
  "parity A x = A x XOR A (x + 5) XOR A (x + 10) XOR A (x + 15) XOR A (x + 20)"

definition theta :: "(nat \<Rightarrow> u64) \<Rightarrow> nat \<Rightarrow> u64" where
  "theta A p = A p XOR (parity A ((p + 4) mod 5) XOR word_rotl 1 (parity A ((p + 1) mod 5)))"

primrec rho_walk :: "nat \<Rightarrow> nat \<times> nat" where
  "rho_walk 0 = (1, 0)"
| "rho_walk (Suc t) = (case rho_walk t of (x, y) \<Rightarrow> (y, (2 * x + 3 * y) mod 5))"

definition rho_offset :: "nat \<Rightarrow> nat" where
  "rho_offset p = (case find (\<lambda>t. rho_walk t = (p mod 5, p div 5)) [0..<24] of
     None \<Rightarrow> 0 | Some t \<Rightarrow> ((t + 1) * (t + 2) div 2) mod 64)"

definition rho :: "(nat \<Rightarrow> u64) \<Rightarrow> nat \<Rightarrow> u64" where
  "rho A p = word_rotl (rho_offset p) (A p)"

definition pi_lanes :: "(nat \<Rightarrow> u64) \<Rightarrow> nat \<Rightarrow> u64" where
  "pi_lanes A p = A (5 * (p mod 5) + (p mod 5 + 3 * (p div 5)) mod 5)"

definition chi :: "(nat \<Rightarrow> u64) \<Rightarrow> nat \<Rightarrow> u64" where
  "chi A p = A p XOR ((NOT (A (5 * (p div 5) + (p + 1) mod 5))) AND A (5 * (p div 5) + (p + 2) mod 5))"

definition lfsr_step :: "bool list \<Rightarrow> bool list" where
  "lfsr_step R = (let R = False # R; r8 = R ! 8
     in take 8 (R[0 := R ! 0 \<noteq> r8, 4 := R ! 4 \<noteq> r8, 5 := R ! 5 \<noteq> r8, 6 := R ! 6 \<noteq> r8]))"

primrec lfsr_run :: "bool list \<Rightarrow> nat \<Rightarrow> bool list" where
  "lfsr_run R 0 = []"
| "lfsr_run R (Suc n) = hd R # lfsr_run (lfsr_step R) n"

definition RC_table :: "u64 list" where
  "RC_table = (let bits = lfsr_run [True, False, False, False, False, False, False, False] 168
     in map (\<lambda>r. fold (\<lambda>j w. if bits ! (j + 7 * r) then w OR push_bit (2 ^ j - 1) 1 else w) [0..<7] 0) [0..<24])"

definition iota :: "nat \<Rightarrow> (nat \<Rightarrow> u64) \<Rightarrow> nat \<Rightarrow> u64" where
  "iota r A p = (if p = 0 then A p XOR RC_table ! r else A p)"

definition keccak_ref :: "nat \<Rightarrow> u64 list \<Rightarrow> u64 list" where
  "keccak_ref r s = map (iota r (chi (pi_lanes (rho (theta (\<lambda>p. s ! p)))))) [0..<25]"

lemma ROL_rotl:
  assumes "0 < k" "k < 64"
  shows "ROL a k = word_rotl k a"
proof (rule bit_word_eqI)
  fix n assume n: "n < LENGTH(64)"
  show "bit (ROL a k) n \<longleftrightarrow> bit (word_rotl k a) n"
  proof (cases "k \<le> n")
    case True
    then have "(n + 64 - k) mod 64 = n - k" "\<not> bit a (64 - k + n)"
      using n assms bit_imp_le_length [of a "64 - k + n"] by (auto simp: le_mod_geq)
    then show ?thesis using True n assms(2) by (simp add: ROL_def bit_xor_iff bit_push_bit_iff bit_drop_bit_eq bit_word_rotl_iff)
  next
    case False
    then have "(n + 64 - k) mod 64 = 64 - k + n" using n assms by simp
    then show ?thesis using False n assms(2) by (simp add: ROL_def bit_xor_iff bit_push_bit_iff bit_drop_bit_eq bit_word_rotl_iff)
  qed
qed

lemma rotl_0: "word_rotl 0 a = a" for a :: u64
  by (rule bit_word_eqI) (simp add: bit_word_rotl_iff)

lemma RC_correct: "KeccakF_RoundConstants = RC_table"
  by code_simp

lemma rho_offsets: "map rho_offset [0..<25] = [0, 1, 62, 28, 27, 36, 44, 6, 55, 20, 3, 10, 43, 25, 39, 41, 45, 15, 21, 8, 18, 2, 61, 56, 14]"
  by code_simp

lemma upt25: "[0..<25] = [0, 1, 2, 3, 4, 5, 6, 7, 8, 9, 10, 11, 12, 13, 14, 15, 16, 17, 18, 19, 20, 21, 22, 23, 24]"
  by code_simp

lemma rho_offset_nums:
  "rho_offset 0 = 0" "rho_offset 1 = 1" "rho_offset 2 = 62" "rho_offset 3 = 28" "rho_offset 4 = 27"
  "rho_offset 5 = 36" "rho_offset 6 = 44" "rho_offset 7 = 6" "rho_offset 8 = 55" "rho_offset 9 = 20"
  "rho_offset 10 = 3" "rho_offset 11 = 10" "rho_offset 12 = 43" "rho_offset 13 = 25" "rho_offset 14 = 39"
  "rho_offset 15 = 41" "rho_offset 16 = 45" "rho_offset 17 = 15" "rho_offset 18 = 21" "rho_offset 19 = 8"
  "rho_offset 20 = 18" "rho_offset 21 = 2" "rho_offset 22 = 61" "rho_offset 23 = 56" "rho_offset 24 = 14"
  using rho_offsets unfolding upt25 by simp_all

lemma keccak_round_even_ref: "keccak_round_even r s = keccak_ref r s"
  unfolding keccak_round_even_def keccak_ref_def upt25 Let_def
  by (simp add: iota_def chi_def pi_lanes_def rho_def theta_def parity_def rho_offset_nums rotl_0 ROL_rotl RC_correct One_nat_def [symmetric] del: One_nat_def)

lemma keccak_round_odd_ref: "keccak_round_odd r s = keccak_ref (r + 1) s"
  unfolding keccak_round_odd_def keccak_ref_def upt25 Let_def
  by (simp add: iota_def chi_def pi_lanes_def rho_def theta_def parity_def rho_offset_nums rotl_0 ROL_rotl RC_correct One_nat_def [symmetric] del: One_nat_def)

lemma length_keccak_ref [simp]: "length (keccak_ref r s) = 25"
  by (simp add: keccak_ref_def)

lemma rounds_ref:
  "fold (\<lambda>k A. let round = 2 * k in keccak_round_odd round (keccak_round_even round A)) [0..<n] A = fold keccak_ref [0..<2 * n] A"
  by (induction n) (simp_all add: keccak_round_even_ref keccak_round_odd_ref Let_def)

lemma StatePermute_ref:
  "KeccakF1600_StatePermute s = fold keccak_ref [0..<24] (take 25 s) @ drop 25 s"
  unfolding KeccakF1600_StatePermute_def Let_def [of "take 25 s"] rounds_ref by simp

lemma length_StatePermute [simp]: "25 \<le> length s \<Longrightarrow> length (KeccakF1600_StatePermute s) = length s"
proof -
  assume s: "25 \<le> length s"
  have "length (fold keccak_ref rs A) = 25" if "length A = 25" for rs A
    using that by (induction rs arbitrary: A) simp_all
  then show ?thesis using s by (simp add: StatePermute_ref)
qed

lemma StatePermute_counter: "length s = 26 \<Longrightarrow> KeccakF1600_StatePermute s ! 25 = s ! 25"
proof -
  assume s: "length s = 26"
  have "length (fold keccak_ref rs A) = 25" if "length A = 25" for rs A
    using that by (induction rs arbitrary: A) simp_all
  then show ?thesis using s by (simp add: StatePermute_ref nth_append)
qed

section \<open>Properties\<close>

text \<open>
  (C39) The unrolled permutation is Keccak-f[1600] of FIPS 202: 24 rounds of theta, rho, pi, chi and iota
  with the rotation offsets and the LFSR round constants of the standard.
\<close>

theorem StatePermute_is_keccak_f:
  assumes "length s = 25"
  shows "KeccakF1600_StatePermute s =
    fold (\<lambda>r s. map (iota r (chi (pi_lanes (rho (theta (\<lambda>p. s ! p)))))) [0..<25]) [0..<24] s"
  using assms StatePermute_ref [of s] by (simp add: keccak_ref_def [abs_def])

theorem StatePermute_is_keccak_f_witness:
  "KeccakF1600_StatePermute (replicate 25 0) =
    fold (\<lambda>r s. map (iota r (chi (pi_lanes (rho (theta (\<lambda>p. s ! p)))))) [0..<25]) [0..<24] (replicate 25 0)"
  by (rule StatePermute_is_keccak_f) simp

end
