(* ===== verification/Xof.thy ===== *)
theory Xof
  imports Prelude
begin

text \<open>
  The contract of an extendable-output hash object: bytes are absorbed in any number of
  calls, the object is finalized, and output bytes are squeezed in any number of calls.
  The code has two such objects, the RPO sponge of rpo.c and the incremental SHAKE256 of
  fips202.c, and its hash-to-point routines and random generators are clients of them.
\<close>

locale xof =
  fixes absorb :: "'c \<Rightarrow> u8 list \<Rightarrow> 'c"
    and finalize :: "'c \<Rightarrow> 'c"
    and squeeze :: "'c \<Rightarrow> nat \<Rightarrow> 'c \<times> u8 list"
    and absorbing :: "'c \<Rightarrow> bool"
    and squeezing :: "'c \<Rightarrow> bool"
  assumes absorb_absorbing: "absorbing c \<Longrightarrow> absorbing (absorb c xs)"
    and absorb_nil: "absorbing c \<Longrightarrow> absorb c [] = c"
    and absorb_append: "absorbing c \<Longrightarrow> absorb (absorb c xs) ys = absorb c (xs @ ys)"
    and finalize_squeezing: "absorbing c \<Longrightarrow> squeezing (finalize c)"
    and squeeze_squeezing: "squeezing c \<Longrightarrow> squeezing (fst (squeeze c n))"
    and squeeze_zero: "squeezing c \<Longrightarrow> squeeze c 0 = (c, [])"
    and squeeze_length: "squeezing c \<Longrightarrow> length (snd (squeeze c n)) = n"
    and squeeze_add: "squeezing c \<Longrightarrow>
      squeeze c (m + n) = (let (c1, xs) = squeeze c m; (c2, ys) = squeeze c1 n in (c2, xs @ ys))"
begin

lemma absorb_chunks: "absorbing c \<Longrightarrow> foldl absorb c xss = absorb c (concat xss)"
  by (induction xss arbitrary: c) (simp_all add: absorb_nil absorb_absorbing absorb_append)

lemma squeeze_prefix:
  assumes "squeezing c" "m \<le> n"
  shows "snd (squeeze c m) = take m (snd (squeeze c n))"
proof -
  obtain k where n: "n = m + k" using assms(2) le_Suc_ex by blast
  show ?thesis using squeeze_add [OF assms(1), of m k] squeeze_length [OF assms(1), of m]
    by (auto simp: n split_beta Let_def)
qed

lemma squeeze_after:
  assumes "squeezing c"
  shows "snd (squeeze (fst (squeeze c m)) n) = drop m (snd (squeeze c (m + n)))"
  using squeeze_add [OF assms, of m n] squeeze_length [OF assms, of m]
  by (auto simp: split_beta Let_def)

primrec squeeze_blocks :: "'c \<Rightarrow> nat \<Rightarrow> nat \<Rightarrow> 'c \<times> u8 list list" where
  "squeeze_blocks c b 0 = (c, [])"
| "squeeze_blocks c b (Suc k) =
     (let (c1, xs) = squeeze c b; (c2, xss) = squeeze_blocks c1 b k in (c2, xs # xss))"

lemma squeeze_blocks_concat:
  "squeezing c \<Longrightarrow> squeeze c (k * b) = (fst (squeeze_blocks c b k), concat (snd (squeeze_blocks c b k)))"
proof (induction k arbitrary: c)
  case (Suc k)
  have "squeezing (fst (squeeze c b))" using Suc.prems by (rule squeeze_squeezing)
  then show ?case using Suc.IH squeeze_add [OF Suc.prems, of b "k * b"]
    by (simp add: split_beta Let_def)
qed (simp add: squeeze_zero)

lemma length_squeeze_blocks [simp]: "length (snd (squeeze_blocks c b k)) = k"
  by (induction k arbitrary: c) (simp_all add: split_beta Let_def)

lemma squeeze_blocks_length: "squeezing c \<Longrightarrow> x \<in> set (snd (squeeze_blocks c b k)) \<Longrightarrow> length x = b"
proof (induction k arbitrary: c)
  case (Suc k)
  from Suc.prems(1) have "squeezing (fst (squeeze c b))" by (rule squeeze_squeezing)
  with Suc show ?case by (auto simp: split_beta Let_def squeeze_length)
qed simp

lemma squeeze_blocks_nth:
  assumes "squeezing c" "i < k"
  shows "snd (squeeze_blocks c b k) ! i = take b (drop (b * i) (snd (squeeze c (k * b))))"
  using take_drop_concat [of "snd (squeeze_blocks c b k)" "\<lambda>x. x" b i] squeeze_blocks_length [OF assms(1)]
    squeeze_blocks_concat [OF assms(1), of k b] assms(2) by simp

end

end
