(* ===== verification/Fips202.thy ===== *)
theory Fips202
  imports Keccak Xof
begin

text \<open>
  The sponge of fips202.c over Keccak-f[1600]: the one-shot and the incremental interface, and
  the SHAKE and SHA-3 functions built on them. The incremental state is the flat array of the
  source: 25 lanes and a counter, which holds the bytes absorbed into the current block or,
  after finalization, the bytes of the block not squeezed yet.

  A context is allocated by \<^verbatim>\<open>malloc\<close>; the argument \<open>alloc\<close> of the model says whether the
  allocation succeeds, and \<open>None\<close> stands for the \<^verbatim>\<open>exit(111)\<close> of the source when it does not.
\<close>

section \<open>Model\<close>

definition SHAKE128_RATE :: nat where "SHAKE128_RATE = 168"
definition SHAKE256_RATE :: nat where "SHAKE256_RATE = 136"
definition SHA3_256_RATE :: nat where "SHA3_256_RATE = 136"
definition SHA3_384_RATE :: nat where "SHA3_384_RATE = 104"
definition SHA3_512_RATE :: nat where "SHA3_512_RATE = 72"

definition load64 :: "u8 list \<Rightarrow> u64" where
  "load64 x = fold (\<lambda>i r. r OR push_bit (8 * i) (ucast (x ! i))) [0..<8] 0"

definition store64 :: "u64 \<Rightarrow> u8 list" where
  "store64 u = map (\<lambda>i. ucast (drop_bit (8 * i) u)) [0..<8]"

function keccak_absorb_loop :: "u64 list \<Rightarrow> nat \<Rightarrow> u8 list \<Rightarrow> u64 list \<times> u8 list" where
  "keccak_absorb_loop s r m =
     (if length m < r \<or> r = 0 then (s, m)
      else
        let s = fold (\<lambda>i s. s[i := s ! i XOR load64 (drop (8 * i) m)]) [0..<r div 8] s;
            s = KeccakF1600_StatePermute s
        in keccak_absorb_loop s r (drop r m))"
  by pat_completeness auto
termination
  by (relation "measure (\<lambda>(s, r, m). length m)") auto

definition keccak_absorb :: "nat \<Rightarrow> u8 list \<Rightarrow> u8 \<Rightarrow> u64 list" where
  "keccak_absorb r m p =
     (let s = replicate 25 0;
          (s, m) = keccak_absorb_loop s r m;
          t = replicate r 0;
          t = fold (\<lambda>i t. t[i := m ! i]) [0..<length m] t;
          t = t[length m := p];
          t = t[r - 1 := t ! (r - 1) OR 128]
      in fold (\<lambda>i s. s[i := s ! i XOR load64 (drop (8 * i) t)]) [0..<r div 8] s)"

fun keccak_squeezeblocks :: "nat \<Rightarrow> u64 list \<Rightarrow> nat \<Rightarrow> u64 list \<times> u8 list" where
  "keccak_squeezeblocks 0 s r = (s, [])"
| "keccak_squeezeblocks (Suc nblocks) s r =
     (let s = KeccakF1600_StatePermute s;
          h = concat (map (\<lambda>i. store64 (s ! i)) [0..<r div 8]);
          (s, hs) = keccak_squeezeblocks nblocks s r
      in (s, h @ hs))"

definition keccak_inc_init :: "u64 list" where
  "keccak_inc_init = replicate 25 0 @ [0]"

definition xor_byte :: "nat \<Rightarrow> u8 \<Rightarrow> u64 list \<Rightarrow> u64 list" where
  "xor_byte q b s = s[q div 8 := s ! (q div 8) XOR push_bit (8 * (q mod 8)) (ucast b)]"

lemma length_xor_byte [simp]: "length (xor_byte q b s) = length s"
  by (simp add: xor_byte_def)

lemma length_xor_bytes [simp]: "length (fold (\<lambda>i s. xor_byte (c + i) (m ! i) s) is s) = length s"
  by (rule fold_length_inv) simp

lemma length_xor_bytes0 [simp]: "length (fold (\<lambda>i. xor_byte i (m ! i)) is s) = length s"
  using length_xor_bytes [of 0] by simp

lemma StatePermute_above: "25 < length s \<Longrightarrow> KeccakF1600_StatePermute s ! 25 = s ! 25"
proof -
  assume s: "25 < length s"
  have "length (fold keccak_ref rs A) = 25" if "length A = 25" for rs A
    using that by (induction rs arbitrary: A) simp_all
  then show ?thesis using s by (simp add: StatePermute_ref nth_append)
qed

function keccak_inc_absorb_loop :: "u64 list \<Rightarrow> nat \<Rightarrow> u8 list \<Rightarrow> u64 list \<times> u8 list" where
  "keccak_inc_absorb_loop s_inc r m =
     (let c = unat (s_inc ! 25)
      in if length m + c < r \<or> r = 0 \<or> length s_inc \<le> 25 then (s_inc, m)
         else
           let s_inc = fold (\<lambda>i s. xor_byte (c + i) (m ! i) s) [0..<r - c] s_inc;
               m = drop (r - c) m;
               s_inc = s_inc[25 := 0];
               s_inc = KeccakF1600_StatePermute s_inc
           in keccak_inc_absorb_loop s_inc r m)"
  by pat_completeness auto

termination
proof (relation "measure (\<lambda>(s, r, m). length m + unat (s ! 25))", goal_cases)
  case (2 s r m c s1 m1 s2 s3)
  have l: "25 < length s" using 2 by simp
  have "s3 ! 25 = 0" using 2 l by (simp add: StatePermute_above)
  then show ?case using 2 by auto
qed simp

definition keccak_inc_absorb :: "u64 list \<Rightarrow> nat \<Rightarrow> u8 list \<Rightarrow> u64 list" where
  "keccak_inc_absorb s_inc r m =
     (let (s_inc, m) = keccak_inc_absorb_loop s_inc r m;
          c = unat (s_inc ! 25);
          s_inc = fold (\<lambda>i s. xor_byte (c + i) (m ! i) s) [0..<length m] s_inc
      in s_inc[25 := s_inc ! 25 + of_nat (length m)])"

definition keccak_inc_finalize :: "u64 list \<Rightarrow> nat \<Rightarrow> u8 \<Rightarrow> u64 list" where
  "keccak_inc_finalize s_inc r p =
     (let s_inc = xor_byte (unat (s_inc ! 25)) p s_inc;
          s_inc = xor_byte (r - 1) 128 s_inc
      in s_inc[25 := 0])"

definition state_byte :: "u64 list \<Rightarrow> nat \<Rightarrow> u8" where
  "state_byte s q = ucast (drop_bit (8 * (q mod 8)) (s ! (q div 8)))"

function keccak_inc_squeeze_loop :: "nat \<Rightarrow> u64 list \<Rightarrow> nat \<Rightarrow> u8 list \<Rightarrow> u64 list \<times> u8 list" where
  "keccak_inc_squeeze_loop outlen s_inc r h =
     (if outlen = 0 \<or> r = 0 then (s_inc, h)
      else
        let s_inc = KeccakF1600_StatePermute s_inc;
            i = min outlen r;
            h = h @ map (\<lambda>i. state_byte s_inc i) [0..<i];
            s_inc = s_inc[25 := of_nat (r - i)]
        in keccak_inc_squeeze_loop (outlen - i) s_inc r h)"
  by pat_completeness auto
termination
  by (relation "measure (\<lambda>(outlen, s, r, h). outlen)") auto

definition keccak_inc_squeeze :: "nat \<Rightarrow> u64 list \<Rightarrow> nat \<Rightarrow> u64 list \<times> u8 list" where
  "keccak_inc_squeeze outlen s_inc r =
     (let c = unat (s_inc ! 25);
          i = min outlen c;
          h = map (\<lambda>i. state_byte s_inc (r - c + i)) [0..<i];
          s_inc = s_inc[25 := s_inc ! 25 - of_nat i]
      in keccak_inc_squeeze_loop (outlen - i) s_inc r h)"

definition shake128_inc_init :: "bool \<Rightarrow> u64 list option" where
  "shake128_inc_init alloc = (if alloc then Some keccak_inc_init else None)"

definition shake128_inc_absorb :: "u64 list \<Rightarrow> u8 list \<Rightarrow> u64 list" where
  "shake128_inc_absorb state input = keccak_inc_absorb state SHAKE128_RATE input"

definition shake128_inc_finalize :: "u64 list \<Rightarrow> u64 list" where
  "shake128_inc_finalize state = keccak_inc_finalize state SHAKE128_RATE 0x1F"

definition shake128_inc_squeeze :: "u64 list \<Rightarrow> nat \<Rightarrow> u64 list \<times> u8 list" where
  "shake128_inc_squeeze state outlen = keccak_inc_squeeze outlen state SHAKE128_RATE"

definition shake128_inc_ctx_clone :: "bool \<Rightarrow> u64 list \<Rightarrow> u64 list option" where
  "shake128_inc_ctx_clone alloc src = (if alloc then Some (take 26 src) else None)"

definition shake128_absorb :: "bool \<Rightarrow> u8 list \<Rightarrow> u64 list option" where
  "shake128_absorb alloc input = (if alloc then Some (keccak_absorb SHAKE128_RATE input 0x1F) else None)"

definition shake128_squeezeblocks :: "nat \<Rightarrow> u64 list \<Rightarrow> u64 list \<times> u8 list" where
  "shake128_squeezeblocks nblocks state = keccak_squeezeblocks nblocks state SHAKE128_RATE"

definition shake128_ctx_clone :: "bool \<Rightarrow> u64 list \<Rightarrow> u64 list option" where
  "shake128_ctx_clone alloc src = (if alloc then Some (take 25 src) else None)"

definition shake128 :: "bool \<Rightarrow> nat \<Rightarrow> u8 list \<Rightarrow> u8 list option" where
  "shake128 alloc outlen input =
     (let nblocks = outlen div SHAKE128_RATE
      in case shake128_absorb alloc input of
           None \<Rightarrow> None
         | Some s \<Rightarrow>
             let (s, output) = shake128_squeezeblocks nblocks s;
                 outlen = outlen - nblocks * SHAKE128_RATE
             in if outlen \<noteq> 0
                then
                  let (s, t) = shake128_squeezeblocks 1 s
                  in Some (output @ take outlen t)
                else Some output)"

definition shake256_inc_init :: "bool \<Rightarrow> u64 list option" where
  "shake256_inc_init alloc = (if alloc then Some keccak_inc_init else None)"

definition shake256_inc_absorb :: "u64 list \<Rightarrow> u8 list \<Rightarrow> u64 list" where
  "shake256_inc_absorb state input = keccak_inc_absorb state SHAKE256_RATE input"

definition shake256_inc_finalize :: "u64 list \<Rightarrow> u64 list" where
  "shake256_inc_finalize state = keccak_inc_finalize state SHAKE256_RATE 0x1F"

definition shake256_inc_squeeze :: "u64 list \<Rightarrow> nat \<Rightarrow> u64 list \<times> u8 list" where
  "shake256_inc_squeeze state outlen = keccak_inc_squeeze outlen state SHAKE256_RATE"

definition shake256_inc_ctx_clone :: "bool \<Rightarrow> u64 list \<Rightarrow> u64 list option" where
  "shake256_inc_ctx_clone alloc src = (if alloc then Some (take 26 src) else None)"

definition shake256_absorb :: "bool \<Rightarrow> u8 list \<Rightarrow> u64 list option" where
  "shake256_absorb alloc input = (if alloc then Some (keccak_absorb SHAKE256_RATE input 0x1F) else None)"

definition shake256_squeezeblocks :: "nat \<Rightarrow> u64 list \<Rightarrow> u64 list \<times> u8 list" where
  "shake256_squeezeblocks nblocks state = keccak_squeezeblocks nblocks state SHAKE256_RATE"

definition shake256_ctx_clone :: "bool \<Rightarrow> u64 list \<Rightarrow> u64 list option" where
  "shake256_ctx_clone alloc src = (if alloc then Some (take 25 src) else None)"

definition shake256 :: "bool \<Rightarrow> nat \<Rightarrow> u8 list \<Rightarrow> u8 list option" where
  "shake256 alloc outlen input =
     (let nblocks = outlen div SHAKE256_RATE
      in case shake256_absorb alloc input of
           None \<Rightarrow> None
         | Some s \<Rightarrow>
             let (s, output) = shake256_squeezeblocks nblocks s;
                 outlen = outlen - nblocks * SHAKE256_RATE
             in if outlen \<noteq> 0
                then
                  let (s, t) = shake256_squeezeblocks 1 s
                  in Some (output @ take outlen t)
                else Some output)"

definition sha3_256_inc_init :: "bool \<Rightarrow> u64 list option" where
  "sha3_256_inc_init alloc = (if alloc then Some keccak_inc_init else None)"

definition sha3_256_inc_ctx_clone :: "bool \<Rightarrow> u64 list \<Rightarrow> u64 list option" where
  "sha3_256_inc_ctx_clone alloc src = (if alloc then Some (take 26 src) else None)"

definition sha3_256_inc_absorb :: "u64 list \<Rightarrow> u8 list \<Rightarrow> u64 list" where
  "sha3_256_inc_absorb state input = keccak_inc_absorb state SHA3_256_RATE input"

definition sha3_256_inc_finalize :: "u64 list \<Rightarrow> u8 list" where
  "sha3_256_inc_finalize state =
     (let state = keccak_inc_finalize state SHA3_256_RATE 0x06;
          (state, t) = keccak_squeezeblocks 1 state SHA3_256_RATE
      in take 32 t)"

definition sha3_256 :: "u8 list \<Rightarrow> u8 list" where
  "sha3_256 input =
     (let s = keccak_absorb SHA3_256_RATE input 0x06;
          (s, t) = keccak_squeezeblocks 1 s SHA3_256_RATE
      in take 32 t)"

definition sha3_384_inc_init :: "bool \<Rightarrow> u64 list option" where
  "sha3_384_inc_init alloc = (if alloc then Some keccak_inc_init else None)"

definition sha3_384_inc_ctx_clone :: "bool \<Rightarrow> u64 list \<Rightarrow> u64 list option" where
  "sha3_384_inc_ctx_clone alloc src = (if alloc then Some (take 26 src) else None)"

definition sha3_384_inc_absorb :: "u64 list \<Rightarrow> u8 list \<Rightarrow> u64 list" where
  "sha3_384_inc_absorb state input = keccak_inc_absorb state SHA3_384_RATE input"

definition sha3_384_inc_finalize :: "u64 list \<Rightarrow> u8 list" where
  "sha3_384_inc_finalize state =
     (let state = keccak_inc_finalize state SHA3_384_RATE 0x06;
          (state, t) = keccak_squeezeblocks 1 state SHA3_384_RATE
      in take 48 t)"

definition sha3_384 :: "u8 list \<Rightarrow> u8 list" where
  "sha3_384 input =
     (let s = keccak_absorb SHA3_384_RATE input 0x06;
          (s, t) = keccak_squeezeblocks 1 s SHA3_384_RATE
      in take 48 t)"

definition sha3_512_inc_init :: "bool \<Rightarrow> u64 list option" where
  "sha3_512_inc_init alloc = (if alloc then Some keccak_inc_init else None)"

definition sha3_512_inc_ctx_clone :: "bool \<Rightarrow> u64 list \<Rightarrow> u64 list option" where
  "sha3_512_inc_ctx_clone alloc src = (if alloc then Some (take 26 src) else None)"

definition sha3_512_inc_absorb :: "u64 list \<Rightarrow> u8 list \<Rightarrow> u64 list" where
  "sha3_512_inc_absorb state input = keccak_inc_absorb state SHA3_512_RATE input"

definition sha3_512_inc_finalize :: "u64 list \<Rightarrow> u8 list" where
  "sha3_512_inc_finalize state =
     (let state = keccak_inc_finalize state SHA3_512_RATE 0x06;
          (state, t) = keccak_squeezeblocks 1 state SHA3_512_RATE
      in take 64 t)"

definition sha3_512 :: "u8 list \<Rightarrow> u8 list" where
  "sha3_512 input =
     (let s = keccak_absorb SHA3_512_RATE input 0x06;
          (s, t) = keccak_squeezeblocks 1 s SHA3_512_RATE
      in take 64 t)"

declare keccak_absorb_loop.simps [simp del] keccak_inc_absorb_loop.simps [simp del]
  keccak_inc_squeeze_loop.simps [simp del]

section \<open>The incremental interface, one byte at a time\<close>

definition inc_state :: "u64 list \<Rightarrow> bool" where
  "inc_state s \<longleftrightarrow> length s = 26"

definition kabsorb_byte :: "nat \<Rightarrow> u8 \<Rightarrow> u64 list \<Rightarrow> u64 list" where
  "kabsorb_byte r b s =
     (let c = unat (s ! 25); s = xor_byte c b s
      in if c + 1 = r then KeccakF1600_StatePermute (s[25 := 0]) else s[25 := of_nat (c + 1)])"

lemma xor_byte_counter:
  "q < 200 \<Longrightarrow> xor_byte q b (s[25 := v]) = (xor_byte q b s)[25 := v]"
  "q < 200 \<Longrightarrow> xor_byte q b s ! 25 = s ! 25"
  by (auto simp: xor_byte_def list_update_swap nth_list_update)

lemma xor_bytes_counter:
  "c + n \<le> 200 \<Longrightarrow> fold (\<lambda>i s. xor_byte (c + i) (m ! i) s) [0..<n] s ! 25 = s ! 25"
  by (induction n) (simp_all add: xor_byte_counter)

lemma unat_counter: "c \<le> 200 \<Longrightarrow> unat (of_nat c :: u64) = c"
  by (simp add: unat_of_nat)

lemma kabsorb_chunk:
  assumes "length s = 26" "unat (s ! 25) = c" "c < r" "r \<le> 200"
  shows "n \<le> r - c \<Longrightarrow> n \<le> length m \<Longrightarrow> fold (kabsorb_byte r) (take n m) s =
    (let s = fold (\<lambda>i s. xor_byte (c + i) (m ! i) s) [0..<n] s
     in if n = r - c then KeccakF1600_StatePermute (s[25 := 0]) else s[25 := of_nat (c + n)])"
proof (induction n)
  case 0
  have "s[25 := of_nat c] = s" using assms(2) by (metis list_update_id of_nat_unat ucast_id)
  then show ?case using assms(3) by simp
next
  case (Suc n)
  let ?s = "fold (\<lambda>i s. xor_byte (c + i) (m ! i) s) [0..<n] s"
  have IH: "fold (kabsorb_byte r) (take n m) s = ?s[25 := of_nat (c + n)]" using Suc by (simp add: Let_def)
  have "length ?s = 26" using assms(1) by simp
  then have cnt: "unat (?s[25 := of_nat (c + n)] ! 25) = c + n"
    using unat_counter [of "c + n"] Suc.prems assms by (simp del: of_nat_add)
  have "take (Suc n) m = take n m @ [m ! n]" using Suc.prems by (simp add: take_Suc_conv_app_nth)
  then have "fold (kabsorb_byte r) (take (Suc n) m) s = kabsorb_byte r (m ! n) (?s[25 := of_nat (c + n)])" by (simp add: IH)
  also have "\<dots> = (let s = fold (\<lambda>i s. xor_byte (c + i) (m ! i) s) [0..<Suc n] s
     in if Suc n = r - c then KeccakF1600_StatePermute (s[25 := 0]) else s[25 := of_nat (c + Suc n)])"
  proof -
    have x: "xor_byte (c + n) (m ! n) (?s[25 := of_nat (c + n)]) = (xor_byte (c + n) (m ! n) ?s)[25 := of_nat (c + n)]"
      using Suc.prems assms by (intro xor_byte_counter) simp
    have f: "(c + n + 1 = r) = (Suc n = r - c)" using assms(3) by arith
    have l: "fold (\<lambda>i s. xor_byte (c + i) (m ! i) s) [0..<Suc n] s = xor_byte (c + n) (m ! n) ?s" by simp
    show ?thesis unfolding kabsorb_byte_def Let_def cnt x f l by simp
  qed
  finally show ?case .
qed

lemma inc_absorb_loop:
  "length s = 26 \<Longrightarrow> unat (s ! 25) < r \<Longrightarrow> r \<le> 200 \<Longrightarrow> keccak_inc_absorb_loop s r m = (s', m') \<Longrightarrow>
   length s' = 26 \<and> unat (s' ! 25) + length m' < r \<and> fold (kabsorb_byte r) m' s' = fold (kabsorb_byte r) m s"
proof (induction s r m rule: keccak_inc_absorb_loop.induct)
  case (1 s r m)
  let ?c = "unat (s ! 25)"
  show ?case
  proof (cases "length m + ?c < r")
    case True
    then show ?thesis using 1(2-5) by (subst (asm) keccak_inc_absorb_loop.simps) (auto simp: Let_def)
  next
    case False
    let ?s1 = "KeccakF1600_StatePermute ((fold (\<lambda>i s. xor_byte (?c + i) (m ! i) s) [0..<r - ?c] s)[25 := 0])"
    have ng: "\<not> (length m + ?c < r \<or> r = 0 \<or> length s \<le> 25)" using False 1(2,3) by simp
    have len: "length ?s1 = 26" using 1(2) by simp
    have c1: "unat (?s1 ! 25) < r" using 1(2,3) by (simp add: StatePermute_above)
    have eq: "keccak_inc_absorb_loop ?s1 r (drop (r - ?c) m) = (s', m')"
      using 1(5) ng by (subst (asm) keccak_inc_absorb_loop.simps) (simp only: Let_def if_False)
    have "fold (kabsorb_byte r) m s = fold (kabsorb_byte r) (drop (r - ?c) m) (fold (kabsorb_byte r) (take (r - ?c) m) s)"
      by (metis append_take_drop_id fold_append o_apply)
    also have "fold (kabsorb_byte r) (take (r - ?c) m) s = ?s1"
      using kabsorb_chunk [OF 1(2) refl 1(3,4), of "r - ?c" m] False by (simp add: Let_def)
    finally show ?thesis using 1(1) [OF refl ng refl refl refl refl len c1 1(4) eq] by simp
  qed
qed

lemma inc_absorb_bytes:
  assumes "length s = 26" "unat (s ! 25) < r" "r \<le> 200"
  shows "keccak_inc_absorb s r m = fold (kabsorb_byte r) m s"
proof -
  obtain s' m' where l: "keccak_inc_absorb_loop s r m = (s', m')" by fastforce
  note i = inc_absorb_loop [OF assms l]
  let ?s = "fold (\<lambda>i s. xor_byte (unat (s' ! 25) + i) (m' ! i) s) [0..<length m'] s'"
  have "fold (kabsorb_byte r) m' s' = ?s[25 := of_nat (unat (s' ! 25) + length m')]"
  proof -
    have "length m' \<le> r - unat (s' ! 25)" "length m' \<noteq> r - unat (s' ! 25)" using i by arith+
    then show ?thesis
      using kabsorb_chunk [of s' "unat (s' ! 25)" r "length m'" m'] i assms(3) by (simp add: Let_def)
  qed
  moreover have "?s ! 25 = s' ! 25" using i assms(3) by (intro xor_bytes_counter) simp
  ultimately show ?thesis using i by (simp add: keccak_inc_absorb_def l Let_def)
qed

definition ksqueeze_byte :: "nat \<Rightarrow> u64 list \<Rightarrow> u8 \<times> u64 list" where
  "ksqueeze_byte r s =
     (if s ! 25 = 0 then (let s = KeccakF1600_StatePermute s in (state_byte s 0, s[25 := of_nat (r - 1)]))
      else (state_byte s (r - unat (s ! 25)), s[25 := s ! 25 - 1]))"

fun ksqueeze_bytes :: "nat \<Rightarrow> nat \<Rightarrow> u64 list \<Rightarrow> u8 list \<times> u64 list" where
  "ksqueeze_bytes r 0 s = ([], s)"
| "ksqueeze_bytes r (Suc n) s = (let (b, s) = ksqueeze_byte r s; (bs, s) = ksqueeze_bytes r n s in (b # bs, s))"

lemma ksqueeze_bytes_add:
  "ksqueeze_bytes r (m + n) s = (let (xs, s) = ksqueeze_bytes r m s; (ys, s) = ksqueeze_bytes r n s in (xs @ ys, s))"
  by (induction m arbitrary: s) (simp_all add: split_beta Let_def)

lemma state_byte_counter: "q < 200 \<Longrightarrow> state_byte (s[25 := v]) q = state_byte s q"
  by (simp add: state_byte_def nth_list_update)

lemma ksqueeze_chunk:
  "length s = 26 \<Longrightarrow> unat (s ! 25) = c \<Longrightarrow> c \<le> r \<Longrightarrow> r \<le> 200 \<Longrightarrow> n \<le> c \<Longrightarrow>
   ksqueeze_bytes r n s = (map (\<lambda>i. state_byte s (r - c + i)) [0..<n], s[25 := of_nat (c - n)])"
proof (induction n arbitrary: s c)
  case 0
  then have "s[25 := of_nat c] = s" by (metis list_update_id of_nat_unat ucast_id)
  then show ?case by simp
next
  case (Suc n)
  let ?s = "s[25 := s ! 25 - 1]"
  have c: "s ! 25 \<noteq> 0" using Suc.prems by auto
  then have d: "unat (s ! 25 - 1) = c - 1" using Suc.prems(2) by (simp add: unat_minus_one)
  have "ksqueeze_bytes r n ?s = (map (\<lambda>i. state_byte ?s (r - (c - 1) + i)) [0..<n], ?s[25 := of_nat (c - 1 - n)])"
    using Suc.prems d by (intro Suc.IH) auto
  moreover have "map (\<lambda>i. state_byte ?s (r - (c - 1) + i)) [0..<n] = map (\<lambda>i. state_byte s (r - c + Suc i)) [0..<n]"
    using Suc.prems by (intro map_cong refl) (auto simp: state_byte_counter Suc_diff_le)
  moreover have "map (\<lambda>i. state_byte s (r - c + i)) [0..<Suc n] = state_byte s (r - c) # map (\<lambda>i. state_byte s (r - c + Suc i)) [0..<n]"
    unfolding map_upt_Suc by simp
  ultimately show ?case using c Suc.prems(2) by (simp add: ksqueeze_byte_def Let_def del: upt_Suc)
qed

lemma ksqueeze_refill:
  assumes "length s = 26" "s ! 25 = 0" "0 < n" "n \<le> r" "r \<le> 200"
  shows "ksqueeze_bytes r n s = (let s = KeccakF1600_StatePermute s in (map (state_byte s) [0..<n], s[25 := of_nat (r - n)]))"
proof -
  let ?s = "KeccakF1600_StatePermute s" and ?s1 = "(KeccakF1600_StatePermute s)[25 := of_nat r]"
  have "ksqueeze_byte r s = ksqueeze_byte r ?s1"
    using assms by (simp add: ksqueeze_byte_def Let_def state_byte_counter unat_counter of_nat_diff word_unat_eq_iff)
  then have "ksqueeze_bytes r n s = ksqueeze_bytes r n ?s1" using assms(3) by (cases n) simp_all
  also have "\<dots> = (map (\<lambda>i. state_byte ?s1 (r - r + i)) [0..<n], ?s1[25 := of_nat (r - n)])"
    using assms by (intro ksqueeze_chunk) (simp_all add: unat_counter)
  finally show ?thesis using assms(4,5) by (simp add: Let_def state_byte_counter cong: map_cong)
qed

lemma inc_squeeze_loop:
  "length s = 26 \<Longrightarrow> n = 0 \<or> s ! 25 = 0 \<Longrightarrow> 0 < r \<Longrightarrow> r \<le> 200 \<Longrightarrow>
   keccak_inc_squeeze_loop n s r h = (let (bs, s) = ksqueeze_bytes r n s in (s, h @ bs))"
proof (induction n s r h rule: keccak_inc_squeeze_loop.induct)
  case (1 n s r h)
  show ?case
  proof (cases "n = 0")
    case True
    then show ?thesis by (subst keccak_inc_squeeze_loop.simps) simp
  next
    case False
    let ?s = "KeccakF1600_StatePermute s" and ?i = "min n r"
    let ?s1 = "?s[25 := of_nat (r - ?i)]" and ?h = "map (state_byte ?s) [0..<?i]"
    have ng: "\<not> (n = 0 \<or> r = 0)" and z: "s ! 25 = 0" using False 1 by simp_all
    have len: "length ?s1 = 26" using 1(2) by simp
    have c: "n - ?i = 0 \<or> ?s1 ! 25 = 0" using 1(2) by (cases "n \<le> r") simp_all
    have "ksqueeze_bytes r ?i s = (?h, ?s1)"
      using ksqueeze_refill [OF 1(2) z, of ?i r] 1(4,5) False by (simp add: Let_def)
    then have "ksqueeze_bytes r n s = (let (bs, s) = ksqueeze_bytes r (n - ?i) ?s1 in (?h @ bs, s))"
      using ksqueeze_bytes_add [of r ?i "n - ?i" s] by simp
    moreover have "keccak_inc_squeeze_loop n s r h = keccak_inc_squeeze_loop (n - ?i) ?s1 r (h @ ?h)"
      using ng by (subst keccak_inc_squeeze_loop.simps) (simp only: Let_def if_False)
    ultimately show ?thesis
      using 1(1) [OF ng refl refl refl refl len c 1(4,5)] by (simp add: split_beta Let_def)
  qed
qed

lemma inc_squeeze_bytes:
  assumes "length s = 26" "unat (s ! 25) \<le> r" "0 < r" "r \<le> 200"
  shows "keccak_inc_squeeze n s r = (let (bs, s) = ksqueeze_bytes r n s in (s, bs))"
proof -
  let ?c = "unat (s ! 25)"
  let ?i = "min n ?c"
  let ?s1 = "s[25 := of_nat (?c - ?i)]"
  have "s ! 25 - of_nat ?i = of_nat (?c - ?i)" by (simp add: of_nat_diff)
  then have "keccak_inc_squeeze n s r =
      keccak_inc_squeeze_loop (n - ?i) ?s1 r (map (\<lambda>i. state_byte s (r - ?c + i)) [0..<?i])"
    by (simp add: keccak_inc_squeeze_def Let_def)
  moreover have "ksqueeze_bytes r ?i s = (map (\<lambda>i. state_byte s (r - ?c + i)) [0..<?i], ?s1)"
    using assms by (intro ksqueeze_chunk) simp_all
  moreover have "length ?s1 = 26" "n - ?i = 0 \<or> ?s1 ! 25 = 0"
    using assms(1) by (simp, cases "n \<le> ?c") simp_all
  ultimately show ?thesis
    using ksqueeze_bytes_add [of r ?i "n - ?i" s] assms(3,4) by (simp add: inc_squeeze_loop split_beta Let_def)
qed

section \<open>The context invariant and the contract of an extendable-output function\<close>

definition k_absorbing :: "nat \<Rightarrow> u64 list \<Rightarrow> bool" where
  "k_absorbing r s \<longleftrightarrow> length s = 26 \<and> unat (s ! 25) < r"

definition k_squeezing :: "nat \<Rightarrow> u64 list \<Rightarrow> bool" where
  "k_squeezing r s \<longleftrightarrow> length s = 26 \<and> unat (s ! 25) \<le> r"

lemma kabsorb_byte_inv:
  "k_absorbing r s \<Longrightarrow> r \<le> 200 \<Longrightarrow> k_absorbing r (kabsorb_byte r b s)"
  using unat_counter [of "unat (s ! 25) + 1"]
  by (auto simp: k_absorbing_def kabsorb_byte_def Let_def StatePermute_counter)

lemma kabsorb_bytes_inv:
  "k_absorbing r s \<Longrightarrow> r \<le> 200 \<Longrightarrow> k_absorbing r (fold (kabsorb_byte r) m s)"
  by (induction m arbitrary: s) (simp_all add: kabsorb_byte_inv)

lemma ksqueeze_byte_inv:
  "k_squeezing r s \<Longrightarrow> r \<le> 200 \<Longrightarrow> k_squeezing r (snd (ksqueeze_byte r s))"
  using unat_counter [of "r - 1"]
  by (auto simp: k_squeezing_def ksqueeze_byte_def Let_def unat_minus_one)

lemma ksqueeze_bytes_inv:
  "k_squeezing r s \<Longrightarrow> r \<le> 200 \<Longrightarrow> k_squeezing r (snd (ksqueeze_bytes r n s))"
  by (induction n arbitrary: s) (simp_all add: ksqueeze_byte_inv split_beta Let_def)

lemma length_ksqueeze_bytes: "length (fst (ksqueeze_bytes r n s)) = n"
  by (induction n arbitrary: s) (simp_all add: split_beta Let_def)

lemma inc_absorb_eq: "k_absorbing r s \<Longrightarrow> r \<le> 200 \<Longrightarrow> keccak_inc_absorb s r m = fold (kabsorb_byte r) m s"
  by (simp add: k_absorbing_def inc_absorb_bytes)

lemma inc_squeeze_eq: "k_squeezing r s \<Longrightarrow> 0 < r \<Longrightarrow> r \<le> 200 \<Longrightarrow>
    keccak_inc_squeeze n s r = (snd (ksqueeze_bytes r n s), fst (ksqueeze_bytes r n s))"
  by (simp add: k_squeezing_def inc_squeeze_bytes split_beta)

lemma keccak_xof:
  assumes "0 < r" "r \<le> 200"
  shows "xof (\<lambda>s. keccak_inc_absorb s r) (\<lambda>s. keccak_inc_finalize s r p) (\<lambda>s n. keccak_inc_squeeze n s r)
    (k_absorbing r) (k_squeezing r)"
proof
  fix c xs ys m n
  show "k_absorbing r c \<Longrightarrow> k_absorbing r (keccak_inc_absorb c r xs)"
    "k_absorbing r c \<Longrightarrow> keccak_inc_absorb c r [] = c"
    "k_absorbing r c \<Longrightarrow> keccak_inc_absorb (keccak_inc_absorb c r xs) r ys = keccak_inc_absorb c r (xs @ ys)"
    using assms(2) by (simp_all add: inc_absorb_eq kabsorb_bytes_inv)
  show "k_absorbing r c \<Longrightarrow> k_squeezing r (keccak_inc_finalize c r p)"
    by (simp add: k_absorbing_def k_squeezing_def keccak_inc_finalize_def)
  show "k_squeezing r c \<Longrightarrow> k_squeezing r (fst (keccak_inc_squeeze n c r))"
    "k_squeezing r c \<Longrightarrow> keccak_inc_squeeze 0 c r = (c, [])"
    "k_squeezing r c \<Longrightarrow> length (snd (keccak_inc_squeeze n c r)) = n"
    "k_squeezing r c \<Longrightarrow> keccak_inc_squeeze (m + n) c r =
      (let (c1, xs) = keccak_inc_squeeze m c r; (c2, ys) = keccak_inc_squeeze n c1 r in (c2, xs @ ys))"
    using assms by (simp_all add: inc_squeeze_eq ksqueeze_bytes_inv length_ksqueeze_bytes
      ksqueeze_bytes_add split_beta Let_def)
qed

lemmas shake_rates = SHAKE128_RATE_def SHAKE256_RATE_def SHA3_256_RATE_def SHA3_384_RATE_def SHA3_512_RATE_def

interpretation shake256: xof shake256_inc_absorb shake256_inc_finalize shake256_inc_squeeze
    "k_absorbing SHAKE256_RATE" "k_squeezing SHAKE256_RATE"
  unfolding shake256_inc_absorb_def [abs_def] shake256_inc_finalize_def [abs_def] shake256_inc_squeeze_def [abs_def]
  by (rule keccak_xof) (simp_all add: shake_rates)

interpretation shake128: xof shake128_inc_absorb shake128_inc_finalize shake128_inc_squeeze
    "k_absorbing SHAKE128_RATE" "k_squeezing SHAKE128_RATE"
  unfolding shake128_inc_absorb_def [abs_def] shake128_inc_finalize_def [abs_def] shake128_inc_squeeze_def [abs_def]
  by (rule keccak_xof) (simp_all add: shake_rates)

lemma init_absorbing: "0 < r \<Longrightarrow> k_absorbing r keccak_inc_init"
  by (simp add: k_absorbing_def keccak_inc_init_def nth_append)

section \<open>The state as bytes\<close>

lemma load64_le: "load64 = le_word64"
  by (rule ext) (simp only: load64_def le_word64_def)

lemma store64_le: "store64 = le_bytes64"
  by (rule ext) (simp only: store64_def le_bytes64_def)

lemma bit_state_byte: "k < 8 \<Longrightarrow> bit (state_byte s q) k = bit (s ! (q div 8)) (8 * (q mod 8) + k)"
  by (simp add: state_byte_def bit_ucast_iff bit_drop_bit_eq)

lemma state_byte_xor_byte:
  assumes "q < 8 * length s" "q' < 8 * length s"
  shows "state_byte (xor_byte q b s) q' = (if q = q' then state_byte s q XOR b else state_byte s q')"
proof (rule bit_word_eqI)
  fix k assume "k < LENGTH(8)"
  then have k: "k < 8" by simp
  let ?n = "8 * (q' mod 8) + k"
  have n: "?n < 64" using k by (simp add: mod_less_divisor [of 8 q'] less_Suc_eq_le)
  have i: "q' div 8 < length s" using assms(2) by (simp add: less_mult_imp_div_less mult.commute)
  have b: "bit (push_bit (8 * (q mod 8)) (ucast b) :: u64) ?n \<longleftrightarrow> q mod 8 = q' mod 8 \<and> bit b k"
  proof -
    have b8: "bit b j \<Longrightarrow> j < 8" for j using bit_imp_le_length [of b j] by simp
    have eq: "8 * x \<le> 8 * y + k \<and> 8 * y + k - 8 * x < 8 \<longleftrightarrow> x = y" for x y using k by arith
    show ?thesis
    proof (cases "q mod 8 = q' mod 8")
      case True
      then show ?thesis using n k by (simp add: bit_push_bit_iff bit_ucast_iff)
    next
      case False
      then have "\<not> (8 * (q mod 8) \<le> ?n \<and> bit b (?n - 8 * (q mod 8)))" using eq [of "q mod 8" "q' mod 8"] b8 by blast
      then show ?thesis using False by (simp add: bit_push_bit_iff bit_ucast_iff)
    qed
  qed
  have e: "q = q' \<longleftrightarrow> q div 8 = q' div 8 \<and> q mod 8 = q' mod 8" by (metis div_mod_decomp)
  have "bit (xor_byte q b s ! (q' div 8)) ?n \<longleftrightarrow> (bit (s ! (q' div 8)) ?n \<noteq> (q = q' \<and> bit b k))"
    using i b e by (cases "q div 8 = q' div 8") (simp_all add: xor_byte_def bit_xor_iff)
  then show "bit (state_byte (xor_byte q b s) q') k = bit (if q = q' then state_byte s q XOR b else state_byte s q') k"
    using k by (auto simp: bit_state_byte bit_xor_iff)
qed

lemma state_byte_xor_bytes:
  "c + n \<le> 8 * length s \<Longrightarrow> q < 8 * length s \<Longrightarrow>
   state_byte (fold (\<lambda>i s. xor_byte (c + i) (m ! i) s) [0..<n] s) q =
     (if c \<le> q \<and> q < c + n then state_byte s q XOR m ! (q - c) else state_byte s q)"
  by (induction n) (auto simp: state_byte_xor_byte)

lemma bit_lane: "j < 8 \<Longrightarrow> k < 8 \<Longrightarrow> bit (s ! i) (8 * j + k) = bit (state_byte s (8 * i + j)) k"
  by (simp add: bit_state_byte)

lemma state_ext:
  assumes "length s = length t" "\<And>q. q < 8 * length s \<Longrightarrow> state_byte s q = state_byte t q"
  shows "s = t"
proof (rule nth_equalityI [OF assms(1)], rule bit_word_eqI)
  fix i n assume i: "i < length s" and "n < LENGTH(64)"
  then have n: "n div 8 < 8" "n mod 8 < 8" "8 * i + n div 8 < 8 * length s" by auto
  have "bit (s ! i) (8 * (n div 8) + n mod 8) = bit (t ! i) (8 * (n div 8) + n mod 8)"
    using n assms(2) by (simp only: bit_lane)
  then show "bit (s ! i) n = bit (t ! i) n" by simp
qed

lemma state_byte_xor_lanes:
  assumes "n \<le> length s" "8 * n \<le> length m" "q < 8 * length s"
  shows "state_byte (fold (\<lambda>i s. s[i := s ! i XOR load64 (drop (8 * i) m)]) [0..<n] s) q =
    (if q < 8 * n then state_byte s q XOR m ! q else state_byte s q)"
proof -
  have i: "q div 8 < length s" "q div 8 < n \<longleftrightarrow> q < 8 * n" "8 * (q div 8) + q mod 8 = q" using assms(3) by auto
  have l: "fold (\<lambda>i s. s[i := s ! i XOR load64 (drop (8 * i) m)]) [0..<n] s ! (q div 8) =
      (if q < 8 * n then s ! (q div 8) XOR load64 (drop (8 * (q div 8)) m) else s ! (q div 8))"
    using assms(1) i(1,2) by (subst fold_update_self) (auto simp: nth_append)
  have "ucast (drop_bit (8 * (q mod 8)) (load64 (drop (8 * (q div 8)) m))) = m ! q" if "q < 8 * n"
  proof (rule bit_word_eqI)
    fix k assume "k < LENGTH(8)"
    then have k: "k < 8" by simp
    have "8 * (q mod 8) + k < 64" using k by presburger
    then show "bit (ucast (drop_bit (8 * (q mod 8)) (load64 (drop (8 * (q div 8)) m))) :: u8) k = bit (m ! q) k"
      using k that assms(2) i(3) by (simp add: bit_ucast_iff bit_drop_bit_eq load64_le bit_le_word64)
  qed
  then show ?thesis unfolding state_byte_def l by (auto simp: drop_bit_xor unsigned_xor_eq)
qed

section \<open>The sponge of FIPS 202\<close>

text \<open>
  The standard, on byte strings: the state is 200 bytes, the message is padded with the
  domain byte \<open>p\<close> (suffix bits and first padding bit) and a final 1 bit, each block of \<open>r\<close> bytes
  is XORed into the state, which is then permuted, and the output is read off the first \<open>r\<close> bytes of
  the successive states.
\<close>

definition keccak_f_bytes :: "u8 list \<Rightarrow> u8 list" where
  "keccak_f_bytes S = concat (map le_bytes64
     (fold keccak_ref [0..<24] (map (\<lambda>i. le_word64 (take 8 (drop (8 * i) S))) [0..<25])))"

definition xor_block :: "u8 list \<Rightarrow> u8 list \<Rightarrow> u8 list" where
  "xor_block S P = map (\<lambda>i. if i < length P then S ! i XOR P ! i else S ! i) [0..<length S]"

definition sponge_pad :: "nat \<Rightarrow> u8 \<Rightarrow> nat \<Rightarrow> u8 list" where
  "sponge_pad r p k = (if k = r - 1 then [p OR 128] else p # replicate (r - k - 2) 0 @ [128])"

function sponge_absorb :: "nat \<Rightarrow> u8 list \<Rightarrow> u8 list \<Rightarrow> u8 list" where
  "sponge_absorb r S P =
     (if r = 0 \<or> length P < r then S
      else sponge_absorb r (keccak_f_bytes (xor_block S (take r P))) (drop r P))"
  by pat_completeness auto
termination
  by (relation "measure (\<lambda>(r, S, P). length P)") auto

declare sponge_absorb.simps [simp del]

definition sponge :: "nat \<Rightarrow> u8 \<Rightarrow> u8 list \<Rightarrow> nat \<Rightarrow> u8 list" where
  "sponge r p M d =
     (let S = sponge_absorb r (replicate 200 0) (M @ sponge_pad r p (length M mod r))
      in take d (concat (map (\<lambda>k. take r ((keccak_f_bytes ^^ k) S)) [0..<d div r + 1])))"

definition sbytes :: "u64 list \<Rightarrow> u8 list" where
  "sbytes s = map (state_byte s) [0..<8 * length s]"

lemma sbytes_concat: "sbytes s = concat (map le_bytes64 s)"
proof (rule nth_equalityI)
  have l: "length (concat (map le_bytes64 s)) = 8 * length s" by (induction s) simp_all
  then show "length (sbytes s) = length (concat (map le_bytes64 s))" by (simp add: sbytes_def)
  fix q assume "q < length (sbytes s)"
  then have q: "q < 8 * length s" by (simp add: sbytes_def)
  then have "take 8 (drop (8 * (q div 8)) (concat (map le_bytes64 s))) ! (q mod 8) = le_bytes64 (s ! (q div 8)) ! (q mod 8)"
    by (subst take_drop_concat) auto
  moreover have "take 8 (drop (8 * (q div 8)) (concat (map le_bytes64 s))) ! (q mod 8) = concat (map le_bytes64 s) ! q"
    using q l by simp
  moreover have "sbytes s ! q = le_bytes64 (s ! (q div 8)) ! (q mod 8)"
    using q by (simp add: sbytes_def le_bytes64_def state_byte_def del: upt.simps)
  ultimately show "sbytes s ! q = concat (map le_bytes64 s) ! q" by simp
qed

lemma length_sbytes [simp]: "length (sbytes s) = 8 * length s"
  by (simp add: sbytes_def)

lemma lanes_sbytes: "length s = n \<Longrightarrow> map (\<lambda>i. le_word64 (take 8 (drop (8 * i) (sbytes s)))) [0..<n] = s"
  unfolding sbytes_concat by (rule nth_equalityI) (simp_all add: take_drop_concat del: upt.simps)

lemma sbytes_permute: "length s = 25 \<Longrightarrow> keccak_f_bytes (sbytes s) = sbytes (KeccakF1600_StatePermute s)"
  by (simp add: keccak_f_bytes_def lanes_sbytes StatePermute_ref sbytes_concat [symmetric])

lemma sbytes_xor_lanes:
  assumes "length s = 25" "r \<le> 200" "8 dvd r" "r \<le> length m"
  shows "sbytes (fold (\<lambda>i s. s[i := s ! i XOR load64 (drop (8 * i) m)]) [0..<r div 8] s) = xor_block (sbytes s) (take r m)"
proof (rule nth_equalityI)
  let ?f = "fold (\<lambda>i s. s[i := s ! i XOR load64 (drop (8 * i) m)]) [0..<r div 8] s"
  have l: "length ?f = length s" by (rule fold_length_inv) simp
  then show "length (sbytes ?f) = length (xor_block (sbytes s) (take r m))" by (simp add: xor_block_def)
  fix q assume "q < length (sbytes ?f)"
  then have q: "q < 8 * length s" by (simp add: l)
  then have "state_byte ?f q = (if q < 8 * (r div 8) then state_byte s q XOR m ! q else state_byte s q)"
    using assms by (intro state_byte_xor_lanes) auto
  then show "sbytes ?f ! q = xor_block (sbytes s) (take r m) ! q"
    using q assms by (simp add: sbytes_def xor_block_def l)
qed

lemma absorb_loop_sponge:
  "length s = 25 \<Longrightarrow> 0 < r \<Longrightarrow> r \<le> 200 \<Longrightarrow> 8 dvd r \<Longrightarrow> keccak_absorb_loop s r m = (s', m') \<Longrightarrow>
   length s' = 25 \<and> length m' = length m mod r \<and>
   sponge_absorb r (sbytes s) (m @ x) = sponge_absorb r (sbytes s') (m' @ x)"
proof (induction s r m rule: keccak_absorb_loop.induct)
  case (1 s r m)
  show ?case
  proof (cases "length m < r")
    case True
    then have "s' = s" "m' = m" using 1(6) by (simp_all add: keccak_absorb_loop.simps)
    then show ?thesis using True 1(2) by simp
  next
    case False
    let ?s = "fold (\<lambda>i s. s[i := s ! i XOR load64 (drop (8 * i) m)]) [0..<r div 8] s"
    have ng: "\<not> (length m < r \<or> r = 0)" and ng': "\<not> (r = 0 \<or> length (m @ x) < r)" using False 1(3) by simp_all
    have l: "length ?s = 25" using 1(2) by (subst fold_length_inv) simp_all
    have eq: "keccak_absorb_loop (KeccakF1600_StatePermute ?s) r (drop r m) = (s', m')"
      using 1(6) ng by (subst (asm) keccak_absorb_loop.simps) (simp only: Let_def if_False)
    have "sponge_absorb r (sbytes s) (m @ x) = sponge_absorb r (sbytes (KeccakF1600_StatePermute ?s)) (drop r m @ x)"
      using ng' False 1(2,4,5) by (subst sponge_absorb.simps)
        (simp add: sbytes_xor_lanes [symmetric] sbytes_permute l)
    then show ?thesis
      using 1(1) [OF ng refl refl _ 1(3-5) eq] l False by (simp add: le_mod_geq)
  qed
qed

lemma pad_block:
  assumes "length m < r"
  shows "(let t = replicate r 0; t = fold (\<lambda>i t. t[i := m ! i]) [0..<length m] t; t = t[length m := p]
    in t[r - 1 := t ! (r - 1) OR 128]) = m @ sponge_pad r p (length m)"
proof -
  have f: "fold (\<lambda>i t. t[i := m ! i]) [0..<length m] (replicate r 0) = m @ replicate (r - length m) 0"
    using assms by (simp add: fold_update_const map_nth)
  show ?thesis
  proof (cases "length m = r - 1")
    case True
    then have "replicate (r - length m) (0 :: u8) = [0]" using assms by (simp add: numeral_eq_Suc)
    then show ?thesis unfolding f Let_def using True
      by (simp add: sponge_pad_def list_update_append nth_append True [symmetric] del: replicate.simps)
  next
    case False
    define k where "k = r - length m - 2"
    have r: "r - length m = Suc (Suc k)" "r - 1 - length m = Suc k" "\<not> r - 1 < length m" using assms False by (simp_all add: k_def)
    have "replicate k 0 @ [0] = 0 # replicate k (0 :: u8)" by (simp add: replicate_append_same)
    then have "replicate (Suc (Suc k)) (0 :: u8) = 0 # replicate k 0 @ [0]" by simp
    then show ?thesis unfolding f Let_def r(1) using False r
      by (simp add: sponge_pad_def list_update_append nth_append k_def [symmetric] del: replicate.simps)
  qed
qed

lemma length_keccak_absorb: "length (keccak_absorb r m p) = 25" if "0 < r" "r \<le> 200" "8 dvd r"
proof -
  obtain s' m' where l: "keccak_absorb_loop (replicate 25 0) r m = (s', m')" by fastforce
  then have "length s' = 25" using absorb_loop_sponge [OF _ that l] by simp
  then show ?thesis by (simp add: keccak_absorb_def l Let_def fold_length_inv)
qed

lemma keccak_absorb_sponge:
  assumes "0 < r" "r \<le> 200" "8 dvd r"
  shows "sbytes (KeccakF1600_StatePermute (keccak_absorb r m p)) =
    sponge_absorb r (replicate 200 0) (m @ sponge_pad r p (length m mod r))"
proof -
  obtain s' m' where l: "keccak_absorb_loop (replicate 25 0) r m = (s', m')" by fastforce
  let ?pad = "sponge_pad r p (length m mod r)"
  have z: "sbytes (replicate 25 0) = replicate 200 0"
    by (rule nth_equalityI) (auto simp: sbytes_def state_byte_def)
  have i: "length s' = 25" "length m' = length m mod r"
     "sponge_absorb r (replicate 200 0) (m @ ?pad) = sponge_absorb r (sbytes s') (m' @ ?pad)"
    using absorb_loop_sponge [OF _ assms l, of ?pad] by (simp_all add: z)
  have lt: "length m' < r" using assms(1) i(2) by simp
  then have lp: "length (m' @ ?pad) = r" using i(2) by (auto simp: sponge_pad_def)
  have "keccak_absorb r m p = fold (\<lambda>i s. s[i := s ! i XOR load64 (drop (8 * i) (m' @ ?pad))]) [0..<r div 8] s'"
    unfolding keccak_absorb_def l Let_def prod.case i(2) pad_block [OF lt, unfolded Let_def i(2)] by (rule refl)
  then have "sbytes (keccak_absorb r m p) = xor_block (sbytes s') (m' @ ?pad)"
    using sbytes_xor_lanes [OF i(1) assms(2,3), of "m' @ ?pad"] lp by simp
  then have "sbytes (KeccakF1600_StatePermute (keccak_absorb r m p)) = keccak_f_bytes (xor_block (sbytes s') (m' @ ?pad))"
    using sbytes_permute [OF length_keccak_absorb [OF assms]] by metis
  also have "\<dots> = sponge_absorb r (sbytes s') (m' @ ?pad)"
    using lp assms(1) by (subst sponge_absorb.simps, simp, subst sponge_absorb.simps) simp
  finally show ?thesis using i(3) by simp
qed

lemma concat_lanes: "k \<le> length s \<Longrightarrow> concat (map (\<lambda>i. le_bytes64 (s ! i)) [0..<k]) = take (8 * k) (sbytes s)"
proof (induction k)
  case (Suc k)
  have "take (8 * Suc k) (sbytes s) = take (8 * k) (sbytes s) @ take 8 (drop (8 * k) (sbytes s))"
    by (simp add: take_add [symmetric] add.commute)
  then show ?case using Suc take_drop_concat [of s le_bytes64 8 k] by (simp add: sbytes_concat)
qed simp

lemma squeezeblocks_sponge:
  assumes "r \<le> 200" "8 dvd r"
  shows "length s = 25 \<Longrightarrow> keccak_squeezeblocks n s r =
    ((KeccakF1600_StatePermute ^^ n) s,
     concat (map (\<lambda>k. take r ((keccak_f_bytes ^^ k) (sbytes (KeccakF1600_StatePermute s)))) [0..<n]))"
proof (induction n arbitrary: s)
  case (Suc n)
  let ?s = "KeccakF1600_StatePermute s"
  have l: "length ?s = 25" using Suc.prems by simp
  have h: "concat (map (\<lambda>i. store64 (?s ! i)) [0..<r div 8]) = take r (sbytes ?s)"
    using concat_lanes [of "r div 8" ?s] l assms by (simp add: store64_le)
  show ?case unfolding keccak_squeezeblocks.simps Let_def h Suc.IH [OF l] map_upt_Suc
    by (simp add: funpow_swap1 sbytes_permute [OF l, symmetric])
qed simp

section \<open>The one-shot functions and the incremental interface\<close>

lemma funpow_length: "length s = 25 \<Longrightarrow> length ((KeccakF1600_StatePermute ^^ n) s) = 25"
  by (induction n) simp_all

lemma funpow_sbytes: "length s = 25 \<Longrightarrow> sbytes ((KeccakF1600_StatePermute ^^ n) s) = (keccak_f_bytes ^^ n) (sbytes s)"
  by (induction n) (simp_all add: sbytes_permute [symmetric] funpow_length)

lemma length_funpow_bytes: "length s = 25 \<Longrightarrow> length ((keccak_f_bytes ^^ n) (sbytes s)) = 200"
  by (simp add: funpow_sbytes [symmetric] funpow_length)

lemma length_concat_const: "(\<And>k. k < n \<Longrightarrow> length (f k) = r) \<Longrightarrow> length (concat (map f [0..<n])) = n * r"
  by (induction n) simp_all

lemma shake_output:
  assumes "0 < r" "r \<le> 200" "8 dvd r" and s_def: "s = keccak_absorb r m p"
  shows "(let (s1, out) = keccak_squeezeblocks (n div r) s r; rest = n - n div r * r
    in if rest \<noteq> 0 then let (s2, t) = keccak_squeezeblocks 1 s1 r in out @ take rest t else out) = sponge r p m n"
proof -
  let ?S = "sbytes (KeccakF1600_StatePermute s)"
  let ?b = "\<lambda>k. take r ((keccak_f_bytes ^^ k) ?S)"
  have l: "length s = 25" unfolding s_def by (rule length_keccak_absorb [OF assms(1-3)])
  have bl: "length (?b k) = r" for k using assms(2) length_funpow_bytes [of "KeccakF1600_StatePermute s" k] l by simp
  let ?out = "concat (map ?b [0..<n div r])"
  have lo: "length ?out = n div r * r" by (rule length_concat_const) (rule bl)
  have sp: "sponge r p m n = take n (?out @ ?b (n div r))"
    by (simp add: sponge_def Let_def keccak_absorb_sponge [OF assms(1-3), symmetric] s_def)
  have "snd (keccak_squeezeblocks 1 ((KeccakF1600_StatePermute ^^ (n div r)) s) r) = ?b (n div r)"
    using squeezeblocks_sponge [OF assms(2,3) funpow_length [OF l], of 1 "n div r"] l
      funpow_sbytes [of "KeccakF1600_StatePermute s" "n div r"] by (simp add: funpow_swap1)
  then show ?thesis unfolding squeezeblocks_sponge [OF assms(2,3) l] sp using lo
    by (auto simp: split_beta Let_def)
qed

lemma sha3_output:
  assumes "0 < r" "r \<le> 200" "8 dvd r" "d \<le> r" "0 < d"
  shows "take d (snd (keccak_squeezeblocks 1 (keccak_absorb r m p) r)) = sponge r p m d"
proof -
  have l: "length (keccak_absorb r m p) = 25" by (rule length_keccak_absorb [OF assms(1-3)])
  have "take d (snd (keccak_squeezeblocks 1 (keccak_absorb r m p) r)) =
      take d (sbytes (KeccakF1600_StatePermute (keccak_absorb r m p)))"
    using squeezeblocks_sponge [OF assms(2,3) l, of 1] assms(4) by simp
  moreover have "sponge r p m d = take d (sbytes (KeccakF1600_StatePermute (keccak_absorb r m p)))"
  proof (cases "d = r")
    case True
    then show ?thesis using assms(1,2) l
      by (simp add: sponge_def Let_def keccak_absorb_sponge [OF assms(1-3), symmetric])
  next
    case False
    then show ?thesis using assms(4) 
      by (simp add: sponge_def Let_def keccak_absorb_sponge [OF assms(1-3)])
  qed
  ultimately show ?thesis by simp
qed

lemma xor_byte_append: "q div 8 < length s \<Longrightarrow> xor_byte q b (s @ t) = xor_byte q b s @ t"
  by (simp add: xor_byte_def nth_append list_update_append)

lemma xor_bytes_append:
  "c + n \<le> 8 * length s \<Longrightarrow> fold (\<lambda>i s. xor_byte (c + i) (m ! i) s) [0..<n] (s @ t) = fold (\<lambda>i s. xor_byte (c + i) (m ! i) s) [0..<n] s @ t"
proof (induction n)
  case (Suc n)
  have "(c + n) div 8 < length s" using Suc.prems by auto
  then show ?case using Suc by (simp add: xor_byte_append)
qed simp

lemma StatePermute_append: "length s = 25 \<Longrightarrow> KeccakF1600_StatePermute (s @ t) = KeccakF1600_StatePermute s @ t"
  by (simp add: StatePermute_ref)

lemma absorb_loop_bytes:
  "length s = 25 \<Longrightarrow> 0 < r \<Longrightarrow> r \<le> 200 \<Longrightarrow> 8 dvd r \<Longrightarrow> keccak_absorb_loop s r m = (s', m') \<Longrightarrow>
   fold (kabsorb_byte r) m (s @ [0]) = fold (kabsorb_byte r) m' (s' @ [0])"
proof (induction s r m rule: keccak_absorb_loop.induct)
  case (1 s r m)
  show ?case
  proof (cases "length m < r")
    case True
    then show ?thesis using 1(6) by (simp add: keccak_absorb_loop.simps)
  next
    case False
    let ?s = "fold (\<lambda>i s. s[i := s ! i XOR load64 (drop (8 * i) m)]) [0..<r div 8] s"
    let ?t = "fold (\<lambda>i s. xor_byte (0 + i) (m ! i) s) [0..<r] s"
    have ng: "\<not> (length m < r \<or> r = 0)" using False 1(3) by simp
    have l: "length ?s = 25" using 1(2) by (subst fold_length_inv) simp_all
    have eq: "keccak_absorb_loop (KeccakF1600_StatePermute ?s) r (drop r m) = (s', m')"
      using 1(6) ng by (subst (asm) keccak_absorb_loop.simps) (simp only: Let_def if_False)
    have "?s = ?t"
    proof (rule state_ext)
      show "length ?s = length ?t" using l 1(2) by (simp only: length_xor_bytes)
      fix q assume "q < 8 * length ?s"
      then have q: "q < 8 * length s" using l 1(2) by simp
      have "8 * (r div 8) = r" using 1(5) by simp
      then show "state_byte ?s q = state_byte ?t q"
        using state_byte_xor_lanes [of "r div 8" s m q] state_byte_xor_bytes [of 0 r s q m] q 1(2,4) False by simp
    qed
    then have "fold (kabsorb_byte r) (take r m) (s @ [0]) = KeccakF1600_StatePermute ?s @ [0]"
      using kabsorb_chunk [of "s @ [0]" 0 r r m] xor_bytes_append [of 0 r s m "[0]"] 1(2-4) False l
      by (simp add: Let_def nth_append list_update_append StatePermute_append)
    moreover have "fold (kabsorb_byte r) m (s @ [0]) =
        fold (kabsorb_byte r) (drop r m) (fold (kabsorb_byte r) (take r m) (s @ [0]))"
      by (metis append_take_drop_id fold_append o_apply)
    ultimately show ?thesis
      using 1(1) [OF ng refl refl _ 1(3-5) eq] l by simp
  qed
qed

lemma or_eq_xor: "a AND b = 0 \<Longrightarrow> a OR b = a XOR b" for a b :: u8
proof (rule bit_word_eqI)
  fix n assume "a AND b = 0"
  then have "\<not> bit (a AND b) n" by simp
  then show "bit (a OR b) n = bit (a XOR b) n" by (auto simp: bit_and_iff bit_or_iff bit_xor_iff)
qed

lemma sponge_pad_nth:
  assumes "k \<le> q" "q < r"
  shows "sponge_pad r p k ! (q - k) =
    (if q = k then (if q = r - 1 then p OR 128 else p) else if q = r - 1 then 128 else 0)"
proof (cases "q = k")
  case False
  then obtain j where j: "q = Suc (k + j)" using assms(1) by (metis le_neq_implies_less less_imp_Suc_add)
  then have "k \<noteq> r - 1" "q - k = Suc j" using assms by auto
  moreover have "(replicate (r - k - 2) 0 @ [128]) ! j = (if q = r - 1 then 128 else 0 :: u8)"
    using assms(2) j by (auto simp: nth_append)
  ultimately show ?thesis using False by (simp add: sponge_pad_def)
qed (simp add: sponge_pad_def)

lemma inc_finalize_oneshot:
  assumes "0 < r" "r \<le> 200" "8 dvd r" "p AND 128 = 0"
  shows "keccak_inc_finalize (keccak_inc_absorb keccak_inc_init r m) r p = keccak_absorb r m p @ [0]"
proof -
  obtain s' m' where l: "keccak_absorb_loop (replicate 25 0) r m = (s', m')" by fastforce
  have i: "length s' = 25" "length m' = length m mod r" using absorb_loop_sponge [OF _ assms(1-3) l] by simp_all
  let ?k = "length m'" and ?pad = "sponge_pad r p (length m')"
  have lt: "?k < r" using assms(1) i(2) by simp
  let ?t = "fold (\<lambda>i s. xor_byte (0 + i) (m' ! i) s) [0..<?k] s'"
  have "keccak_inc_absorb keccak_inc_init r m = fold (kabsorb_byte r) m' (s' @ [0])"
    using inc_absorb_eq [OF init_absorbing [OF assms(1)] assms(2)] absorb_loop_bytes [OF _ assms(1-3) l]
    by (simp add: keccak_inc_init_def)
  also have "\<dots> = ?t @ [of_nat ?k]"
    using kabsorb_chunk [of "s' @ [0]" 0 r ?k m'] xor_bytes_append [of 0 ?k s' m' "[0]"] i(1) lt assms(1,2)
    by (simp add: Let_def nth_append list_update_append)
  finally have "keccak_inc_finalize (keccak_inc_absorb keccak_inc_init r m) r p = xor_byte (r - 1) 128 (xor_byte ?k p ?t) @ [0]"
    using lt assms(2) i(1) unat_counter [of ?k]
    by (simp add: keccak_inc_finalize_def Let_def nth_append list_update_append xor_byte_append)
  moreover have "keccak_absorb r m p = xor_byte (r - 1) 128 (xor_byte ?k p ?t)"
  proof (rule state_ext)
    show "length (keccak_absorb r m p) = length (xor_byte (r - 1) 128 (xor_byte ?k p ?t))"
      using length_keccak_absorb [OF assms(1-3)] i(1) by simp
    fix q assume "q < 8 * length (keccak_absorb r m p)"
    then have q: "q < 200" using length_keccak_absorb [OF assms(1-3)] by simp
    have lp: "length (m' @ ?pad) = r" using lt by (auto simp: sponge_pad_def)
    have nb: "(m' @ ?pad) ! q = (if q < ?k then m' ! q
        else if q = ?k then (if q = r - 1 then p OR 128 else p) else if q = r - 1 then 128 else 0)" if "q < r"
      using sponge_pad_nth [of ?k q r p] that unfolding nth_append by (cases "q < ?k") (simp_all only: not_less if_True if_False)
    have st: "state_byte (keccak_absorb r m p) q = (if q < r then state_byte s' q XOR (m' @ ?pad) ! q else state_byte s' q)"
      unfolding keccak_absorb_def l Let_def prod.case pad_block [OF lt, unfolded Let_def]
      using state_byte_xor_lanes [of "r div 8" s' "m' @ ?pad" q] i(1) lp q assms(2,3) by simp
    have "state_byte (keccak_absorb r m p) q = (if q < r then state_byte s' q XOR (if q < ?k then m' ! q
        else if q = ?k then (if q = r - 1 then p OR 128 else p) else if q = r - 1 then 128 else 0) else state_byte s' q)"
      unfolding st by (simp only: nb cong: if_cong)
    moreover have "state_byte (xor_byte (r - 1) 128 (xor_byte ?k p ?t)) q =
       (if q = r - 1 then (if q = ?k then state_byte ?t q XOR p XOR 128 else state_byte ?t q XOR 128)
        else if q = ?k then state_byte ?t q XOR p else state_byte ?t q)"
      using q lt assms(2) i(1) by (auto simp: state_byte_xor_byte xor.assoc)
    moreover have "state_byte ?t q = (if q < ?k then state_byte s' q XOR m' ! q else state_byte s' q)"
      using state_byte_xor_bytes [of 0 ?k s' q m'] q lt assms(2) i(1) by simp
    moreover have "p OR 128 = p XOR 128" using assms(4) by (rule or_eq_xor)
    ultimately show "state_byte (keccak_absorb r m p) q = state_byte (xor_byte (r - 1) 128 (xor_byte ?k p ?t)) q"
      using lt by auto
  qed
  ultimately show ?thesis by simp
qed

lemma squeezeblocks_bytes:
  assumes "0 < r" "r \<le> 200" "8 dvd r"
  shows "length s = 25 \<Longrightarrow> ksqueeze_bytes r (n * r) (s @ [0]) =
    (snd (keccak_squeezeblocks n s r), fst (keccak_squeezeblocks n s r) @ [0])"
proof (induction n arbitrary: s)
  case (Suc n)
  let ?s = "KeccakF1600_StatePermute s"
  have l: "length ?s = 25" using Suc.prems by simp
  have "ksqueeze_bytes r r (s @ [0]) = (map (state_byte (?s @ [0])) [0..<r], ?s @ [0])"
    using ksqueeze_refill [of "s @ [0]" r r] Suc.prems assms(1,2) l
    by (simp add: Let_def nth_append StatePermute_append list_update_append)
  moreover have "map (state_byte (?s @ [0])) [0..<r] = concat (map (\<lambda>i. store64 (?s ! i)) [0..<r div 8])"
  proof -
    have "map (state_byte (?s @ [0])) [0..<r] = take r (sbytes ?s)"
      using l assms(2) unfolding sbytes_def take_map by (intro map_cong) (auto simp: state_byte_def nth_append)
    then show ?thesis using concat_lanes [of "r div 8" ?s] l assms by (simp add: store64_le)
  qed
  ultimately show ?case using ksqueeze_bytes_add [of r r "n * r" "s @ [0]"] Suc.IH [OF l]
    by (simp add: Let_def split_beta)
qed simp

lemma inc_sponge:
  assumes "0 < r" "r \<le> 200" "8 dvd r" "p AND 128 = 0"
  shows "snd (keccak_inc_squeeze n (keccak_inc_finalize (keccak_inc_absorb keccak_inc_init r m) r p) r) = sponge r p m n"
proof -
  let ?s = "keccak_absorb r m p"
  let ?n = "(n div r + 1) * r"
  have l: "length ?s = 25" by (rule length_keccak_absorb [OF assms(1-3)])
  have "k_absorbing r keccak_inc_init" using assms(1) by (rule init_absorbing)
  then have sq: "k_squeezing r (?s @ [0])" using l by (simp add: k_squeezing_def nth_append)
  have "n \<le> ?n" using assms(1) by (simp add: add.commute dividend_less_div_times less_imp_le)
  then have "snd (keccak_inc_squeeze n (?s @ [0]) r) = take n (snd (keccak_inc_squeeze ?n (?s @ [0]) r))"
    using xof.squeeze_prefix [OF keccak_xof [OF assms(1,2)] sq] by simp
  also have "snd (keccak_inc_squeeze ?n (?s @ [0]) r) = snd (keccak_squeezeblocks (n div r + 1) ?s r)"
    using squeezeblocks_bytes [OF assms(1-3) l, of "n div r + 1"] inc_squeeze_eq [OF sq assms(1,2)] by simp
  also have "take n \<dots> = sponge r p m n"
    using squeezeblocks_sponge [OF assms(2,3) l, of "n div r + 1"] keccak_absorb_sponge [OF assms(1-3), of m p]
    by (simp add: sponge_def Let_def)
  finally show ?thesis by (simp add: inc_finalize_oneshot [OF assms])
qed

lemma shake128_sponge: "shake128 True n m = Some (sponge 168 0x1F m n)"
  using shake_output [of 168 "keccak_absorb 168 m 0x1F" m "0x1F" n]
  by (auto simp: shake128_def shake128_absorb_def shake128_squeezeblocks_def shake_rates Let_def split_beta split: if_splits)

lemma shake256_sponge: "shake256 True n m = Some (sponge 136 0x1F m n)"
  using shake_output [of 136 "keccak_absorb 136 m 0x1F" m "0x1F" n]
  by (auto simp: shake256_def shake256_absorb_def shake256_squeezeblocks_def shake_rates Let_def split_beta split: if_splits)

lemma sha3_sponge:
  "sha3_256 m = sponge 136 0x06 m 32" "sha3_384 m = sponge 104 0x06 m 48" "sha3_512 m = sponge 72 0x06 m 64"
  using sha3_output [of 136 32 m "0x06"] sha3_output [of 104 48 m "0x06"] sha3_output [of 72 64 m "0x06"]
  by (simp_all add: sha3_256_def sha3_384_def sha3_512_def shake_rates Let_def split_beta)

lemma sha3_inc_output:
  assumes "0 < r" "r \<le> 200" "8 dvd r" "d \<le> r" "0 < d"
  shows "take d (snd (keccak_squeezeblocks 1 (keccak_inc_finalize (keccak_inc_absorb keccak_inc_init r m) r 0x06) r))
    = sponge r 0x06 m d"
proof -
  have l: "length (keccak_absorb r m 0x06) = 25" by (rule length_keccak_absorb [OF assms(1-3)])
  then have h: "map (\<lambda>i. store64 ((KeccakF1600_StatePermute (keccak_absorb r m 0x06) @ [0]) ! i)) [0..<r div 8]
      = map (\<lambda>i. store64 (KeccakF1600_StatePermute (keccak_absorb r m 0x06) ! i)) [0..<r div 8]"
    using assms(2) by (intro map_cong refl) (auto simp: nth_append)
  show ?thesis using sha3_output [OF assms, of m "0x06"] l inc_finalize_oneshot [OF assms(1-3), of "0x06" m]
    by (simp add: Let_def split_beta StatePermute_append h)
qed

section \<open>The life of a context\<close>

text \<open>
  A SHAKE256 context as a state machine: it is created, absorbs, is finalized once, and is squeezed;
  it can be cloned at any time.
\<close>

datatype phase = Absorbing | Squeezing

inductive shake256_reach :: "phase \<Rightarrow> u64 list \<Rightarrow> bool" where
  init: "shake256_inc_init True = Some c \<Longrightarrow> shake256_reach Absorbing c"
| absorb: "shake256_reach Absorbing c \<Longrightarrow> shake256_reach Absorbing (shake256_inc_absorb c inp)"
| finalize: "shake256_reach Absorbing c \<Longrightarrow> shake256_reach Squeezing (shake256_inc_finalize c)"
| squeeze: "shake256_reach Squeezing c \<Longrightarrow> shake256_inc_squeeze c n = (c', out) \<Longrightarrow> shake256_reach Squeezing c'"
| clone: "shake256_reach ph c \<Longrightarrow> shake256_inc_ctx_clone True c = Some c' \<Longrightarrow> shake256_reach ph c'"

lemma shake256_reach_inv:
  "shake256_reach ph c \<Longrightarrow> (case ph of Absorbing \<Rightarrow> k_absorbing SHAKE256_RATE c | Squeezing \<Rightarrow> k_squeezing SHAKE256_RATE c)"
proof (induction rule: shake256_reach.induct)
  case (init c)
  then show ?case using init_absorbing [of SHAKE256_RATE] by (simp add: shake256_inc_init_def shake_rates)
next
  case (squeeze c n c' out)
  then show ?case using shake256.squeeze_squeezing [of c n] by simp
next
  case (clone ph c c')
  then have "c' = c" by (auto simp: shake256_inc_ctx_clone_def k_absorbing_def k_squeezing_def split: phase.splits)
  then show ?case using clone.IH by (rule ssubst)
qed (simp_all add: shake256.absorb_absorbing shake256.finalize_squeezing)

section \<open>Properties\<close>

text \<open>
  (C37) The one-shot functions of fips202.c are the sponge functions of FIPS 202: SHAKE128 and SHAKE256
  with domain byte 0x1F and any output length, SHA3-256, SHA3-384 and SHA3-512 with domain byte 0x06.
\<close>

theorem fips202_is_sponge:
  "shake128 True outlen inp = Some (sponge 168 0x1F inp outlen)
   \<and> shake256 True outlen inp = Some (sponge 136 0x1F inp outlen)
   \<and> sha3_256 inp = sponge 136 0x06 inp 32
   \<and> sha3_384 inp = sponge 104 0x06 inp 48
   \<and> sha3_512 inp = sponge 72 0x06 inp 64"
  by (intro conjI shake128_sponge shake256_sponge sha3_sponge)

text \<open>
  The incremental SHA-3 hashes, absorbing a message in any chunks, give the one-shot digests.
\<close>

lemma sha3_incremental:
  "sha3_256_inc_finalize (foldl sha3_256_inc_absorb keccak_inc_init chunks) = sha3_256 (concat chunks)
   \<and> sha3_384_inc_finalize (foldl sha3_384_inc_absorb keccak_inc_init chunks) = sha3_384 (concat chunks)
   \<and> sha3_512_inc_finalize (foldl sha3_512_inc_absorb keccak_inc_init chunks) = sha3_512 (concat chunks)"
proof -
  have c: "foldl (\<lambda>s. keccak_inc_absorb s r) keccak_inc_init chunks = keccak_inc_absorb keccak_inc_init r (concat chunks)"
    if "0 < r" "r \<le> 200" for r
    using xof.absorb_chunks [OF keccak_xof [OF that] init_absorbing [OF that(1)]] by simp
  show ?thesis
    unfolding sha3_256_inc_absorb_def [abs_def] sha3_384_inc_absorb_def [abs_def] sha3_512_inc_absorb_def [abs_def]
    using sha3_inc_output [of 136 32] sha3_inc_output [of 104 48] sha3_inc_output [of 72 64]
    by (simp add: c shake_rates sha3_sponge sha3_256_inc_finalize_def sha3_384_inc_finalize_def
      sha3_512_inc_finalize_def split_beta Let_def)
qed

text \<open>
  Every SHAKE256 context the incremental interface can reach has 25 lanes and a counter that stays
  within the rate: below 136 while absorbing (so the next byte goes inside the block), at most 136 while
  squeezing (so the unread bytes are bytes of the block). A clone is the context itself.
\<close>

lemma shake256_reachable_contexts:
  assumes "shake256_reach ph c"
  shows "length c = 26 \<and> (if ph = Absorbing then unat (c ! 25) < 136 else unat (c ! 25) \<le> 136)
    \<and> shake256_inc_ctx_clone True c = Some c"
  using shake256_reach_inv [OF assms]
  by (auto simp: k_absorbing_def k_squeezing_def shake_rates shake256_inc_ctx_clone_def split: phase.splits)

text \<open>
  (C38) The incremental SHAKE256 interface, which Falcon uses, agrees with the one-shot function: a
  message absorbed in any chunks, finalized, and squeezed in any chunks, gives the bytes of
  \<open>shake256\<close> on the whole message and the whole output length.
\<close>

theorem shake256_incremental:
  "shake256 True (sum_list ns) (concat chunks) = Some (concat (snd (fold
     (\<lambda>n (c, out). let (c, b) = shake256_inc_squeeze c n in (c, out @ [b])) ns
     (shake256_inc_finalize (foldl shake256_inc_absorb keccak_inc_init chunks), []))))"
proof -
  let ?s = "shake256_inc_finalize (shake256_inc_absorb keccak_inc_init (concat chunks))"
  have a: "k_absorbing SHAKE256_RATE keccak_inc_init" by (rule init_absorbing) (simp add: shake_rates)
  then have s: "k_squeezing SHAKE256_RATE ?s"
    by (intro shake256.finalize_squeezing shake256.absorb_absorbing)
  have f: "k_squeezing SHAKE256_RATE c \<Longrightarrow> concat (snd (fold (\<lambda>n (c, out). let (c, b) = shake256_inc_squeeze c n in (c, out @ [b])) ns (c, out)))
      = concat out @ snd (shake256_inc_squeeze c (sum_list ns))" for c out
  proof (induction ns arbitrary: c out)
    case (Cons n ns)
    have "k_squeezing SHAKE256_RATE (fst (shake256_inc_squeeze c n))" using Cons.prems by (rule shake256.squeeze_squeezing)
    from Cons.IH [OF this] show ?case using shake256.squeeze_add [OF Cons.prems, of n "sum_list ns"]
      by (simp add: split_beta Let_def)
  qed (simp add: shake256.squeeze_zero)
  have "snd (shake256_inc_squeeze ?s n) = sponge 136 0x1F (concat chunks) n" for n
    using inc_sponge [of 136 "0x1F" n "concat chunks"]
    by (simp add: shake256_inc_absorb_def shake256_inc_finalize_def shake256_inc_squeeze_def shake_rates)
  then show ?thesis using f [OF s, of "[]"] shake256.absorb_chunks [OF a, of chunks]
    by (simp add: shake256_sponge)
qed

end
