(* ===== verification/Rng.thy ===== *)
theory Rng
  imports Fips202
begin

text \<open>
  The ChaCha20-based generator of rng.c and the inline accessors of inner.h. The byte arrays of the
  structure are byte lists; the casts of \<^verbatim>\<open>state.d\<close> to 32-bit and 64-bit words read and write
  them in little-endian order.
\<close>

section \<open>Model\<close>

record prng =
  buf_d :: "u8 list"
  ptr :: nat
  state_d :: "u8 list"

definition le_word32 :: "u8 list \<Rightarrow> u32" where
  "le_word32 b = ucast (b ! 0) OR push_bit 8 (ucast (b ! 1)) OR push_bit 16 (ucast (b ! 2)) OR push_bit 24 (ucast (b ! 3))"

definition le_bytes32 :: "u32 \<Rightarrow> u8 list" where
  "le_bytes32 w = [ucast w, ucast (drop_bit 8 w), ucast (drop_bit 16 w), ucast (drop_bit 24 w)]"

definition d32 :: "u8 list \<Rightarrow> nat \<Rightarrow> u32" where
  "d32 d i = le_word32 (drop (4 * i) d)"

definition write_at :: "nat \<Rightarrow> u8 list \<Rightarrow> u8 list \<Rightarrow> u8 list" where
  "write_at k bs d = take k d @ bs @ drop (k + length bs) d"

definition CW :: "u32 list" where
  "CW = [0x61707865, 0x3320646e, 0x79622d32, 0x6b206574]"

definition qround_step :: "nat \<Rightarrow> nat \<Rightarrow> nat \<Rightarrow> nat \<Rightarrow> u32 list \<Rightarrow> u32 list" where
  "qround_step a b d n state =
     (let state = state[a := state ! a + state ! b];
          state = state[d := state ! d XOR state ! a]
      in state[d := push_bit n (state ! d) OR drop_bit (32 - n) (state ! d)])"

definition QROUND :: "nat \<Rightarrow> nat \<Rightarrow> nat \<Rightarrow> nat \<Rightarrow> u32 list \<Rightarrow> u32 list" where
  "QROUND a b c d state =
     (let state = qround_step a b d 16 state;
          state = qround_step c d b 12 state;
          state = qround_step a b d 8 state
      in qround_step c d b 7 state)"

definition chacha_rounds :: "u32 list \<Rightarrow> u32 list" where
  "chacha_rounds state = fold (\<lambda>i state.
     let state = QROUND 0 4 8 12 state;
         state = QROUND 1 5 9 13 state;
         state = QROUND 2 6 10 14 state;
         state = QROUND 3 7 11 15 state;
         state = QROUND 0 5 10 15 state;
         state = QROUND 1 6 11 12 state;
         state = QROUND 2 7 8 13 state
     in QROUND 3 4 9 14 state) [0..<10] state"

definition refill_block :: "u8 list \<Rightarrow> u64 \<Rightarrow> u32 list" where
  "refill_block d cc =
     (let state = CW @ map (d32 d) [0..<12];
          state = state[14 := state ! 14 XOR ucast cc];
          state = state[15 := state ! 15 XOR ucast (drop_bit 32 cc)];
          state = chacha_rounds state;
          state = fold (\<lambda>v state. state[v := state ! v + CW ! v]) [0..<4] state;
          state = fold (\<lambda>v state. state[v := state ! v + d32 d (v - 4)]) [4..<14] state;
          state = state[14 := state ! 14 + (d32 d 10 XOR ucast cc)]
      in state[15 := state ! 15 + (d32 d 11 XOR ucast (drop_bit 32 cc))])"

definition refill_write :: "nat \<Rightarrow> u32 list \<Rightarrow> u8 list \<Rightarrow> u8 list" where
  "refill_write u state buf = fold (\<lambda>v buf.
     let buf = buf[4 * u + 32 * v + 0 := ucast (state ! v)];
         buf = buf[4 * u + 32 * v + 1 := ucast (drop_bit 8 (state ! v))];
         buf = buf[4 * u + 32 * v + 2 := ucast (drop_bit 16 (state ! v))]
     in buf[4 * u + 32 * v + 3 := ucast (drop_bit 24 (state ! v))]) [0..<16] buf"

definition prng_refill :: "prng \<Rightarrow> prng" where
  "prng_refill p =
     (let cc = le_word64 (drop 48 (state_d p));
          (cc, buf) = fold (\<lambda>u (cc, buf).
            (cc + 1, refill_write u (refill_block (state_d p) cc) buf)) [0..<8] (cc, buf_d p)
      in p\<lparr>buf_d := buf, state_d := write_at 48 (le_bytes64 cc) (state_d p), ptr := 0\<rparr>)"


lemma ptr_refill [simp]: "ptr (prng_refill p) = 0"
  by (simp add: prng_refill_def split_beta Let_def)

function prng_get_bytes_loop :: "prng \<Rightarrow> nat \<Rightarrow> u8 list \<Rightarrow> prng \<times> u8 list" where
  "prng_get_bytes_loop p len out =
     (if len = 0 \<or> 512 < ptr p then (p, out)
      else
        let clen = 512 - ptr p;
            clen = (if clen > len then len else clen);
            out = out @ take clen (buf_d p);
            p = p\<lparr>ptr := ptr p + clen\<rparr>;
            p = (if ptr p = 512 then prng_refill p else p)
        in prng_get_bytes_loop p (len - clen) out)"
  by pat_completeness auto

termination
  by (relation "measures [\<lambda>(p, len, out). len, \<lambda>(p, len, out). ptr p]") auto

declare prng_get_bytes_loop.simps [simp del]

definition prng_get_bytes :: "prng \<Rightarrow> nat \<Rightarrow> prng \<times> u8 list" where
  "prng_get_bytes p len = prng_get_bytes_loop p len []"



section \<open>ChaCha20 of RFC 8439\<close>







lemma length_qround_step [simp]: "length (qround_step a b d n s) = length s"
  by (simp add: qround_step_def Let_def)

lemma length_QROUND [simp]: "length (QROUND a b c d s) = length s"
  by (simp add: QROUND_def Let_def)





section \<open>The buffer after a refill\<close>

lemma length_refill_write [simp]: "length (refill_write u st buf) = length buf"
  unfolding refill_write_def by (rule fold_length_inv) (simp add: Let_def)










section \<open>Initialization\<close>


lemma length_le_bytes32 [simp]: "length (le_bytes32 w) = 4"
  by (simp add: le_bytes32_def)






section \<open>The life of a generator\<close>





lemma get_bytes_short:
  "0 < n \<Longrightarrow> ptr p + n < 512 \<Longrightarrow> prng_get_bytes p n = (p\<lparr>ptr := ptr p + n\<rparr>, take n (buf_d p))"
proof -
  assume n: "0 < n" "ptr p + n < 512"
  then have "n < 512 - ptr p" by arith
  then show ?thesis using n unfolding prng_get_bytes_def
    by (subst prng_get_bytes_loop.simps, simp add: Let_def, subst prng_get_bytes_loop.simps) simp
qed

section \<open>Properties\<close>





text \<open>
  (C26) \<open>prng_get_bytes\<close> does not continue where the last call stopped: it copies from the start of the
  buffer whatever the pointer is, so two short calls in a row return the same bytes.
\<close>

theorem prng_get_bytes_repeats:
  assumes "0 < n" "ptr p + 2 * n < 512"
  shows "snd (prng_get_bytes p n) = take n (buf_d p) \<and> snd (prng_get_bytes (fst (prng_get_bytes p n)) n) = take n (buf_d p)"
  using assms get_bytes_short [of n p] get_bytes_short [of n "p\<lparr>ptr := ptr p + n\<rparr>"] by simp

theorem prng_get_bytes_repeats_witness:
  "snd (prng_get_bytes \<lparr>buf_d = map of_nat [0..<512], ptr = 40, state_d = []\<rparr> 3) = [0, 1, 2] \<and>
   snd (prng_get_bytes (fst (prng_get_bytes \<lparr>buf_d = map of_nat [0..<512], ptr = 40, state_d = []\<rparr> 3)) 3) = [0, 1, 2]"
proof -
  have "take 3 (map of_nat [0..<512]) = [0 :: u8, 1, 2]" by (simp add: take_map upt_rec numeral_3_eq_3)
  then show ?thesis using prng_get_bytes_repeats [of 3 "\<lparr>buf_d = map of_nat [0..<512], ptr = 40, state_d = []\<rparr>"] by simp
qed

end
