(* ===== verification/Codec.thy ===== *)
theory Codec
  imports Prelude
begin

text \<open>
  The fixed-width encodings of codec.c, 14 bits per coefficient modulo q and two's complement fields
  of a given width. Encoders return the length and the bytes written; a decoder returns the number of
  bytes it used (0 on an invalid input) and the coefficients, and \<open>None\<close> stands for a read past the end of
  its buffer. The encoders and decoders of every format are instances of one contract, the locale
  \<open>field_codec\<close>.
\<close>

section \<open>Model\<close>

function flush_bytes :: "u32 \<Rightarrow> nat \<Rightarrow> u8 list \<Rightarrow> u8 list \<times> nat" where
  "flush_bytes acc acc_len out =
     (if acc_len \<ge> 8
      then flush_bytes acc (acc_len - 8) (out @ [ucast (drop_bit (acc_len - 8) acc)])
      else (out, acc_len))"
  by pat_completeness auto
termination
  by (relation "measure (\<lambda>(acc, acc_len, out). acc_len)") auto

fun pack_loop :: "nat \<Rightarrow> u32 \<Rightarrow> nat \<Rightarrow> u32 list \<Rightarrow> u8 list \<Rightarrow> u32 \<times> nat \<times> u8 list" where
  "pack_loop bits acc acc_len [] out = (acc, acc_len, out)"
| "pack_loop bits acc acc_len (v # vs) out =
     (let acc = push_bit bits acc OR v;
          acc_len = acc_len + bits;
          (out, acc_len) = flush_bytes acc acc_len out
      in pack_loop bits acc acc_len vs out)"

definition pack_values :: "nat \<Rightarrow> u32 list \<Rightarrow> u8 list" where
  "pack_values bits vs =
     (let (acc, acc_len, out) = pack_loop bits 0 0 vs []
      in if acc_len > 0 then out @ [ucast (push_bit (8 - acc_len) acc)] else out)"

definition modq_encode :: "bool \<Rightarrow> nat \<Rightarrow> u16 list \<Rightarrow> nat \<Rightarrow> nat \<times> u8 list" where
  "modq_encode out_null max_out_len x logn =
     (let n = 2 ^ logn
      in if list_ex (\<lambda>u. x ! u \<ge> 12289) [0..<n] then (0, [])
         else
           let out_len = (n * 14 + 7) div 8
           in if out_null then (out_len, [])
              else if out_len > max_out_len then (0, [])
              else (out_len, pack_values 14 (map (\<lambda>u. ucast (x ! u)) [0..<n])))"

type_synonym 'x decoding = "('x list \<times> (u32 \<times> nat) option) option"

fun modq_decode_loop :: "nat \<Rightarrow> u32 \<Rightarrow> nat \<Rightarrow> u8 list \<Rightarrow> u16 list \<Rightarrow> u16 decoding" where
  "modq_decode_loop n acc acc_len buf x =
     (if length x < n then
        (case buf of
           [] \<Rightarrow> None
         | b # buf \<Rightarrow>
             let acc = push_bit 8 acc OR ucast b;
                 acc_len = acc_len + 8
             in if acc_len \<ge> 14 then
                  let acc_len = acc_len - 14;
                      w = drop_bit acc_len acc AND 0x3FFF
                  in if w \<ge> 12289 then Some (x, None)
                     else modq_decode_loop n acc acc_len buf (x @ [ucast w])
                else modq_decode_loop n acc acc_len buf x)
      else Some (x, Some (acc, acc_len)))"

definition decode_end :: "nat \<Rightarrow> 'x decoding \<Rightarrow> (nat \<times> 'x list) option" where
  "decode_end in_len r =
     (case r of
        None \<Rightarrow> None
      | Some (x, None) \<Rightarrow> Some (0, x)
      | Some (x, Some (acc, acc_len)) \<Rightarrow>
          if acc AND (push_bit acc_len 1 - 1) \<noteq> 0 then Some (0, x) else Some (in_len, x))"

definition modq_decode :: "nat \<Rightarrow> u8 list \<Rightarrow> (nat \<times> u16 list) option" where
  "modq_decode logn buf =
     (let n = 2 ^ logn;
          in_len = (n * 14 + 7) div 8
      in if in_len > length buf then Some (0, [])
         else decode_end in_len (modq_decode_loop n 0 0 buf []))"

definition trim_i16_encode :: "bool \<Rightarrow> nat \<Rightarrow> u16 list \<Rightarrow> nat \<Rightarrow> nat \<Rightarrow> nat \<times> u8 list" where
  "trim_i16_encode out_null max_out_len x logn bits =
     (let n = 2 ^ logn;
          maxv = 2 ^ (bits - 1) - 1;
          minv = - maxv
      in if list_ex (\<lambda>u. sint (x ! u) < minv \<or> sint (x ! u) > maxv) [0..<n] then (0, [])
         else
           let out_len = (n * bits + 7) div 8
           in if out_null then (out_len, [])
              else if out_len > max_out_len then (0, [])
              else
                let mask = push_bit bits 1 - 1
                in (out_len, pack_values bits (map (\<lambda>u. ucast (x ! u) AND mask) [0..<n])))"

definition trim_i8_encode :: "bool \<Rightarrow> nat \<Rightarrow> u8 list \<Rightarrow> nat \<Rightarrow> nat \<Rightarrow> nat \<times> u8 list" where
  "trim_i8_encode out_null max_out_len x logn bits =
     (let n = 2 ^ logn;
          maxv = 2 ^ (bits - 1) - 1;
          minv = - maxv
      in if list_ex (\<lambda>u. sint (x ! u) < minv \<or> sint (x ! u) > maxv) [0..<n] then (0, [])
         else
           let out_len = (n * bits + 7) div 8
           in if out_null then (out_len, [])
              else if out_len > max_out_len then (0, [])
              else
                let mask = push_bit bits 1 - 1
                in (out_len, pack_values bits (map (\<lambda>u. ucast (x ! u) AND mask) [0..<n])))"

text \<open>
  The decoding loop of both trim decoders: the inner loop extracts fields of \<open>bits\<close> bits
  while the accumulator has enough of them and slots are left, the outer loop feeds one
  byte. \<open>dec\<close> is the body that turns a field into a value or returns 0.
\<close>

function unpack_extract :: "nat \<Rightarrow> (u32 \<Rightarrow> 'x option) \<Rightarrow> nat \<Rightarrow> u32 \<Rightarrow> nat \<Rightarrow> 'x list \<Rightarrow> 'x list \<times> nat option" where
  "unpack_extract bits dec n acc acc_len x =
     (if acc_len \<ge> bits \<and> length x < n then
        let mask1 = push_bit bits 1 - 1;
            acc_len = acc_len - bits;
            w = drop_bit acc_len acc AND mask1
        in (case dec w of
              None \<Rightarrow> (x, None)
            | Some y \<Rightarrow> unpack_extract bits dec n acc acc_len (x @ [y]))
      else (x, Some acc_len))"
  by pat_completeness auto
termination
  by (relation "measure (\<lambda>(bits, dec, n, acc, acc_len, x). n - length x)") auto

fun unpack_loop :: "nat \<Rightarrow> (u32 \<Rightarrow> 'x option) \<Rightarrow> nat \<Rightarrow> u32 \<Rightarrow> nat \<Rightarrow> u8 list \<Rightarrow> 'x list \<Rightarrow> 'x decoding" where
  "unpack_loop bits dec n acc acc_len buf x =
     (if length x < n then
        (case buf of
           [] \<Rightarrow> None
         | b # buf \<Rightarrow>
             let acc = push_bit 8 acc OR ucast b;
                 acc_len = acc_len + 8
             in (case unpack_extract bits dec n acc acc_len x of
                   (x, None) \<Rightarrow> Some (x, None)
                 | (x, Some acc_len) \<Rightarrow> unpack_loop bits dec n acc acc_len buf x))
      else Some (x, Some (acc, acc_len)))"

definition trim_i16_value :: "nat \<Rightarrow> u32 \<Rightarrow> u16 option" where
  "trim_i16_value bits w =
     (let mask2 = push_bit (bits - 1) 1;
          w = w OR - (w AND mask2)
      in if w = - mask2 then None
         else
           let w = w OR - (w AND mask2)
           in Some (ucast w))"

definition trim_i16_decode :: "nat \<Rightarrow> nat \<Rightarrow> u8 list \<Rightarrow> (nat \<times> u16 list) option" where
  "trim_i16_decode logn bits buf =
     (let n = 2 ^ logn;
          in_len = (n * bits + 7) div 8
      in if in_len > length buf then Some (0, [])
         else decode_end in_len (unpack_loop bits (trim_i16_value bits) n 0 0 buf []))"

definition trim_i8_value :: "nat \<Rightarrow> u32 \<Rightarrow> u8 option" where
  "trim_i8_value bits w =
     (let mask2 = push_bit (bits - 1) 1;
          w = w OR - (w AND mask2)
      in if w = - mask2 then None else Some (ucast w))"

definition trim_i8_decode :: "nat \<Rightarrow> nat \<Rightarrow> u8 list \<Rightarrow> (nat \<times> u8 list) option" where
  "trim_i8_decode logn bits buf =
     (let n = 2 ^ logn;
          in_len = (n * bits + 7) div 8
      in if in_len > length buf then Some (0, [])
         else decode_end in_len (unpack_loop bits (trim_i8_value bits) n 0 0 buf []))"

definition max_fg_bits :: "u8 list" where
  "max_fg_bits = [0, 8, 8, 8, 8, 8, 7, 7, 6, 6, 5]"

definition max_FG_bits :: "u8 list" where
  "max_FG_bits = [0, 8, 8, 8, 8, 8, 8, 8, 8, 8, 8]"

definition max_sig_bits :: "u8 list" where
  "max_sig_bits = [0, 10, 11, 11, 12, 12, 12, 12, 12, 12, 12]"

declare flush_bytes.simps [simp del]
  modq_decode_loop.simps [simp del] unpack_extract.simps [simp del] unpack_loop.simps [simp del]

section \<open>Bit strings\<close>

definition bits_of :: "nat \<Rightarrow> 'a::len word \<Rightarrow> bool list" where
  "bits_of n w = rev (map (bit w) [0..<n])"

abbreviation byte_bits :: "u8 \<Rightarrow> bool list" where
  "byte_bits \<equiv> bits_of 8"

definition bytes_bits :: "u8 list \<Rightarrow> bool list" where
  "bytes_bits bs = concat (map byte_bits bs)"

lemma length_bits_of [simp]: "length (bits_of n w) = n"
  by (simp add: bits_of_def)

lemma bits_of_0 [simp]: "bits_of 0 w = []"
  by (simp add: bits_of_def)

lemma length_bytes_bits [simp]: "length (bytes_bits bs) = 8 * length bs"
  by (induction bs) (simp_all add: bytes_bits_def)

lemma bytes_bits_simps [simp]:
  "bytes_bits [] = []" "bytes_bits (b # bs) = byte_bits b @ bytes_bits bs"
  "bytes_bits (as @ bs) = bytes_bits as @ bytes_bits bs"
  by (simp_all add: bytes_bits_def)

lemma bits_of_eq_iff:
  "bits_of n w = bits_of n v \<longleftrightarrow> (\<forall>i<n. bit w i = bit v i)" for w :: "'a::len word" and v :: "'b::len word"
  by (auto simp: bits_of_def)

lemma bits_of_split: "bits_of (k + l) w = bits_of k (drop_bit l w) @ bits_of l w" for w :: "'a::len word"
proof -
  have "[0..<k + l] = [0..<l] @ [l..<k + l]"
    using upt_add_eq_append [of 0 l k] by (simp add: add.commute)
  also have "[l..<k + l] = map (\<lambda>i. i + l) [0..<k]" by (simp add: map_add_upt)
  finally show ?thesis by (simp add: bits_of_def bit_drop_bit_eq add.commute comp_def del: map_add_upt)
qed

lemma bits_of_ucast:
  "n \<le> LENGTH('b) \<Longrightarrow> bits_of n (ucast (w :: 'a::len word) :: 'b::len word) = bits_of n w"
  by (simp add: bits_of_eq_iff bit_ucast_iff)

lemma bits_of_push:
  fixes acc v :: u32
  assumes "a + k \<le> 32" and v: "\<And>i. k \<le> i \<Longrightarrow> \<not> bit v i"
  shows "bits_of (a + k) (push_bit k acc OR v) = bits_of a acc @ bits_of k v"
  unfolding bits_of_split using assms
  by (simp add: bits_of_eq_iff bit_drop_bit_eq bit_or_iff bit_push_bit_iff)

lemma byte_bits_inj: "byte_bits a = byte_bits b \<longleftrightarrow> a = b"
  by (auto simp: bits_of_eq_iff intro: bit_word_eqI)

lemma bytes_bits_inj: "bytes_bits as = bytes_bits bs \<longleftrightarrow> as = bs"
proof
  show "bytes_bits as = bytes_bits bs \<Longrightarrow> as = bs"
  proof (induction as arbitrary: bs)
    case Nil
    then show ?case by (cases bs) (auto dest: arg_cong [where f = length])
  next
    case (Cons a as)
    then show ?case by (cases bs) (auto simp: byte_bits_inj dest: arg_cong [where f = length])
  qed
qed simp

section \<open>Fixed-width packing\<close>

lemma flush_bytes_spec:
  "\<exists>bs. flush_bytes acc l out = (out @ bs, l mod 8) \<and> length bs = l div 8
     \<and> bytes_bits bs @ bits_of (l mod 8) acc = bits_of l acc"
proof (induction acc l out rule: flush_bytes.induct)
  case (1 acc l out)
  show ?case
  proof (cases "l \<ge> 8")
    case True
    let ?b = "ucast (drop_bit (l - 8) acc) :: u8"
    obtain bs where bs: "flush_bytes acc (l - 8) (out @ [?b]) = ((out @ [?b]) @ bs, (l - 8) mod 8)"
      "length bs = (l - 8) div 8" "bytes_bits bs @ bits_of ((l - 8) mod 8) acc = bits_of (l - 8) acc"
      using 1 [OF True] by blast
    have "flush_bytes acc l out = (out @ ?b # bs, l mod 8)"
      using True bs(1) by (subst flush_bytes.simps) (simp add: le_mod_geq)
    moreover have "bits_of l acc = byte_bits ?b @ bits_of (l - 8) acc"
      using True bits_of_split [of 8 "l - 8" acc] by (simp add: bits_of_ucast)
    moreover have "length (?b # bs) = l div 8" using True bs(2) by (simp add: le_div_geq)
    ultimately show ?thesis using bs(3) True by (intro exI [of _ "?b # bs"]) (simp add: le_mod_geq)
  next
    case False
    then show ?thesis by (subst flush_bytes.simps) simp
  qed
qed

lemma div_mod_add8: "x div 8 + (x mod 8 + y) div 8 = (x + y) div 8" for x y :: nat
proof -
  have "x + y = (x mod 8 + y) + x div 8 * 8" by simp
  then show ?thesis by (metis div_mult_self1 zero_neq_numeral)
qed

lemma bytes_for_bits: "l div 8 + (if l mod 8 > 0 then 1 else 0) = (l + 7) div 8" for l :: nat
proof -
  have "(r + 7) div 8 = (if r > 0 then 1 else 0)" if "r < 8" for r :: nat
    using that by (cases r) simp_all
  then show ?thesis using div_mod_add8 [of l 7] by simp
qed

lemma pack_loop_spec:
  assumes "a < 8" "bits \<le> 16" "\<And>v i. v \<in> set vs \<Longrightarrow> bits \<le> i \<Longrightarrow> \<not> bit v i"
  shows "\<exists>bs acc'. pack_loop bits acc a vs out = (acc', (a + bits * length vs) mod 8, out @ bs)
     \<and> length bs = (a + bits * length vs) div 8
     \<and> bytes_bits bs @ bits_of ((a + bits * length vs) mod 8) acc'
       = bits_of a acc @ concat (map (bits_of bits) vs)"
  using assms
proof (induction vs arbitrary: acc a out)
  case (Cons v vs)
  let ?acc = "push_bit bits acc OR v"
  obtain bs where bs: "flush_bytes ?acc (a + bits) out = (out @ bs, (a + bits) mod 8)"
    "length bs = (a + bits) div 8" "bytes_bits bs @ bits_of ((a + bits) mod 8) ?acc = bits_of (a + bits) ?acc"
    using flush_bytes_spec by blast
  have push: "bits_of (a + bits) ?acc = bits_of a acc @ bits_of bits v"
    using Cons.prems by (intro bits_of_push) auto
  obtain cs acc' where cs: "pack_loop bits ?acc ((a + bits) mod 8) vs (out @ bs) = (acc', ((a + bits) mod 8 + bits * length vs) mod 8, (out @ bs) @ cs)"
    "length cs = ((a + bits) mod 8 + bits * length vs) div 8"
    "bytes_bits cs @ bits_of (((a + bits) mod 8 + bits * length vs) mod 8) acc' = bits_of ((a + bits) mod 8) ?acc @ concat (map (bits_of bits) vs)"
    using Cons.IH [of "(a + bits) mod 8" ?acc "out @ bs"] Cons.prems by auto
  have m: "((a + bits) mod 8 + bits * length vs) mod 8 = (a + bits * length (v # vs)) mod 8"
    by (simp add: mod_simps algebra_simps)
  have d: "(a + bits) div 8 + ((a + bits) mod 8 + bits * length vs) div 8 = (a + bits * length (v # vs)) div 8"
    using div_mod_add8 [of "a + bits" "bits * length vs"] by (simp add: add.assoc)
  show ?case
    using bs cs push m d
    by (intro exI [of _ "bs @ cs"] exI [of _ acc']) (simp add: split_beta Let_def)
qed simp

definition pad_bits :: "nat \<Rightarrow> bool list" where
  "pad_bits k = replicate ((8 - k mod 8) mod 8) False"

lemma bits_of_flush:
  fixes acc :: u32
  assumes "a < 8"
  shows "byte_bits (ucast (push_bit (8 - a) acc)) = bits_of a acc @ replicate (8 - a) False"
proof -
  have "bits_of (a + (8 - a)) (push_bit (8 - a) acc OR 0) = bits_of a acc @ bits_of (8 - a) (0 :: u32)"
    using assms by (intro bits_of_push) auto
  moreover have "bits_of k (0 :: u32) = replicate k False" for k
    by (rule nth_equalityI) (simp_all add: bits_of_def rev_nth)
  ultimately show ?thesis using assms by (simp add: bits_of_ucast)
qed

lemma pack_values_spec:
  assumes "bits \<le> 16" "\<And>v i. v \<in> set vs \<Longrightarrow> bits \<le> i \<Longrightarrow> \<not> bit v i"
  shows "bytes_bits (pack_values bits vs) = concat (map (bits_of bits) vs) @ pad_bits (bits * length vs)"
    and "length (pack_values bits vs) = (bits * length vs + 7) div 8"
proof -
  let ?l = "bits * length vs"
  obtain bs acc where p: "pack_loop bits 0 0 vs [] = (acc, ?l mod 8, bs)"
    "length bs = ?l div 8" "bytes_bits bs @ bits_of (?l mod 8) acc = concat (map (bits_of bits) vs)"
    using pack_loop_spec [of 0 bits vs 0 "[]"] assms by auto
  have "bytes_bits (pack_values bits vs) = (bytes_bits bs @ bits_of (?l mod 8) acc) @ pad_bits ?l"
    using bits_of_flush [of "?l mod 8" acc] by (simp add: pack_values_def p(1) pad_bits_def)
  then show "bytes_bits (pack_values bits vs) = concat (map (bits_of bits) vs) @ pad_bits ?l"
    by (simp add: p(3))
  have "length (pack_values bits vs) = ?l div 8 + (if ?l mod 8 > 0 then 1 else 0)"
    by (simp add: pack_values_def p)
  also have "\<dots> = (?l + 7) div 8" by (rule bytes_for_bits)
  finally show "length (pack_values bits vs) = (bits * length vs + 7) div 8" .
qed

section \<open>Fixed-width unpacking\<close>

lemma mask_word: "push_bit k 1 - 1 = (mask k :: 'a::len word)"
  by (simp add: mask_eq_exp_minus_1 push_bit_eq_mult)

lemma bits_of_and_mask: "bits_of k (w AND mask k) = bits_of k w" for w :: "'a::len word"
  by (simp add: bits_of_eq_iff bit_and_iff bit_mask_iff) (auto dest: bit_imp_le_length)

definition fits :: "nat \<Rightarrow> u32 \<Rightarrow> bool" where
  "fits k w \<longleftrightarrow> (\<forall>i \<ge> k. \<not> bit w i)"

lemma fits_and_mask: "fits k (w AND mask k)"
  by (simp add: fits_def bit_and_iff bit_mask_iff)

lemma fits_bits_inj: "fits k v \<Longrightarrow> fits k w \<Longrightarrow> bits_of k v = bits_of k w \<Longrightarrow> v = w"
  by (rule bit_word_eqI) (auto simp: fits_def bits_of_eq_iff not_less [symmetric])

lemma append_bits_eq:
  "bits_of k w @ xs = bits_of k v @ ys \<longleftrightarrow> bits_of k w = bits_of k v \<and> xs = ys"
  by simp

lemma low_bits_zero:
  "a \<le> 32 \<Longrightarrow> acc AND (push_bit a 1 - 1) = 0 \<longleftrightarrow> bits_of a acc = replicate a False" for acc :: u32
proof -
  assume a: "a \<le> 32"
  have "acc AND mask a = 0 \<longleftrightarrow> (\<forall>i < a. \<not> bit acc i)"
    using a by (auto simp: bit_eq_iff bit_and_iff bit_mask_iff) (meson less_le_trans)
  moreover have "bits_of a acc = replicate a False \<longleftrightarrow> (\<forall>i < a. \<not> bit acc i)"
  proof -
    have "replicate a False = bits_of a (0 :: u32)"
      by (rule nth_equalityI) (simp_all add: bits_of_def rev_nth)
    then show ?thesis by (simp only: bits_of_eq_iff) simp
  qed
  ultimately show ?thesis unfolding mask_word by simp
qed

lemma pad_unique:
  fixes l a :: nat
  assumes "(l + a) mod 8 = 0" "a < 8"
  shows "a = (8 - l mod 8) mod 8"
proof -
  have "(l mod 8 + a) mod 8 = 0" using assms(1) by (simp add: mod_simps)
  then obtain k where k: "l mod 8 + a = 8 * k" by (auto simp: mod_eq_0_iff_dvd elim: dvdE)
  moreover have "l mod 8 + a < 16" using assms(2) mod_less_divisor [of 8 l] by linarith
  ultimately have "k = 0 \<or> k = 1" by linarith
  then show ?thesis
  proof
    assume "k = 1"
    then have "8 - l mod 8 = a" using k by simp
    then show ?thesis using assms(2) by simp
  qed (use k in simp)
qed

lemma bytes_cover: "\<not> m < (l + 7) div 8 \<Longrightarrow> l \<le> 8 * m" for l m :: nat
  by linarith

definition field_decode :: "nat \<Rightarrow> (u32 \<Rightarrow> 'x option) \<Rightarrow> nat \<Rightarrow> u8 list \<Rightarrow> (nat \<times> 'x list) option" where
  "field_decode bits dec n buf =
     (let in_len = (n * bits + 7) div 8
      in if in_len > length buf then Some (0, [])
         else decode_end in_len (unpack_loop bits dec n 0 0 buf []))"

locale field_codec =
  fixes bits :: nat
    and enc :: "'x \<Rightarrow> u32"
    and dec :: "u32 \<Rightarrow> 'x option"
    and valid :: "'x \<Rightarrow> bool"
  assumes bits_pos: "0 < bits" and bits_le: "bits \<le> 16"
    and enc_fits: "valid x \<Longrightarrow> fits bits (enc x)"
    and dec_enc: "valid x \<Longrightarrow> dec (enc x) = Some x"
    and enc_dec: "fits bits w \<Longrightarrow> dec w = Some x \<Longrightarrow> valid x \<and> enc x = w"
begin

abbreviation (input) field_bits :: "'x list \<Rightarrow> bool list" where
  "field_bits ys \<equiv> concat (map (\<lambda>y. bits_of bits (enc y)) ys)"

lemma length_field_bits: "length (field_bits ys) = bits * length ys"
  by (induction ys) simp_all

lemma bits_of_field:
  "bits \<le> a \<Longrightarrow> bits_of a acc = bits_of bits (drop_bit (a - bits) acc AND mask bits) @ bits_of (a - bits) acc"
  for acc :: u32
  using bits_of_split [of bits "a - bits" acc] by (simp add: bits_of_and_mask)

lemma extract_step:
  "bits \<le> a \<Longrightarrow> length x < n \<Longrightarrow> unpack_extract bits dec n acc a x =
     (case dec (drop_bit (a - bits) acc AND mask bits) of None \<Rightarrow> (x, None)
      | Some y \<Rightarrow> unpack_extract bits dec n acc (a - bits) (x @ [y]))"
  unfolding unpack_extract.simps [of bits dec n acc a x] Let_def mask_word by simp

lemma extract_stop: "\<not> (bits \<le> a \<and> length x < n) \<Longrightarrow> unpack_extract bits dec n acc a x = (x, Some a)"
  by (subst unpack_extract.simps) auto

lemma extract_sound:
  "unpack_extract bits dec n acc a x = (x', Some a') \<Longrightarrow>
   \<exists>ys. x' = x @ ys \<and> list_all valid ys \<and> (a' < bits \<or> n \<le> length x')
     \<and> (length x \<le> n \<longrightarrow> length x' \<le> n) \<and> a = bits * length ys + a'
     \<and> bits_of a acc = field_bits ys @ bits_of a' acc"
proof (induction "n - length x" arbitrary: a x)
  case 0
  then show ?case by (auto simp: extract_stop)
next
  case (Suc k)
  show ?case
  proof (cases "bits \<le> a")
    case False
    then show ?thesis using Suc.prems by (auto simp: extract_stop)
  next
    case True
    let ?w = "drop_bit (a - bits) acc AND mask bits"
    have lt: "length x < n" using Suc.hyps by simp
    have k: "k = n - length (x @ [y])" for y using Suc.hyps by simp
    obtain y where y: "dec ?w = Some y" "unpack_extract bits dec n acc (a - bits) (x @ [y]) = (x', Some a')"
      using Suc.prems by (auto simp: extract_step [OF True lt] split: option.splits)
    have vy: "valid y" "enc y = ?w" using enc_dec [OF fits_and_mask y(1)] by auto
    obtain ys where "x' = (x @ [y]) @ ys" "list_all valid ys" "a' < bits \<or> n \<le> length x'"
      "length (x @ [y]) \<le> n \<longrightarrow> length x' \<le> n" "a - bits = bits * length ys + a'"
      "bits_of (a - bits) acc = field_bits ys @ bits_of a' acc"
      using Suc.hyps(1) [OF k y(2)] by blast
    then show ?thesis using vy lt True bits_of_field [OF True, of acc]
      by (intro exI [of _ "y # ys"]) auto
  qed
qed

lemma extract_complete:
  "list_all valid ys \<Longrightarrow> length x + length ys = n \<Longrightarrow> bits_of a acc @ R = field_bits ys @ T \<Longrightarrow>
   \<exists>ys1 ys2 a'. ys = ys1 @ ys2 \<and> unpack_extract bits dec n acc a x = (x @ ys1, Some a')
     \<and> bits_of a' acc @ R = field_bits ys2 @ T \<and> (a' < bits \<or> ys2 = [])"
proof (induction ys arbitrary: a x)
  case Nil
  then show ?case by (intro exI [of _ "[]"] exI [of _ a]) (auto simp: extract_stop)
next
  case (Cons y ys)
  show ?case
  proof (cases "bits \<le> a")
    case False
    then show ?thesis using Cons.prems by (intro exI [of _ "[]"] exI [of _ "y # ys"] exI [of _ a]) (auto simp: extract_stop)
  next
    case True
    let ?w = "drop_bit (a - bits) acc AND mask bits"
    have split: "bits_of bits ?w @ (bits_of (a - bits) acc @ R) = bits_of bits (enc y) @ (field_bits ys @ T)"
      using Cons.prems(3) bits_of_field [OF True, of acc] by simp
    then have "?w = enc y" using Cons.prems(1) fits_and_mask enc_fits
      by (intro fits_bits_inj [of bits]) auto
    then have "dec ?w = Some y" using Cons.prems(1) dec_enc by simp
    then have step: "unpack_extract bits dec n acc a x = unpack_extract bits dec n acc (a - bits) (x @ [y])"
      using Cons.prems(2) by (subst extract_step [OF True]) auto
    obtain ys1 ys2 a' where "ys = ys1 @ ys2" "unpack_extract bits dec n acc (a - bits) (x @ [y]) = ((x @ [y]) @ ys1, Some a')"
      "bits_of a' acc @ R = field_bits ys2 @ T" "a' < bits \<or> ys2 = []"
      using Cons.IH [of "x @ [y]" "a - bits"] Cons.prems split by auto
    then show ?thesis using step by (intro exI [of _ "y # ys1"] exI [of _ ys2] exI [of _ a']) auto
  qed
qed

lemma loop_sound:
  "unpack_loop bits dec n acc a buf x = Some (x', Some (acc', a')) \<Longrightarrow> length x \<le> n \<Longrightarrow> a < bits \<Longrightarrow>
   \<exists>used rest ys. buf = used @ rest \<and> x' = x @ ys \<and> length x' = n \<and> list_all valid ys
     \<and> bits_of a acc @ bytes_bits used = field_bits ys @ bits_of a' acc'
     \<and> a + 8 * length used = bits * length ys + a' \<and> (a' < 8 \<or> used = [])"
proof (induction buf arbitrary: acc a x)
  case Nil
  then show ?case
    by (subst (asm) unpack_loop.simps) (auto split: if_splits)
next
  case (Cons b buf)
  show ?case
  proof (cases "length x < n")
    case False
    then show ?thesis using Cons.prems by (subst (asm) unpack_loop.simps) (auto intro!: exI [of _ "[]"])
  next
    case True
    let ?acc = "push_bit 8 acc OR ucast b"
    have "fits 8 (ucast b)" by (auto simp: fits_def bit_ucast_iff dest: bit_imp_le_length)
    then have push: "bits_of (a + 8) ?acc = bits_of a acc @ byte_bits b"
      using Cons.prems(3) bits_le bits_of_push [of a 8 "ucast b" acc] by (simp add: fits_def bits_of_ucast)
    obtain x1 a1 where e: "unpack_extract bits dec n ?acc (a + 8) x = (x1, Some a1)"
        "unpack_loop bits dec n ?acc a1 buf x1 = Some (x', Some (acc', a'))"
      using Cons.prems(1) True
      by (subst (asm) unpack_loop.simps) (auto simp: Let_def split: prod.splits option.splits)
    obtain ys1 where y1: "x1 = x @ ys1" "list_all valid ys1" "a1 < bits \<or> n \<le> length x1" "length x1 \<le> n"
       "a + 8 = bits * length ys1 + a1" "bits_of (a + 8) ?acc = field_bits ys1 @ bits_of a1 ?acc"
      using extract_sound [OF e(1)] True by auto
    show ?thesis
    proof (cases "length x1 < n")
      case True
      then obtain used rest ys where r: "buf = used @ rest" "x' = x1 @ ys" "length x' = n" "list_all valid ys"
          "bits_of a1 ?acc @ bytes_bits used = field_bits ys @ bits_of a' acc'"
          "a1 + 8 * length used = bits * length ys + a'" "a' < 8 \<or> used = []"
        using Cons.IH [OF e(2)] y1(3) by auto
      have "ys \<noteq> []" using True r by auto
      then have "used \<noteq> []" using r(6) y1(3) True by (cases ys) auto
      moreover have "bits_of a acc @ bytes_bits (b # used) = bits_of (a + 8) ?acc @ bytes_bits used"
        by (simp add: push)
      then have "bits_of a acc @ bytes_bits (b # used) = field_bits (ys1 @ ys) @ bits_of a' acc'"
        by (simp only: y1(6) append_assoc r(5) map_append concat_append)
      moreover have "a + 8 * length (b # used) = bits * length (ys1 @ ys) + a'"
        using y1(5) r(6) by (simp add: distrib_left)
      ultimately show ?thesis using y1(1,2) r
        by (intro exI [of _ "b # used"] exI [of _ rest] exI [of _ "ys1 @ ys"] conjI) simp_all
    next
      case False
      then have fin: "x' = x1" "acc' = ?acc" "a' = a1" using e(2)
        by (subst (asm) unpack_loop.simps, simp)+
      have "ys1 \<noteq> []" using False y1 True by auto
      then have "a1 < 8" using y1(5) Cons.prems(3) by (cases ys1) auto
      then show ?thesis using y1 fin push False
        by (intro exI [of _ "[b]"] exI [of _ buf] exI [of _ ys1]) auto
    qed
  qed
qed

lemma loop_complete:
  "bits_of a acc @ bytes_bits buf = field_bits ys @ T \<Longrightarrow> length x + length ys = n \<Longrightarrow> list_all valid ys \<Longrightarrow> a < bits \<Longrightarrow>
   \<exists>acc' a' rest. unpack_loop bits dec n acc a buf x = Some (x @ ys, Some (acc', a')) \<and> bits_of a' acc' @ rest = T"
proof (induction buf arbitrary: acc a x ys)
  case Nil
  have "ys = []"
  proof (rule ccontr)
    assume "ys \<noteq> []"
    then have "bits \<le> a" using arg_cong [OF Nil.prems(1), of length] by (cases ys) (auto simp: length_field_bits)
    then show False using Nil.prems by simp
  qed
  then show ?case using Nil.prems by (subst unpack_loop.simps) auto
next
  case (Cons b buf)
  show ?case
  proof (cases "ys = []")
    case True
    then show ?thesis using Cons.prems by (subst unpack_loop.simps) auto
  next
    case False
    then have lt: "length x < n" using Cons.prems(2) by (cases ys) auto
    let ?acc = "push_bit 8 acc OR ucast b"
    have "fits 8 (ucast b)" by (auto simp: fits_def bit_ucast_iff dest: bit_imp_le_length)
    then have push: "bits_of (a + 8) ?acc = bits_of a acc @ byte_bits b"
      using Cons.prems(4) bits_le bits_of_push [of a 8 "ucast b" acc] by (simp add: fits_def bits_of_ucast)
    obtain ys1 ys2 a1 where e: "ys = ys1 @ ys2" "unpack_extract bits dec n ?acc (a + 8) x = (x @ ys1, Some a1)"
       "bits_of a1 ?acc @ bytes_bits buf = field_bits ys2 @ T" "a1 < bits \<or> ys2 = []"
      using extract_complete [of ys x n "a + 8" ?acc "bytes_bits buf" T] Cons.prems push by auto
    have unf: "unpack_loop bits dec n acc a (b # buf) x = unpack_loop bits dec n ?acc a1 buf (x @ ys1)"
      using lt e(2) by (subst unpack_loop.simps) (simp add: Let_def)
    show ?thesis
    proof (cases "ys2 = []")
      case True
      then show ?thesis using unf e Cons.prems by (subst (asm) (2) unpack_loop.simps) auto
    next
      case False
      then show ?thesis using unf e Cons.prems Cons.IH [of a1 ?acc ys2 "x @ ys1"] by auto
    qed
  qed
qed

lemma loop_safe:
  "a < bits \<or> n \<le> length x \<Longrightarrow> bits * n \<le> bits * length x + a + 8 * length buf \<Longrightarrow> length x \<le> n \<Longrightarrow>
   unpack_loop bits dec n acc a buf x \<noteq> None"
proof (induction buf arbitrary: acc a x)
  case Nil
  have "\<not> length x < n"
  proof
    assume "length x < n"
    then have "bits * Suc (length x) \<le> bits * n" by (intro mult_le_mono2) simp
    then show False using Nil \<open>length x < n\<close> by simp
  qed
  then show ?case by (subst unpack_loop.simps) simp
next
  case (Cons b buf)
  let ?acc = "push_bit 8 acc OR ucast b"
  show ?case
  proof (cases "length x < n")
    case True
    obtain x1 r where e: "unpack_extract bits dec n ?acc (a + 8) x = (x1, r)" by fastforce
    show ?thesis
    proof (cases r)
      case None
      then show ?thesis using True e by (subst unpack_loop.simps) (simp add: Let_def)
    next
      case (Some a1)
      then obtain ys where "x1 = x @ ys" "a1 < bits \<or> n \<le> length x1" "length x1 \<le> n" "a + 8 = bits * length ys + a1"
        using extract_sound [of n ?acc "a + 8" x x1 a1] e True by auto
      then show ?thesis using Cons.IH [of a1 x1 ?acc] Cons.prems e True Some
        by (subst unpack_loop.simps) (auto simp: Let_def algebra_simps)
    qed
  qed (subst unpack_loop.simps, simp)
qed

lemma pack_spec:
  assumes "list_all valid xs"
  shows "bytes_bits (pack_values bits (map enc xs)) = field_bits xs @ pad_bits (bits * length xs)"
    and "length (pack_values bits (map enc xs)) = (length xs * bits + 7) div 8"
proof -
  have f: "\<And>v i. v \<in> set (map enc xs) \<Longrightarrow> bits \<le> i \<Longrightarrow> \<not> bit v i"
    using assms enc_fits by (auto simp: list_all_iff fits_def)
  show "bytes_bits (pack_values bits (map enc xs)) = field_bits xs @ pad_bits (bits * length xs)"
    using pack_values_spec(1) [OF bits_le, of "map enc xs", OF f] by (simp add: comp_def)
  show "length (pack_values bits (map enc xs)) = (length xs * bits + 7) div 8"
    using pack_values_spec(2) [OF bits_le, of "map enc xs", OF f] by (simp add: mult.commute)
qed

lemma decode_encode:
  assumes v: "list_all valid xs"
  shows "field_decode bits dec (length xs) (pack_values bits (map enc xs)) = Some ((length xs * bits + 7) div 8, xs)"
proof -
  obtain acc a rest where u: "unpack_loop bits dec (length xs) 0 0 (pack_values bits (map enc xs)) [] = Some (xs, Some (acc, a))"
    "bits_of a acc @ rest = pad_bits (bits * length xs)"
    using loop_complete [of 0 0 "pack_values bits (map enc xs)" xs "pad_bits (bits * length xs)" "[]"]
      pack_spec [OF v] v bits_pos by auto
  have "a \<le> length (pad_bits (bits * length xs))" using arg_cong [OF u(2), of length] by simp
  then have a: "a \<le> 32" by (simp add: pad_bits_def)
  have "bits_of a acc = replicate a False"
    using u(2) unfolding pad_bits_def by (metis append_eq_conv_conj length_bits_of take_replicate length_append length_replicate min.absorb1 le_add1)
  then show ?thesis using u(1) pack_spec(2) [OF v] low_bits_zero [OF a, of acc]
    by (simp add: field_decode_def Let_def decode_end_def)
qed

lemma encode_decode:
  assumes d: "field_decode bits dec n buf = Some (r, xs)" "r \<noteq> 0"
  shows "r = (n * bits + 7) div 8" "length xs = n" "list_all valid xs"
    "pack_values bits (map enc xs) = take r buf" "r \<le> length buf"
proof -
  obtain acc a where u: "unpack_loop bits dec n 0 0 buf [] = Some (xs, Some (acc, a))"
    and z: "acc AND (push_bit a 1 - 1) = 0" and r: "r = (n * bits + 7) div 8" "r \<le> length buf"
    using d by (auto simp: field_decode_def Let_def decode_end_def split: if_splits option.splits prod.splits)
  obtain used rest where l: "buf = used @ rest" "length xs = n" "list_all valid xs"
     "bytes_bits used = field_bits xs @ bits_of a acc" "8 * length used = bits * length xs + a" "a < 8 \<or> used = []"
    using loop_sound [OF u] bits_pos by auto
  have a: "a < 8" using l(5,6) by auto
  have pad: "a = (8 - (bits * length xs) mod 8) mod 8"
  proof -
    have "(bits * length xs + a) mod 8 = 0" using l(5) by (metis mod_mult_self1_is_0)
    then show ?thesis using a by (metis mod_mod_trivial pad_unique)
  qed
  have "bits_of a acc = replicate a False" using z low_bits_zero [of a acc] a by simp
  then have "bytes_bits (pack_values bits (map enc xs)) = bytes_bits used"
    using l(4) pack_spec(1) [OF l(3)] pad by (simp add: pad_bits_def)
  then have used: "pack_values bits (map enc xs) = used" by (simp only: bytes_bits_inj)
  then have "length used = r" using pack_spec(2) [OF l(3)] l(2) r(1) by simp
  then show "pack_values bits (map enc xs) = take r buf" using used l(1) by simp
  show "r = (n * bits + 7) div 8" "length xs = n" "list_all valid xs" "r \<le> length buf"
    using r l by auto
qed

lemma decode_safe: "field_decode bits dec n buf \<noteq> None"
proof (cases "(n * bits + 7) div 8 > length buf")
  case False
  then have "bits * n \<le> 8 * length buf" using bytes_cover [of "n * bits"] by (simp add: mult.commute)
  then have "unpack_loop bits dec n 0 0 buf [] \<noteq> None" using bits_pos by (intro loop_safe) auto
  then show ?thesis by (auto simp: field_decode_def Let_def decode_end_def split: option.splits prod.splits)
qed (simp add: field_decode_def Let_def)

end

section \<open>The fixed-width codecs\<close>

lemma unpack_extract_short: "a < bits \<Longrightarrow> unpack_extract bits dec n acc a x = (x, Some a)"
  by (subst unpack_extract.simps) simp

lemma modq_loop_unpack:
  "a < 14 \<Longrightarrow> modq_decode_loop n acc a buf x =
     unpack_loop 14 (\<lambda>w. if w \<ge> 12289 then None else Some (ucast w)) n acc a buf x"
proof (induction buf arbitrary: acc a x)
  case Nil
  show ?case by (subst modq_decode_loop.simps, subst unpack_loop.simps) simp
next
  case (Cons b buf)
  let ?acc = "push_bit 8 acc OR ucast b"
  let ?dec = "\<lambda>w :: u32. if w \<ge> 12289 then None else Some (ucast w :: u16)"
  have m: "push_bit 14 1 - 1 = (0x3FFF :: u32)" by simp
  have "unpack_extract 14 ?dec n ?acc (a + 8) x =
      (if a + 8 \<ge> 14 \<and> length x < n then
         (let w = drop_bit (a + 8 - 14) ?acc AND 0x3FFF in
          if w \<ge> 12289 then (x, None) else (x @ [ucast w], Some (a + 8 - 14)))
       else (x, Some (a + 8)))"
    unfolding unpack_extract.simps [of 14 ?dec n ?acc "a + 8" x] Let_def m
    using Cons.prems by (auto simp: unpack_extract_short)
  then show ?case using Cons.IH [of "a + 8 - 14" ?acc] Cons.IH [of "a + 8" ?acc] Cons.prems
    unfolding modq_decode_loop.simps [of n acc a "b # buf" x] unpack_loop.simps [of 14 ?dec n acc a "b # buf" x]
    by (simp add: Let_def)
qed

lemma modq_decode_field:
  "modq_decode logn buf = field_decode 14 (\<lambda>w. if w \<ge> 12289 then None else Some (ucast w)) (2 ^ logn) buf"
  by (simp add: modq_decode_def field_decode_def Let_def modq_loop_unpack)

lemma fits_iff: "fits k w \<longleftrightarrow> uint w < 2 ^ k"
proof
  assume "fits k w"
  then have "w = take_bit k w" by (intro bit_word_eqI) (auto simp: bit_take_bit_iff fits_def not_less [symmetric])
  then have "uint w = take_bit k (uint w)" by (metis unsigned_take_bit_eq)
  then show "uint w < 2 ^ k" by (metis take_bit_int_less_exp)
next
  assume "uint w < 2 ^ k"
  then have "take_bit k (uint w) = uint w" by (simp add: take_bit_int_eq_self)
  then have "bit (uint w) i \<Longrightarrow> i < k" for i by (metis bit_take_bit_iff)
  then show "fits k w" unfolding fits_def by (metis bit_uint_iff bit_imp_le_length not_le)
qed

interpretation modq: field_codec 14 "\<lambda>x :: u16. ucast x" "\<lambda>w. if w \<ge> 12289 then None else Some (ucast w)" "\<lambda>x. x < 12289"
proof
  fix x :: u16 and w :: u32
  show "0 < (14::nat)" "(14::nat) \<le> 16" by simp_all
  have u: "uint (ucast x :: u32) = uint x" using uint16_lt [of x] by (simp add: uint_ucast_mod)
  show "x < 12289 \<Longrightarrow> fits 14 (ucast x)" by (simp add: fits_iff u word_less_def)
  have c: "ucast (ucast x :: u32) = x" using uint16_lt [of x] by (simp add: word_uint_eq_iff uint_ucast_mod)
  show "x < 12289 \<Longrightarrow> (if 12289 \<le> (ucast x :: u32) then None else Some (ucast (ucast x :: u32))) = Some x"
    by (simp add: word_le_def word_less_def u c)
  show "fits 14 w \<Longrightarrow> (if 12289 \<le> w then None else Some (ucast w)) = Some x \<Longrightarrow> x < 12289 \<and> ucast x = w"
    by (auto simp: fits_iff word_less_def word_le_def uint_ucast_mod word_uint_eq_iff split: if_splits)
qed

definition sign_extend :: "nat \<Rightarrow> u32 \<Rightarrow> u32" where
  "sign_extend bits w = w OR - (w AND push_bit (bits - 1) 1)"

lemma and_single_bit:
  "b < 32 \<Longrightarrow> w AND push_bit b 1 = (if bit w b then push_bit b 1 else 0)" for w :: u32
  by (intro bit_word_eqI) (auto simp: bit_and_iff push_bit_of_1 bit_exp_iff bit_simps)

lemma sign_extend_eq:
  assumes "0 < bits" "bits \<le> 16" "fits bits w"
  shows "sign_extend bits w = word_of_int (signed_take_bit (bits - 1) (uint w))"
proof (rule bit_word_eqI)
  fix i assume i: "i < LENGTH(32)"
  let ?b = "bits - 1"
  have b: "?b < 32" using assms(1,2) by simp
  have rhs: "bit (word_of_int (signed_take_bit ?b (uint w)) :: u32) i \<longleftrightarrow> bit w (min ?b i)"
    using i b by (auto simp: bit_word_of_int_iff bit_signed_take_bit_iff bit_uint_iff min_def)
  have only: "w AND push_bit ?b 1 = (if bit w ?b then push_bit ?b 1 else 0)"
    using b by (rule and_single_bit)
  have neg: "bit (- push_bit ?b 1 :: u32) i \<longleftrightarrow> ?b \<le> i"
  proof -
    have "- push_bit ?b 1 = (NOT (mask ?b) :: u32)" by (simp add: mask_eq_exp_minus_1 push_bit_eq_mult not_eq_complement)
    then show ?thesis using i by (simp add: bit_not_iff bit_mask_iff not_less)
  qed
  have "bit (sign_extend bits w) i \<longleftrightarrow> bit w i \<or> (bit w ?b \<and> ?b \<le> i)"
    unfolding sign_extend_def only using neg by (auto simp: bit_or_iff)
  also have "\<dots> \<longleftrightarrow> bit w (min ?b i)"
    using assms(1,3) by (auto simp: fits_def min_def not_le) (metis Suc_pred le_antisym not_less_eq_eq)+
  finally show "bit (sign_extend bits w) i \<longleftrightarrow> bit (word_of_int (signed_take_bit ?b (uint w)) :: u32) i"
    using rhs by simp
qed

definition trim_valid :: "nat \<Rightarrow> 'a::len word \<Rightarrow> bool" where
  "trim_valid bits x \<longleftrightarrow> - (2 ^ (bits - 1) - 1) \<le> sint x \<and> sint x \<le> 2 ^ (bits - 1) - 1"

definition trim_enc :: "nat \<Rightarrow> 'a::len word \<Rightarrow> u32" where
  "trim_enc bits x = ucast x AND (push_bit bits 1 - 1)"

definition trim_dec :: "nat \<Rightarrow> u32 \<Rightarrow> 'a::len word option" where
  "trim_dec bits w = (if sign_extend bits w = - push_bit (bits - 1) 1 then None else Some (ucast (sign_extend bits w)))"

lemma uint_trim_enc:
  assumes "LENGTH('a) \<le> 32"
  shows "uint (trim_enc bits (x :: 'a::len word)) = take_bit bits (uint x)"
proof (rule bit_eqI)
  fix n
  show "bit (uint (trim_enc bits x)) n = bit (take_bit bits (uint x)) n"
    using assms unfolding trim_enc_def mask_word
    by (auto simp: bit_uint_iff bit_and_iff bit_mask_iff bit_ucast_iff bit_take_bit_iff dest: bit_imp_le_length)
qed

lemma ucast_word_of_int:
  "LENGTH('a) \<le> 32 \<Longrightarrow> ucast (word_of_int z :: u32) = (word_of_int z :: 'a::len word)"
  by (rule bit_word_eqI) (simp add: bit_ucast_iff bit_word_of_int_iff)

lemma trim_field_codec:
  assumes b: "0 < bits" "bits \<le> LENGTH('a)" "LENGTH('a) \<le> 16"
  shows "field_codec bits (trim_enc bits) (trim_dec bits) (trim_valid bits :: 'a::len word \<Rightarrow> bool)"
proof
  fix x :: "'a word" and w :: u32
  let ?b = "bits - 1"
  show "0 < bits" "bits \<le> 16" using b by auto
  have L32: "LENGTH('a) \<le> 32" using b by simp
  show fx: "trim_valid bits x \<Longrightarrow> fits bits (trim_enc bits x)" for x :: "'a word"
    by (simp add: fits_iff uint_trim_enc [OF L32])
  have mtwo: "- push_bit ?b 1 = (word_of_int (- (2 ^ ?b)) :: u32)" by (simp add: push_bit_eq_mult)
  have sx: "sign_extend bits w = word_of_int (signed_take_bit ?b (uint w))" if "fits bits w" for w
    using sign_extend_eq b that by auto
  have inj32: "(word_of_int y :: u32) = word_of_int z \<longleftrightarrow> y = z"
    if "- (2 ^ ?b) \<le> y" "y < 2 ^ ?b" "- (2 ^ ?b) \<le> z" "z < 2 ^ ?b" for y z :: int
  proof -
    have le: "(2::int) ^ ?b \<le> 2 ^ 16" using b by (intro power_increasing) auto
    have "sint (word_of_int v :: u32) = v" if "- (2 ^ ?b) \<le> v" "v < 2 ^ ?b" for v
      using that le by (simp add: sint_sbintrunc' signed_take_bit_int_eq_self)
    then show ?thesis using that by metis
  qed
  have rng: "- (2 ^ ?b) \<le> signed_take_bit ?b z" "signed_take_bit ?b z < 2 ^ ?b" for z :: int
    by (rule signed_take_bit_int_greater_eq_minus_exp, rule signed_take_bit_int_less_exp)
  have dec: "trim_dec bits w = (if signed_take_bit ?b (uint w) = - (2 ^ ?b) then None
       else Some (word_of_int (signed_take_bit ?b (uint w)) :: 'a word))" if "fits bits w" for w
  proof -
    have "sign_extend bits w = - push_bit ?b 1 \<longleftrightarrow> signed_take_bit ?b (uint w) = - (2 ^ ?b)"
      unfolding sx [OF that] mtwo using rng [of "uint w"] by (intro inj32) auto
    then show ?thesis unfolding trim_dec_def sx [OF that] by (auto simp: ucast_word_of_int [OF L32])
  qed
  show "trim_valid bits x \<Longrightarrow> trim_dec bits (trim_enc bits x) = Some x"
  proof -
    assume v: "trim_valid bits x"
    have "signed_take_bit ?b (uint (trim_enc bits x)) = signed_take_bit ?b (uint x)"
    proof -
      have nle: "\<not> bits \<le> ?b" using b(1) by linarith
      show ?thesis
        unfolding uint_trim_enc [OF L32] signed_take_bit_take_bit if_not_P [OF nle] by (rule refl)
    qed
    also have "\<dots> = signed_take_bit ?b (sint x)"
      using b by (simp add: sint_uint signed_take_bit_signed_take_bit min_def)
    also have "\<dots> = sint x" using v by (intro signed_take_bit_int_eq_self) (auto simp: trim_valid_def)
    finally show ?thesis using v by (simp add: dec [OF fx [OF v]] trim_valid_def)
  qed
  show "fits bits w \<Longrightarrow> trim_dec bits w = Some x \<Longrightarrow> trim_valid bits x \<and> trim_enc bits x = w"
  proof -
    assume f: "fits bits w" and d: "trim_dec bits w = Some x"
    let ?z = "signed_take_bit ?b (uint w)"
    have z: "?z \<noteq> - (2 ^ ?b)" "x = word_of_int ?z" using d by (auto simp: dec [OF f] split: if_splits)
    have mn: "min (LENGTH('a) - 1) ?b = ?b" using b by simp
    have sx: "sint x = ?z"
      unfolding z(2) sint_sbintrunc' signed_take_bit_signed_take_bit mn by (rule refl)
    have "trim_valid bits x" using z(1) rng [of "uint w"] unfolding trim_valid_def sx by linarith
    moreover have "uint (trim_enc bits x) = uint w"
    proof -
      have "uint (trim_enc bits x) = take_bit bits ?z"
        using b by (simp add: uint_trim_enc [OF L32] z(2) uint_word_of_int take_bit_eq_mod [symmetric] take_bit_take_bit min_def)
      also have "\<dots> = take_bit bits (uint w)"
        using b(1) by (simp add: take_bit_signed_take_bit)
      also have "\<dots> = uint w" using f by (simp add: fits_iff take_bit_int_eq_self)
      finally show ?thesis .
    qed
    ultimately show ?thesis by (simp add: word_uint_eq_iff)
  qed
qed

lemma trim_i8_value_eq: "trim_i8_value bits = trim_dec bits"
  by (rule ext) (simp add: trim_i8_value_def trim_dec_def sign_extend_def Let_def)

lemma sign_extend_twice:
  "let w' = sign_extend bits w in w' OR - (w' AND push_bit (bits - 1) 1) = w'"
proof -
  let ?m = "push_bit (bits - 1) 1 :: u32" and ?w = "sign_extend bits w"
  have "?w AND ?m = w AND ?m"
  proof (cases "bits - 1 < 32")
    case True
    then show ?thesis unfolding sign_extend_def and_single_bit [OF True]
      by (auto simp: bit_or_iff bit_minus_iff push_bit_of_1)
  next
    case False
    then have "?m = 0" by (simp only: push_bit_of_1 exp_eq_zero_iff len_of_numeral_defs not_less)
    then show ?thesis by (simp only: and_zero_eq)
  qed
  then show ?thesis unfolding Let_def
    by (simp only: sign_extend_def or.assoc or.idem)
qed

lemma trim_i16_value_eq: "trim_i16_value bits = trim_dec bits"
  using sign_extend_twice [of bits]
  by (intro ext) (simp add: trim_i16_value_def trim_dec_def sign_extend_def Let_def)

interpretation fg: field_codec 6 "trim_enc 6" "trim_dec 6" "trim_valid 6 :: u8 \<Rightarrow> bool"
  by (rule trim_field_codec) simp_all

interpretation FG: field_codec 8 "trim_enc 8" "trim_dec 8" "trim_valid 8 :: u8 \<Rightarrow> bool"
  by (rule trim_field_codec) simp_all

lemma modq_encode_eq:
  assumes "length x = 2 ^ logn"
  shows "modq_encode out_null max_out_len x logn =
    (let l = (2 ^ logn * 14 + 7) div 8
     in if \<not> list_all (\<lambda>v. v < 12289) x then (0, [])
        else if out_null then (l, [])
        else if max_out_len < l then (0, [])
        else (l, pack_values 14 (map ucast x)))"
  using assms unfolding modq_encode_def Let_def list_ex_nth [OF assms] map_nth_self [OF assms]
  by (simp add: list_ex_iff list_all_iff Bex_def not_less)

lemma trim_invalid:
  "list_ex (\<lambda>v. sint v < - (2 ^ (bits - 1) - 1) \<or> sint v > 2 ^ (bits - 1) - 1) x \<longleftrightarrow> \<not> list_all (trim_valid bits) x"
  by (induction x) (auto simp: trim_valid_def)

lemma trim_i8_encode_eq:
  assumes "length x = 2 ^ logn"
  shows "trim_i8_encode out_null max_out_len x logn bits =
    (let l = (2 ^ logn * bits + 7) div 8
     in if \<not> list_all (trim_valid bits) x then (0, [])
        else if out_null then (l, [])
        else if max_out_len < l then (0, [])
        else (l, pack_values bits (map (trim_enc bits) x)))"
    unfolding trim_i8_encode_def Let_def trim_invalid [symmetric] list_ex_nth [OF assms, of "\<lambda>v. sint v < - (2 ^ (bits - 1) - 1) \<or> sint v > 2 ^ (bits - 1) - 1"]
      map_nth_self [OF assms, of "\<lambda>v. ucast v AND (push_bit bits 1 - 1)"] trim_enc_def [abs_def]
  by (rule refl)

lemma trim_i16_encode_eq:
  assumes "length x = 2 ^ logn"
  shows "trim_i16_encode out_null max_out_len x logn bits =
    (let l = (2 ^ logn * bits + 7) div 8
     in if \<not> list_all (trim_valid bits) x then (0, [])
        else if out_null then (l, [])
        else if max_out_len < l then (0, [])
        else (l, pack_values bits (map (trim_enc bits) x)))"
    unfolding trim_i16_encode_def Let_def trim_invalid [symmetric] list_ex_nth [OF assms, of "\<lambda>v. sint v < - (2 ^ (bits - 1) - 1) \<or> sint v > 2 ^ (bits - 1) - 1"]
      map_nth_self [OF assms, of "\<lambda>v. ucast v AND (push_bit bits 1 - 1)"] trim_enc_def [abs_def]
  by (rule refl)

lemma trim_i8_decode_field: "trim_i8_decode logn bits buf = field_decode bits (trim_dec bits) (2 ^ logn) buf"
  by (simp add: trim_i8_decode_def field_decode_def Let_def trim_i8_value_eq)

lemma trim_i16_decode_field: "trim_i16_decode logn bits buf = field_decode bits (trim_dec bits) (2 ^ logn) buf"
  by (simp add: trim_i16_decode_def field_decode_def Let_def trim_i16_value_eq)

lemma trim_roundtrip:
  assumes "0 < bits" "bits \<le> LENGTH('a)" "LENGTH('a) \<le> 16" "list_all (trim_valid bits) (x :: 'a::len word list)"
  shows "field_decode bits (trim_dec bits) (length x) (pack_values bits (map (trim_enc bits) x)) = Some ((length x * bits + 7) div 8, x)"
    and "length (pack_values bits (map (trim_enc bits) x)) = (length x * bits + 7) div 8"
  using field_codec.decode_encode [OF trim_field_codec [OF assms(1-3)] assms(4)]
    field_codec.pack_spec(2) [OF trim_field_codec [OF assms(1-3)] assms(4)] by auto

section \<open>Properties\<close>

text \<open>
  Public keys: whenever \<open>modq_encode\<close> accepts a polynomial, \<open>modq_decode\<close> gives it back
  and consumes exactly the bytes that were written.
\<close>

lemma modq_decode_encode:
  assumes "length x = 2 ^ logn" "modq_encode False max_out_len x logn = (r, out)" "r \<noteq> 0"
  shows "modq_decode logn out = Some (r, x) \<and> length out = r \<and> r = (2 ^ logn * 14 + 7) div 8"
  using assms modq.decode_encode [of x] modq.pack_spec(2) [of x]
  by (auto simp: modq_encode_eq modq_decode_field Let_def split: if_splits)

text \<open>
  Public keys are encoded canonically: bytes that \<open>modq_decode\<close> accepts are exactly the
  bytes \<open>modq_encode\<close> writes for the decoded polynomial, whose coefficients are all below q.
\<close>

lemma modq_encode_decode:
  assumes "modq_decode logn buf = Some (r, x)" "r \<noteq> 0"
  shows "length x = 2 ^ logn \<and> list_all (\<lambda>v. v < 12289) x \<and> modq_encode False r x logn = (r, take r buf)"
  using assms modq.encode_decode [of "2 ^ logn" buf r x]
  by (auto simp: modq_encode_eq modq_decode_field Let_def)

text \<open>
  Private key polynomials: for every width up to the width of the element type, the
  trimmed signed encodings decode to the vector that was encoded.
\<close>

lemma trim_decode_encode:
  assumes "0 < bits" "length x = 2 ^ logn" "length y = 2 ^ logn" "r \<noteq> 0" "s \<noteq> 0"
    and "bits \<le> 8" "trim_i8_encode False max_out_len x logn bits = (r, out)"
    and "bits' \<le> 16" "0 < bits'" "trim_i16_encode False max_out_len' y logn bits' = (s, out')"
  shows "trim_i8_decode logn bits out = Some (r, x) \<and> length out = r \<and>
    trim_i16_decode logn bits' out' = Some (s, y) \<and> length out' = s"
  using assms trim_roundtrip [of bits x] trim_roundtrip [of bits' y]
  by (auto simp: trim_i8_encode_eq trim_i16_encode_eq trim_i8_decode_field trim_i16_decode_field Let_def split: if_splits)

text \<open>
  Private key polynomials are encoded canonically: the decoder accepts only what the
  encoder writes (the value \<open>- 2^(bits - 1)\<close> and nonzero padding are refused).
\<close>

lemma trim_i8_encode_decode:
  assumes "0 < bits" "bits \<le> 8" "trim_i8_decode logn bits buf = Some (r, x)" "r \<noteq> 0"
  shows "length x = 2 ^ logn \<and> trim_i8_encode False r x logn bits = (r, take r buf)"
proof -
  have fc: "field_codec bits (trim_enc bits) (trim_dec bits) (trim_valid bits :: u8 \<Rightarrow> bool)"
    using assms by (intro trim_field_codec) auto
  show ?thesis
    using field_codec.encode_decode [OF fc, of "2 ^ logn" buf r x] assms
    by (auto simp: trim_i8_encode_eq trim_i8_decode_field Let_def)
qed

text \<open>
  No input makes a fixed-width decoder read past the end of its buffer: every read of
  the loops is in range, for all degrees and all byte strings.
\<close>

lemma fixed_decoders_safe:
  assumes "0 < bits" "bits \<le> 8"
  shows "modq_decode logn buf \<noteq> None \<and> trim_i8_decode logn bits buf \<noteq> None \<and> trim_i16_decode logn bits buf \<noteq> None"
proof -
  have fc: "field_codec bits (trim_enc bits) (trim_dec bits) (trim_valid bits :: u8 \<Rightarrow> bool)"
    "field_codec bits (trim_enc bits) (trim_dec bits) (trim_valid bits :: u16 \<Rightarrow> bool)"
    using assms by (intro trim_field_codec; simp)+
  show ?thesis
    using modq.decode_safe field_codec.decode_safe [OF fc(1)] field_codec.decode_safe [OF fc(2)]
    by (simp add: modq_decode_field trim_i8_decode_field trim_i16_decode_field)
qed

end
