(* ===== verification/Codec_Comp.thy ===== *)
theory Codec_Comp
  imports Codec
begin

text \<open>
  The compressed signature format of codec.c: sign, seven low bits, and the high bits in unary. The
  encoder is shown to write the bit string of the format, the decoder to accept exactly these strings,
  padded with zero bits to whole bytes.
\<close>

section \<open>Model\<close>

text \<open>The loop that stores full bytes, \<open>None\<close> when the buffer is full (return 0).\<close>

function comp_flush :: "bool \<Rightarrow> nat \<Rightarrow> u32 \<Rightarrow> nat \<Rightarrow> nat \<Rightarrow> u8 list \<Rightarrow> u8 list \<times> (nat \<times> nat) option" where
  "comp_flush out_null max_out_len acc acc_len v out =
     (if acc_len \<ge> 8 then
        let acc_len = acc_len - 8
        in if \<not> out_null \<and> v \<ge> max_out_len then (out, None)
           else comp_flush out_null max_out_len acc acc_len (v + 1)
             (if out_null then out else out @ [ucast (drop_bit acc_len acc)])
      else (out, Some (acc_len, v)))"
  by pat_completeness auto
termination
  by (relation "measure (\<lambda>(out_null, max_out_len, acc, acc_len, v, out). acc_len)") auto

definition comp_push :: "u32 \<Rightarrow> nat \<Rightarrow> u16 \<Rightarrow> u32 \<times> nat" where
  "comp_push acc acc_len xu =
     (let acc = push_bit 1 acc;
          t = sint xu;
          (t, acc) = (if t < 0 then (- t, acc OR 1) else (t, acc));
          w = (word_of_int t :: u32);
          acc = push_bit 7 acc;
          acc = acc OR (w AND 127);
          w = drop_bit 7 w;
          acc_len = acc_len + 8;
          acc = push_bit (unat w + 1) acc;
          acc = acc OR 1;
          acc_len = acc_len + unat w + 1
      in (acc, acc_len))"

fun comp_encode_loop :: "bool \<Rightarrow> nat \<Rightarrow> u32 \<Rightarrow> nat \<Rightarrow> nat \<Rightarrow> u16 list \<Rightarrow> u8 list \<Rightarrow> u8 list \<times> (u32 \<times> nat \<times> nat) option" where
  "comp_encode_loop out_null max_out_len acc acc_len v [] out = (out, Some (acc, acc_len, v))"
| "comp_encode_loop out_null max_out_len acc acc_len v (xu # xs) out =
     (let (acc, acc_len) = comp_push acc acc_len xu
      in case comp_flush out_null max_out_len acc acc_len v out of
           (out, None) \<Rightarrow> (out, None)
         | (out, Some (acc_len, v)) \<Rightarrow> comp_encode_loop out_null max_out_len acc acc_len v xs out)"

definition comp_encode :: "bool \<Rightarrow> nat \<Rightarrow> u16 list \<Rightarrow> nat \<Rightarrow> nat \<times> u8 list" where
  "comp_encode out_null max_out_len x logn =
     (let n = 2 ^ logn
      in if list_ex (\<lambda>u. sint (x ! u) < - 2047 \<or> sint (x ! u) > 2047) [0..<n] then (0, [])
         else
           case comp_encode_loop out_null max_out_len 0 0 0 (map (\<lambda>u. x ! u) [0..<n]) [] of
             (out, None) \<Rightarrow> (0, out)
           | (out, Some (acc, acc_len, v)) \<Rightarrow>
               if acc_len > 0 then
                 if \<not> out_null \<and> v \<ge> max_out_len then (0, out)
                 else (v + 1, if out_null then out else out @ [ucast (push_bit (8 - acc_len) acc)])
               else (v, out))"

text \<open>decode: unary part\<close>

definition unary_measure :: "u32 \<Rightarrow> nat" where
  "unary_measure m = (if m \<le> 2047 then 2048 - unat m else 5000)"

lemma unary_measure_decreases:
  assumes "\<not> 2047 < m + 128"
  shows "unary_measure (m + 128) < unary_measure m"
proof (cases "m \<le> 2047")
  case True
  then have "unat m \<le> 2047" by (simp add: word_le_nat_alt)
  then have "unat (m + 128) = unat m + 128" by (simp add: unat_word_ariths)
  then show ?thesis using assms True by (simp add: unary_measure_def word_less_nat_alt word_le_nat_alt)
next
  case False
  then show ?thesis using assms by (simp add: unary_measure_def not_less)
qed

function comp_unary :: "u32 \<Rightarrow> nat \<Rightarrow> nat \<Rightarrow> u32 \<Rightarrow> u8 list \<Rightarrow> (u32 \<times> nat \<times> nat \<times> u32) option" where
  "comp_unary acc acc_len v m buf =
     (let more = (acc_len = 0)
      in if more \<and> v \<ge> length buf then None
         else
           let (acc, acc_len, v) =
                 (if more then (push_bit 8 acc OR ucast (buf ! v), 8, v + 1) else (acc, acc_len, v));
               acc_len = acc_len - 1
           in if drop_bit acc_len acc AND 1 \<noteq> 0 then Some (acc, acc_len, v, m)
              else
                let m = m + 128
                in if m > 2047 then None
                   else comp_unary acc acc_len v m buf)"
  by pat_completeness auto
termination
  by (relation "measure (\<lambda>(acc, acc_len, v, m, buf). unary_measure m)")
    (simp, simp only: in_measure prod.case, rule unary_measure_decreases, assumption)

fun comp_decode_loop :: "nat \<Rightarrow> u32 \<Rightarrow> nat \<Rightarrow> nat \<Rightarrow> u8 list \<Rightarrow> u16 list \<Rightarrow> u16 list \<times> (u32 \<times> nat \<times> nat) option" where
  "comp_decode_loop 0 acc acc_len v buf x = (x, Some (acc, acc_len, v))"
| "comp_decode_loop (Suc k) acc acc_len v buf x =
     (if v \<ge> length buf then (x, None)
      else
        let acc = push_bit 8 acc OR ucast (buf ! v);
            v = v + 1;
            b = drop_bit acc_len acc;
            s = b AND 128;
            m = b AND 127
        in case comp_unary acc acc_len v m buf of
             None \<Rightarrow> (x, None)
           | Some (acc, acc_len, v, m) \<Rightarrow>
               if s \<noteq> 0 \<and> m = 0 then (x, None)
               else comp_decode_loop k acc acc_len v buf (x @ [if s \<noteq> 0 then ucast (- m) else ucast m]))"

definition comp_decode :: "nat \<Rightarrow> u8 list \<Rightarrow> nat \<times> u16 list" where
  "comp_decode logn buf =
     (case comp_decode_loop (2 ^ logn) 0 0 0 buf [] of
        (x, None) \<Rightarrow> (0, x)
      | (x, Some (acc, acc_len, v)) \<Rightarrow>
          if acc AND (push_bit acc_len 1 - 1) \<noteq> 0 then (0, x) else (v, x))"

declare comp_flush.simps [simp del] comp_unary.simps [simp del]

section \<open>Reference: the code on bit strings\<close>

definition nat_bits :: "nat \<Rightarrow> nat \<Rightarrow> bool list" where
  "nat_bits n k = rev (map (bit k) [0..<n])"

definition bits_val :: "bool list \<Rightarrow> nat" where
  "bits_val bs = horner_sum of_bool 2 (rev bs)"

definition comp_bits :: "int \<Rightarrow> bool list" where
  "comp_bits t = (t < 0) # nat_bits 7 (nat \<bar>t\<bar>) @ replicate (nat \<bar>t\<bar> div 128) False @ [True]"

fun ref_unary :: "nat \<Rightarrow> bool list \<Rightarrow> (nat \<times> bool list) option" where
  "ref_unary m [] = None"
| "ref_unary m (True # T) = Some (m, T)"
| "ref_unary m (False # T) = (if m + 128 > 2047 then None else ref_unary (m + 128) T)"

definition ref_one :: "bool list \<Rightarrow> (int \<times> bool list) option" where
  "ref_one bs = (if length bs < 8 then None
     else case ref_unary (bits_val (take 7 (tl bs))) (drop 8 bs) of
       None \<Rightarrow> None
     | Some (m, T) \<Rightarrow> if hd bs \<and> m = 0 then None else Some (if hd bs then - int m else int m, T))"

primrec ref_decode :: "nat \<Rightarrow> bool list \<Rightarrow> (int list \<times> bool list) option" where
  "ref_decode 0 bs = Some ([], bs)"
| "ref_decode (Suc k) bs = (case ref_one bs of None \<Rightarrow> None
     | Some (t, T) \<Rightarrow> (case ref_decode k T of None \<Rightarrow> None | Some (ts, U) \<Rightarrow> Some (t # ts, U)))"

lemma length_nat_bits [simp]: "length (nat_bits n k) = n"
  by (simp add: nat_bits_def)

lemma bits_val_nat_bits: "bits_val (nat_bits n k) = k mod 2 ^ n"
  by (simp add: bits_val_def nat_bits_def horner_sum_bit_eq_take_bit take_bit_eq_mod)

lemma bits_val_bits_of: "bits_val (bits_of n w) = unat w mod 2 ^ n" for w :: "'a::len word"
proof -
  have "bits_of n w = nat_bits n (unat w)" by (simp add: bits_of_def nat_bits_def bit_unsigned_iff)
  then show ?thesis by (simp add: bits_val_nat_bits)
qed

lemma nat_bits_bits_val: "nat_bits (length bs) (bits_val bs) = bs"
  by (rule nth_equalityI) (auto simp: nat_bits_def bits_val_def rev_nth bit_horner_sum_bit_iff)

lemma bits_val_less: "bits_val bs < 2 ^ length bs"
  using bits_val_nat_bits [of "length bs" "bits_val bs"] by (simp add: nat_bits_bits_val) (metis mod_less_divisor zero_less_numeral zero_less_power)

lemma nat_bits_low: "nat_bits n (m + 2 ^ n * k) = nat_bits n m"
proof -
  have "nat_bits n k = nat_bits n (k mod 2 ^ n)" for k
    by (simp add: nat_bits_def take_bit_eq_mod [symmetric] bit_take_bit_iff)
  from this [of "m + 2 ^ n * k"] this [of m] show ?thesis by simp
qed

lemma ref_unary_iff:
  "ref_unary m bs = Some (m', T) \<longleftrightarrow>
    (\<exists>k. bs = replicate k False @ True # T \<and> m' = m + 128 * k \<and> (k = 0 \<or> m' \<le> 2047))"
proof (induction m bs rule: ref_unary.induct)
  case (3 m U)
  show ?case
  proof
    assume "ref_unary m (False # U) = Some (m', T)"
    then obtain k where "U = replicate k False @ True # T" "m' = m + 128 + 128 * k" "m + 128 \<le> 2047" "k = 0 \<or> m' \<le> 2047"
      using 3 by (auto split: if_splits)
    then show "\<exists>k. False # U = replicate k False @ True # T \<and> m' = m + 128 * k \<and> (k = 0 \<or> m' \<le> 2047)"
      by (intro exI [of _ "Suc k"]) auto
  next
    assume "\<exists>k. False # U = replicate k False @ True # T \<and> m' = m + 128 * k \<and> (k = 0 \<or> m' \<le> 2047)"
    then obtain k where "False # U = replicate k False @ True # T" "m' = m + 128 * k" "k = 0 \<or> m' \<le> 2047" by blast
    then show "ref_unary m (False # U) = Some (m', T)" using 3 by (cases k) auto
  qed
next
  case (2 m U)
  have "(\<exists>k. True # U = replicate k False @ True # T \<and> Q k) \<longleftrightarrow> U = T \<and> Q 0" for Q
  proof
    assume "\<exists>k. True # U = replicate k False @ True # T \<and> Q k"
    then obtain k where "True # U = replicate k False @ True # T" "Q k" by blast
    then show "U = T \<and> Q 0" by (cases k) auto
  qed (auto intro!: exI [of _ 0])
  then show ?case by auto
qed simp

lemma comp_bits_split:
  assumes "hd bs \<longrightarrow> t \<noteq> 0" "hd bs = (t < 0)" "nat \<bar>t\<bar> = bits_val (take 7 (tl bs)) + 128 * k" "8 \<le> length bs"
    "drop 8 bs = replicate k False @ True # T"
  shows "bs = comp_bits t @ T"
proof -
  have l: "length (take 7 (tl bs)) = 7" using assms(4) by simp
  have b: "bits_val (take 7 (tl bs)) < 128" using bits_val_less [of "take 7 (tl bs)"] l by simp
  have "nat_bits 7 (nat \<bar>t\<bar>) = take 7 (tl bs)"
    using nat_bits_low [of 7 "bits_val (take 7 (tl bs))" k] nat_bits_bits_val [of "take 7 (tl bs)"] assms(3) l by simp
  moreover have "nat \<bar>t\<bar> div 128 = k" using assms(3) b by simp
  moreover have "bs = hd bs # take 7 (tl bs) @ drop 8 bs" using assms(4) by (cases bs) simp_all
  ultimately show ?thesis using assms(2,5) by (simp add: comp_bits_def)
qed

lemma ref_one_complete: "\<bar>t\<bar> \<le> 2047 \<Longrightarrow> ref_one (comp_bits t @ T) = Some (t, T)"
proof -
  assume t: "\<bar>t\<bar> \<le> 2047"
  have "nat \<bar>t\<bar> mod 128 + 128 * (nat \<bar>t\<bar> div 128) = nat \<bar>t\<bar>" by simp
  moreover have "nat \<bar>t\<bar> \<le> 2047" using t by linarith
  ultimately have "ref_unary (nat \<bar>t\<bar> mod 128) (replicate (nat \<bar>t\<bar> div 128) False @ True # T) = Some (nat \<bar>t\<bar>, T)"
    unfolding ref_unary_iff by (intro exI [of _ "nat \<bar>t\<bar> div 128"]) simp
  then show ?thesis by (simp add: ref_one_def comp_bits_def bits_val_nat_bits)
qed

lemma ref_one_sound: "ref_one bs = Some (t, T) \<Longrightarrow> \<bar>t\<bar> \<le> 2047 \<and> bs = comp_bits t @ T"
proof -
  assume "ref_one bs = Some (t, T)"
  then obtain m where u: "ref_unary (bits_val (take 7 (tl bs))) (drop 8 bs) = Some (m, T)" "8 \<le> length bs"
     "\<not> (hd bs \<and> m = 0)" "t = (if hd bs then - int m else int m)"
    by (auto simp: ref_one_def split: if_splits option.splits)
  then obtain k where k: "drop 8 bs = replicate k False @ True # T" "m = bits_val (take 7 (tl bs)) + 128 * k" "k = 0 \<or> m \<le> 2047"
    by (auto simp: ref_unary_iff)
  have "bits_val (take 7 (tl bs)) < 2 ^ 7" using bits_val_less [of "take 7 (tl bs)"] u(2) by simp
  then have "m \<le> 2047" using k by auto
  moreover have "bs = comp_bits t @ T" using u k by (intro comp_bits_split) auto
  ultimately show ?thesis using u(4) by auto
qed

lemma ref_decode_complete:
  "list_all (\<lambda>t. \<bar>t\<bar> \<le> 2047) ts \<Longrightarrow> ref_decode (length ts) (concat (map comp_bits ts) @ T) = Some (ts, T)"
  by (induction ts) (simp_all add: ref_one_complete)

lemma ref_decode_sound:
  "ref_decode k bs = Some (ts, T) \<Longrightarrow> length ts = k \<and> list_all (\<lambda>t. \<bar>t\<bar> \<le> 2047) ts \<and> bs = concat (map comp_bits ts) @ T"
  by (induction k arbitrary: bs ts) (fastforce dest: ref_one_sound split: option.splits prod.splits)+

section \<open>The encoder writes the bit string\<close>

lemma bits_of_one: "bits_of (k + 1) (1 :: u32) = replicate k False @ [True]"
  unfolding bits_of_def
  by (rule nth_equalityI) (auto simp: rev_nth nth_append bit_1_iff simp del: upt_Suc upt.simps)

lemma bits_of_nat_bits: "bits_of n w = nat_bits n (unat w)" for w :: "'a::len word"
  by (simp add: bits_of_def nat_bits_def bit_unsigned_iff)

lemma unat_abs_word: "\<bar>t\<bar> \<le> 2047 \<Longrightarrow> unat (word_of_int \<bar>t\<bar> :: u32) = nat \<bar>t\<bar>"
  by (simp add: unat_eq_nat_uint uint_word_of_int)

lemma comp_push_spec:
  assumes "a < 8" "\<bar>sint x\<bar> \<le> 2047"
  shows "\<exists>acc'. comp_push acc a x = (acc', a + length (comp_bits (sint x))) \<and>
    bits_of (a + length (comp_bits (sint x))) acc' = bits_of a acc @ comp_bits (sint x)"
proof -
  let ?t = "sint x" and ?w = "word_of_int \<bar>sint x\<bar> :: u32"
  let ?k = "nat \<bar>sint x\<bar> div 128" and ?s = "if sint x < 0 then 1 else 0 :: u32"
  have uw: "unat ?w = nat \<bar>?t\<bar>" using assms(2) by (rule unat_abs_word)
  have k: "unat (drop_bit 7 ?w) = ?k" by (simp add: unat_shr uw)
  have k15: "?k \<le> 15" using assms(2) by linarith
  let ?a1 = "push_bit 1 acc OR ?s"
  let ?a2 = "push_bit 7 ?a1 OR (?w AND 127)"
  let ?a3 = "push_bit (?k + 1) ?a2 OR 1"
  have s1: "bits_of (a + 1) ?a1 = bits_of a acc @ [?t < 0]"
    using assms(1) by (subst bits_of_push) (auto simp: bit_1_iff bits_of_def)
  have m: "(127 :: u32) = mask 7" by (simp add: mask_eq_exp_minus_1)
  have s2: "bits_of (a + 1 + 7) ?a2 = bits_of (a + 1) ?a1 @ nat_bits 7 (nat \<bar>?t\<bar>)"
    unfolding m using assms(1) 
    by (subst bits_of_push) (auto simp: bit_and_iff bit_mask_iff bits_of_and_mask bits_of_nat_bits [of 7 ?w] uw)
  have s3: "bits_of (a + 1 + 7 + (?k + 1)) ?a3 = bits_of (a + 1 + 7) ?a2 @ (replicate ?k False @ [True])"
    using assms(1) k15 by (subst bits_of_push) (auto simp: bit_1_iff bits_of_one [simplified] simp del: replicate_Suc)
  have l: "a + length (comp_bits ?t) = a + 1 + 7 + (?k + 1)" by (simp add: comp_bits_def)
  have "comp_push acc a x = (?a3, a + length (comp_bits ?t))"
  proof -
    have "(if ?t < 0 then (- ?t, push_bit 1 acc OR 1) else (?t, push_bit 1 acc)) = (\<bar>?t\<bar>, ?a1)" by simp
    then show ?thesis unfolding comp_push_def Let_def l by (simp only: prod.case k) simp
  qed
  moreover have "bits_of (a + length (comp_bits ?t)) ?a3 = bits_of a acc @ comp_bits ?t"
    unfolding l s3 s2 s1 by (simp add: comp_bits_def)
  ultimately show ?thesis by blast
qed

lemma comp_flush_ok:
  "length out + l div 8 \<le> mx \<Longrightarrow>
   comp_flush False mx acc l (length out) out = (fst (flush_bytes acc l out), Some (l mod 8, length out + l div 8))"
proof (induction acc l out rule: flush_bytes.induct)
  case (1 acc l out)
  show ?case
  proof (cases "l \<ge> 8")
    case True
    let ?out = "out @ [ucast (drop_bit (l - 8) acc)]"
    have d: "l div 8 = Suc ((l - 8) div 8)" "l mod 8 = (l - 8) mod 8" using True by (simp_all add: le_div_geq le_mod_geq)
    have "comp_flush False mx acc l (length out) out = comp_flush False mx acc (l - 8) (length ?out) ?out"
      using True 1(2) d by (subst comp_flush.simps) (simp add: Let_def)
    moreover have "flush_bytes acc l out = flush_bytes acc (l - 8) ?out"
      using True by (subst flush_bytes.simps) simp
    ultimately show ?thesis using 1(1) [OF True] 1(2) by (simp add: d)
  qed (subst comp_flush.simps, subst flush_bytes.simps, simp)
qed

lemma comp_flush_full:
  "mx < length out + l div 8 \<Longrightarrow> length out \<le> mx \<Longrightarrow> snd (comp_flush False mx acc l (length out) out) = None"
proof (induction acc l out rule: flush_bytes.induct)
  case (1 acc l out)
  have l: "l \<ge> 8" using 1(2,3) by (cases "l < 8") auto
  have d: "l div 8 = Suc ((l - 8) div 8)" using l by (simp add: le_div_geq)
  show ?case
    using 1(1) [OF l] 1(2,3) l d by (subst comp_flush.simps) (auto simp: Let_def)
qed

abbreviation comp_string :: "u16 list \<Rightarrow> bool list" where
  "comp_string xs \<equiv> concat (map (\<lambda>x. comp_bits (sint x)) xs)"

abbreviation comp_range :: "u16 list \<Rightarrow> bool" where
  "comp_range xs \<equiv> list_all (\<lambda>x. \<bar>sint x\<bar> \<le> 2047) xs"

lemma comp_step:
  assumes "a < 8" "\<bar>sint x\<bar> \<le> 2047" "l = a + length (comp_bits (sint x))"
  obtains acc1 bs where "comp_push acc a x = (acc1, l)" "flush_bytes acc1 l out = (out @ bs, l mod 8)" "length bs = l div 8"
    "bytes_bits bs @ bits_of (l mod 8) acc1 = bits_of a acc @ comp_bits (sint x)"
  using comp_push_spec [OF assms(1,2), of acc] flush_bytes_spec [of _ l out] assms(3) by metis

lemma comp_encode_loop_ok:
  assumes "a < 8" "comp_range xs" "length out + (a + length (comp_string xs)) div 8 \<le> mx"
  shows "\<exists>acc' bs. comp_encode_loop False mx acc a (length out) xs out =
      (out @ bs, Some (acc', (a + length (comp_string xs)) mod 8, length (out @ bs)))
    \<and> length bs = (a + length (comp_string xs)) div 8
    \<and> bytes_bits bs @ bits_of ((a + length (comp_string xs)) mod 8) acc' = bits_of a acc @ comp_string xs"
  using assms
proof (induction xs arbitrary: acc a out)
  case (Cons x xs)
  define l where "l = a + length (comp_bits (sint x))"
  obtain acc1 bs where p: "comp_push acc a x = (acc1, l)" "flush_bytes acc1 l out = (out @ bs, l mod 8)" "length bs = l div 8"
    "bytes_bits bs @ bits_of (l mod 8) acc1 = bits_of a acc @ comp_bits (sint x)"
    using Cons.prems by (auto intro: comp_step [OF _ _ l_def, of acc out])
  have L: "a + length (comp_string (x # xs)) = l + length (comp_string xs)" by (simp add: l_def)
  have d: "l div 8 + (l mod 8 + length (comp_string xs)) div 8 = (l + length (comp_string xs)) div 8"
    by (rule div_mod_add8)
  have fl: "comp_flush False mx acc1 l (length out) out = (out @ bs, Some (l mod 8, length (out @ bs)))"
    using comp_flush_ok [of out l mx acc1] Cons.prems(3) p(2,3) d unfolding L by simp
  obtain acc' cs where c: "comp_encode_loop False mx acc1 (l mod 8) (length (out @ bs)) xs (out @ bs) =
      ((out @ bs) @ cs, Some (acc', (l mod 8 + length (comp_string xs)) mod 8, length ((out @ bs) @ cs)))"
     "length cs = (l mod 8 + length (comp_string xs)) div 8"
     "bytes_bits cs @ bits_of ((l mod 8 + length (comp_string xs)) mod 8) acc' = bits_of (l mod 8) acc1 @ comp_string xs"
    using Cons.IH [of "l mod 8" "out @ bs" acc1] Cons.prems(2,3) p(3) d unfolding L by auto
  have m: "(l mod 8 + length (comp_string xs)) mod 8 = (l + length (comp_string xs)) mod 8" by (simp add: mod_simps)
  have "comp_encode_loop False mx acc a (length out) (x # xs) out = (out @ bs @ cs, Some (acc', (l + length (comp_string xs)) mod 8, length (out @ bs @ cs)))"
    using p(1) fl c(1) m by (simp add: Let_def)
  moreover have "bytes_bits (bs @ cs) @ bits_of ((l + length (comp_string xs)) mod 8) acc' = bits_of a acc @ comp_string (x # xs)"
    using c(3) p(4) unfolding m by simp
  moreover have "length (bs @ cs) = (l + length (comp_string xs)) div 8" using p(3) c(2) d by simp
  ultimately show ?case unfolding L by blast
qed simp

lemma comp_encode_loop_full:
  assumes "a < 8" "comp_range xs" "mx < length out + (a + length (comp_string xs)) div 8" "length out \<le> mx"
  shows "snd (comp_encode_loop False mx acc a (length out) xs out) = None"
  using assms
proof (induction xs arbitrary: acc a out)
  case (Cons x xs)
  define l where "l = a + length (comp_bits (sint x))"
  obtain acc1 bs where p: "comp_push acc a x = (acc1, l)" "flush_bytes acc1 l out = (out @ bs, l mod 8)" "length bs = l div 8"
    using Cons.prems by (auto intro: comp_step [OF _ _ l_def, of acc out])
  have L: "a + length (comp_string (x # xs)) = l + length (comp_string xs)" by (simp add: l_def)
  have d: "l div 8 + (l mod 8 + length (comp_string xs)) div 8 = (l + length (comp_string xs)) div 8"
    by (rule div_mod_add8)
  show ?case
  proof (cases "length out + l div 8 \<le> mx")
    case True
    then have "comp_flush False mx acc1 l (length out) out = (out @ bs, Some (l mod 8, length (out @ bs)))"
      using comp_flush_ok [of out l mx acc1] p(2,3) by simp
    moreover have "snd (comp_encode_loop False mx acc1 (l mod 8) (length (out @ bs)) xs (out @ bs)) = None"
      using Cons.IH [of "l mod 8" "out @ bs" acc1] Cons.prems(2,3) p(3) d True unfolding L by auto
    ultimately show ?thesis using p(1) by (simp add: Let_def)
  next
    case False
    then obtain o1 where "comp_flush False mx acc1 l (length out) out = (o1, None)"
      using comp_flush_full [of mx out l acc1] Cons.prems(4) by (metis prod.collapse not_le)
    then show ?thesis using p(1) by (simp add: Let_def)
  qed
qed simp

lemma comp_encode_unfold:
  assumes "length x = 2 ^ logn"
  shows "comp_encode out_null mx x logn =
    (if \<not> comp_range x then (0, [])
     else case comp_encode_loop out_null mx 0 0 0 x [] of
       (out, None) \<Rightarrow> (0, out)
     | (out, Some (acc, acc_len, v)) \<Rightarrow>
         if acc_len > 0 then
           if \<not> out_null \<and> v \<ge> mx then (0, out)
           else (v + 1, if out_null then out else out @ [ucast (push_bit (8 - acc_len) acc)])
         else (v, out))"
proof -
  have "list_ex (\<lambda>u. sint (x ! u) < - 2047 \<or> sint (x ! u) > 2047) [0..<2 ^ logn] \<longleftrightarrow> \<not> comp_range x"
    unfolding list_ex_nth [OF assms, of "\<lambda>v. sint v < - 2047 \<or> sint v > 2047"] by (induction x) auto
  moreover have "map (\<lambda>u. x ! u) [0..<2 ^ logn] = x" using map_nth_self [OF assms, of "\<lambda>v. v"] by simp
  ultimately show ?thesis unfolding comp_encode_def Let_def by (simp only: if_not_P)
qed

lemma comp_encode_ok:
  assumes x: "length x = 2 ^ logn" "comp_range x" and l: "(length (comp_string x) + 7) div 8 \<le> mx"
  shows "\<exists>out. comp_encode False mx x logn = ((length (comp_string x) + 7) div 8, out)
    \<and> length out = (length (comp_string x) + 7) div 8
    \<and> bytes_bits out = comp_string x @ pad_bits (length (comp_string x))"
proof -
  let ?L = "length (comp_string x)"
  have L: "?L div 8 + (if ?L mod 8 > 0 then 1 else 0) = (?L + 7) div 8" by (rule bytes_for_bits)
  then have le: "?L div 8 \<le> mx" using l by linarith
  obtain acc bs where e: "comp_encode_loop False mx 0 0 0 x [] = (bs, Some (acc, ?L mod 8, length bs))"
    "length bs = ?L div 8" "bytes_bits bs @ bits_of (?L mod 8) acc = comp_string x"
    using comp_encode_loop_ok [of 0 x "[]" mx 0] x le by auto
  show ?thesis
  proof (cases "?L mod 8 > 0")
    case True
    have "bytes_bits (bs @ [ucast (push_bit (8 - ?L mod 8) acc)]) = comp_string x @ pad_bits ?L"
      using e(3) [symmetric] bits_of_flush [of "?L mod 8" acc] True by (simp add: pad_bits_def del: bytes_bits_simps(2)) (simp add: bytes_bits_def)
    then show ?thesis using True e(1,2) L l x by (simp add: comp_encode_unfold)
  next
    case False
    then show ?thesis using e L x by (simp add: comp_encode_unfold pad_bits_def)
  qed
qed

lemma comp_encode_fail:
  assumes x: "length x = 2 ^ logn" and l: "comp_range x \<Longrightarrow> mx < (length (comp_string x) + 7) div 8"
  shows "fst (comp_encode False mx x logn) = 0"
proof (cases "comp_range x")
  case True
  let ?L = "length (comp_string x)"
  have L: "?L div 8 + (if ?L mod 8 > 0 then 1 else 0) = (?L + 7) div 8" by (rule bytes_for_bits)
  show ?thesis
  proof (cases "?L div 8 \<le> mx")
    case le: True
    obtain acc bs where e: "comp_encode_loop False mx 0 0 0 x [] = (bs, Some (acc, ?L mod 8, length bs))"
      "length bs = ?L div 8"
      using comp_encode_loop_ok [of 0 x "[]" mx 0] True le by auto
    then show ?thesis using L l [OF True] le x True by (auto simp: comp_encode_unfold split: if_splits)
  next
    case False
    then have "snd (comp_encode_loop False mx 0 0 0 x []) = None"
      using comp_encode_loop_full [of 0 x mx "[]" 0] True by simp
    then show ?thesis using x by (auto simp: comp_encode_unfold split: prod.splits)
  qed
qed (simp add: comp_encode_unfold x)

section \<open>The decoder reads the bit string\<close>

definition stream :: "u32 \<Rightarrow> nat \<Rightarrow> nat \<Rightarrow> u8 list \<Rightarrow> bool list" where
  "stream acc a v buf = bits_of a acc @ bytes_bits (drop v buf)"

lemma stream_refill:
  assumes "a < 24" "v < length buf"
  shows "stream (push_bit 8 acc OR ucast (buf ! v)) (a + 8) (v + 1) buf = stream acc a v buf"
proof -
  have "bits_of (a + 8) (push_bit 8 acc OR ucast (buf ! v)) = bits_of a acc @ bits_of 8 (ucast (buf ! v) :: u32)"
    using assms(1) by (intro bits_of_push) (auto simp: bit_ucast_iff dest: bit_imp_le_length)
  then show ?thesis using assms(2)
    by (simp add: stream_def bits_of_ucast Cons_nth_drop_Suc [symmetric])
qed

lemma stream_pop: "0 < a \<Longrightarrow> stream acc a v buf = bit acc (a - 1) # stream acc (a - 1) v buf"
  using bits_of_split [of 1 "a - 1" acc] by (simp add: stream_def bits_of_def bit_drop_bit_eq)

lemma comp_unary_refines:
  assumes "a \<le> 8" "v \<le> length buf" "m \<le> 2047"
  shows "case comp_unary acc a v m buf of
      None \<Rightarrow> ref_unary (unat m) (stream acc a v buf) = None
    | Some (acc', a', v', m') \<Rightarrow> ref_unary (unat m) (stream acc a v buf) = Some (unat m', stream acc' a' v' buf)
        \<and> a' < 8 \<and> v \<le> v' \<and> v' \<le> length buf \<and> m' \<le> 2047"
  using assms
proof (induction acc a v m buf rule: comp_unary.induct)
  case (1 acc a v m buf)
  show ?case
  proof (cases "a = 0 \<and> v \<ge> length buf")
    case True
    then show ?thesis by (subst comp_unary.simps) (simp add: stream_def)
  next
    case False
    define st where "st = (if a = 0 then (push_bit 8 acc OR ucast (buf ! v), 8, v + 1) else (acc, a, v))"
    obtain acc1 a1 v1 where st: "st = (acc1, a1, v1)" by (cases st) auto
    have s1: "stream acc a v buf = stream acc1 a1 v1 buf" "0 < a1" "a1 \<le> 8" "v \<le> v1" "v1 \<le> length buf"
      using st False 1(2,3) stream_refill [of 0 v buf acc] by (auto simp: st_def split: if_splits)
    have b: "drop_bit (a1 - 1) acc1 AND 1 \<noteq> 0 \<longleftrightarrow> bit acc1 (a1 - 1)"
      by (simp add: and_one_eq bit_iff_odd_drop_bit mod_2_eq_odd)
    have unf: "comp_unary acc a v m buf = (if bit acc1 (a1 - 1) then Some (acc1, a1 - 1, v1, m)
       else if m + 128 > 2047 then None else comp_unary acc1 (a1 - 1) v1 (m + 128) buf)"
      using False b st unfolding st_def by (subst comp_unary.simps) (auto simp: Let_def)
    have um: "unat (m + 128) = unat m + 128" using 1(4) by (simp add: unat_word_ariths word_le_nat_alt)
    have gt: "m + 128 > 2047 \<longleftrightarrow> unat m + 128 > 2047" by (simp add: word_less_nat_alt um)
    show ?thesis
    proof (cases "bit acc1 (a1 - 1) \<or> m + 128 > 2047")
      case True
      then show ?thesis unfolding unf s1(1) stream_pop [OF s1(2)] using s1 1(4) gt by auto
    next
      case nxt: False
      have "case comp_unary acc1 (a1 - 1) v1 (m + 128) buf of
          None \<Rightarrow> ref_unary (unat (m + 128)) (stream acc1 (a1 - 1) v1 buf) = None
        | Some (acc', a', v', m') \<Rightarrow> ref_unary (unat (m + 128)) (stream acc1 (a1 - 1) v1 buf) = Some (unat m', stream acc' a' v' buf)
            \<and> a' < 8 \<and> v1 \<le> v' \<and> v' \<le> length buf \<and> m' \<le> 2047"
        using 1(1) [OF refl False st [unfolded st_def, symmetric] refl refl refl] nxt b s1 by (simp add: not_less)
      then show ?thesis unfolding unf s1(1) stream_pop [OF s1(2)] using nxt gt s1(4) by (auto simp: um split: option.splits)
    qed
  qed
qed

lemma comp_one_refines:
  fixes acc :: u32
  assumes "a < 8" "v < length buf"
  defines "acc1 \<equiv> push_bit 8 acc OR ucast (buf ! v)"
  defines "b \<equiv> drop_bit a acc1"
  shows "stream acc a v buf = bit b 7 # bits_of 7 b @ stream acc1 a (v + 1) buf"
    and "b AND 128 \<noteq> 0 \<longleftrightarrow> bit b 7"
    and "unat (b AND 127) = bits_val (bits_of 7 b)"
    and "b AND 127 \<le> 127"
proof -
  have "stream acc a v buf = bits_of (8 + a) acc1 @ bytes_bits (drop (v + 1) buf)"
    using stream_refill [of a v buf acc] assms(1,2) by (simp add: stream_def acc1_def add.commute)
  also have "bits_of (8 + a) acc1 = bits_of 8 b @ bits_of a acc1" unfolding b_def by (rule bits_of_split)
  also have "bits_of 8 b = bit b 7 # bits_of 7 b" using bits_of_split [of 1 7 b] by (simp add: bits_of_def [of "Suc 0"] bit_drop_bit_eq)
  finally show "stream acc a v buf = bit b 7 # bits_of 7 b @ stream acc1 a (v + 1) buf" by (simp add: stream_def)
  have "(128 :: u32) = push_bit 7 1" by simp
  then show "b AND 128 \<noteq> 0 \<longleftrightarrow> bit b 7" using and_single_bit [of 7 b] by simp
  have "b AND 127 = take_bit 7 b" by (simp add: take_bit_eq_mask mask_eq_exp_minus_1)
  then have u: "unat (b AND 127) = unat b mod 128" by (simp add: unat_mod take_bit_eq_mod)
  then show "unat (b AND 127) = bits_val (bits_of 7 b)" by (simp add: bits_val_bits_of)
  show "b AND 127 \<le> 127" using u by (simp add: word_le_nat_alt)
qed

lemma signed_value:
  assumes "m \<le> (2047 :: u32)"
  shows "sint (if s then ucast (- m) else ucast m :: u16) = (if s then - int (unat m) else int (unat m))"
proof -
  have m: "0 \<le> uint m" "uint m \<le> 2047" using assms by (simp_all add: word_le_def)
  have c: "ucast m = (word_of_int (uint m) :: u16)" "ucast (- m) = (word_of_int (- uint m) :: u16)"
    using ucast_word_of_int [where 'a = 16, of "uint m"] ucast_word_of_int [where 'a = 16, of "- uint m"] by simp_all
  have "sint (word_of_int z :: u16) = z" if "- 2047 \<le> z" "z \<le> 2047" for z
    using that by (simp add: sint_sbintrunc' signed_take_bit_int_eq_self)
  from this [of "uint m"] this [of "- uint m"] show ?thesis unfolding c using m by (simp only: uint_nat split: if_split) linarith
qed

lemma comp_decode_loop_refines:
  assumes "a < 8" "v \<le> length buf"
  shows "case comp_decode_loop k acc a v buf x of
      (_, None) \<Rightarrow> ref_decode k (stream acc a v buf) = None
    | (x', Some (acc', a', v')) \<Rightarrow> (\<exists>ys. x' = x @ ys \<and> ref_decode k (stream acc a v buf) = Some (map sint ys, stream acc' a' v' buf))
        \<and> a' < 8 \<and> v + k \<le> v' \<and> v' \<le> length buf"
  using assms
proof (induction k arbitrary: acc a v x)
  case (Suc k)
  show ?case
  proof (cases "v < length buf")
    case False
    then show ?thesis using Suc.prems by (simp add: ref_one_def stream_def)
  next
    case True
    define acc1 where "acc1 = push_bit 8 acc OR ucast (buf ! v)"
    define b where "b = drop_bit a acc1"
    note one = comp_one_refines [OF Suc.prems(1) True, of acc, folded acc1_def, folded b_def]
    have "b AND 127 \<le> 2047" using one(4) by (rule order_trans) simp
    note un = comp_unary_refines [of a "v + 1" buf "b AND 127" acc1, OF _ _ this]
    have dec: "comp_decode_loop (Suc k) acc a v buf x = (case comp_unary acc1 a (v + 1) (b AND 127) buf of
             None \<Rightarrow> (x, None)
           | Some (acc, acc_len, v, m) \<Rightarrow>
               if bit b 7 \<and> m = 0 then (x, None)
               else comp_decode_loop k acc acc_len v buf (x @ [if bit b 7 then ucast (- m) else ucast m]))"
      using True unfolding comp_decode_loop.simps Let_def acc1_def [symmetric] b_def [symmetric] one(2)
      by (simp only: not_le [symmetric] if_False)
    have ref: "ref_one (stream acc a v buf) = (case ref_unary (unat (b AND 127)) (stream acc1 a (v + 1) buf) of
       None \<Rightarrow> None
     | Some (m, T) \<Rightarrow> if bit b 7 \<and> m = 0 then None else Some (if bit b 7 then - int m else int m, T))"
      unfolding one(1,3) ref_one_def list.sel by (simp cong: option.case_cong)
    show ?thesis
    proof (cases "comp_unary acc1 a (v + 1) (b AND 127) buf")
      case None
      then show ?thesis unfolding dec using un ref Suc.prems True by simp
    next
      case (Some r)
      obtain acc2 a2 v2 m where r: "r = (acc2, a2, v2, m)" by (cases r) auto
      have u: "ref_unary (unat (b AND 127)) (stream acc1 a (v + 1) buf) = Some (unat m, stream acc2 a2 v2 buf)"
        "a2 < 8" "v + 1 \<le> v2" "v2 \<le> length buf" "m \<le> 2047"
        using un Some r Suc.prems True by auto
      have mz: "m = 0 \<longleftrightarrow> unat m = 0" by (simp add: unat_eq_0)
      show ?thesis
      proof (cases "bit b 7 \<and> m = 0")
        case True
        then show ?thesis unfolding dec using Some r ref u(1) mz by simp
      next
        case nz: False
        define y :: u16 where "y = (if bit b 7 then ucast (- m) else ucast m)"
        have "ref_one (stream acc a v buf) = Some (sint y, stream acc2 a2 v2 buf)"
          using ref u(1) nz mz signed_value [OF u(5), of "bit b 7"] by (simp add: y_def)
        moreover have "comp_decode_loop (Suc k) acc a v buf x = comp_decode_loop k acc2 a2 v2 buf (x @ [y])"
          unfolding dec using Some r nz by (auto simp: y_def)
        ultimately show ?thesis
          using Suc.IH [of a2 v2 acc2 "x @ [y]"] u(2-4) by (fastforce split: prod.splits option.splits)
      qed
    qed
  qed
qed simp

lemma sint_list_inj: "map sint xs = map sint ys \<longleftrightarrow> xs = ys" for xs :: "'a::len word list"
  by (rule inj_map_eq_map) (metis injI signed_word_eqI)

lemma comp_decode_encoded:
  assumes "length x = 2 ^ logn" "comp_range x" "bytes_bits buf = comp_string x @ pad_bits (length (comp_string x))"
  shows "comp_decode logn buf = (length buf, x)"
proof -
  have ref: "ref_decode (2 ^ logn) (stream 0 0 0 buf) = Some (map sint x, pad_bits (length (comp_string x)))"
    using ref_decode_complete [of "map sint x" "pad_bits (length (comp_string x))"] assms
    by (simp add: stream_def list_all_iff comp_def)
  obtain x' r where d: "comp_decode_loop (2 ^ logn) 0 0 0 buf [] = (x', r)" by fastforce
  then obtain acc a v where r: "r = Some (acc, a, v)" "a < 8" "v \<le> length buf"
     "map sint x' = map sint x" "stream acc a v buf = pad_bits (length (comp_string x))"
    using comp_decode_loop_refines [of 0 0 buf "2 ^ logn" 0 "[]"] ref by (auto split: option.splits)
  have "length (stream acc a v buf) < 8" by (simp add: r(5) pad_bits_def)
  then have v: "v = length buf" using r(3) by (simp add: stream_def)
  have "bits_of a acc = replicate a False"
    using r(5) by (simp add: stream_def v pad_bits_def) (metis length_bits_of length_replicate)
  then show ?thesis using d r(1,2) r(4) [unfolded sint_list_inj] v low_bits_zero [of a acc]
    by (simp add: comp_decode_def)
qed

lemma comp_decode_canonical:
  assumes d: "comp_decode logn buf = (r, x)" "r \<noteq> 0"
  shows "length x = 2 ^ logn" "comp_range x" "r \<le> length buf"
    "bytes_bits (take r buf) = comp_string x @ pad_bits (length (comp_string x))"
proof -
  obtain acc a where l: "comp_decode_loop (2 ^ logn) 0 0 0 buf [] = (x, Some (acc, a, r))"
    and z: "acc AND (push_bit a 1 - 1) = 0"
    using d by (auto simp: comp_decode_def split: prod.splits option.splits if_splits)
  have ref: "ref_decode (2 ^ logn) (stream 0 0 0 buf) = Some (map sint x, stream acc a r buf)" "a < 8" "r \<le> length buf"
    using comp_decode_loop_refines [of 0 0 buf "2 ^ logn" 0 "[]"] l by auto
  have s: "length x = 2 ^ logn" "comp_range x" "bytes_bits buf = comp_string x @ stream acc a r buf"
    using ref_decode_sound [OF ref(1)] by (auto simp: stream_def comp_def list_all_iff)
  then show "length x = 2 ^ logn" "comp_range x" "r \<le> length buf" using ref(3) by auto
  have "bytes_bits (take r buf) @ bytes_bits (drop r buf) = bytes_bits buf"
    by (metis append_take_drop_id bytes_bits_simps(3))
  then have u: "bytes_bits (take r buf) = comp_string x @ bits_of a acc"
    using s(3) by (simp add: stream_def)
  have "8 * r = length (comp_string x) + a" using ref(3) arg_cong [OF u, of length] by simp
  then have "a = (8 - length (comp_string x) mod 8) mod 8"
    using ref(2) by (intro pad_unique) (metis mod_mult_self1_is_0)+
  moreover have "bits_of a acc = replicate a False" using z ref(2) low_bits_zero [of a acc] by simp
  ultimately show "bytes_bits (take r buf) = comp_string x @ pad_bits (length (comp_string x))"
    using u by (simp add: pad_bits_def)
qed

lemma bytes_of_padded:
  assumes "bytes_bits bs = s @ pad_bits (length s)"
  shows "length bs = (length s + 7) div 8"
proof -
  have "8 * length bs = length s + (8 - length s mod 8) mod 8"
    using arg_cong [OF assms, of length] by (simp add: pad_bits_def)
  moreover have "(8 - length s mod 8) mod 8 \<le> 7" by simp
  ultimately show ?thesis by linarith
qed

lemma comp_encode_decode:
  assumes d: "comp_decode logn buf = (r, x)" "r \<noteq> 0" "r \<le> mx"
  shows "comp_encode False mx x logn = (r, take r buf)"
proof -
  note c = comp_decode_canonical [OF d(1,2)]
  have r: "r = (length (comp_string x) + 7) div 8" using bytes_of_padded [OF c(4)] c(3) by simp
  obtain out where "comp_encode False mx x logn = (r, out)" "bytes_bits out = bytes_bits (take r buf)"
    using comp_encode_ok [OF c(1,2), of mx] d(3) c(4) r by auto
  then show ?thesis by (simp add: bytes_bits_inj)
qed

lemma comp_decode_encode:
  assumes x: "length x = 2 ^ logn" and e: "comp_encode False mx x logn = (r, out)" "r \<noteq> 0"
  shows "comp_decode logn out = (r, x)" "length out = r" "r \<le> mx" "comp_range x" "r = (length (comp_string x) + 7) div 8"
proof -
  have ok: "comp_range x" "(length (comp_string x) + 7) div 8 \<le> mx"
    using comp_encode_fail [OF x, of mx] e by (auto simp: not_less [symmetric])
  then show "comp_decode logn out = (r, x)" "length out = r" "r \<le> mx" "comp_range x" "r = (length (comp_string x) + 7) div 8"
    using comp_encode_ok [OF x ok] e comp_decode_encoded [OF x ok(1), of out] by auto
qed

section \<open>Properties\<close>

text \<open>
  (C31) Signatures: whenever \<open>comp_encode\<close> accepts a vector, \<open>comp_decode\<close> gives it back from
  the bytes written and consumes all of them.
\<close>

theorem comp_roundtrip:
  assumes "length x = 2 ^ logn" "comp_encode False max_out_len x logn = (r, out)" "r \<noteq> 0"
  shows "comp_decode logn out = (r, x) \<and> length out = r \<and> r \<le> max_out_len"
  using comp_decode_encode [OF assms] by simp

theorem comp_roundtrip_witness: "comp_decode 1 (snd (comp_encode False 9 [- 300, 2047] 1)) = (5, [- 300, 2047])"
proof -
  have "comp_encode False 9 [- 300, 2047] 1 = (5, snd (comp_encode False 9 [- 300, 2047] 1))" by code_simp
  then show ?thesis using comp_roundtrip [of "[- 300, 2047]" 1 9 5] by simp
qed

text \<open>
  (C32) The compressed encoding is unique: bytes accepted by \<open>comp_decode\<close> are the bytes
  \<open>comp_encode\<close> writes for the decoded vector (no negative zero, no overlong unary part, no
  nonzero padding), so a signature has one encoding.
\<close>

theorem comp_unique:
  assumes "comp_decode logn buf = (r, x)" "r \<noteq> 0"
  shows "length x = 2 ^ logn \<and> list_all (\<lambda>v. \<bar>sint v\<bar> \<le> 2047) x \<and> r \<le> length buf
    \<and> comp_encode False r x logn = (r, take r buf)"
  using comp_decode_canonical [OF assms] comp_encode_decode [OF assms order_refl] by simp

theorem comp_unique_witness:
  "comp_encode False 3 (snd (comp_decode 1 [5, 194, 192])) 1 = (3, [5, 194, 192])"
proof -
  have "comp_decode 1 [5, 194, 192] = (3, snd (comp_decode 1 [5, 194, 192]))" by code_simp
  then show ?thesis using comp_unique [of 1 "[5, 194, 192]" 3] by simp
qed

text \<open>
  (C36) The encoder's outcome: it returns the exact size (9 bits per value, plus one for each
  multiple of 128 in its absolute value, rounded up to bytes) when all values are in range and
  the buffer is large enough, and 0 otherwise.
\<close>

theorem comp_encode_result:
  assumes "length x = 2 ^ logn"
  shows "fst (comp_encode False max_out_len x logn) =
    (let l = ((\<Sum>v\<leftarrow>x. 9 + nat \<bar>sint v\<bar> div 128) + 7) div 8
     in if list_all (\<lambda>v. \<bar>sint v\<bar> \<le> 2047) x \<and> l \<le> max_out_len then l else 0)"
proof -
  have l: "length (comp_string x) = (\<Sum>v\<leftarrow>x. 9 + nat \<bar>sint v\<bar> div 128)"
    by (induction x) (simp_all add: comp_bits_def)
  show ?thesis
  proof (cases "comp_range x \<and> (length (comp_string x) + 7) div 8 \<le> max_out_len")
    case True
    then obtain out where "comp_encode False max_out_len x logn = ((length (comp_string x) + 7) div 8, out)"
      using comp_encode_ok [OF assms] by blast
    then show ?thesis using True by (simp add: l)
  next
    case False
    then show ?thesis using comp_encode_fail [OF assms, of max_out_len] by (auto simp: l)
  qed
qed

theorem comp_encode_result_witness: "fst (comp_encode False 4 [- 300, 2047] 1) = 0"
  using comp_encode_result [of "[- 300, 2047]" 1 4] by simp

end
