(* ===== verification/Modular.thy ===== *)
theory Modular
  imports Prelude
begin

text \<open>
  The number theory the field arithmetic of the sources rests on: a primality certificate
  in the style of Proth, Fermat's little theorem, and the two moduli of the program,
  \<open>2^64 - 2^32 + 1\<close> (rpo.c) and \<open>12289\<close> (vrfy.c).
\<close>

definition is_prime :: "nat \<Rightarrow> bool" where
  "is_prime p \<longleftrightarrow> 1 < p \<and> (\<forall>m. m dvd p \<longrightarrow> m = 1 \<or> m = p)"

lemma is_prime_coprime: "is_prime p \<Longrightarrow> \<not> p dvd a \<Longrightarrow> coprime p a"
  by (rule coprimeI) (use is_prime_def in auto)

lemma is_prime_prod_coprime:
  "is_prime p \<Longrightarrow> finite S \<Longrightarrow> (\<And>i. i \<in> S \<Longrightarrow> \<not> p dvd f i) \<Longrightarrow> coprime p (\<Prod>i\<in>S. f i)"
  by (intro prod_coprime_right is_prime_coprime)

lemma mult_mod_inj:
  fixes p :: nat
  assumes "coprime p a"
  shows "inj_on (\<lambda>i. a * i mod p) {1..<p}"
proof (rule inj_onI, rule ccontr)
  fix i j assume ij: "i \<in> {1..<p}" "j \<in> {1..<p}" "a * i mod p = a * j mod p" "i \<noteq> j"
  have *: False if "i < j" "j < p" "a * i mod p = a * j mod p" for i j :: nat
  proof -
    have "p dvd a * j - a * i" using that by (subst mod_eq_dvd_iff_nat [symmetric]) auto
    then have "p dvd a * (j - i)" by (simp add: diff_mult_distrib2)
    then have "p dvd j - i" using assms coprime_dvd_mult_right_iff by blast
    then show False using that by (auto dest: dvd_imp_le)
  qed
  show False using *[of i j] *[of j i] ij by (cases "i < j") auto
qed

lemma mult_mod_image:
  assumes "is_prime p" "\<not> p dvd a"
  shows "(\<lambda>i. a * i mod p) ` {1..<p} = {1..<p}"
proof (rule endo_inj_surj)
  have cp: "coprime p a" using assms by (rule is_prime_coprime)
  show "inj_on (\<lambda>i. a * i mod p) {1..<p}" using cp by (rule mult_mod_inj)
  show "(\<lambda>i. a * i mod p) ` {1..<p} \<subseteq> {1..<p}"
  proof
    fix y assume "y \<in> (\<lambda>i. a * i mod p) ` {1..<p}"
    then obtain i where i: "i \<in> {1..<p}" "y = a * i mod p" by auto
    have "\<not> p dvd i" using i by (auto dest: dvd_imp_le)
    then have "\<not> p dvd a * i" using cp by (simp add: coprime_dvd_mult_right_iff)
    then show "y \<in> {1..<p}" using i by (auto simp: dvd_eq_mod_eq_0)
  qed
qed simp

theorem fermat_nat:
  assumes "is_prime p" "\<not> p dvd a"
  shows "a ^ (p - 1) mod p = 1"
proof -
  define F where "F = (\<Prod>i\<in>{1..<p}. i)"
  have p1: "1 < p" using assms by (simp add: is_prime_def)
  have "inj_on (\<lambda>i. a * i mod p) {1..<p}"
    using assms by (intro mult_mod_inj is_prime_coprime)
  from prod.reindex [OF this, of "\<lambda>i. i"] have "(\<Prod>i\<in>{1..<p}. a * i mod p) = F"
    unfolding F_def mult_mod_image [OF assms] by simp
  moreover have "(\<Prod>i\<in>{1..<p}. a * i mod p) mod p = (\<Prod>i\<in>{1..<p}. a * i) mod p"
    by (rule mod_prod_eq)
  moreover have "(\<Prod>i\<in>{1..<p}. a * i) = a ^ (p - 1) * F"
    by (simp add: prod.distrib F_def)
  ultimately have "a ^ (p - 1) * F mod p = F mod p" by simp
  then have "int p dvd int (a ^ (p - 1) * F) - int F"
    by (metis mod_eq_dvd_iff of_nat_mod)
  then have "int p dvd (int (a ^ (p - 1)) - 1) * int F" by (simp add: left_diff_distrib)
  moreover have "coprime p F" unfolding F_def
    by (rule is_prime_prod_coprime) (use assms in \<open>auto dest: dvd_imp_le\<close>)
  then have "coprime (int p) (int F)" by simp
  ultimately have "int p dvd int (a ^ (p - 1)) - int 1"
    by (simp add: coprime_dvd_mult_left_iff)
  then have "a ^ (p - 1) mod p = 1 mod p" by (metis mod_eq_dvd_iff of_nat_eq_iff of_nat_mod)
  then show ?thesis using p1 by simp
qed

lemma fermat_int:
  assumes "is_prime p" "\<not> int p dvd a"
  shows "a ^ (p - 1) mod int p = 1"
proof -
  define r where "r = nat (a mod int p)"
  have p: "1 < p" using assms by (simp add: is_prime_def)
  have r: "int r = a mod int p" using p by (simp add: r_def)
  have "\<not> p dvd r" using assms(2) r by (metis dvd_mod_iff dvd_refl int_dvd_int_iff)
  then have "r ^ (p - 1) mod p = 1" by (rule fermat_nat [OF assms(1)])
  then have "int (r ^ (p - 1) mod p) = 1" by simp
  then show ?thesis by (simp add: of_nat_mod r power_mod)
qed

lemma fermat_exponent:
  assumes "is_prime p"
  shows "a ^ Suc (m * (p - 1)) mod int p = a mod int p"
proof (cases "int p dvd a")
  case True
  then have "int p dvd a ^ Suc (m * (p - 1))" by (simp add: dvd_mult2)
  then show ?thesis using True by (metis dvd_imp_mod_0)
next
  case False
  then have "(a ^ (p - 1)) ^ m mod int p = 1 ^ m mod int p"
    using fermat_int [OF assms False] assms by (metis power_mod is_prime_def mod_less of_nat_1 of_nat_mod)
  then have "a ^ (m * (p - 1)) mod int p = 1 mod int p"
    by (simp add: power_mult [symmetric] mult.commute)
  then have "(a * a ^ (m * (p - 1))) mod int p = (a * 1) mod int p" by (rule mod_mult_cong [OF refl])
  then show ?thesis by simp
qed

section \<open>A Proth certificate\<close>

lemma minus_one_power:
  assumes "(int b ^ (2 ^ k) + 1) mod m = 0" "odd t"
  shows "int b ^ (2 ^ k * t) mod m = (-1) mod m"
proof -
  have "int b ^ (2 ^ k) mod m = (-1) mod m" using assms(1)
    by (simp add: mod_eq_dvd_iff dvd_eq_mod_eq_0 [symmetric])
  then have "(int b ^ (2 ^ k)) ^ t mod m = (-1) ^ t mod m" by (metis power_mod)
  then show ?thesis using assms(2) by (simp add: power_mult)
qed

lemma odd_part: "0 < d \<Longrightarrow> \<exists>s t. d = 2 ^ s * t \<and> odd t" for d :: nat
proof (induction d rule: less_induct)
  case (less d)
  show ?case
  proof (cases "odd d")
    case True
    then have "d = 2 ^ 0 * d \<and> odd d" by simp
    then show ?thesis by blast
  next
    case False
    then obtain c where c: "d = 2 * c" by blast
    then have "c < d" "0 < c" using less.prems by auto
    then obtain s t where "c = 2 ^ s * t" "odd t" using less.IH by blast
    with c have "d = 2 ^ Suc s * t \<and> odd t" by simp
    then show ?thesis by blast
  qed
qed

lemma proth_order:
  assumes r: "(int b ^ (2 ^ k) + 1) mod int m = 0" and m: "odd m" "1 < m"
    and d: "0 < d" "d < 2 ^ Suc k"
  shows "int b ^ d mod int m \<noteq> 1"
proof
  assume one: "int b ^ d mod int m = 1"
  obtain s t where st: "d = 2 ^ s * t" "odd t" using odd_part d(1) by blast
  have "2 ^ s \<le> d" using st by (cases t) auto
  then have "(2::nat) ^ s < 2 ^ Suc k" using d by linarith
  then have "s < Suc k" using power_less_imp_less_exp [of 2 s "Suc k"] by simp
  then have sk: "s \<le> k" by simp
  have "d * 2 ^ (k - s) = 2 ^ k * t" using st sk
    by (simp add: power_add [symmetric] mult.commute mult.left_commute)
  then have "int b ^ (d * 2 ^ (k - s)) mod int m = (-1) mod int m"
    using minus_one_power [OF r st(2)] by simp
  moreover have "int b ^ (d * 2 ^ (k - s)) mod int m = 1 mod int m"
    using one m by (metis power_mod power_mult power_one)
  ultimately have "int m dvd 1 - (-1)" by (simp only: mod_eq_dvd_iff)
  then have "int m dvd int 2" by simp
  then have "m dvd 2" by (simp only: int_dvd_int_iff)
  then have "m \<le> 2" by (simp add: dvd_imp_le)
  then show False using m by (cases "m = 2") auto
qed

lemma proth_factor_large:
  assumes r: "(int b ^ (2 ^ k) + 1) mod int m = 0" and m: "odd m" "1 < m"
  shows "2 ^ Suc k < m"
proof -
  have cop: "coprime (int m) (int b)"
  proof -
    have "int m dvd int b ^ (2 ^ k) + 1" using r by (simp add: dvd_eq_mod_eq_0)
    moreover have "int b dvd int b ^ (2 ^ k)" by (rule dvd_power) simp
    ultimately have "c dvd 1" if "c dvd int m" "c dvd int b" for c
      using that by (meson dvd_add_right_iff dvd_trans)
    then show ?thesis by (rule coprimeI)
  qed
  have inj: "inj_on (\<lambda>i. int b ^ i mod int m) {..<2 ^ Suc k}"
  proof (rule linorder_inj_onI)
    fix i j :: nat assume ij: "i < j" "i \<in> {..<2 ^ Suc k}" "j \<in> {..<2 ^ Suc k}"
    show "int b ^ i mod int m \<noteq> int b ^ j mod int m"
    proof
      assume "int b ^ i mod int m = int b ^ j mod int m"
      then have "int m dvd int b ^ j - int b ^ i" by (metis mod_eq_dvd_iff)
      also have "int b ^ j - int b ^ i = int b ^ i * (int b ^ (j - i) - 1)"
        using ij by (simp add: right_diff_distrib power_add [symmetric])
      finally have "int m dvd int b ^ (j - i) - 1"
        using cop by (simp add: coprime_dvd_mult_right_iff)
      then have "int b ^ (j - i) mod int m = 1" using m by (simp add: mod_eq_dvd_iff [symmetric])
      moreover have "0 < j - i" "j - i < 2 ^ Suc k" using ij by auto
      ultimately show False using proth_order [OF r m] by blast
    qed
  qed auto
  have "(\<lambda>i. int b ^ i mod int m) ` {..<2 ^ Suc k} \<subseteq> {1..<int m}"
  proof
    fix y assume "y \<in> (\<lambda>i. int b ^ i mod int m) ` {..<2 ^ Suc k}"
    then obtain i where y: "y = int b ^ i mod int m" by auto
    have "coprime (int m) (int b ^ i)" using cop by simp
    then have "\<not> int m dvd int b ^ i"
      using m coprime_absorb_left [of "int m" "int b ^ i"] by (metis nat_dvd_1_iff_1 int_dvd_int_iff less_irrefl of_nat_1)
    then have "y \<noteq> 0" by (simp add: y dvd_eq_mod_eq_0)
    moreover have "0 \<le> y" "y < int m" using m by (simp_all add: y)
    ultimately show "y \<in> {1..<int m}" by simp
  qed
  from card_mono [OF _ this] have "2 ^ Suc k \<le> m - 1"
    unfolding card_image [OF inj] by simp
  then show ?thesis using m by linarith
qed

theorem proth_prime:
  assumes r: "(int b ^ (2 ^ k) + 1) mod int n = 0" and n: "odd n" "1 < n"
    and size: "n < (2 ^ Suc k) * (2 ^ Suc k)"
  shows "is_prime n"
proof -
  have big: "2 ^ Suc k < m" if "m dvd n" "m \<noteq> 1" for m
  proof (rule proth_factor_large)
    show "(int b ^ (2 ^ k) + 1) mod int m = 0"
      using r that(1) by (meson dvd_trans int_dvd_int_iff mod_0_imp_dvd dvd_imp_mod_0)
    show "odd m" using n(1) that(1) dvd_trans by blast
    show "1 < m" using that n by (cases m) auto
  qed
  show ?thesis unfolding is_prime_def
  proof (intro conjI allI impI, rule n(2))
    fix m assume m: "m dvd n"
    then obtain c where c: "n = m * c" by auto
    show "m = 1 \<or> m = n"
    proof (rule ccontr)
      assume neg: "\<not> (m = 1 \<or> m = n)"
      then have "c \<noteq> 1" using c by auto
      then have "2 ^ Suc k < m" "2 ^ Suc k < c" using big [of m] big [of c] neg m c by auto
      then have "(2 ^ Suc k) * (2 ^ Suc k) < n" unfolding c by (intro mult_strict_mono) auto
      then show False using size by simp
    qed
  qed
qed

section \<open>The two moduli\<close>

fun sqr_iter :: "nat \<Rightarrow> int \<Rightarrow> int \<Rightarrow> int" where
  "sqr_iter 0 m x = x"
| "sqr_iter (Suc k) m x = sqr_iter k m (x * x mod m)"

lemma sqr_iter_power: "sqr_iter k m x mod m = x ^ (2 ^ k) mod m"
proof (induction k arbitrary: x)
  case (Suc k)
  have "sqr_iter (Suc k) m x mod m = (x * x mod m) ^ (2 ^ k) mod m" by (simp add: Suc)
  also have "\<dots> = (x * x) ^ (2 ^ k) mod m" by (simp add: power_mod)
  finally show ?case by (simp add: power_mult power2_eq_square)
qed simp

lemma sqr_iter_root:
  assumes "(sqr_iter k m x + 1) mod m = 0"
  shows "(x ^ (2 ^ k) + 1) mod m = 0"
  using assms sqr_iter_power [of k m x] by (metis mod_add_cong)

lemma root_12289: "sqr_iter 11 12289 1331 = 12288"
  by code_simp

lemma root_P: "sqr_iter 31 18446744069414584321 1753635133440165772 = 18446744069414584320"
  by code_simp

lemma prime_12289: "is_prime 12289"
proof (rule proth_prime [where k = 11])
  show "(int 1331 ^ (2 ^ 11) + 1) mod int 12289 = 0"
    by (rule sqr_iter_root) (simp only: of_nat_numeral root_12289, simp)
qed simp_all

lemma prime_P: "is_prime 18446744069414584321"
proof (rule proth_prime [where k = 31])
  show "(int 1753635133440165772 ^ (2 ^ 31) + 1) mod int 18446744069414584321 = 0"
    by (rule sqr_iter_root) (simp only: of_nat_numeral root_P, simp)
qed simp_all

end
