(* ===== verification/Zq.thy ===== *)
theory Zq
  imports Modular "HOL-Library.Numeral_Type"
begin

text \<open>
  The field of Falcon, the integers modulo 12289, as the numeral type of that size: an
  abstract domain in which the word arithmetic of vrfy.c is ring arithmetic.
\<close>

type_synonym fq = "12289"

definition zq :: "'a::len word \<Rightarrow> fq" where
  "zq x = of_int (uint x)"

lemma of_int_fq: "(of_int a :: fq) = of_int b \<longleftrightarrow> a mod 12289 = b mod 12289"
proof -
  have "Rep_bit1 (of_int c :: fq) = c mod 12289" for c
    using bit1.Rep_Abs_mod [where 'a = "6144", of c] by (simp add: bit1.of_int_eq)
  then show ?thesis by (metis Rep_bit1_inject)
qed

lemma of_int_fq_mod: "(of_int (a mod 12289) :: fq) = of_int a"
  by (simp add: of_int_fq)

lemma fq_cases:
  obtains a where "(z :: fq) = of_int a" "0 \<le> a" "a < 12289"
  by (cases z) auto

lemma zq_inject: "uint (x :: 'a::len word) < 12289 \<Longrightarrow> uint (y :: 'a word) < 12289 \<Longrightarrow> zq x = zq y \<longleftrightarrow> x = y"
  unfolding zq_def of_int_fq word_uint_eq_iff by simp

lemma zq_0 [simp]: "zq 0 = 0"
  by (simp add: zq_def)

lemma zq_eq_0_iff: "uint x < 12289 \<Longrightarrow> zq x = 0 \<longleftrightarrow> x = 0"
  using zq_inject [of x 0] by simp

lemma fq_fermat:
  assumes "(z :: fq) \<noteq> 0"
  shows "z ^ 12288 = 1"
proof -
  obtain a where a: "z = of_int a" "0 \<le> a" "a < 12289" by (rule fq_cases)
  have "\<not> int 12289 dvd a" using assms a of_int_fq [of a 0] by (auto simp: dvd_eq_mod_eq_0)
  then have "a ^ 12288 mod 12289 = 1" using fermat_int [OF prime_12289, of a] by simp
  then have "of_int (a ^ 12288) = (of_int 1 :: fq)" unfolding of_int_fq by simp
  then show ?thesis by (simp add: a(1))
qed

lemma fq_inverse: "(z :: fq) \<noteq> 0 \<Longrightarrow> z ^ 12287 * z = 1"
  using fq_fermat [of z] power_Suc2 [of z 12287] by simp

lemma fq_cancel: "(z :: fq) \<noteq> 0 \<Longrightarrow> x * z = y * z \<longleftrightarrow> x = y"
proof
  assume z: "z \<noteq> 0" and eq: "x * z = y * z"
  have "x * (z ^ 12287 * z) = y * (z ^ 12287 * z)" using arg_cong [OF eq, of "\<lambda>w. w * z ^ 12287"] by (simp only: ac_simps)
  then show "x = y" unfolding fq_inverse [OF z] by simp
qed simp

lemma fq_mult_eq_0: "(x :: fq) * z = 0 \<longleftrightarrow> x = 0 \<or> z = 0"
  using fq_cancel [of z x 0] by auto

end
