(* ===== verification/Mq_Arith.thy ===== *)
theory Mq_Arith
  imports Mq_Tables Zq
begin

text \<open>
  Arithmetic modulo q = 12289 as vrfy.c writes it: branch-free additions on 32-bit words,
  Montgomery products with 2^16, and division by Fermat's little theorem. Every operation is
  shown to be the operation modulo q on operands below q.
\<close>

section \<open>Model\<close>

definition mq_conv_small :: "u32 \<Rightarrow> u32" where
  "mq_conv_small x = (let y = x in y + (Q AND - drop_bit 31 y))"

definition mq_add :: "u32 \<Rightarrow> u32 \<Rightarrow> u32" where
  "mq_add x y = (let d = x + y - Q in d + (Q AND - drop_bit 31 d))"

definition mq_sub :: "u32 \<Rightarrow> u32 \<Rightarrow> u32" where
  "mq_sub x y = (let d = x - y in d + (Q AND - drop_bit 31 d))"

definition mq_rshift1 :: "u32 \<Rightarrow> u32" where
  "mq_rshift1 x = (let x = x + (Q AND - (x AND 1)) in drop_bit 1 x)"

definition mq_montymul :: "u32 \<Rightarrow> u32 \<Rightarrow> u32" where
  "mq_montymul x y =
     (let z = x * y;
          w = ((z * Q0I) AND 0xFFFF) * Q;
          z = drop_bit 16 (z + w);
          z = z - Q
      in z + (Q AND - drop_bit 31 z))"

definition mq_montysqr :: "u32 \<Rightarrow> u32" where
  "mq_montysqr x = mq_montymul x x"

definition mq_div_12289 :: "u32 \<Rightarrow> u32 \<Rightarrow> u32" where
  "mq_div_12289 x y =
     (let y0 = mq_montymul y R2;
          y1 = mq_montysqr y0;
          y2 = mq_montymul y1 y0;
          y3 = mq_montymul y2 y1;
          y4 = mq_montysqr y3;
          y5 = mq_montysqr y4;
          y6 = mq_montysqr y5;
          y7 = mq_montysqr y6;
          y8 = mq_montysqr y7;
          y9 = mq_montymul y8 y2;
          y10 = mq_montymul y9 y8;
          y11 = mq_montysqr y10;
          y12 = mq_montysqr y11;
          y13 = mq_montymul y12 y9;
          y14 = mq_montysqr y13;
          y15 = mq_montysqr y14;
          y16 = mq_montymul y15 y10;
          y17 = mq_montysqr y16;
          y18 = mq_montymul y17 y0
      in mq_montymul y18 x)"

section \<open>Conditional corrections\<close>

lemma sign_mask: "Q AND - drop_bit 31 d = (if 2147483648 \<le> uint d then Q else 0)"
  unfolding sign_shift by simp

lemma cond_add:
  assumes d: "uint (d :: u32) = v mod 4294967296" and v: "- qZ \<le> v" "v < qZ"
  shows "uint (d + (Q AND - drop_bit 31 d)) = v mod qZ"
proof (cases "v < 0")
  case True
  then have "uint d = v + 4294967296" using d v by (simp add: mod_neg_once)
  then show ?thesis using True v mod_add_self1 [of 4294967296 "v + qZ"] unfolding sign_mask
    by (simp add: uint_word_ariths Q_def mod_neg_once add.assoc [symmetric])
next
  case False
  then have "uint d = v" using d v by simp
  then show ?thesis using False v unfolding sign_mask by simp
qed

lemma uint_mq_add [c_bounds]:
  assumes "uint x < qZ" "uint y < qZ"
  shows "uint (mq_add x y) = (uint x + uint y) mod qZ"
proof -
  have "uint (mq_add x y) = (uint x + uint y - qZ) mod qZ" unfolding mq_add_def Let_def
    using assms by (intro cond_add) (simp_all add: uint_word_ariths Q_def mod_simps add_increasing)
  then show ?thesis by simp
qed

lemma uint_mq_sub [c_bounds]:
  assumes "uint x < qZ" "uint y < qZ"
  shows "uint (mq_sub x y) = (uint x - uint y) mod qZ"
proof -
  have "0 \<le> uint x" "0 \<le> uint y" by simp_all
  then show ?thesis unfolding mq_sub_def Let_def
    using assms by (intro cond_add) (simp only: uint_word_ariths len_of_numeral_defs, simp, linarith+)
qed

lemma uint_mq_conv_small [c_bounds]:
  assumes "\<bar>v\<bar> < qZ" "x = word_of_int v"
  shows "uint (mq_conv_small x) = v mod qZ"
  unfolding mq_conv_small_def Let_def
  using assms by (intro cond_add) (simp_all add: uint_word_of_int)

lemma uint_mq_rshift1 [c_bounds]:
  assumes "uint x < qZ"
  shows "uint (mq_rshift1 x) < qZ \<and> (2 * uint (mq_rshift1 x)) mod qZ = uint x mod qZ"
proof -
  have x0: "0 \<le> uint x" by simp
  have odd: "x AND 1 = (if odd (uint x) then 1 else 0)"
    by (simp add: and_one_eq odd_iff_mod_2_eq_one word_uint_eq_iff uint_mod)
  have r: "uint (mq_rshift1 x) = (if odd (uint x) then (uint x + qZ) div 2 else uint x div 2)"
    unfolding mq_rshift1_def Let_def odd using assms
    by (simp add: uint_shr uint_word_ariths Q_def)
  show ?thesis
  proof (cases "odd (uint x)")
    case True
    then have "2 * ((uint x + qZ) div 2) = uint x + qZ" by (simp add: odd_even_add)
    then show ?thesis using True assms by (simp add: r)
  next
    case False
    then show ?thesis using assms x0 by (simp add: r)
  qed
qed

section \<open>Montgomery products\<close>

lemma mod_mult3: "(a mod n) * (b mod n) * c mod n = a * b * c mod n" for a b c n :: int
  by (metis mod_mult_eq mod_mult_left_eq)

lemma mod_mult3_left: "(a mod n) * b * c mod n = a * b * c mod n" for a b c n :: int
  by (metis mod_mult_left_eq)

lemma monty_fold:
  assumes z: "0 \<le> z" "z < qZ * qZ"
  defines "t \<equiv> z + (z * 12287 mod 65536) * 12289"
  shows "t mod 65536 = 0" "0 \<le> t" "t < 65536 * 24578" "t div 65536 mod qZ = z * RI mod qZ"
proof -
  have "t mod 65536 = (z + z * 12287 * 12289) mod 65536" unfolding t_def by (metis mod_add_right_eq mod_mult_left_eq)
  also have "z + z * 12287 * 12289 = 65536 * (2304 * z)" by simp
  finally show t0: "t mod 65536 = 0" by simp
  have m: "0 \<le> z * 12287 mod 65536" "z * 12287 mod 65536 < 65536" by simp_all
  show "0 \<le> t" "t < 65536 * 24578" using z m unfolding t_def by linarith+
  have "t = 65536 * (t div 65536)" using t0 mult_div_mod_eq [of 65536 t] by linarith
  then have "t * RI = 65536 * RI * (t div 65536)" by linarith
  then have "t * RI mod qZ = (65536 * RI * (t div 65536)) mod qZ" by (rule arg_cong)
  also have "\<dots> = t div 65536 mod qZ"
  proof -
    have "(65536 * RI * k) mod qZ = ((65536 * RI) mod qZ * k) mod qZ" for k by (simp only: mod_simps)
    then show ?thesis by simp
  qed
  also have "t * RI mod qZ = z * RI mod qZ"
  proof -
    have "t * RI = z * RI + (z * 12287 mod 65536) * RI * qZ" by (simp add: t_def distrib_right)
    then show ?thesis by (metis mod_mult_self1)
  qed
  finally show "t div 65536 mod qZ = z * RI mod qZ" by simp
qed

lemma uint_mq_montymul [c_bounds]:
  assumes "uint x < qZ" "uint y < qZ"
  shows "uint (mq_montymul x y) = uint x * uint y * RI mod qZ"
proof -
  let ?z = "uint x * uint y"
  have z: "0 \<le> ?z" "?z < qZ * qZ" using assms mult_strict_mono [of "uint x" qZ "uint y" qZ] by simp_all
  define t where "t = ?z + (?z * 12287 mod 65536) * 12289"
  note t = monty_fold [OF z, folded t_def]
  have uz: "uint (x * y) = ?z" using z by (simp add: uint_word_ariths)
  have m: "w AND 0xFFFF = take_bit 16 w" for w :: u32 by (simp add: take_bit_eq_mask mask_eq_exp_minus_1)
  have lo: "uint ((x * y * Q0I) AND 0xFFFF) = ?z * 12287 mod 65536"
    unfolding m unsigned_take_bit_eq by (simp only: take_bit_eq_mod uint_word_ariths(3) uz)
      (use z in \<open>simp add: Q0I_def mod_mod_cancel\<close>)
  have mb: "0 \<le> ?z * 12287 mod 65536" "?z * 12287 mod 65536 < 65536" by simp_all
  have w: "uint (((x * y * Q0I) AND 0xFFFF) * Q) = (?z * 12287 mod 65536) * 12289"
    using mb by (simp add: uint_word_ariths lo Q_def)
  have s: "uint (x * y + ((x * y * Q0I) AND 0xFFFF) * Q) = t"
    using t(2,3) unfolding uint_word_ariths(1) w uz by (simp add: t_def)
  have sh: "uint (drop_bit 16 (x * y + ((x * y * Q0I) AND 0xFFFF) * Q)) = t div 65536"
    by (simp add: uint_shr s)
  have tr: "0 \<le> t div 65536" "t div 65536 < 24578" using div_range [of t 24578 65536] t(2,3) by auto
  have "uint (mq_montymul x y) = (t div 65536 - qZ) mod qZ"
    unfolding mq_montymul_def Let_def using tr
    by (intro cond_add) (simp_all add: uint_word_ariths sh [unfolded Q_def] Q_def)
  then show ?thesis using t(4) by simp
qed

lemma mq_range:
  "uint x < qZ \<Longrightarrow> uint y < qZ \<Longrightarrow> uint (mq_add x y) < qZ"
  "uint x < qZ \<Longrightarrow> uint y < qZ \<Longrightarrow> uint (mq_sub x y) < qZ"
  "uint x < qZ \<Longrightarrow> uint y < qZ \<Longrightarrow> uint (mq_montymul x y) < qZ"
  by (simp_all add: c_bounds)

section \<open>Division\<close>

lemma monty_mul_pow:
  assumes "uint u = x ^ a * 4091 mod qZ" "uint v = x ^ b * 4091 mod qZ"
  shows "uint (mq_montymul u v) = x ^ (a + b) * 4091 mod qZ"
proof -
  have "uint (mq_montymul u v) = (x ^ a * 4091) * (x ^ b * 4091) * RI mod qZ"
    by (subst uint_mq_montymul) (simp_all only: assms mod_mult3 pos_mod_bound zero_less_numeral)
  also have "(x ^ a * 4091) * (x ^ b * 4091) * RI = (x ^ (a + b) * 4091) * (4091 * RI)"
    by (simp add: power_add)
  also have "\<dots> mod qZ = (x ^ (a + b) * 4091) * (4091 * RI mod qZ) mod qZ" by (simp only: mod_simps)
  finally show ?thesis by simp
qed

lemma uint_mq_div [c_bounds]:
  assumes "uint x < qZ" "uint y < qZ"
  shows "uint (mq_div_12289 x y) = uint x * uint y ^ 12287 mod qZ"
proof -
  let ?P = "\<lambda>e w. uint w = uint y ^ e * 4091 mod qZ"
  have y0: "?P 1 (mq_montymul y R2)"
  proof -
    have "uint (mq_montymul y R2) = uint y * (10952 * RI) mod qZ"
      using assms by (subst uint_mq_montymul) (simp_all add: R2_def mult.assoc)
    also have "\<dots> = uint y * (10952 * RI mod qZ) mod qZ" by (simp only: mod_simps)
    finally show ?thesis by simp
  qed
  have chain: "?P 12287 w \<Longrightarrow> uint (mq_montymul w x) = uint x * uint y ^ 12287 mod qZ" for w
  proof -
    assume w: "?P 12287 w"
    then have "uint (mq_montymul w x) = (uint y ^ 12287 * 4091) * uint x * RI mod qZ"
      by (subst uint_mq_montymul) (simp_all only: assms w mod_mult3_left pos_mod_bound zero_less_numeral)
    also have "(uint y ^ 12287 * 4091) * uint x * RI = (uint x * uint y ^ 12287) * (4091 * RI)" by (simp only: ac_simps)
    also have "\<dots> mod qZ = (uint x * uint y ^ 12287) * (4091 * RI mod qZ) mod qZ" by (simp only: mod_simps)
    finally show ?thesis by simp
  qed
  have start: "?P 1 v \<Longrightarrow> (\<And>u. ?P 1 u \<Longrightarrow> uint (f u) = r) \<Longrightarrow> uint (Let v f) = r" for v r and f :: "u32 \<Rightarrow> u32"
    by simp
  have step: "?P a u \<Longrightarrow> ?P b v \<Longrightarrow> e = a + b \<Longrightarrow> (\<And>w. ?P e w \<Longrightarrow> uint (f w) = r) \<Longrightarrow> uint (Let (mq_montymul u v) f) = r"
    for u v a b e r and f :: "u32 \<Rightarrow> u32"
    using monty_mul_pow [of u "uint y" a v b] by simp
  show ?thesis
    unfolding mq_div_12289_def mq_montysqr_def
    apply (rule start, rule y0)
    apply (rule step [of _ _ _ _ 2], assumption, assumption, simp (no_asm))
    apply (rule step [of _ _ _ _ 3], assumption, assumption, simp (no_asm))
    apply (rule step [of _ _ _ _ 5], assumption, assumption, simp (no_asm))
    apply (rule step [of _ _ _ _ 10], assumption, assumption, simp (no_asm))
    apply (rule step [of _ _ _ _ 20], assumption, assumption, simp (no_asm))
    apply (rule step [of _ _ _ _ 40], assumption, assumption, simp (no_asm))
    apply (rule step [of _ _ _ _ 80], assumption, assumption, simp (no_asm))
    apply (rule step [of _ _ _ _ 160], assumption, assumption, simp (no_asm))
    apply (rule step [of _ _ _ _ 163], assumption, assumption, simp (no_asm))
    apply (rule step [of _ _ _ _ 323], assumption, assumption, simp (no_asm))
    apply (rule step [of _ _ _ _ 646], assumption, assumption, simp (no_asm))
    apply (rule step [of _ _ _ _ 1292], assumption, assumption, simp (no_asm))
    apply (rule step [of _ _ _ _ 1455], assumption, assumption, simp (no_asm))
    apply (rule step [of _ _ _ _ 2910], assumption, assumption, simp (no_asm))
    apply (rule step [of _ _ _ _ 5820], assumption, assumption, simp (no_asm))
    apply (rule step [of _ _ _ _ 6143], assumption, assumption, simp (no_asm))
    apply (rule step [of _ _ _ _ 12286], assumption, assumption, simp (no_asm))
    apply (rule step [of _ _ _ _ 12287], assumption, assumption, simp (no_asm))
    apply (rule chain, assumption)
    done
qed

lemma mq_div_cancel:
  assumes "uint x < qZ" "uint y < qZ" "y \<noteq> 0"
  shows "(uint (mq_div_12289 x y) * uint y) mod qZ = uint x"
proof -
  have "\<not> qZ dvd uint y" using assms(2,3) by (auto dest: zdvd_imp_le simp: word_uint_eq_iff less_le)
  then have f: "uint y ^ 12288 mod qZ = 1" using fermat_int [OF prime_12289, of "uint y"] by simp
  have "uint (mq_div_12289 x y) * uint y mod qZ = uint x * (uint y ^ 12287 * uint y) mod qZ"
    unfolding uint_mq_div [OF assms(1,2)] by (simp add: mod_simps ac_simps)
  also have "uint y ^ 12287 * uint y = uint y ^ 12288" using power_Suc2 [of "uint y" 12287] by simp
  also have "uint x * uint y ^ 12288 mod qZ = uint x * (uint y ^ 12288 mod qZ) mod qZ" by (simp only: mod_simps)
  finally show ?thesis using assms(1) by (simp add: f)
qed

section \<open>The operations in the field\<close>

lemma zq_of_uint: "uint x = z mod qZ \<Longrightarrow> zq x = of_int z"
  unfolding zq_def by (simp add: of_int_fq)

lemma zq_mq_add: "uint x < qZ \<Longrightarrow> uint y < qZ \<Longrightarrow> zq (mq_add x y) = zq x + zq y"
  using zq_of_uint [OF uint_mq_add, of x y] by (simp add: zq_def)

lemma zq_mq_sub: "uint x < qZ \<Longrightarrow> uint y < qZ \<Longrightarrow> zq (mq_sub x y) = zq x - zq y"
  using zq_of_uint [OF uint_mq_sub, of x y] by (simp add: zq_def)

lemma zq_mq_montymul: "uint x < qZ \<Longrightarrow> uint y < qZ \<Longrightarrow> zq (mq_montymul x y) = zq x * zq y * 2304"
  using zq_of_uint [OF uint_mq_montymul, of x y] by (simp add: zq_def)

lemma zq_mq_div: "uint x < qZ \<Longrightarrow> uint y < qZ \<Longrightarrow> zq (mq_div_12289 x y) = zq x * zq y ^ 12287"
  using zq_of_uint [OF uint_mq_div, of x y] by (simp add: zq_def)

lemma zq_mq_rshift1:
  assumes "uint x < qZ"
  shows "2 * zq (mq_rshift1 x) = zq x"
proof -
  have "(of_int (2 * uint (mq_rshift1 x)) :: fq) = of_int (uint x)"
    unfolding of_int_fq using uint_mq_rshift1 [OF assms] by simp
  then show ?thesis by (simp add: zq_def)
qed

lemma mq_div_range: "uint x < qZ \<Longrightarrow> uint y < qZ \<Longrightarrow> uint (mq_div_12289 x y) < qZ"
  by (simp add: uint_mq_div)

lemma uint_to32 [simp]: "uint (ucast (x :: u16) :: u32) = uint x"
  using uint16_lt [of x] by (simp add: uint_ucast_mod)

lemma zq_to32 [simp]: "zq (ucast (x :: u16) :: u32) = zq x"
  unfolding zq_def uint_to32 by (rule refl)

lemma uint_to16: "uint (x :: u32) < qZ \<Longrightarrow> uint (ucast x :: u16) = uint x"
  by (simp add: uint_ucast_mod)

lemma zq_to16: "uint (x :: u32) < qZ \<Longrightarrow> zq (ucast x :: u16) = zq x"
  unfolding zq_def by (simp only: uint_to16)

lemmas zq_simps = zq_mq_add zq_mq_sub zq_mq_montymul zq_mq_div zq_to16
lemmas mq_ranges = mq_range mq_div_range

section \<open>Properties\<close>

text \<open>
  Arithmetic modulo q without branches: on operands below q, \<open>mq_add\<close> and \<open>mq_sub\<close> are addition
  and subtraction modulo q, and \<open>mq_montymul\<close> is the Montgomery product \<open>x y / 2^16\<close>, all with results
  below q although the intermediate words wrap around.
\<close>

lemma mq_arith_correct:
  assumes "uint x < 12289" "uint y < 12289"
  shows "uint (mq_add x y) = (uint x + uint y) mod 12289 \<and>
    uint (mq_sub x y) = (uint x - uint y) mod 12289 \<and>
    uint (mq_montymul x y) < 12289 \<and>
    uint (mq_montymul x y) * 65536 mod 12289 = uint x * uint y mod 12289"
proof -
  have "uint x * uint y * 2304 mod 12289 * 65536 mod 12289 = uint x * uint y * (2304 * 65536) mod 12289"
    by (simp only: mod_mult_left_eq mult.assoc)
  also have "\<dots> = uint x * uint y * (2304 * 65536 mod 12289) mod 12289" by (simp only: mod_mult_right_eq)
  finally show ?thesis using assms by (simp add: uint_mq_add uint_mq_sub uint_mq_montymul)
qed

text \<open>
  Division modulo q: the addition chain of \<open>mq_div_12289\<close> inverts every nonzero divisor.
\<close>

lemma mq_div_correct:
  assumes "uint x < 12289" "uint y < 12289" "y \<noteq> 0"
  shows "uint (mq_div_12289 x y) < 12289 \<and> uint (mq_div_12289 x y) * uint y mod 12289 = uint x"
  using mq_div_cancel [OF assms] mq_div_range [OF assms(1,2)] by simp

end
