(* ===== verification/Negacyclic.thy ===== *)
theory Negacyclic
  imports Prelude
begin

text \<open>
  What the number-theoretic transforms of vrfy.c and keygen.c share: loops of butterflies on disjoint pairs of
  array elements as one map over the array, the split of an evaluation into even and odd coefficients, and
  products modulo \<open>X^n + 1\<close>.
\<close>

section \<open>Butterflies on disjoint pairs\<close>

lemma fold_pairs:
  assumes "distinct js" "\<And>j. j \<in> set js \<Longrightarrow> j + h < length a" "\<And>j. j \<in> set js \<Longrightarrow> j + h \<notin> set js"
  shows "fold (\<lambda>j a. a[j := f j (a ! j) (a ! (j + h)), j + h := g j (a ! j) (a ! (j + h))]) js a
    = map (\<lambda>p. if p \<in> set js then f p (a ! p) (a ! (p + h))
              else if h \<le> p \<and> p - h \<in> set js then g (p - h) (a ! (p - h)) (a ! p)
              else a ! p) [0..<length a]"
  using assms
proof (induction js arbitrary: a)
  case (Cons j js)
  let ?a = "a[j := f j (a ! j) (a ! (j + h)), j + h := g j (a ! j) (a ! (j + h))]"
  have jj: "j \<notin> set js" "j + h \<notin> set js" "j + h \<noteq> j" using Cons.prems(1) Cons.prems(3) [of j] by simp_all
  have n1: "p \<in> set js \<Longrightarrow> p + h \<noteq> j \<and> p + h \<noteq> j + h \<and> p \<noteq> j \<and> p \<noteq> j + h" for p
    using Cons.prems(3) jj by fastforce
  have "fold (\<lambda>j a. a[j := f j (a ! j) (a ! (j + h)), j + h := g j (a ! j) (a ! (j + h))]) js ?a
    = map (\<lambda>p. if p \<in> set js then f p (?a ! p) (?a ! (p + h))
              else if h \<le> p \<and> p - h \<in> set js then g (p - h) (?a ! (p - h)) (?a ! p)
              else ?a ! p) [0..<length ?a]"
    using Cons.prems by (intro Cons.IH) auto
  also have "\<dots> = map (\<lambda>p. if p \<in> set (j # js) then f p (a ! p) (a ! (p + h))
              else if h \<le> p \<and> p - h \<in> set (j # js) then g (p - h) (a ! (p - h)) (a ! p)
              else a ! p) [0..<length a]"
  proof (rule map_cong)
    fix p assume "p \<in> set [0..<length a]"
    then have p: "p < length a" by simp
    show "(if p \<in> set js then f p (?a ! p) (?a ! (p + h))
              else if h \<le> p \<and> p - h \<in> set js then g (p - h) (?a ! (p - h)) (?a ! p)
              else ?a ! p) = (if p \<in> set (j # js) then f p (a ! p) (a ! (p + h))
              else if h \<le> p \<and> p - h \<in> set (j # js) then g (p - h) (a ! (p - h)) (a ! p)
              else a ! p)"
    proof (cases "p \<in> set js")
      case True
      then show ?thesis using n1 [OF True] by (auto simp: nth_list_update)
    next
      case False
      have "h \<le> p \<Longrightarrow> p - h \<in> set js \<Longrightarrow> p \<noteq> j \<and> p \<noteq> j + h \<and> p - h \<noteq> j \<and> p - h \<noteq> j + h"
        using n1 [of "p - h"] by auto
      moreover have "j < length a" "j + h < length a" using Cons.prems(2) [of j] by auto
      ultimately show ?thesis using False p jj by (auto simp: nth_list_update)
    qed
  qed simp
  finally show ?case by simp
qed (simp add: map_nth)

definition block_heads :: "nat \<Rightarrow> nat \<Rightarrow> nat list" where
  "block_heads m h = concat (map (\<lambda>i. [i * (2 * h)..<i * (2 * h) + h]) [0..<m])"

lemma block_heads_set: "0 < h \<Longrightarrow> p \<in> set (block_heads m h) \<longleftrightarrow> p < m * (2 * h) \<and> p mod (2 * h) < h"
proof
  assume "p \<in> set (block_heads m h)"
  then obtain i where i: "i < m" "i * (2 * h) \<le> p" "p < i * (2 * h) + h" by (auto simp: block_heads_def)
  then obtain k where k: "p = k + i * (2 * h)" "k < h" by (metis add.commute le_Suc_ex nat_add_left_cancel_less)
  have "Suc i * (2 * h) \<le> m * (2 * h)" using i(1) by (intro mult_le_mono1) simp
  then show "p < m * (2 * h) \<and> p mod (2 * h) < h" using k by simp
next
  assume h: "0 < h" and p: "p < m * (2 * h) \<and> p mod (2 * h) < h"
  have "p div (2 * h) < m" using p h by (simp add: less_mult_imp_div_less)
  moreover have "p div (2 * h) * (2 * h) \<le> p" "p < p div (2 * h) * (2 * h) + h"
    using p div_mult_mod_eq [of p "2 * h"] by (simp, linarith)
  ultimately show "p \<in> set (block_heads m h)"
    unfolding block_heads_def by (auto intro!: bexI [of _ "p div (2 * h)"])
qed

lemma block_heads_distinct: "0 < h \<Longrightarrow> distinct (block_heads m h)"
proof (induction m)
  case (Suc m)
  have "set (block_heads m h) \<inter> {m * (2 * h)..<m * (2 * h) + h} = {}"
    unfolding disjoint_iff atLeastLessThan_iff block_heads_set [OF Suc.prems] by linarith
  moreover have "block_heads (Suc m) h = block_heads m h @ [m * (2 * h)..<m * (2 * h) + h]"
    by (simp add: block_heads_def)
  ultimately show ?case using Suc by (simp only: distinct_append distinct_upt set_upt)
qed (simp add: block_heads_def)

lemma upper_half:
  fixes j h :: nat
  assumes "j mod (2 * h) < h"
  shows "(j + h) mod (2 * h) = j mod (2 * h) + h" "(j + h) div (2 * h) = j div (2 * h)"
proof -
  define k r where "k = j div (2 * h)" and "r = j mod (2 * h)"
  have j: "j + h = (r + h) + k * (2 * h)" using mod_div_mult_eq [of j "2 * h"] unfolding k_def r_def by linarith
  have "r + h < 2 * h" using assms by (simp add: r_def)
  then show "(j + h) mod (2 * h) = j mod (2 * h) + h" "(j + h) div (2 * h) = j div (2 * h)"
    unfolding j k_def [symmetric] r_def [symmetric] by simp_all
qed

lemma lower_half:
  fixes p h :: nat
  assumes "\<not> p mod (2 * h) < h" "0 < h"
  shows "h \<le> p" "(p - h) mod (2 * h) < h" "(p - h) div (2 * h) = p div (2 * h)"
proof -
  define k r where "k = p div (2 * h)" and "r = p mod (2 * h)"
  have p: "p = r + k * (2 * h)" unfolding k_def r_def by (rule mod_div_mult_eq [symmetric])
  have r: "h \<le> r" "r < 2 * h" using assms by (simp_all add: r_def)
  then have e: "p - h = (r - h) + k * (2 * h)" "r - h < h" using p by linarith+
  show "h \<le> p" using p r by linarith
  show "(p - h) mod (2 * h) < h" "(p - h) div (2 * h) = p div (2 * h)"
    using e(2) unfolding e(1) k_def [symmetric] by simp_all
qed

lemma fold_blocks:
  assumes h: "0 < h" and len: "length a = m * (2 * h)"
  shows "fold (\<lambda>i a. fold (\<lambda>j a. a[j := f i (a ! j) (a ! (j + h)), j + h := g i (a ! j) (a ! (j + h))])
          [i * (2 * h)..<i * (2 * h) + h] a) [0..<m] a
    = map (\<lambda>p. if p mod (2 * h) < h then f (p div (2 * h)) (a ! p) (a ! (p + h))
              else g (p div (2 * h)) (a ! (p - h)) (a ! p)) [0..<length a]"
proof -
  let ?F = "\<lambda>j a. a[j := f (j div (2 * h)) (a ! j) (a ! (j + h)), j + h := g (j div (2 * h)) (a ! j) (a ! (j + h))]"
  have inner: "fold (\<lambda>j a. a[j := f i (a ! j) (a ! (j + h)), j + h := g i (a ! j) (a ! (j + h))]) [i * (2 * h)..<i * (2 * h) + h]
      = fold ?F [i * (2 * h)..<i * (2 * h) + h]" for i
  proof (rule ext, rule fold_cong [OF refl refl])
    fix j assume "j \<in> set [i * (2 * h)..<i * (2 * h) + h]"
    then have "j div (2 * h) = i" using h by (intro div_nat_eqI) (auto simp: mult.commute)
    then show "(\<lambda>a. a[j := f i (a ! j) (a ! (j + h)), j + h := g i (a ! j) (a ! (j + h))]) = ?F j" by simp
  qed
  have "fold (\<lambda>i a. fold (\<lambda>j a. a[j := f i (a ! j) (a ! (j + h)), j + h := g i (a ! j) (a ! (j + h))])
          [i * (2 * h)..<i * (2 * h) + h] a) [0..<m] a = fold (\<lambda>i. fold ?F [i * (2 * h)..<i * (2 * h) + h]) [0..<m] a"
    by (simp only: inner)
  also have "\<dots> = fold ?F (block_heads m h) a" unfolding block_heads_def
    by (induction m arbitrary: a) simp_all
  also have "\<dots> = map (\<lambda>p. if p \<in> set (block_heads m h) then f (p div (2 * h)) (a ! p) (a ! (p + h))
              else if h \<le> p \<and> p - h \<in> set (block_heads m h) then g ((p - h) div (2 * h)) (a ! (p - h)) (a ! p)
              else a ! p) [0..<length a]"
  proof (rule fold_pairs [where f = "\<lambda>j. f (j div (2 * h))" and g = "\<lambda>j. g (j div (2 * h))"])
    fix j assume "j \<in> set (block_heads m h)"
    then have j: "j < m * (2 * h)" "j mod (2 * h) < h" using block_heads_set [OF h] by auto
    note u = upper_half [OF j(2)]
    show "j + h \<notin> set (block_heads m h)" using u block_heads_set [OF h] by simp
    have "(j + h) div (2 * h) < m" using u j(1) h by (simp add: less_mult_imp_div_less)
    then show "j + h < length a" using h len by (simp add: div_less_iff_less_mult)
  qed (simp add: block_heads_distinct h)
  also have "\<dots> = map (\<lambda>p. if p mod (2 * h) < h then f (p div (2 * h)) (a ! p) (a ! (p + h))
              else g (p div (2 * h)) (a ! (p - h)) (a ! p)) [0..<length a]"
  proof (rule map_cong)
    fix p assume "p \<in> set [0..<length a]"
    then have p: "p < m * (2 * h)" by (simp add: len)
    show "(if p \<in> set (block_heads m h) then f (p div (2 * h)) (a ! p) (a ! (p + h))
              else if h \<le> p \<and> p - h \<in> set (block_heads m h) then g ((p - h) div (2 * h)) (a ! (p - h)) (a ! p)
              else a ! p) = (if p mod (2 * h) < h then f (p div (2 * h)) (a ! p) (a ! (p + h))
              else g (p div (2 * h)) (a ! (p - h)) (a ! p))"
    proof (cases "p mod (2 * h) < h")
      case False
      note l = lower_half [OF False h]
      have "p - h < m * (2 * h)" using p by linarith
      then show ?thesis unfolding block_heads_set [OF h] using False l by simp
    qed (simp add: block_heads_set [OF h] p)
  qed simp
  finally show ?thesis .
qed

lemma block_in:
  fixes p m h :: nat
  assumes "0 < h" "p < m * (2 * h)"
  shows "p div (2 * h) < m" "p mod (2 * h) < h \<Longrightarrow> p + h < m * (2 * h)"
proof -
  show "p div (2 * h) < m" using assms by (simp add: less_mult_imp_div_less)
  assume "p mod (2 * h) < h"
  then have "(p + h) div (2 * h) < m" using assms upper_half(2) by (simp add: less_mult_imp_div_less)
  then show "p + h < m * (2 * h)" using assms by (simp add: div_less_iff_less_mult)
qed

section \<open>Levels and evaluations\<close>

lemma level_split:
  assumes "Suc k \<le> logn" "logn \<le> 10"
  shows "(2 :: nat) ^ (logn - k) = 2 * 2 ^ (logn - Suc k)" "(2 :: nat) ^ k * (2 * 2 ^ (logn - Suc k)) = 2 ^ logn"
    "2 * (2 :: nat) ^ k \<le> 1024"
proof -
  show e: "(2 :: nat) ^ (logn - k) = 2 * 2 ^ (logn - Suc k)"
    using assms(1) by (metis Suc_diff_Suc Suc_le_lessD power_Suc)
  show "(2 :: nat) ^ k * (2 * 2 ^ (logn - Suc k)) = 2 ^ logn"
    unfolding e [symmetric] using assms(1) by (simp flip: power_add)
  have "(2 :: nat) ^ Suc k \<le> 2 ^ 10" using assms by (intro power_increasing) auto
  then show "2 * (2 :: nat) ^ k \<le> 1024" by simp
qed

lemma sum_even_odd: "(\<Sum>l<2 * m. f l) = (\<Sum>l<m. f (2 * l)) + (\<Sum>l<m. f (2 * l + 1))" for f :: "nat \<Rightarrow> 'a::comm_monoid_add"
  by (induction m) (simp_all add: ac_simps)

lemma eval_split:
  fixes r :: "'a::comm_ring_1"
  shows "(\<Sum>l<2 * m. f (j + l * h) * r ^ l)
    = (\<Sum>l<m. f (j + l * (2 * h)) * (r * r) ^ l) + (\<Sum>l<m. f (j + h + l * (2 * h)) * (r * r) ^ l) * r"
proof -
  have p: "r ^ (2 * l) = (r * r) ^ l" for l by (simp add: power_mult power2_eq_square)
  have i: "j + 2 * l * h = j + l * (2 * h)" "j + (2 * l + 1) * h = j + h + l * (2 * h)" for l by simp_all
  have "f (j + (2 * l + 1) * h) * r ^ (2 * l + 1) = f (j + h + l * (2 * h)) * (r * r) ^ l * r" for l
    unfolding i(2) power_add p by (simp add: mult.assoc)
  then show ?thesis unfolding sum_even_odd sum_distrib_right i(1) p by simp
qed

section \<open>Products modulo \<open>X^n + 1\<close>\<close>

text \<open>The product of two polynomials modulo \<open>X^n + 1\<close>, coefficient \<open>k\<close>.\<close>

definition negacyclic :: "nat \<Rightarrow> (nat \<Rightarrow> 'a::comm_ring_1) \<Rightarrow> (nat \<Rightarrow> 'a) \<Rightarrow> nat \<Rightarrow> 'a" where
  "negacyclic n f g k = (\<Sum>i<n. f i * (if i \<le> k then g (k - i) else - g (n + k - i)))"

lemma shifted_eval:
  fixes z :: "'a::comm_ring_1"
  assumes i: "i < n"
  shows "z ^ i * (\<Sum>j<n. g j * z ^ j) = (\<Sum>k<n. if i \<le> k then g (k - i) * z ^ k else g (n + k - i) * z ^ (n + k))"
proof -
  have "z ^ i * (\<Sum>j<n. g j * z ^ j) = (\<Sum>j<n. g j * z ^ (i + j))" by (simp add: sum_distrib_left power_add ac_simps)
  also have "\<dots> = (\<Sum>k<n. if i \<le> k then g (k - i) * z ^ k else g (n + k - i) * z ^ (n + k))"
    by (rule sum.reindex_bij_witness [of _ "\<lambda>k. if i \<le> k then k - i else n + k - i" "\<lambda>j. if i + j < n then i + j else i + j - n"])
      (use i in auto)
  finally show ?thesis .
qed

text \<open>The evaluation of a product differs from the product of the evaluations by a multiple of \<open>z^n + 1\<close>.\<close>

lemma negacyclic_eval_defect:
  fixes z :: "'a::comm_ring_1"
  shows "(\<Sum>i<n. f i * z ^ i) * (\<Sum>j<n. g j * z ^ j) =
    (\<Sum>k<n. negacyclic n f g k * z ^ k) + (z ^ n + 1) * (\<Sum>i<n. f i * (\<Sum>k<n. if i \<le> k then 0 else g (n + k - i) * z ^ k))"
proof -
  have inner: "z ^ i * (\<Sum>j<n. g j * z ^ j) = (\<Sum>k<n. (if i \<le> k then g (k - i) else - g (n + k - i)) * z ^ k)
      + (z ^ n + 1) * (\<Sum>k<n. if i \<le> k then 0 else g (n + k - i) * z ^ k)" if "i < n" for i
    by (subst shifted_eval [OF that], unfold sum_distrib_left sum.distrib [symmetric], rule sum.cong)
      (simp_all add: power_add algebra_simps)
  have "(\<Sum>k<n. negacyclic n f g k * z ^ k) = (\<Sum>i<n. f i * (\<Sum>k<n. (if i \<le> k then g (k - i) else - g (n + k - i)) * z ^ k))"
    unfolding negacyclic_def sum_distrib_right sum_distrib_left by (subst sum.swap) (simp add: mult.assoc)
  moreover have "(\<Sum>i<n. f i * z ^ i) * (\<Sum>j<n. g j * z ^ j) = (\<Sum>i<n. f i * (z ^ i * (\<Sum>j<n. g j * z ^ j)))"
    by (simp add: sum_distrib_right mult.assoc)
  moreover have "\<dots> = (\<Sum>i<n. f i * (\<Sum>k<n. (if i \<le> k then g (k - i) else - g (n + k - i)) * z ^ k)
      + (z ^ n + 1) * (f i * (\<Sum>k<n. if i \<le> k then 0 else g (n + k - i) * z ^ k)))"
    by (rule sum.cong) (simp_all only: lessThan_iff inner distrib_left mult.left_commute)
  ultimately show ?thesis by (simp only: sum.distrib sum_distrib_left)
qed

lemma negacyclic_eval:
  "(z :: 'a::comm_ring_1) ^ n = - 1 \<Longrightarrow> (\<Sum>k<n. negacyclic n f g k * z ^ k) = (\<Sum>i<n. f i * z ^ i) * (\<Sum>j<n. g j * z ^ j)"
  using negacyclic_eval_defect [where n = n and f = f and g = g and z = z] by simp

lemma negacyclic_eval_mod:
  fixes z :: int
  assumes "z ^ n mod m = - 1 mod m"
  shows "(\<Sum>k<n. negacyclic n f g k * z ^ k) mod m = (\<Sum>i<n. f i * z ^ i) * (\<Sum>j<n. g j * z ^ j) mod m"
proof -
  have "m dvd z ^ n - - 1" using assms by (simp only: mod_eq_dvd_iff)
  then have "m dvd (\<Sum>i<n. f i * z ^ i) * (\<Sum>j<n. g j * z ^ j) - (\<Sum>k<n. negacyclic n f g k * z ^ k)"
    unfolding negacyclic_eval_defect by simp
  then show ?thesis by (simp only: mod_eq_dvd_iff [symmetric])
qed

end
