(* ===== verification/Ntt.thy ===== *)
theory Ntt
  imports Mq_Arith Negacyclic
begin

text \<open>
  The number-theoretic transform of vrfy.c and its inverse, on polynomials modulo
  \<open>X^n + 1\<close> and \<open>q\<close> with \<open>n = 2^logn\<close>, \<open>logn \<le> 10\<close>. The transform is shown to evaluate the
  polynomial at the n roots of \<open>X^n + 1\<close>, the inverse to invert it, and the transform,
  pointwise product, inverse transform sequence to be the negacyclic product.
\<close>

section \<open>Model\<close>

definition ntt_butterfly :: "u32 \<Rightarrow> nat \<Rightarrow> nat \<Rightarrow> u16 list \<Rightarrow> u16 list" where
  "ntt_butterfly s ht j a =
     (let u = ucast (a ! j);
          v = mq_montymul (ucast (a ! (j + ht))) s;
          a = a[j := ucast (mq_add u v)]
      in a[j + ht := ucast (mq_sub u v)])"

definition ntt_level :: "nat \<Rightarrow> nat \<Rightarrow> u16 list \<Rightarrow> u16 list" where
  "ntt_level m t a =
     (let ht = t div 2
      in fold (\<lambda>i a.
           let j1 = i * t;
               s = ucast (GMb ! (m + i));
               j2 = j1 + ht
           in fold (ntt_butterfly s ht) [j1..<j2] a) [0..<m] a)"

definition mq_NTT :: "u16 list \<Rightarrow> nat \<Rightarrow> u16 list" where
  "mq_NTT a logn =
     (let n = 2 ^ logn;
          (t, m, a) = ((\<lambda>(t, m, a). (t div 2, 2 * m, ntt_level m t a)) ^^ logn) (n, 1, a)
      in a)"

definition intt_butterfly :: "u32 \<Rightarrow> nat \<Rightarrow> nat \<Rightarrow> u16 list \<Rightarrow> u16 list" where
  "intt_butterfly s t j a =
     (let u = ucast (a ! j);
          v = ucast (a ! (j + t));
          a = a[j := ucast (mq_add u v)];
          w = mq_sub u v
      in a[j + t := ucast (mq_montymul w s)])"

definition intt_level :: "nat \<Rightarrow> nat \<Rightarrow> u16 list \<Rightarrow> u16 list" where
  "intt_level m t a =
     (let hm = m div 2;
          dt = 2 * t
      in fold (\<lambda>i a.
           let j1 = i * dt;
               j2 = j1 + t;
               s = ucast (iGMb ! (hm + i))
           in fold (intt_butterfly s t) [j1..<j2] a) [0..<hm] a)"

definition mq_iNTT :: "u16 list \<Rightarrow> nat \<Rightarrow> u16 list" where
  "mq_iNTT a logn =
     (let n = 2 ^ logn;
          (t, m, a) = ((\<lambda>(t, m, a). (2 * t, m div 2, intt_level m t a)) ^^ logn) (1, n, a);
          ni = (mq_rshift1 ^^ logn) R
      in fold (\<lambda>m a. a[m := ucast (mq_montymul (ucast (a ! m)) ni)]) [0..<n] a)"

section \<open>One level in the field\<close>

definition canon :: "nat \<Rightarrow> u16 list \<Rightarrow> bool" where
  "canon n a \<longleftrightarrow> length a = n \<and> (\<forall>x \<in> set a. uint x < qZ)"

lemma canon_length [simp]: "canon n a \<Longrightarrow> length a = n"
  by (simp add: canon_def)

lemma canon_nth: "canon n a \<Longrightarrow> p < n \<Longrightarrow> uint (a ! p) < qZ"
  unfolding canon_def by (metis nth_mem)

lemma canonI: "length a = n \<Longrightarrow> (\<And>p. p < n \<Longrightarrow> uint (a ! p) < qZ) \<Longrightarrow> canon n a"
  unfolding canon_def by (metis in_set_conv_nth)

lemma canon_eqI:
  "canon n a \<Longrightarrow> canon n b \<Longrightarrow> (\<And>p. p < n \<Longrightarrow> zq (a ! p) = zq (b ! p)) \<Longrightarrow> a = b"
  by (rule nth_equalityI) (auto simp: zq_inject canon_nth)

definition zeta :: "nat \<Rightarrow> fq" where
  "zeta k = zq (GMb ! k) * 2304"

definition izeta :: "nat \<Rightarrow> fq" where
  "izeta k = zq (iGMb ! k) * 2304"

lemma tables_range: "k < 1024 \<Longrightarrow> uint (GMb ! k) < qZ" "k < 1024 \<Longrightarrow> uint (iGMb ! k) < qZ"
  using tables_canonical by (simp_all add: list_all_length length_tables)

lemma ntt_level_map:
  assumes "0 < h" "length a = m * (2 * h)"
  shows "ntt_level m (2 * h) a = map (\<lambda>p.
      if p mod (2 * h) < h
      then ucast (mq_add (ucast (a ! p)) (mq_montymul (ucast (a ! (p + h))) (ucast (GMb ! (m + p div (2 * h))))))
      else ucast (mq_sub (ucast (a ! (p - h))) (mq_montymul (ucast (a ! p)) (ucast (GMb ! (m + p div (2 * h)))))))
    [0..<length a]"
  unfolding ntt_level_def ntt_butterfly_def [abs_def] Let_def
  using fold_blocks [OF assms, of
      "\<lambda>i x y. ucast (mq_add (ucast x) (mq_montymul (ucast y) (ucast (GMb ! (m + i)))))"
      "\<lambda>i x y. ucast (mq_sub (ucast x) (mq_montymul (ucast y) (ucast (GMb ! (m + i)))))"] by simp

lemma intt_level_map:
  assumes "0 < h" "length a = m * (2 * h)"
  shows "intt_level (2 * m) h a = map (\<lambda>p.
      if p mod (2 * h) < h
      then ucast (mq_add (ucast (a ! p)) (ucast (a ! (p + h))))
      else ucast (mq_montymul (mq_sub (ucast (a ! (p - h))) (ucast (a ! p))) (ucast (iGMb ! (m + p div (2 * h))))))
    [0..<length a]"
  unfolding intt_level_def intt_butterfly_def [abs_def] Let_def
  using fold_blocks [OF assms, of
      "\<lambda>i x y. ucast (mq_add (ucast x) (ucast y))"
      "\<lambda>i x y. ucast (mq_montymul (mq_sub (ucast x) (ucast y)) (ucast (iGMb ! (m + i))))"] by simp

lemma ntt_level_zq:
  assumes h: "0 < h" and m: "2 * m \<le> 1024" and a: "canon (m * (2 * h)) a"
  shows "canon (m * (2 * h)) (ntt_level m (2 * h) a)"
    and "p < m * (2 * h) \<Longrightarrow> zq (ntt_level m (2 * h) a ! p) =
      (if p mod (2 * h) < h then zq (a ! p) + zq (a ! (p + h)) * zeta (m + p div (2 * h))
       else zq (a ! (p - h)) - zq (a ! p) * zeta (m + p div (2 * h)))"
proof -
  have e: "uint (ntt_level m (2 * h) a ! p) < qZ \<and> zq (ntt_level m (2 * h) a ! p) =
      (if p mod (2 * h) < h then zq (a ! p) + zq (a ! (p + h)) * zeta (m + p div (2 * h))
       else zq (a ! (p - h)) - zq (a ! p) * zeta (m + p div (2 * h)))" if p: "p < m * (2 * h)" for p
  proof -
    have "uint (GMb ! (m + p div (2 * h))) < qZ" using block_in(1) [OF h p] m by (intro tables_range) simp
    moreover have "uint (a ! p) < qZ" "uint (a ! (p - h)) < qZ" "p mod (2 * h) < h \<Longrightarrow> uint (a ! (p + h)) < qZ"
      using canon_nth [OF a] p block_in(2) [OF h p] by auto
    ultimately show ?thesis using p a
      by (auto simp: ntt_level_map [OF h] zq_simps mq_ranges uint_to16 zeta_def mult.assoc)
  qed
  then show "p < m * (2 * h) \<Longrightarrow> zq (ntt_level m (2 * h) a ! p) =
      (if p mod (2 * h) < h then zq (a ! p) + zq (a ! (p + h)) * zeta (m + p div (2 * h))
       else zq (a ! (p - h)) - zq (a ! p) * zeta (m + p div (2 * h)))" by simp
  show "canon (m * (2 * h)) (ntt_level m (2 * h) a)"
    using e a by (intro canonI) (auto simp: ntt_level_map [OF h])
qed

lemma intt_level_zq:
  assumes h: "0 < h" and m: "2 * m \<le> 1024" and a: "canon (m * (2 * h)) a"
  shows "canon (m * (2 * h)) (intt_level (2 * m) h a)"
    and "p < m * (2 * h) \<Longrightarrow> zq (intt_level (2 * m) h a ! p) =
      (if p mod (2 * h) < h then zq (a ! p) + zq (a ! (p + h))
       else (zq (a ! (p - h)) - zq (a ! p)) * izeta (m + p div (2 * h)))"
proof -
  have e: "uint (intt_level (2 * m) h a ! p) < qZ \<and> zq (intt_level (2 * m) h a ! p) =
      (if p mod (2 * h) < h then zq (a ! p) + zq (a ! (p + h))
       else (zq (a ! (p - h)) - zq (a ! p)) * izeta (m + p div (2 * h)))" if p: "p < m * (2 * h)" for p
  proof -
    have "uint (iGMb ! (m + p div (2 * h))) < qZ" using block_in(1) [OF h p] m by (intro tables_range) simp
    moreover have "uint (a ! p) < qZ" "uint (a ! (p - h)) < qZ" "p mod (2 * h) < h \<Longrightarrow> uint (a ! (p + h)) < qZ"
      using canon_nth [OF a] p block_in(2) [OF h p] by auto
    ultimately show ?thesis using p a
      by (auto simp: intt_level_map [OF h] zq_simps mq_ranges uint_to16 izeta_def mult.assoc)
  qed
  then show "p < m * (2 * h) \<Longrightarrow> zq (intt_level (2 * m) h a ! p) =
      (if p mod (2 * h) < h then zq (a ! p) + zq (a ! (p + h))
       else (zq (a ! (p - h)) - zq (a ! p)) * izeta (m + p div (2 * h)))" by simp
  show "canon (m * (2 * h)) (intt_level (2 * m) h a)"
    using e a by (intro canonI) (auto simp: intt_level_map [OF h])
qed

section \<open>The roots of unity\<close>

lemma tree_ok_nth:
  "tree_ok zs cs \<Longrightarrow> 2 * i + 1 < length cs \<Longrightarrow>
    (cs ! (2 * i) * cs ! (2 * i) - zs ! i * 4091) mod qZ = 0 \<and>
    (cs ! (2 * i + 1) * cs ! (2 * i + 1) + zs ! i * 4091) mod qZ = 0"
proof (induction zs cs arbitrary: i rule: tree_ok.induct)
  case (1 z zs a b cs)
  then show ?case by (cases i) auto
qed auto

lemma fq_eq_diff: "(x - y) mod qZ = 0 \<Longrightarrow> (of_int x :: fq) = of_int y"
  unfolding of_int_fq by (simp add: mod_eq_dvd_iff mod_eq_0_iff_dvd)

lemma R_inverse: "(4091 :: fq) * 2304 = 1" by simp

lemma zeta_children:
  assumes "0 < k" "k < 512"
  shows "zeta (2 * k) * zeta (2 * k) = zeta k" "zeta (2 * k + 1) * zeta (2 * k + 1) = - zeta k"
proof -
  let ?L = "map uint GMb"
  have len: "length ?L = 1024" by (simp add: length_tables)
  have nth: "tl ?L ! (k - 1) = ?L ! k" "tl (tl ?L) ! (2 * (k - 1)) = ?L ! (2 * k)" "tl (tl ?L) ! (2 * (k - 1) + 1) = ?L ! (2 * k + 1)"
    using assms len by (cases k; simp add: nth_tl)+
  have t: "(?L ! (2 * k) * ?L ! (2 * k) - ?L ! k * 4091) mod qZ = 0"
    "(?L ! (2 * k + 1) * ?L ! (2 * k + 1) - (- ?L ! k) * 4091) mod qZ = 0"
    using tree_ok_nth [OF tables_tree, of "k - 1"] assms len unfolding nth by simp_all
  have z: "(of_int (?L ! j) :: fq) = zq (GMb ! j)" if "j < 1024" for j
    using that by (simp add: zq_def length_tables)
  have "zq (GMb ! (2 * k)) * zq (GMb ! (2 * k)) = zq (GMb ! k) * 4091"
    using fq_eq_diff [OF t(1)] z assms by simp
  moreover have "zq (GMb ! (2 * k + 1)) * zq (GMb ! (2 * k + 1)) = - zq (GMb ! k) * 4091"
    using fq_eq_diff [OF t(2)] z assms by simp
  moreover have "(x * 2304) * (x * 2304) = y * 2304" if "x * x = y * 4091" for x y :: fq
  proof -
    have "(x * 2304) * (x * 2304) = (x * x) * (2304 * 2304)" by (simp only: ac_simps)
    also have "\<dots> = y * 2304 * (4091 * 2304)" unfolding that by (simp only: ac_simps)
    finally show ?thesis unfolding R_inverse by simp
  qed
  ultimately show "zeta (2 * k) * zeta (2 * k) = zeta k" "zeta (2 * k + 1) * zeta (2 * k + 1) = - zeta k"
    unfolding zeta_def by (simp_all only: mult_minus_left [symmetric])
qed

lemma zeta_1: "zeta 1 * zeta 1 = - 1"
  by (simp add: zeta_def zq_def GMb_def)

lemma zeta_izeta:
  assumes "k < 1024"
  shows "zeta k * izeta k = 1"
proof -
  have "(uint (GMb ! k) * uint (iGMb ! k) - 4091 * 4091) mod qZ = 0"
    using tables_inverse assms by (simp add: list_all_length length_tables)
  then have "zq (GMb ! k) * zq (iGMb ! k) = 4091 * 4091"
    unfolding zq_def using fq_eq_diff [of "uint (GMb ! k) * uint (iGMb ! k)" "4091 * 4091"] by simp
  moreover have "zeta k * izeta k = (zq (GMb ! k) * zq (iGMb ! k)) * (2304 * 2304)"
    unfolding zeta_def izeta_def by (simp only: ac_simps)
  ultimately have "zeta k * izeta k = (4091 * 2304) * (4091 * 2304)" by (simp only: ac_simps)
  then show ?thesis unfolding R_inverse by simp
qed

text \<open>The point at which block \<open>i\<close> of level \<open>k\<close> evaluates.\<close>

definition zpt :: "nat \<Rightarrow> nat \<Rightarrow> fq" where
  "zpt k i = (if k = 0 then - 1 else if even i then zeta (2 ^ (k - 1) + i div 2) else - zeta (2 ^ (k - 1) + i div 2))"

lemma zpt_children:
  "zpt (Suc k) (2 * i) = zeta (2 ^ k + i)" "zpt (Suc k) (2 * i + 1) = - zeta (2 ^ k + i)"
  by (simp_all add: zpt_def)

lemma zeta_square:
  assumes "k < 10" "i < 2 ^ k"
  shows "zeta (2 ^ k + i) * zeta (2 ^ k + i) = zpt k i"
proof (cases k)
  case 0
  then show ?thesis using assms zeta_1 by (simp add: zpt_def)
next
  case (Suc l)
  have le: "(2 :: nat) ^ k \<le> 2 ^ 9" using assms(1) by (intro power_increasing) auto
  have "2 ^ l + i div 2 < 512" "0 < (2 :: nat) ^ l + i div 2" using assms(2) le Suc by auto
  note c = zeta_children [OF this(2,1)]
  show ?thesis
  proof (cases "even i")
    case True
    then have "2 ^ k + i = 2 * (2 ^ l + i div 2)" by (simp add: Suc)
    then show ?thesis using c(1) True Suc by (simp add: zpt_def)
  next
    case False
    then have e: "2 ^ k + i = 2 * (2 ^ l + i div 2) + 1" by (simp add: Suc)
    show ?thesis unfolding e c(2) using False Suc by (simp add: zpt_def)
  qed
qed

lemma zpt_power: "k \<le> 10 \<Longrightarrow> i < 2 ^ k \<Longrightarrow> zpt k i ^ (2 ^ k) = - 1"
proof (induction k arbitrary: i)
  case (Suc k)
  have "zpt (Suc k) i * zpt (Suc k) i = zeta (2 ^ k + i div 2) * zeta (2 ^ k + i div 2)" by (simp add: zpt_def)
  also have "\<dots> = zpt k (i div 2)" using Suc.prems by (intro zeta_square) auto
  finally have "zpt (Suc k) i ^ (2 ^ Suc k) = zpt k (i div 2) ^ (2 ^ k)"
    by (simp add: power_mult power2_eq_square)
  then show ?case using Suc by auto
qed (simp add: zpt_def)

section \<open>The transform evaluates the polynomial\<close>

primrec ntt_upto :: "nat \<Rightarrow> nat \<Rightarrow> u16 list \<Rightarrow> u16 list" where
  "ntt_upto logn 0 a = a"
| "ntt_upto logn (Suc k) a = ntt_level (2 ^ k) (2 ^ (logn - k)) (ntt_upto logn k a)"

lemma mq_NTT_upto: "mq_NTT a logn = ntt_upto logn logn a"
proof -
  have "k \<le> logn \<Longrightarrow> ((\<lambda>(t, m, a). (t div 2, 2 * m, ntt_level m t a)) ^^ k) (2 ^ logn, 1, a)
      = (2 ^ (logn - k), 2 ^ k, ntt_upto logn k a)" for k
  proof (induction k)
    case (Suc k)
    have "(2 :: nat) ^ (logn - k) div 2 = 2 ^ (logn - Suc k)"
      using Suc.prems by (metis Suc_diff_Suc Suc_le_lessD nonzero_mult_div_cancel_left power_Suc zero_neq_numeral)
    then show ?case using Suc by simp
  qed simp
  then show ?thesis by (simp add: mq_NTT_def Let_def)
qed

lemma canon_ntt_upto: "k \<le> logn \<Longrightarrow> logn \<le> 10 \<Longrightarrow> canon (2 ^ logn) a \<Longrightarrow> canon (2 ^ logn) (ntt_upto logn k a)"
proof (induction k)
  case (Suc k)
  note l = level_split [OF Suc.prems(1,2)]
  show ?case using ntt_level_zq(1) [OF _ l(3), of "2 ^ (logn - Suc k)" "ntt_upto logn k a"] Suc
    by (simp only: ntt_upto.simps l) simp
qed simp

lemma ntt_upto_eval:
  assumes "logn \<le> 10" "canon (2 ^ logn) a"
  shows "k \<le> logn \<Longrightarrow> i < 2 ^ k \<Longrightarrow> j < 2 ^ (logn - k) \<Longrightarrow>
    zq (ntt_upto logn k a ! (i * 2 ^ (logn - k) + j)) = (\<Sum>l<2 ^ k. zq (a ! (j + l * 2 ^ (logn - k))) * zpt k i ^ l)"
proof (induction k arbitrary: i j)
  case (Suc k)
  let ?h = "2 ^ (logn - Suc k) :: nat" and ?b = "ntt_upto logn k a" and ?c = "i div 2"
  note l = level_split [OF Suc.prems(1) assms(1)]
  have b: "canon (2 ^ k * (2 * ?h)) ?b" unfolding l(2) using Suc.prems assms by (intro canon_ntt_upto) auto
  have c: "?c < 2 ^ k" using Suc.prems(2) by auto
  let ?z = "zeta (2 ^ k + ?c)"
  have sq: "?z * ?z = zpt k ?c" using Suc.prems c assms(1) by (intro zeta_square) auto
  have IH: "zq (?b ! (?c * (2 * ?h) + j')) = (\<Sum>l<2 ^ k. zq (a ! (j' + l * (2 * ?h))) * zpt k ?c ^ l)" if "j' < 2 * ?h" for j'
    using Suc.IH [of ?c j'] Suc.prems c that l(1) by simp
  have ev: "(\<Sum>l<2 ^ Suc k. zq (a ! (j + l * ?h)) * w ^ l)
      = zq (?b ! (?c * (2 * ?h) + j)) + zq (?b ! (?c * (2 * ?h) + (j + ?h))) * w" if "w * w = zpt k ?c" for w
    using eval_split [of "\<lambda>p. zq (a ! p)" j ?h w "2 ^ k"] IH [of j] IH [of "j + ?h"] Suc.prems that by simp
  have lev: "zq (ntt_upto logn (Suc k) a ! p) =
      (if p mod (2 * ?h) < ?h then zq (?b ! p) + zq (?b ! (p + ?h)) * zeta (2 ^ k + p div (2 * ?h))
       else zq (?b ! (p - ?h)) - zq (?b ! p) * zeta (2 ^ k + p div (2 * ?h)))" if "p < 2 ^ k * (2 * ?h)" for p
    using ntt_level_zq(2) [OF _ l(3) b that] l(1) by simp
  have cb: "?c * (2 * ?h) + (2 * ?h) \<le> 2 ^ k * (2 * ?h)"
    using mult_le_mono1 [of "Suc ?c" "2 ^ k" "2 * ?h"] c by simp
  show ?case
  proof (cases "even i")
    case True
    have p: "i * ?h + j = ?c * (2 * ?h) + j" using True by auto
    have "(?c * (2 * ?h) + j) mod (2 * ?h) = j" "(?c * (2 * ?h) + j) div (2 * ?h) = ?c" using Suc.prems(3) by simp_all
    moreover have "?c * (2 * ?h) + j < 2 ^ k * (2 * ?h)" using cb Suc.prems(3) by linarith
    ultimately have "zq (ntt_upto logn (Suc k) a ! (i * ?h + j)) = zq (?b ! (?c * (2 * ?h) + j)) + zq (?b ! (?c * (2 * ?h) + (j + ?h))) * ?z"
      unfolding p using lev [of "?c * (2 * ?h) + j"] Suc.prems(3) by (simp add: add.assoc)
    then show ?thesis using ev [OF sq] True by (simp add: zpt_def)
  next
    case False
    have p: "i * ?h + j = ?c * (2 * ?h) + (j + ?h)" using False by (auto elim: oddE simp: algebra_simps)
    have "(?c * (2 * ?h) + (j + ?h)) mod (2 * ?h) = j + ?h" "(?c * (2 * ?h) + (j + ?h)) div (2 * ?h) = ?c" using Suc.prems(3) by simp_all
    moreover have "?c * (2 * ?h) + (j + ?h) < 2 ^ k * (2 * ?h)" using cb Suc.prems(3) by linarith
    moreover have "?c * (2 * ?h) + (j + ?h) - ?h = ?c * (2 * ?h) + j" by simp
    ultimately have "zq (ntt_upto logn (Suc k) a ! (i * ?h + j)) = zq (?b ! (?c * (2 * ?h) + j)) - zq (?b ! (?c * (2 * ?h) + (j + ?h))) * ?z"
      unfolding p using lev [of "?c * (2 * ?h) + (j + ?h)"] Suc.prems(3) by simp
    then show ?thesis using ev [of "- ?z"] sq False by (simp add: zpt_def)
  qed
qed simp

lemma canon_mq_NTT: "logn \<le> 10 \<Longrightarrow> canon (2 ^ logn) a \<Longrightarrow> canon (2 ^ logn) (mq_NTT a logn)"
  by (simp add: mq_NTT_upto canon_ntt_upto)

lemma mq_NTT_eval:
  assumes "logn \<le> 10" "canon (2 ^ logn) a" "i < 2 ^ logn"
  shows "zq (mq_NTT a logn ! i) = (\<Sum>l<2 ^ logn. zq (a ! l) * zpt logn i ^ l)"
  using ntt_upto_eval [OF assms(1,2), of logn i 0] assms(3) by (simp add: mq_NTT_upto)

section \<open>The inverse transform\<close>

primrec intt_upto :: "nat \<Rightarrow> nat \<Rightarrow> u16 list \<Rightarrow> u16 list" where
  "intt_upto logn 0 a = a"
| "intt_upto logn (Suc k) a = intt_level (2 ^ (logn - k)) (2 ^ k) (intt_upto logn k a)"

lemma intt_loop:
  "k \<le> logn \<Longrightarrow> ((\<lambda>(t, m, a). (2 * t, m div 2, intt_level m t a)) ^^ k) (1, 2 ^ logn, a)
      = (2 ^ k, 2 ^ (logn - k), intt_upto logn k a)"
proof (induction k)
  case (Suc k)
  have "(2 :: nat) ^ (logn - k) div 2 = 2 ^ (logn - Suc k)"
    using Suc.prems by (metis Suc_diff_Suc Suc_le_lessD nonzero_mult_div_cancel_left power_Suc zero_neq_numeral)
  then show ?case using Suc by simp
qed simp

lemma uint_ni: "uint ((mq_rshift1 ^^ k) R) < qZ"
  by (induction k) (simp_all add: R_def uint_mq_rshift1)

lemma zq_ni: "2 ^ k * zq ((mq_rshift1 ^^ k) R) = 4091"
proof (induction k)
  case (Suc k)
  have "2 * zq (mq_rshift1 ((mq_rshift1 ^^ k) R)) = zq ((mq_rshift1 ^^ k) R)" using uint_ni by (rule zq_mq_rshift1)
  then show ?case using Suc by (simp add: mult.assoc mult.left_commute [of 2])
qed (simp add: R_def zq_def)

lemma mq_iNTT_map:
  assumes "length (intt_upto logn logn a) = 2 ^ logn"
  shows "mq_iNTT a logn = map (\<lambda>p. ucast (mq_montymul (ucast (intt_upto logn logn a ! p)) ((mq_rshift1 ^^ logn) R))) [0..<2 ^ logn]"
  unfolding mq_iNTT_def Let_def intt_loop [OF order_refl] prod.case
  using fold_update_self [of "2 ^ logn" "intt_upto logn logn a" "\<lambda>p x. ucast (mq_montymul (ucast x) ((mq_rshift1 ^^ logn) R))"] assms
  by simp

lemma intt_index:
  assumes "Suc j \<le> logn" "logn \<le> 10"
  defines "k \<equiv> logn - Suc j"
  shows "Suc k \<le> logn" "logn - Suc k = j" "logn - j = Suc k"
  using assms by auto

lemma canon_intt_upto: "k \<le> logn \<Longrightarrow> logn \<le> 10 \<Longrightarrow> canon (2 ^ logn) a \<Longrightarrow> canon (2 ^ logn) (intt_upto logn k a)"
proof (induction k)
  case (Suc j)
  note i = intt_index [OF Suc.prems(1,2)]
  note l = level_split [OF i(1) Suc.prems(2), unfolded i(2)]
  show ?case using intt_level_zq(1) [OF _ l(3), of "2 ^ j" "intt_upto logn j a"] Suc
    by (simp only: intt_upto.simps i(3) power_Suc l(2)) simp
qed simp

lemma canon_mq_iNTT:
  assumes "logn \<le> 10" "canon (2 ^ logn) a"
  shows "canon (2 ^ logn) (mq_iNTT a logn)"
proof -
  have c: "canon (2 ^ logn) (intt_upto logn logn a)" using assms by (intro canon_intt_upto) auto
  then show ?thesis using canon_nth [OF c] uint_ni
    by (intro canonI) (auto simp: mq_iNTT_map uint_to16 mq_ranges)
qed

lemma intt_undo:
  assumes "logn \<le> 10" "canon (2 ^ logn) a"
  shows "j \<le> logn \<Longrightarrow> p < 2 ^ logn \<Longrightarrow>
    zq (intt_upto logn j (mq_NTT a logn) ! p) = 2 ^ j * zq (ntt_upto logn (logn - j) a ! p)"
proof (induction j arbitrary: p)
  case (Suc j)
  let ?k = "logn - Suc j" and ?h = "2 ^ j :: nat"
  note i = intt_index [OF Suc.prems(1) assms(1)]
  note l = level_split [OF i(1) assms(1), unfolded i(2)]
  let ?x = "intt_upto logn j (mq_NTT a logn)" and ?b = "ntt_upto logn ?k a"
  have x: "canon (2 ^ ?k * (2 * ?h)) ?x" unfolding l(2) using assms Suc.prems by (intro canon_intt_upto canon_mq_NTT) auto
  have b: "canon (2 ^ ?k * (2 * ?h)) ?b" unfolding l(2) using assms by (intro canon_ntt_upto) auto
  have p: "p < 2 ^ ?k * (2 * ?h)" unfolding l(2) by (rule Suc.prems)
  let ?r = "2 ^ ?k + p div (2 * ?h)"
  have r: "zeta ?r * izeta ?r = 1" using block_in(1) [of ?h p "2 ^ ?k"] p l(3) by (intro zeta_izeta) auto
  have IH: "zq (?x ! p') = 2 ^ j * zq (ntt_level (2 ^ ?k) (2 * ?h) ?b ! p')" if "p' < 2 ^ ?k * (2 * ?h)" for p'
    using Suc.IH [of p'] that Suc.prems(1) unfolding l(2) i(3) ntt_upto.simps l(1) by simp
  note lev = ntt_level_zq(2) [OF _ l(3) b] and inv = intt_level_zq(2) [OF _ l(3) x p]
  have eq: "intt_upto logn (Suc j) (mq_NTT a logn) = intt_level (2 * 2 ^ ?k) ?h ?x" by (simp add: i(3))
  show ?case
  proof (cases "p mod (2 * ?h) < ?h")
    case True
    note u = upper_half [OF True]
    have "zq (intt_level (2 * 2 ^ ?k) ?h ?x ! p) = zq (?x ! p) + zq (?x ! (p + ?h))" using inv True by simp
    also have "zq (?x ! p) = 2 ^ j * (zq (?b ! p) + zq (?b ! (p + ?h)) * zeta ?r)" using IH [OF p] lev [OF _ p] True by simp
    also have "zq (?x ! (p + ?h)) = 2 ^ j * (zq (?b ! p) - zq (?b ! (p + ?h)) * zeta ?r)"
      using IH [OF block_in(2) [OF _ p True]] lev [OF _ block_in(2) [OF _ p True]] u by simp
    finally show ?thesis unfolding eq by (simp add: algebra_simps)
  next
    case False
    note u = lower_half [OF False, simplified]
    have ph: "p - ?h < 2 ^ ?k * (2 * ?h)" using p by linarith
    have "zq (intt_level (2 * 2 ^ ?k) ?h ?x ! p) = (zq (?x ! (p - ?h)) - zq (?x ! p)) * izeta ?r" using inv False by simp
    also have "zq (?x ! p) = 2 ^ j * (zq (?b ! (p - ?h)) - zq (?b ! p) * zeta ?r)" using IH [OF p] lev [OF _ p] False by simp
    also have "zq (?x ! (p - ?h)) = 2 ^ j * (zq (?b ! (p - ?h)) + zq (?b ! p) * zeta ?r)"
      using IH [OF ph] lev [OF _ ph] u by simp
    also have "(2 ^ j * (zq (?b ! (p - ?h)) + zq (?b ! p) * zeta ?r) - 2 ^ j * (zq (?b ! (p - ?h)) - zq (?b ! p) * zeta ?r)) * izeta ?r
        = 2 ^ Suc j * zq (?b ! p) * (zeta ?r * izeta ?r)" by (simp add: algebra_simps)
    finally show ?thesis unfolding eq r by simp
  qed
qed (simp add: mq_NTT_upto)

lemma iNTT_NTT:
  assumes "logn \<le> 10" "canon (2 ^ logn) a"
  shows "mq_iNTT (mq_NTT a logn) logn = a"
proof (rule canon_eqI)
  let ?x = "intt_upto logn logn (mq_NTT a logn)"
  have x: "canon (2 ^ logn) ?x" using assms by (intro canon_intt_upto canon_mq_NTT) auto
  show "canon (2 ^ logn) (mq_iNTT (mq_NTT a logn) logn)" "canon (2 ^ logn) a"
    using assms by (simp_all add: canon_mq_iNTT canon_mq_NTT)
  fix p :: nat assume p: "p < 2 ^ logn"
  let ?ni = "(mq_rshift1 ^^ logn) R"
  have "zq (mq_iNTT (mq_NTT a logn) logn ! p) = zq (?x ! p) * zq ?ni * 2304"
    using p x canon_nth [OF x p] uint_ni by (simp add: mq_iNTT_map zq_simps mq_ranges)
  also have "zq (?x ! p) = 2 ^ logn * zq (a ! p)" using intt_undo [OF assms order_refl p] by simp
  also have "2 ^ logn * zq (a ! p) * zq ?ni * 2304 = zq (a ! p) * ((2 ^ logn * zq ?ni) * 2304)" by (simp only: ac_simps)
  finally show "zq (mq_iNTT (mq_NTT a logn) logn ! p) = zq (a ! p)" unfolding zq_ni R_inverse by simp
qed

lemma finite_canon: "finite {a. canon n a}"
  by (rule finite_subset [OF _ finite_lists_length_eq [of UNIV n]]) (use canon_length in blast, simp)

lemma NTT_iNTT:
  assumes "logn \<le> 10" "canon (2 ^ logn) a"
  shows "mq_NTT (mq_iNTT a logn) logn = a"
proof -
  let ?C = "{a. canon (2 ^ logn) a}"
  have "inj_on (\<lambda>a. mq_NTT a logn) ?C"
    by (rule inj_on_inverseI [of _ "\<lambda>a. mq_iNTT a logn"]) (simp add: iNTT_NTT assms(1))
  then have "(\<lambda>a. mq_NTT a logn) ` ?C = ?C"
    using assms(1) by (intro endo_inj_surj finite_canon) (auto simp: canon_mq_NTT)
  then obtain b where "canon (2 ^ logn) b" "a = mq_NTT b logn" using assms(2) by blast
  then show ?thesis using assms(1) by (simp add: iNTT_NTT)
qed

section \<open>Negacyclic products\<close>

text \<open>The polynomial with coefficients \<open>f\<close> at the \<open>i\<close>-th root of \<open>X^n + 1\<close>.\<close>

definition ev :: "nat \<Rightarrow> (nat \<Rightarrow> fq) \<Rightarrow> nat \<Rightarrow> fq" where
  "ev logn f i = (\<Sum>l<2 ^ logn. f l * zpt logn i ^ l)"

lemma ev_cong: "(\<And>l. l < 2 ^ logn \<Longrightarrow> f l = g l) \<Longrightarrow> ev logn f i = ev logn g i"
  unfolding ev_def by (intro sum.cong) auto

lemma ev_NTT: "logn \<le> 10 \<Longrightarrow> canon (2 ^ logn) a \<Longrightarrow> i < 2 ^ logn \<Longrightarrow> zq (mq_NTT a logn ! i) = ev logn (\<lambda>l. zq (a ! l)) i"
  by (simp add: mq_NTT_eval ev_def)

lemma ev_negacyclic:
  "logn \<le> 10 \<Longrightarrow> i < 2 ^ logn \<Longrightarrow> ev logn (negacyclic (2 ^ logn) f g) i = ev logn f i * ev logn g i"
  unfolding ev_def by (intro negacyclic_eval zpt_power)

lemma fq_word: "\<exists>x :: u16. uint x < qZ \<and> zq x = z"
proof -
  obtain a where a: "z = of_int a" "0 \<le> a" "a < 12289" by (rule fq_cases)
  then have "uint (word_of_int a :: u16) = a" by (simp add: uint_word_of_int)
  then show ?thesis using a unfolding zq_def by metis
qed

lemma fq_poly: "\<exists>a. canon n a \<and> (\<forall>l<n. zq (a ! l) = f l)"
proof -
  obtain w :: "fq \<Rightarrow> u16" where w: "\<And>z. uint (w z) < qZ \<and> zq (w z) = z" using fq_word by metis
  have "canon n (map (\<lambda>l. w (f l)) [0..<n])" by (rule canonI) (simp_all add: w)
  then show ?thesis using w by (intro exI [of _ "map (\<lambda>l. w (f l)) [0..<n]"]) simp
qed

lemma ev_inj:
  assumes "logn \<le> 10" "\<And>i. i < 2 ^ logn \<Longrightarrow> ev logn f i = ev logn g i" "l < 2 ^ logn"
  shows "f l = g l"
proof -
  obtain a b where ab: "canon (2 ^ logn) a" "\<forall>l<2 ^ logn. zq (a ! l) = f l" "canon (2 ^ logn) b" "\<forall>l<2 ^ logn. zq (b ! l) = g l"
    using fq_poly by meson
  have "mq_NTT a logn = mq_NTT b logn"
  proof (rule canon_eqI)
    show "canon (2 ^ logn) (mq_NTT a logn)" "canon (2 ^ logn) (mq_NTT b logn)" using ab assms(1) by (simp_all add: canon_mq_NTT)
    fix i :: nat assume i: "i < 2 ^ logn"
    show "zq (mq_NTT a logn ! i) = zq (mq_NTT b logn ! i)"
      using ev_NTT [OF assms(1) ab(1) i] ev_NTT [OF assms(1) ab(3) i] assms(2) [OF i] ab(2,4)
        ev_cong [of logn "\<lambda>l. zq (a ! l)" f i] ev_cong [of logn "\<lambda>l. zq (b ! l)" g i] by simp
  qed
  then have "a = b" using iNTT_NTT ab assms(1) by metis
  then show ?thesis using ab assms(3) by auto
qed

lemma ev_iNTT:
  assumes "logn \<le> 10" "canon (2 ^ logn) b" "i < 2 ^ logn"
  shows "ev logn (\<lambda>l. zq (mq_iNTT b logn ! l)) i = zq (b ! i)"
  using ev_NTT [OF assms(1) canon_mq_iNTT [OF assms(1,2)] assms(3)] NTT_iNTT [OF assms(1,2)] by simp

lemma ev_surj:
  assumes "logn \<le> 10"
  shows "\<exists>f. \<forall>i<2 ^ logn. ev logn f i = v i"
proof -
  obtain b where b: "canon (2 ^ logn) b" "\<forall>i<2 ^ logn. zq (b ! i) = v i" using fq_poly by meson
  then show ?thesis using ev_iNTT [OF assms b(1)] by metis
qed

text \<open>Invertibility modulo \<open>X^n + 1\<close> and \<open>q\<close>: no root of \<open>X^n + 1\<close> is a zero.\<close>

definition invertible :: "nat \<Rightarrow> (nat \<Rightarrow> fq) \<Rightarrow> bool" where
  "invertible n f \<longleftrightarrow> (\<exists>g. \<forall>k<n. negacyclic n g f k = (if k = 0 then 1 else 0))"

lemma ev_one: "ev logn (\<lambda>k. if k = 0 then 1 else 0) i = 1"
proof -
  have "(\<Sum>l<n. (if l = 0 then 1 else 0) * z ^ l) = 1" if "0 < n" for n and z :: fq
    using sum.delta [of "{..<n}" 0 "\<lambda>l. z ^ l"] that by (simp add: if_distrib [of "\<lambda>x. x * _"] cong: if_cong)
  then show ?thesis unfolding ev_def by simp
qed

lemma invertible_iff:
  assumes "logn \<le> 10"
  shows "invertible (2 ^ logn) f \<longleftrightarrow> (\<forall>i<2 ^ logn. ev logn f i \<noteq> 0)"
proof
  assume "invertible (2 ^ logn) f"
  then obtain g where g: "\<forall>k<2 ^ logn. negacyclic (2 ^ logn) g f k = (if k = 0 then 1 else 0)" by (auto simp: invertible_def)
  have "ev logn g i * ev logn f i = 1" if "i < 2 ^ logn" for i
    using ev_negacyclic [OF assms that, of g f] ev_cong [of logn "negacyclic (2 ^ logn) g f" "\<lambda>k. if k = 0 then 1 else 0" i] g ev_one by simp
  then show "\<forall>i<2 ^ logn. ev logn f i \<noteq> 0" by fastforce
next
  assume nz: "\<forall>i<2 ^ logn. ev logn f i \<noteq> 0"
  obtain g where g: "\<forall>i<2 ^ logn. ev logn g i = ev logn f i ^ 12287" 
    using ev_surj [OF assms, of "\<lambda>i. ev logn f i ^ 12287"] by auto
  have "negacyclic (2 ^ logn) g f k = (if k = 0 then 1 else 0)" if "k < 2 ^ logn" for k
  proof (rule ev_inj [OF assms _ that])
    fix i :: nat assume i: "i < 2 ^ logn"
    show "ev logn (negacyclic (2 ^ logn) g f) i = ev logn (\<lambda>k. if k = 0 then 1 else 0) i"
      unfolding ev_negacyclic [OF assms i] ev_one using g nz i fq_inverse by simp
  qed
  then show "invertible (2 ^ logn) f" unfolding invertible_def by blast
qed

section \<open>Properties\<close>

text \<open>
  (C33) The forward and inverse transforms of vrfy.c are inverse bijections on vectors of n = 2^logn
  coefficients below q, for every degree the tables cover.
\<close>

theorem ntt_inverse:
  assumes "logn \<le> 10" "canon (2 ^ logn) a"
  shows "mq_iNTT (mq_NTT a logn) logn = a \<and> mq_NTT (mq_iNTT a logn) logn = a"
  using iNTT_NTT [OF assms] NTT_iNTT [OF assms] by simp

theorem ntt_inverse_witness: "mq_iNTT (mq_NTT [5, 12288, 0, 77] 2) 2 = [5, 12288, 0, 77]"
  using ntt_inverse [of 2 "[5, 12288, 0, 77]"] by (simp add: canon_def)

text \<open>
  The forward transform evaluates: entry i is the value of the polynomial at a point whose n-th
  power is -1, the same point for all polynomials (a root of X^n + 1 modulo q).
\<close>

lemma ntt_evaluates:
  assumes "logn \<le> 10" "i < 2 ^ logn"
  shows "\<exists>z :: fq. z ^ (2 ^ logn) = - 1 \<and>
    (\<forall>a. canon (2 ^ logn) a \<longrightarrow> zq (mq_NTT a logn ! i) = (\<Sum>l<2 ^ logn. zq (a ! l) * z ^ l))"
  using zpt_power [OF assms] mq_NTT_eval [OF assms(1) _ assms(2)] by blast

end
