(* ===== verification/Norm.thy ===== *)
theory Norm
  imports Prelude
begin

text \<open>
  The norm checks of common.c. The squared norm is accumulated in 32 bits and saturates:
  once a partial sum reaches 2^31 the vector is rejected. The lemmas show that the
  comparison is exact for all vectors.
\<close>

section \<open>Model\<close>

definition l2bound :: "u32 list" where
  "l2bound = [0, 101498, 208714, 428865, 892039, 1852696, 3842630, 7959734, 16468416, 34034726, 70265242]"

definition is_short :: "u16 list \<Rightarrow> u16 list \<Rightarrow> nat \<Rightarrow> int" where
  "is_short s1 s2 logn =
     (let n = 2 ^ logn;
          (s, ng) = fold (\<lambda>u (s, ng).
            let z = sint (s1 ! u);
                s = s + word_of_int (z * z);
                ng = ng OR s;
                z = sint (s2 ! u);
                s = s + word_of_int (z * z);
                ng = ng OR s
            in (s, ng)) [0..<n] (0 :: u32, 0 :: u32);
          s = s OR - drop_bit 31 ng
      in if s \<le> l2bound ! logn then 1 else 0)"

definition is_short_half :: "u32 \<Rightarrow> u16 list \<Rightarrow> nat \<Rightarrow> int" where
  "is_short_half sqn s2 logn =
     (let n = 2 ^ logn;
          ng = - drop_bit 31 sqn;
          (sqn, ng) = fold (\<lambda>u (sqn, ng).
            let z = sint (s2 ! u);
                sqn = sqn + word_of_int (z * z);
                ng = ng OR sqn
            in (sqn, ng)) [0..<n] (sqn, ng);
          sqn = sqn OR - drop_bit 31 ng
      in if sqn \<le> l2bound ! logn then 1 else 0)"

section \<open>Saturating accumulation\<close>

text \<open>
  \<open>acc_ok (s, ng) v\<close>: the accumulator pair represents the exact sum \<open>v\<close>, or has recorded in
  the top bit of \<open>ng\<close> that the sum has reached 2^31.
\<close>

definition acc_ok :: "u32 \<times> u32 \<Rightarrow> int \<Rightarrow> bool" where
  "acc_ok st v \<longleftrightarrow> (if bit (snd st) 31 then 2 ^ 31 \<le> v else uint (fst st) = v \<and> v < 2 ^ 31)"

definition acc_add :: "int \<Rightarrow> u32 \<times> u32 \<Rightarrow> u32 \<times> u32" where
  "acc_add z st = (let s = fst st + word_of_int (z * z) in (s, snd st OR s))"

lemma top_bit: "bit (x :: u32) 31 \<longleftrightarrow> 2 ^ 31 \<le> uint x"
proof -
  have "bit x 31 \<longleftrightarrow> odd (uint x div 2 ^ 31)" using bit_uint_iff [of x 31] unfolding bit_iff_odd [of "uint x"] by simp
  moreover have "uint x div 2 ^ 31 = 0 \<or> uint x div 2 ^ 31 = 1"
    using div_range [of "uint x" 2 "2 ^ 31"] uint32_lt [of x] by auto
  ultimately show ?thesis using uint32_lt [of x] by (auto simp: div_pos_pos_trivial zdiv_eq_0_iff)
qed

lemma uint_ones: "uint (- 1 :: u32) = 4294967295"
  by (simp add: uint_word_ariths)

lemma square_le: "\<bar>z :: int\<bar> \<le> 32768 \<Longrightarrow> 0 \<le> z * z \<and> z * z \<le> 2 ^ 30"
  using mult_mono [of "\<bar>z\<bar>" 32768 "\<bar>z\<bar>" 32768] by (simp add: abs_mult [symmetric])

lemma sint16_bound: "\<bar>sint (x :: u16)\<bar> \<le> 32768"
  using sint_greater_eq [of x] sint_less [of x] by simp

lemma acc_add_ok:
  assumes "acc_ok st v" "\<bar>z\<bar> \<le> 32768" "0 \<le> v"
  shows "acc_ok (acc_add z st) (v + z * z)"
proof (cases "bit (snd st) 31")
  case True
  then show ?thesis using assms square_le [OF assms(2)]
    by (auto simp: acc_ok_def acc_add_def Let_def bit_or_iff intro: add_increasing2)
next
  case False
  then have s: "uint (fst st) = v" "v < 2 ^ 31" using assms(1) by (simp_all add: acc_ok_def)
  have w: "uint (word_of_int (z * z) :: u32) = z * z"
    by (subst uint_word_of_int) (use square_le [OF assms(2)] in simp)
  have "uint (fst st + word_of_int (z * z)) = v + z * z"
    unfolding uint_word_ariths(1) w s(1) using s(2) square_le [OF assms(2)] assms(3) by simp
  then have "bit (fst st + word_of_int (z * z)) 31 \<longleftrightarrow> 2 ^ 31 \<le> v + z * z" by (simp only: top_bit)
  then show ?thesis using False \<open>uint (fst st + word_of_int (z * z)) = v + z * z\<close>
    unfolding acc_ok_def acc_add_def Let_def fst_conv snd_conv bit_or_iff by (simp add: not_le)
qed

lemma acc_fold_ok:
  "acc_ok st v \<Longrightarrow> (\<And>z. z \<in> set zs \<Longrightarrow> \<bar>z\<bar> \<le> 32768) \<Longrightarrow> 0 \<le> v \<Longrightarrow>
   acc_ok (fold acc_add zs st) (v + (\<Sum>z\<leftarrow>zs. z * z))"
proof (induction zs arbitrary: st v)
  case (Cons z zs)
  have "acc_ok (acc_add z st) (v + z * z)" "0 \<le> v + z * z"
    using acc_add_ok Cons.prems square_le [of z] by auto
  then show ?case using Cons.IH [of "acc_add z st" "v + z * z"] Cons.prems(2) by (simp add: add.assoc)
qed simp

lemma bounds_small: "logn \<le> 10 \<Longrightarrow> uint (l2bound ! logn) < 2 ^ 31"
proof -
  have "list_all (\<lambda>b. uint b < 2 ^ 31) l2bound" "length l2bound = 11" by (simp_all add: l2bound_def)
  then show "logn \<le> 10 \<Longrightarrow> uint (l2bound ! logn) < 2 ^ 31" by (simp add: list_all_length)
qed

lemma acc_final:
  assumes "acc_ok (s, ng) v" "logn \<le> 10"
  shows "s OR - drop_bit 31 ng \<le> l2bound ! logn \<longleftrightarrow> v \<le> uint (l2bound ! logn)"
proof (cases "bit ng 31")
  case True
  then have "drop_bit 31 ng = 1"
    using uint32_lt [of ng] div_range [of "uint ng" 2 "2 ^ 31"] by (simp add: word_uint_eq_iff uint_shr top_bit)
  then have "s OR - drop_bit 31 ng = - 1" by simp
  then show ?thesis using assms True bounds_small [OF assms(2)]
    by (simp add: acc_ok_def word_le_def uint_ones)
next
  case False
  then have "drop_bit 31 ng = 0" by (simp add: word_uint_eq_iff uint_shr top_bit)
  then show ?thesis using assms False by (simp add: acc_ok_def word_le_def)
qed

definition sqnorm :: "u16 list \<Rightarrow> int" where
  "sqnorm s = (\<Sum>z\<leftarrow>s. sint z * sint z)"

lemma sqnorm_nonneg: "0 \<le> sqnorm s"
  unfolding sqnorm_def by (rule sum_list_nonneg) auto

lemma fold_concat_map: "fold (\<lambda>u. fold acc_add (f u)) us st = fold acc_add (concat (map f us)) st"
  by (induction us arbitrary: st) simp_all

lemma is_short_exact:
  assumes "length s1 = 2 ^ logn" "length s2 = 2 ^ logn" "logn \<le> 10"
  shows "is_short s1 s2 logn = (if sqnorm s1 + sqnorm s2 \<le> uint (l2bound ! logn) then 1 else 0)"
proof -
  let ?zs = "concat (map (\<lambda>u. [sint (s1 ! u), sint (s2 ! u)]) [0..<2 ^ logn])"
  have step: "(\<lambda>u (s, ng).
            let z = sint (s1 ! u); s = s + word_of_int (z * z); ng = ng OR s;
                z = sint (s2 ! u); s = s + word_of_int (z * z); ng = ng OR s in (s, ng))
       = (\<lambda>u. fold acc_add [sint (s1 ! u), sint (s2 ! u)])"
    by (intro ext) (auto simp: acc_add_def Let_def)
  have f: "is_short s1 s2 logn = (case fold acc_add ?zs (0, 0) of (s, ng) \<Rightarrow>
      if s OR - drop_bit 31 ng \<le> l2bound ! logn then 1 else 0)"
    unfolding is_short_def step unfolding Let_def fold_concat_map ..
  have sums: "(\<Sum>z\<leftarrow>concat (map (\<lambda>u. [f (s1 ! u), f (s2 ! u)]) [0..<k]). z * z)
      = (\<Sum>z\<leftarrow>map ((!) s1) [0..<k]. f z * f z) + (\<Sum>z\<leftarrow>map ((!) s2) [0..<k]. f z * f z)" for k and f :: "u16 \<Rightarrow> int"
    by (induction k) simp_all
  have "acc_ok (fold acc_add ?zs (0, 0)) (0 + (\<Sum>z\<leftarrow>?zs. z * z))"
    by (rule acc_fold_ok) (auto simp: acc_ok_def sint16_bound)
  then have ok: "acc_ok (fold acc_add ?zs (0, 0)) (sqnorm s1 + sqnorm s2)"
    unfolding sums sqnorm_def using map_nth [of s1] map_nth [of s2] assms(1,2) by (simp del: map_map)
  obtain s ng where "fold acc_add ?zs (0, 0) = (s, ng)" by fastforce
  then show ?thesis using acc_final [of s ng _ logn] ok assms(3) unfolding f by simp
qed

lemma acc_start: "acc_ok (sqn, - drop_bit 31 sqn) (uint sqn)"
proof (cases "bit sqn 31")
  case True
  then have "drop_bit 31 sqn = 1"
    using uint32_lt [of sqn] div_range [of "uint sqn" 2 "2 ^ 31"] by (simp add: word_uint_eq_iff uint_shr top_bit)
  then show ?thesis using True by (simp add: acc_ok_def top_bit uint_ones)
next
  case False
  then have "drop_bit 31 sqn = 0" by (simp add: word_uint_eq_iff uint_shr top_bit)
  then show ?thesis using False by (simp add: acc_ok_def top_bit)
qed

lemma is_short_half_exact:
  assumes "length s2 = 2 ^ logn" "logn \<le> 10"
  shows "is_short_half sqn s2 logn = (if uint sqn + sqnorm s2 \<le> uint (l2bound ! logn) then 1 else 0)"
proof -
  let ?zs = "map (\<lambda>u. sint (s2 ! u)) [0..<2 ^ logn]"
  have step: "(\<lambda>u (sqn, ng). let z = sint (s2 ! u); sqn = sqn + word_of_int (z * z); ng = ng OR sqn in (sqn, ng))
       = (\<lambda>u. acc_add (sint (s2 ! u)))"
    by (intro ext) (auto simp: acc_add_def Let_def)
  have f: "is_short_half sqn s2 logn = (case fold acc_add ?zs (sqn, - drop_bit 31 sqn) of (s, ng) \<Rightarrow>
      if s OR - drop_bit 31 ng \<le> l2bound ! logn then 1 else 0)"
    unfolding is_short_half_def step unfolding Let_def fold_map comp_def ..
  have zs: "?zs = map sint s2" using map_nth [of s2] assms(1) by (metis map_map comp_def map_cong)
  have "acc_ok (fold acc_add ?zs (sqn, - drop_bit 31 sqn)) (uint sqn + (\<Sum>z\<leftarrow>?zs. z * z))"
    by (rule acc_fold_ok) (auto simp: acc_start sint16_bound)
  then have ok: "acc_ok (fold acc_add ?zs (sqn, - drop_bit 31 sqn)) (uint sqn + sqnorm s2)"
    unfolding zs by (simp add: sqnorm_def comp_def)
  obtain s ng where "fold acc_add ?zs (sqn, - drop_bit 31 sqn) = (s, ng)" by fastforce
  then show ?thesis using acc_final [of s ng _ logn] ok assms(2) unfolding f by simp
qed

section \<open>Properties\<close>

text \<open>
  (C35) The norm check is exact: in spite of 32-bit accumulation, \<open>is_short\<close> accepts a pair of 16-bit
  vectors if and only if the sum of all squares is at most the bound of the degree.
\<close>

theorem is_short_correct:
  assumes "length s1 = 2 ^ logn" "length s2 = 2 ^ logn" "logn \<le> 10"
  shows "is_short s1 s2 logn = (if (\<Sum>z\<leftarrow>s1. sint z * sint z) + (\<Sum>z\<leftarrow>s2. sint z * sint z) \<le> uint (l2bound ! logn) then 1 else 0)"
  using is_short_exact [OF assms] by (simp add: sqnorm_def)

theorem is_short_correct_witness: "is_short [300, - 100] [32767, - 32768] 1 = 0 \<and> is_short [300, - 100] [7, 0] 1 = 1"
  using is_short_correct [of "[300, - 100]" 1 "[32767, - 32768]"] is_short_correct [of "[300, - 100]" 1 "[7, 0]"]
  by (simp add: l2bound_def)

text \<open>
  The half check used by the signer, given the squared norm of the first half modulo 2^32,
  accepts if and only if that value plus the squared norm of the second half is within the bound.
\<close>

lemma is_short_half_correct:
  assumes "length s2 = 2 ^ logn" "logn \<le> 10"
  shows "is_short_half sqn s2 logn = (if uint sqn + (\<Sum>z\<leftarrow>s2. sint z * sint z) \<le> uint (l2bound ! logn) then 1 else 0)"
  using is_short_half_exact [OF assms] by (simp add: sqnorm_def)

end
