(* ===== verification/Vrfy.thy ===== *)
theory Vrfy
  imports Ntt Norm
begin

text \<open>
  The verification and key routines of vrfy.c on top of the transforms: raw signature
  verification, computation of the public key, completion of the private key, invertibility
  and public key recovery.
\<close>

section \<open>Model\<close>

definition mq_poly_tomonty :: "u16 list \<Rightarrow> nat \<Rightarrow> u16 list" where
  "mq_poly_tomonty f logn =
     (let n = 2 ^ logn
      in fold (\<lambda>u f. f[u := ucast (mq_montymul (ucast (f ! u)) R2)]) [0..<n] f)"

definition mq_poly_montymul_ntt :: "u16 list \<Rightarrow> u16 list \<Rightarrow> nat \<Rightarrow> u16 list" where
  "mq_poly_montymul_ntt f g logn =
     (let n = 2 ^ logn
      in fold (\<lambda>u f. f[u := ucast (mq_montymul (ucast (f ! u)) (ucast (g ! u)))]) [0..<n] f)"

definition mq_poly_sub :: "u16 list \<Rightarrow> u16 list \<Rightarrow> nat \<Rightarrow> u16 list" where
  "mq_poly_sub f g logn =
     (let n = 2 ^ logn
      in fold (\<lambda>u f. f[u := ucast (mq_sub (ucast (f ! u)) (ucast (g ! u)))]) [0..<n] f)"

definition to_ntt_monty :: "u16 list \<Rightarrow> nat \<Rightarrow> u16 list" where
  "to_ntt_monty h logn = mq_poly_tomonty (mq_NTT h logn) logn"

definition verify_raw :: "u16 list \<Rightarrow> u16 list \<Rightarrow> u16 list \<Rightarrow> nat \<Rightarrow> int" where
  "verify_raw c0 s2 h logn =
     (let n = 2 ^ logn;
          tt = map (\<lambda>u.
            let w = (scast (s2 ! u) :: u32);
                w = w + (Q AND - drop_bit 31 w)
            in (ucast w :: u16)) [0..<n];
          tt = mq_NTT tt logn;
          tt = mq_poly_montymul_ntt tt h logn;
          tt = mq_iNTT tt logn;
          tt = mq_poly_sub tt c0 logn;
          tt = fold (\<lambda>u tt.
            let w = (ucast (tt ! u) :: u32);
                w = w - (Q AND - drop_bit 31 (drop_bit 1 Q - w))
            in tt[u := ucast w]) [0..<n] tt
      in is_short tt s2 logn)"

fun div_loop :: "nat list \<Rightarrow> u16 list \<Rightarrow> u16 list \<Rightarrow> u16 list \<times> bool" where
  "div_loop [] h tt = (h, True)"
| "div_loop (u # us) h tt =
     (if tt ! u = 0 then (h, False)
      else div_loop us (h[u := ucast (mq_div_12289 (ucast (h ! u)) (ucast (tt ! u)))]) tt)"

definition compute_public :: "u8 list \<Rightarrow> u8 list \<Rightarrow> nat \<Rightarrow> int \<times> u16 list" where
  "compute_public f g logn =
     (let n = 2 ^ logn;
          tt = map (\<lambda>u. ucast (mq_conv_small (scast (f ! u)))) [0..<n];
          h = map (\<lambda>u. ucast (mq_conv_small (scast (g ! u)))) [0..<n];
          h = mq_NTT h logn;
          tt = mq_NTT tt logn;
          (h, ok) = div_loop [0..<n] h tt
      in if \<not> ok then (0, h) else (1, mq_iNTT h logn))"

fun narrow_loop :: "nat list \<Rightarrow> u16 list \<Rightarrow> u8 list \<Rightarrow> int \<times> u8 list" where
  "narrow_loop [] t1 G = (1, G)"
| "narrow_loop (u # us) t1 G =
     (let w = (ucast (t1 ! u) :: u32);
          w = w - (Q AND NOT (- drop_bit 31 (w - drop_bit 1 Q)));
          gi = sint w
      in if gi < - 127 \<or> gi > 127 then (0, G)
         else narrow_loop us t1 (G[u := word_of_int gi]))"

definition complete_private :: "u8 list \<Rightarrow> u8 list \<Rightarrow> u8 list \<Rightarrow> u8 list \<Rightarrow> nat \<Rightarrow> int \<times> u8 list" where
  "complete_private G f g F logn =
     (let n = 2 ^ logn;
          t1 = map (\<lambda>u. ucast (mq_conv_small (scast (g ! u)))) [0..<n];
          t2 = map (\<lambda>u. ucast (mq_conv_small (scast (F ! u)))) [0..<n];
          t1 = mq_NTT t1 logn;
          t2 = mq_NTT t2 logn;
          t1 = mq_poly_tomonty t1 logn;
          t1 = mq_poly_montymul_ntt t1 t2 logn;
          t2 = map (\<lambda>u. ucast (mq_conv_small (scast (f ! u)))) [0..<n];
          t2 = mq_NTT t2 logn;
          (t1, ok) = div_loop [0..<n] t1 t2
      in if \<not> ok then (0, G)
         else narrow_loop [0..<n] (mq_iNTT t1 logn) G)"

definition is_invertible :: "u16 list \<Rightarrow> nat \<Rightarrow> int" where
  "is_invertible s2 logn =
     (let n = 2 ^ logn;
          tt = map (\<lambda>u.
            let w = (scast (s2 ! u) :: u32);
                w = w + (Q AND - drop_bit 31 w)
            in (ucast w :: u16)) [0..<n];
          tt = mq_NTT tt logn;
          r = fold (\<lambda>u r. r OR (ucast (tt ! u) - 1)) [0..<n] (0 :: u32)
      in sint (1 - drop_bit 31 r))"

definition verify_recover :: "u16 list \<Rightarrow> u16 list \<Rightarrow> u16 list \<Rightarrow> nat \<Rightarrow> int \<times> u16 list" where
  "verify_recover c0 s1 s2 logn =
     (let n = 2 ^ logn;
          tt = map (\<lambda>u.
            let w = (scast (s2 ! u) :: u32);
                w = w + (Q AND - drop_bit 31 w)
            in (ucast w :: u16)) [0..<n];
          h = map (\<lambda>u.
            let w = (scast (s1 ! u) :: u32);
                w = w + (Q AND - drop_bit 31 w);
                w = mq_sub (ucast (c0 ! u)) w
            in (ucast w :: u16)) [0..<n];
          tt = mq_NTT tt logn;
          h = mq_NTT h logn;
          (r, h) = fold (\<lambda>u (r, h).
            (r OR (ucast (tt ! u) - 1),
             h[u := ucast (mq_div_12289 (ucast (h ! u)) (ucast (tt ! u)))])) [0..<n] (0 :: u32, h);
          h = mq_iNTT h logn;
          r = NOT r AND - word_of_int (is_short s1 s2 logn)
      in (sint (drop_bit 31 r), h))"

definition count_nttzero :: "u16 list \<Rightarrow> nat \<Rightarrow> int" where
  "count_nttzero sig logn =
     (let n = 2 ^ logn;
          s2 = map (\<lambda>u.
            let w = (scast (sig ! u) :: u32);
                w = w + (Q AND - drop_bit 31 w)
            in (ucast w :: u16)) [0..<n];
          s2 = mq_NTT s2 logn;
          r = fold (\<lambda>u r.
            let w = (ucast (s2 ! u) - 1 :: u32)
            in r + drop_bit 31 w) [0..<n] (0 :: u32)
      in sint r)"

section \<open>Pointwise operations\<close>

lemma poly_tomonty_map:
  "length f = 2 ^ logn \<Longrightarrow> mq_poly_tomonty f logn = map (\<lambda>u. ucast (mq_montymul (ucast (f ! u)) R2)) [0..<2 ^ logn]"
  unfolding mq_poly_tomonty_def Let_def
  by (subst fold_update_self [where g = "\<lambda>u x. ucast (mq_montymul (ucast x) R2)"]) simp_all

lemma poly_montymul_map:
  "length f = 2 ^ logn \<Longrightarrow> mq_poly_montymul_ntt f g logn
     = map (\<lambda>u. ucast (mq_montymul (ucast (f ! u)) (ucast (g ! u)))) [0..<2 ^ logn]"
  unfolding mq_poly_montymul_ntt_def Let_def
  by (subst fold_update_self [where g = "\<lambda>u x. ucast (mq_montymul (ucast x) (ucast (g ! u)))"]) simp_all

lemma poly_sub_map:
  "length f = 2 ^ logn \<Longrightarrow> mq_poly_sub f g logn
     = map (\<lambda>u. ucast (mq_sub (ucast (f ! u)) (ucast (g ! u)))) [0..<2 ^ logn]"
  unfolding mq_poly_sub_def Let_def
  by (subst fold_update_self [where g = "\<lambda>u x. ucast (mq_sub (ucast x) (ucast (g ! u)))"]) simp_all

lemma poly_tomonty_zq:
  assumes "canon (2 ^ logn) f"
  shows "canon (2 ^ logn) (mq_poly_tomonty f logn)"
    and "u < 2 ^ logn \<Longrightarrow> zq (mq_poly_tomonty f logn ! u) = zq (f ! u) * 4091"
proof -
  have r2: "uint R2 < qZ" "zq R2 * 2304 = 4091" by (simp_all add: R2_def zq_def)
  have "uint (mq_poly_tomonty f logn ! u) < qZ \<and> zq (mq_poly_tomonty f logn ! u) = zq (f ! u) * 4091" if "u < 2 ^ logn" for u
    using that assms canon_nth [OF assms that] r2
    by (simp add: poly_tomonty_map uint_to16 mq_ranges zq_simps mult.assoc)
  then show "canon (2 ^ logn) (mq_poly_tomonty f logn)" "u < 2 ^ logn \<Longrightarrow> zq (mq_poly_tomonty f logn ! u) = zq (f ! u) * 4091"
    using assms by (auto simp: poly_tomonty_map intro!: canonI)
qed

lemma poly_montymul_zq:
  assumes "canon (2 ^ logn) f" "canon (2 ^ logn) g"
  shows "canon (2 ^ logn) (mq_poly_montymul_ntt f g logn)"
    and "u < 2 ^ logn \<Longrightarrow> zq (mq_poly_montymul_ntt f g logn ! u) = zq (f ! u) * zq (g ! u) * 2304"
proof -
  have "uint (mq_poly_montymul_ntt f g logn ! u) < qZ \<and> zq (mq_poly_montymul_ntt f g logn ! u) = zq (f ! u) * zq (g ! u) * 2304" if "u < 2 ^ logn" for u
    using that assms canon_nth [OF assms(1) that] canon_nth [OF assms(2) that]
    by (simp add: poly_montymul_map uint_to16 mq_ranges zq_simps)
  then show "canon (2 ^ logn) (mq_poly_montymul_ntt f g logn)"
    "u < 2 ^ logn \<Longrightarrow> zq (mq_poly_montymul_ntt f g logn ! u) = zq (f ! u) * zq (g ! u) * 2304"
    using assms by (auto simp: poly_montymul_map intro!: canonI)
qed

lemma poly_sub_zq:
  assumes "canon (2 ^ logn) f" "canon (2 ^ logn) g"
  shows "canon (2 ^ logn) (mq_poly_sub f g logn)"
    and "u < 2 ^ logn \<Longrightarrow> zq (mq_poly_sub f g logn ! u) = zq (f ! u) - zq (g ! u)"
proof -
  have "uint (mq_poly_sub f g logn ! u) < qZ \<and> zq (mq_poly_sub f g logn ! u) = zq (f ! u) - zq (g ! u)" if "u < 2 ^ logn" for u
    using that assms canon_nth [OF assms(1) that] canon_nth [OF assms(2) that]
    by (simp add: poly_sub_map uint_to16 mq_ranges zq_simps)
  then show "canon (2 ^ logn) (mq_poly_sub f g logn)"
    "u < 2 ^ logn \<Longrightarrow> zq (mq_poly_sub f g logn ! u) = zq (f ! u) - zq (g ! u)"
    using assms by (auto simp: poly_sub_map intro!: canonI)
qed

text \<open>Small signed coefficients, as integers and in the field.\<close>

abbreviation sz :: "'a::len word list \<Rightarrow> nat \<Rightarrow> fq" where
  "sz s \<equiv> \<lambda>i. of_int (sint (s ! i))"

definition reduced :: "'a::len word \<Rightarrow> u16" where
  "reduced x = (let w = (scast x :: u32); w = w + (Q AND - drop_bit 31 w) in ucast w)"

lemma cond_reduce:
  fixes x :: "'a::len word"
  assumes "\<bar>sint x\<bar> < qZ"
  defines "w \<equiv> (scast x :: u32) + (Q AND - drop_bit 31 (scast x))"
  shows "uint w < qZ" "zq w = of_int (sint x)"
proof -
  have u: "uint w = sint x mod qZ" unfolding w_def
  proof (rule cond_add)
    show "uint (scast x :: u32) = sint x mod 4294967296" by (simp only: scast_eq uint_word_of_int) simp
  qed (use assms in auto)
  show "uint w < qZ" unfolding u by simp
  show "zq w = of_int (sint x)" using u by (rule zq_of_uint)
qed

lemma reduced_small:
  assumes "\<bar>sint x\<bar> < qZ"
  shows "uint (reduced x) < qZ" "zq (reduced x) = of_int (sint x)"
  using cond_reduce [OF assms] unfolding reduced_def Let_def by (simp_all only: uint_to16 zq_to16)

lemma reduced_poly:
  assumes "length s = 2 ^ logn" "\<And>u. u < 2 ^ logn \<Longrightarrow> \<bar>sint (s ! u)\<bar> < qZ"
  shows "canon (2 ^ logn) (map (\<lambda>u. reduced (s ! u)) [0..<2 ^ logn])"
    and "u < 2 ^ logn \<Longrightarrow> zq (map (\<lambda>u. reduced (s ! u)) [0..<2 ^ logn] ! u) = sz s u"
  using assms(2) reduced_small(2) [of "s ! u"] by (auto intro!: canonI reduced_small(1))

lemma conv_small_reduced: "ucast (mq_conv_small (scast x)) = reduced x"
  by (simp add: mq_conv_small_def reduced_def Let_def)

lemma sint8_small: "\<bar>sint (x :: u8)\<bar> < qZ"
  using sint_greater_eq [of x] sint_less [of x] by simp

section \<open>Verification\<close>

definition centre :: "u16 \<Rightarrow> u16" where
  "centre x = (let w = (ucast x :: u32); w = w - (Q AND - drop_bit 31 (drop_bit 1 Q - w)) in ucast w)"

lemma sint_centre:
  assumes "uint x < qZ"
  shows "sint (centre x) = (if 6144 < uint x then uint x - qZ else uint x)"
proof -
  let ?w = "ucast x :: u32"
  have x0: "0 \<le> uint x" by simp
  have h: "uint (drop_bit 1 Q - ?w) = (6144 - uint x) mod 4294967296"
    by (simp add: uint_word_ariths uint_shr Q_def)
  have m: "Q AND - drop_bit 31 (drop_bit 1 Q - ?w) = (if 6144 < uint x then Q else 0)"
  proof (cases "6144 < uint x")
    case True
    then have "uint (drop_bit 1 Q - ?w) = 6144 - uint x + 4294967296" using h assms by (simp add: mod_neg_once)
    then show ?thesis using True assms unfolding sign_mask by simp
  next
    case False
    then have "uint (drop_bit 1 Q - ?w) = 6144 - uint x" using h x0 by simp
    then have "\<not> 2147483648 \<le> uint (drop_bit 1 Q - ?w)" using x0 by linarith
    then show ?thesis using False unfolding sign_mask by simp
  qed
  have "?w - (if 6144 < uint x then Q else 0) = word_of_int (if 6144 < uint x then uint x - qZ else uint x)"
    by (simp add: Q_def word_uint_eq_iff uint_word_ariths uint_word_of_int)
  then have "centre x = word_of_int (if 6144 < uint x then uint x - qZ else uint x)"
    unfolding centre_def Let_def m by (simp only:) (simp add: word_uint_eq_iff uint_ucast_mod uint_word_of_int mod_mod_cancel)
  then show ?thesis using assms x0
    by (simp only: sint_sbintrunc') (auto intro!: signed_take_bit_int_eq_self order_trans [OF _ x0])
qed

lemma centre_zq: "uint x < qZ \<Longrightarrow> of_int (sint (centre x)) = zq x"
  unfolding zq_def of_int_fq sint_centre by auto

lemma centre_minimal:
  assumes "uint x < qZ" "of_int v = zq x"
  shows "sint (centre x) * sint (centre x) \<le> v * v"
proof -
  have "(v - sint (centre x)) mod qZ = 0"
    using assms(2) centre_zq [OF assms(1)] by (metis of_int_fq mod_eq_dvd_iff mod_eq_0_iff_dvd)
  then obtain k where k: "v = sint (centre x) + qZ * k" by (metis add.commute diff_add_cancel dvdE mod_eq_0_iff_dvd)
  have c: "- 6144 \<le> sint (centre x)" "sint (centre x) \<le> 6144" 
    unfolding sint_centre [OF assms(1)] using assms(1) order_trans [OF _ uint_ge_0 [of x]] by auto
  have "k = 0 \<or> 1 \<le> k \<or> k \<le> - 1" by linarith
  then have "\<bar>sint (centre x)\<bar> \<le> \<bar>v\<bar>" using k c by linarith
  then show ?thesis using mult_mono [of "\<bar>sint (centre x)\<bar>" "\<bar>v\<bar>" "\<bar>sint (centre x)\<bar>" "\<bar>v\<bar>"] by simp
qed

lemma canon_to_ntt_monty:
  assumes "logn \<le> 10" "canon (2 ^ logn) h"
  shows "canon (2 ^ logn) (to_ntt_monty h logn)"
    and "i < 2 ^ logn \<Longrightarrow> zq (to_ntt_monty h logn ! i) = ev logn (\<lambda>l. zq (h ! l)) i * 4091"
  using poly_tomonty_zq [OF canon_mq_NTT [OF assms]] ev_NTT [OF assms]
  by (simp_all add: to_ntt_monty_def)

lemma verify_raw_product:
  assumes "logn \<le> 10" "canon (2 ^ logn) a" "canon (2 ^ logn) h" "k < 2 ^ logn"
  defines "p \<equiv> mq_iNTT (mq_poly_montymul_ntt (mq_NTT a logn) (to_ntt_monty h logn) logn) logn"
  shows "canon (2 ^ logn) p" "zq (p ! k) = negacyclic (2 ^ logn) (\<lambda>i. zq (a ! i)) (\<lambda>i. zq (h ! i)) k"
proof -
  let ?b = "mq_poly_montymul_ntt (mq_NTT a logn) (to_ntt_monty h logn) logn"
  note a = canon_mq_NTT [OF assms(1,2)] and h = canon_to_ntt_monty [OF assms(1,3)]
  have b: "canon (2 ^ logn) ?b" using a h(1) by (rule poly_montymul_zq)
  show "canon (2 ^ logn) p" unfolding p_def using assms(1) b by (rule canon_mq_iNTT)
  show "zq (p ! k) = negacyclic (2 ^ logn) (\<lambda>i. zq (a ! i)) (\<lambda>i. zq (h ! i)) k"
  proof (rule ev_inj [OF assms(1) _ assms(4)])
    fix i :: nat assume i: "i < 2 ^ logn"
    have "ev logn (\<lambda>l. zq (p ! l)) i = zq (?b ! i)" unfolding p_def using assms(1) b i by (rule ev_iNTT)
    also have "\<dots> = ev logn (\<lambda>l. zq (a ! l)) i * ev logn (\<lambda>l. zq (h ! l)) i * (4091 * 2304)"
      unfolding poly_montymul_zq(2) [OF a h(1) i] h(2) [OF i] ev_NTT [OF assms(1,2) i] by (simp only: ac_simps)
    finally show "ev logn (\<lambda>l. zq (p ! l)) i = ev logn (negacyclic (2 ^ logn) (\<lambda>i. zq (a ! i)) (\<lambda>i. zq (h ! i))) i"
      unfolding R_inverse ev_negacyclic [OF assms(1) i] by simp
  qed
qed

lemma negacyclic_cong:
  "(\<And>i. i < n \<Longrightarrow> f i = f' i) \<Longrightarrow> (\<And>i. i < n \<Longrightarrow> g i = g' i) \<Longrightarrow> k < n \<Longrightarrow> negacyclic n f g k = negacyclic n f' g' k"
  unfolding negacyclic_def by (intro sum.cong) auto

text \<open>\<open>c0 - s1\<close> is the product \<open>s2 h\<close>: what a signature has to satisfy.\<close>

definition is_preimage :: "nat \<Rightarrow> u16 list \<Rightarrow> int list \<Rightarrow> u16 list \<Rightarrow> u16 list \<Rightarrow> bool" where
  "is_preimage n c0 s1 s2 h \<longleftrightarrow> length s1 = n \<and>
     (\<forall>k<n. of_int (s1 ! k) + negacyclic n (sz s2) (\<lambda>i. zq (h ! i)) k = zq (c0 ! k))"

lemma verify_raw_eq:
  "verify_raw c0 s2 h logn =
    (let p = mq_iNTT (mq_poly_montymul_ntt (mq_NTT (map (\<lambda>u. reduced (s2 ! u)) [0..<2 ^ logn]) logn) h logn) logn
     in is_short (fold (\<lambda>u tt. tt[u := centre (tt ! u)]) [0..<2 ^ logn] (mq_poly_sub p c0 logn)) s2 logn)"
  by (simp add: verify_raw_def reduced_def centre_def Let_def)

lemma verify_raw_vector:
  assumes "logn \<le> 10" "canon (2 ^ logn) c0" "canon (2 ^ logn) h" "length s2 = 2 ^ logn"
    "\<And>u. u < 2 ^ logn \<Longrightarrow> \<bar>sint (s2 ! u)\<bar> < qZ"
  shows "\<exists>d. canon (2 ^ logn) d \<and> verify_raw c0 s2 (to_ntt_monty h logn) logn = is_short (map centre d) s2 logn
    \<and> (\<forall>k<2 ^ logn. zq (d ! k) = negacyclic (2 ^ logn) (sz s2) (\<lambda>i. zq (h ! i)) k - zq (c0 ! k))"
proof -
  let ?n = "2 ^ logn :: nat"
  let ?a = "map (\<lambda>u. reduced (s2 ! u)) [0..<?n]"
  have a: "canon ?n ?a" "\<And>u. u < ?n \<Longrightarrow> zq (?a ! u) = sz s2 u" using reduced_poly [OF assms(4)] assms(5) by blast+
  define p where "p = mq_iNTT (mq_poly_montymul_ntt (mq_NTT ?a logn) (to_ntt_monty h logn) logn) logn"
  note pr = verify_raw_product [OF assms(1) a(1) assms(3), folded p_def]
  have p: "canon ?n p" using pr(1) [of 0] by simp
  let ?d = "mq_poly_sub p c0 logn"
  note d = poly_sub_zq [OF p assms(2)]
  have "verify_raw c0 s2 (to_ntt_monty h logn) logn = is_short (map centre ?d) s2 logn"
  proof -
    have "fold (\<lambda>u tt. tt[u := centre (tt ! u)]) [0..<?n] ?d = map centre ?d"
      using fold_update_self [of ?n ?d "\<lambda>u. centre"] d(1) by (simp add: map_nth_self)
    then show ?thesis unfolding verify_raw_eq p_def [symmetric] by simp
  qed
  moreover have "zq (?d ! k) = negacyclic ?n (sz s2) (\<lambda>i. zq (h ! i)) k - zq (c0 ! k)" if "k < ?n" for k
    using d(2) [OF that] pr(2) [OF that] negacyclic_cong [of ?n "\<lambda>i. zq (?a ! i)" "sz s2" "\<lambda>i. zq (h ! i)" "\<lambda>i. zq (h ! i)" k] a(2) that
    by simp
  ultimately show ?thesis using d(1) by blast
qed

lemma verify_raw_exact:
  assumes "logn \<le> 10" "canon (2 ^ logn) c0" "canon (2 ^ logn) h" "length s2 = 2 ^ logn"
    "\<And>u. u < 2 ^ logn \<Longrightarrow> \<bar>sint (s2 ! u)\<bar> < qZ"
  shows "verify_raw c0 s2 (to_ntt_monty h logn) logn =
    (if \<exists>s1. is_preimage (2 ^ logn) c0 s1 s2 h \<and> (\<Sum>z\<leftarrow>s1. z * z) + sqnorm s2 \<le> uint (l2bound ! logn) then 1 else 0)"
proof -
  obtain d where d: "canon (2 ^ logn) d" "verify_raw c0 s2 (to_ntt_monty h logn) logn = is_short (map centre d) s2 logn"
    "\<And>k. k < 2 ^ logn \<Longrightarrow> zq (d ! k) = negacyclic (2 ^ logn) (sz s2) (\<lambda>i. zq (h ! i)) k - zq (c0 ! k)"
    using verify_raw_vector [OF assms] by blast
  let ?s1 = "map (\<lambda>x. - sint (centre x)) d"
  have norm: "sqnorm (map centre d) = (\<Sum>z\<leftarrow>?s1. z * z)" by (simp add: sqnorm_def comp_def)
  have pre: "is_preimage (2 ^ logn) c0 ?s1 s2 h"
    using d(1,3) centre_zq canon_nth [OF d(1)] by (simp add: is_preimage_def)
  have min: "(\<Sum>z\<leftarrow>?s1. z * z) \<le> (\<Sum>z\<leftarrow>s1. z * z)" if "is_preimage (2 ^ logn) c0 s1 s2 h" for s1
  proof -
    have len: "length s1 = length d" using that d(1) by (simp add: is_preimage_def)
    have "(- sint (centre (d ! k))) * (- sint (centre (d ! k))) \<le> s1 ! k * s1 ! k" if k: "k < 2 ^ logn" for k
    proof -
      have "zq (c0 ! k) = of_int (s1 ! k) + negacyclic (2 ^ logn) (sz s2) (\<lambda>i. zq (h ! i)) k"
        using \<open>is_preimage _ c0 s1 s2 h\<close> k unfolding is_preimage_def by simp
      then have "of_int (- (s1 ! k)) = zq (d ! k)" unfolding d(3) [OF k] by simp
      then show ?thesis using centre_minimal [OF canon_nth [OF d(1) k], of "- (s1 ! k)"] by simp
    qed
    then have "(\<Sum>k<2 ^ logn. ?s1 ! k * ?s1 ! k) \<le> (\<Sum>k<2 ^ logn. s1 ! k * s1 ! k)"
      using d(1) by (intro sum_mono) simp
    then show ?thesis using len d(1) by (simp add: sum_list_sum_nth atLeast0LessThan comp_def)
  qed
  show ?thesis
    unfolding d(2) using d(1) assms(1,4) pre min norm by (subst is_short_exact) (auto dest: min)
qed

section \<open>Divisions in the transformed domain\<close>

definition quotients :: "nat \<Rightarrow> u16 list \<Rightarrow> u16 list \<Rightarrow> u16 list" where
  "quotients n h tt = map (\<lambda>u. ucast (mq_div_12289 (ucast (h ! u)) (ucast (tt ! u)))) [0..<n]"

lemma div_loop_fold:
  "\<forall>u \<in> set us. tt ! u \<noteq> 0 \<Longrightarrow>
   div_loop us h tt = (fold (\<lambda>u h. h[u := ucast (mq_div_12289 (ucast (h ! u)) (ucast (tt ! u)))]) us h, True)"
  by (induction us arbitrary: h) auto

lemma div_loop_zero: "u \<in> set us \<Longrightarrow> tt ! u = 0 \<Longrightarrow> \<not> snd (div_loop us h tt)"
  by (induction us arbitrary: h) auto

lemma div_loop_fail: "\<not> (\<forall>u<n. tt ! u \<noteq> 0) \<Longrightarrow> \<not> snd (div_loop [0..<n] h tt)"
  using div_loop_zero [of _ "[0..<n]" tt h] by auto

lemma div_loop_ok:
  assumes "length h = n" "\<forall>u<n. tt ! u \<noteq> 0"
  shows "div_loop [0..<n] h tt = (quotients n h tt, True)"
proof -
  have "\<forall>u \<in> set [0..<n]. tt ! u \<noteq> 0" using assms(2) by simp
  from div_loop_fold [OF this, of h] show ?thesis
    unfolding quotients_def using assms(1) fold_update_self [of n h "\<lambda>u x. ucast (mq_div_12289 (ucast x) (ucast (tt ! u)))"] by simp
qed

lemma ntt_quotient:
  assumes "logn \<le> 10" "canon (2 ^ logn) N" "canon (2 ^ logn) D"
    and ev: "\<And>i. i < 2 ^ logn \<Longrightarrow> zq (N ! i) = ev logn A i" "\<And>i. i < 2 ^ logn \<Longrightarrow> zq (D ! i) = ev logn B i"
    and nz: "\<And>i. i < 2 ^ logn \<Longrightarrow> D ! i \<noteq> 0"
  defines "H \<equiv> mq_iNTT (quotients (2 ^ logn) N D) logn"
  shows "canon (2 ^ logn) H" "k < 2 ^ logn \<Longrightarrow> negacyclic (2 ^ logn) (\<lambda>i. zq (H ! i)) B k = A k"
proof -
  let ?t = "quotients (2 ^ logn) N D"
  have q: "uint (?t ! i) < qZ \<and> zq (?t ! i) * ev logn B i = ev logn A i" if i: "i < 2 ^ logn" for i
  proof -
    note b = canon_nth [OF assms(2) i] canon_nth [OF assms(3) i]
    have "zq (D ! i) \<noteq> 0" using b nz [OF i] by (simp add: zq_eq_0_iff)
    then have "zq (N ! i) * zq (D ! i) ^ 12287 * zq (D ! i) = zq (N ! i)" using fq_inverse by (simp add: mult.assoc)
    then show ?thesis using i b ev [OF i] by (simp add: quotients_def uint_to16 mq_ranges zq_simps)
  qed
  have t: "canon (2 ^ logn) ?t" using q by (intro canonI) (simp_all add: quotients_def)
  show "canon (2 ^ logn) H" unfolding H_def using assms(1) t by (rule canon_mq_iNTT)
  show "negacyclic (2 ^ logn) (\<lambda>i. zq (H ! i)) B k = A k" if "k < 2 ^ logn"
  proof (rule ev_inj [OF assms(1) _ that])
    fix i :: nat assume i: "i < 2 ^ logn"
    show "ev logn (negacyclic (2 ^ logn) (\<lambda>i. zq (H ! i)) B) i = ev logn A i"
      unfolding ev_negacyclic [OF assms(1) i] H_def ev_iNTT [OF assms(1) t i] using q [OF i] by simp
  qed
qed

lemma quotient_unique:
  assumes "logn \<le> 10" "invertible (2 ^ logn) B" "k < 2 ^ logn"
    and "\<And>k. k < 2 ^ logn \<Longrightarrow> negacyclic (2 ^ logn) f B k = negacyclic (2 ^ logn) g B k"
  shows "f k = g k"
proof (rule ev_inj [OF assms(1) _ assms(3)])
  fix i :: nat assume i: "i < 2 ^ logn"
  have "ev logn f i * ev logn B i = ev logn g i * ev logn B i"
    using ev_negacyclic [OF assms(1) i, of f B] ev_negacyclic [OF assms(1) i, of g B]
      ev_cong [of logn "negacyclic (2 ^ logn) f B" "negacyclic (2 ^ logn) g B" i] assms(4) by simp
  then show "ev logn f i = ev logn g i"
    using assms(2) i fq_cancel unfolding invertible_iff [OF assms(1)] by blast
qed

lemma small_poly:
  assumes "length (f :: u8 list) = 2 ^ logn" "logn \<le> 10"
  defines "N \<equiv> mq_NTT (map (\<lambda>u. ucast (mq_conv_small (scast (f ! u)))) [0..<2 ^ logn]) logn"
  shows "canon (2 ^ logn) N" "i < 2 ^ logn \<Longrightarrow> zq (N ! i) = ev logn (sz f) i"
    "(\<forall>u<2 ^ logn. N ! u \<noteq> 0) \<longleftrightarrow> invertible (2 ^ logn) (sz f)"
proof -
  let ?a = "map (\<lambda>u. reduced (f ! u)) [0..<2 ^ logn]"
  have a: "canon (2 ^ logn) ?a" "\<And>u. u < 2 ^ logn \<Longrightarrow> zq (?a ! u) = sz f u"
    using reduced_poly [OF assms(1)] sint8_small by blast+
  have N: "N = mq_NTT ?a logn" by (simp add: N_def conv_small_reduced)
  show c: "canon (2 ^ logn) N" unfolding N using assms(2) a(1) by (rule canon_mq_NTT)
  show e: "zq (N ! i) = ev logn (sz f) i" if "i < 2 ^ logn" for i
    unfolding N ev_NTT [OF assms(2) a(1) that] using a(2) by (rule ev_cong)
  show "(\<forall>u<2 ^ logn. N ! u \<noteq> 0) \<longleftrightarrow> invertible (2 ^ logn) (sz f)"
    unfolding invertible_iff [OF assms(2)] using e canon_nth [OF c] zq_eq_0_iff by metis
qed

lemma compute_public_exact:
  assumes "logn \<le> 10" "length f = 2 ^ logn" "length g = 2 ^ logn" "compute_public f g logn = (r, h)"
  shows "r = (if invertible (2 ^ logn) (sz f) then 1 else 0)"
    and "r = 1 \<Longrightarrow> canon (2 ^ logn) h"
    and "r = 1 \<Longrightarrow> k < 2 ^ logn \<Longrightarrow> negacyclic (2 ^ logn) (\<lambda>i. zq (h ! i)) (sz f) k = sz g k"
proof -
  let ?N = "\<lambda>f. mq_NTT (map (\<lambda>u. ucast (mq_conv_small (scast (f ! u)))) [0..<2 ^ logn]) logn"
  note F = small_poly [OF assms(2,1)] and G = small_poly [OF assms(3,1)]
  have len: "length (?N g) = 2 ^ logn" using G(1) by simp
  have ok: "compute_public f g logn = (1, mq_iNTT (quotients (2 ^ logn) (?N g) (?N f)) logn)" if "invertible (2 ^ logn) (sz f)"
    unfolding compute_public_def Let_def using div_loop_ok [OF len, of "?N f"] F(3) that by simp
  have fail: "fst (compute_public f g logn) = 0" if "\<not> invertible (2 ^ logn) (sz f)"
    unfolding compute_public_def Let_def using div_loop_fail [of "2 ^ logn" "?N f" "?N g"] F(3) that
    by (simp add: split_beta)
  show r: "r = (if invertible (2 ^ logn) (sz f) then 1 else 0)" using assms(4) ok fail by auto
  assume "r = 1"
  then have inv: "invertible (2 ^ logn) (sz f)" using r by (auto split: if_splits)
  then have h: "h = mq_iNTT (quotients (2 ^ logn) (?N g) (?N f)) logn" using ok assms(4) by simp
  note q = ntt_quotient [OF assms(1) G(1) F(1) G(2) F(2)]
  show "canon (2 ^ logn) h" unfolding h using F(3) inv by (intro q(1)) blast+
  show "k < 2 ^ logn \<Longrightarrow> negacyclic (2 ^ logn) (\<lambda>i. zq (h ! i)) (sz f) k = sz g k"
    unfolding h using F(3) inv by (intro q(2)) blast+
qed

section \<open>Completing the private key\<close>

definition narrow :: "u16 \<Rightarrow> int" where
  "narrow x = (let w = (ucast x :: u32); w = w - (Q AND NOT (- drop_bit 31 (w - drop_bit 1 Q))) in sint w)"

lemma narrow_eq:
  assumes "uint x < qZ"
  shows "narrow x = (if uint x < 6144 then uint x else uint x - qZ)"
proof -
  let ?w = "ucast x :: u32"
  have x0: "0 \<le> uint x" by simp
  have h: "uint (?w - drop_bit 1 Q) = (uint x - 6144) mod 4294967296"
    by (simp add: uint_word_ariths uint_shr Q_def)
  have d: "drop_bit 31 (?w - drop_bit 1 Q) = (if uint x < 6144 then 1 else 0)"
  proof (cases "uint x < 6144")
    case True
    then have "uint (?w - drop_bit 1 Q) = uint x - 6144 + 4294967296" using h x0 by (simp add: mod_neg_once)
    then show ?thesis using True x0 unfolding sign_shift by simp
  next
    case False
    then have "uint (?w - drop_bit 1 Q) = uint x - 6144" using h assms by simp
    then show ?thesis using False assms unfolding sign_shift by simp
  qed
  have "?w - (Q AND NOT (- drop_bit 31 (?w - drop_bit 1 Q))) = word_of_int (if uint x < 6144 then uint x else uint x - qZ)"
    unfolding d by (simp add: Q_def word_uint_eq_iff uint_word_ariths uint_word_of_int)
  then show ?thesis unfolding narrow_def Let_def using assms x0
    by (simp only: sint_sbintrunc') (auto intro!: signed_take_bit_int_eq_self order_trans [OF _ x0])
qed

lemma narrow_zq: "uint x < qZ \<Longrightarrow> of_int (narrow x) = zq x"
  unfolding zq_def of_int_fq narrow_eq by auto

lemma narrow_unique:
  assumes "uint x < qZ" "of_int v = zq x" "\<bar>v\<bar> \<le> 127"
  shows "narrow x = v"
proof -
  have "(v - narrow x) mod qZ = 0"
    using assms(2) narrow_zq [OF assms(1)] by (metis of_int_fq mod_eq_dvd_iff mod_eq_0_iff_dvd)
  then obtain k where k: "v = narrow x + qZ * k" by (metis add.commute diff_add_cancel dvdE mod_eq_0_iff_dvd)
  have "- 6145 \<le> narrow x" "narrow x < 6144"
    unfolding narrow_eq [OF assms(1)] using assms(1) order_trans [OF _ uint_ge_0 [of x]] by auto
  then have "k = 0" using k assms(3) by linarith
  then show ?thesis using k by simp
qed

lemma narrow_loop_ok:
  "\<forall>u \<in> set us. \<bar>narrow (t ! u)\<bar> \<le> 127 \<Longrightarrow> narrow_loop us t G = (1, fold (\<lambda>u G. G[u := word_of_int (narrow (t ! u))]) us G)"
  by (induction us arbitrary: G) (auto simp: narrow_def Let_def abs_le_iff)

lemma narrow_loop_fail: "u \<in> set us \<Longrightarrow> \<not> \<bar>narrow (t ! u)\<bar> \<le> 127 \<Longrightarrow> fst (narrow_loop us t G) = 0"
  by (induction us arbitrary: G) (auto simp: narrow_def Let_def abs_le_iff)

lemma complete_private_fail:
  assumes "logn \<le> 10" "length f = 2 ^ logn" "\<not> invertible (2 ^ logn) (sz f)"
  shows "fst (complete_private G0 f g F logn) = 0"
  using small_poly(3) [OF assms(2,1)] assms(3) div_loop_fail
  unfolding complete_private_def Let_def by (simp add: split_beta)

lemma complete_private_narrow:
  assumes "logn \<le> 10" "length f = 2 ^ logn" "length g = 2 ^ logn" "length F = 2 ^ logn" "invertible (2 ^ logn) (sz f)"
  shows "\<exists>H. canon (2 ^ logn) H \<and> complete_private G0 f g F logn = narrow_loop [0..<2 ^ logn] H G0
    \<and> (\<forall>k<2 ^ logn. negacyclic (2 ^ logn) (\<lambda>i. zq (H ! i)) (sz f) k = negacyclic (2 ^ logn) (sz g) (sz F) k)"
proof -
  let ?n = "2 ^ logn :: nat"
  let ?N = "\<lambda>f. mq_NTT (map (\<lambda>u. ucast (mq_conv_small (scast (f ! u)))) [0..<2 ^ logn]) logn"
  note f = small_poly [OF assms(2,1)] and g = small_poly [OF assms(3,1)] and F = small_poly [OF assms(4,1)]
  note m = poly_tomonty_zq [OF g(1)]
  let ?t = "mq_poly_montymul_ntt (mq_poly_tomonty (?N g) logn) (?N F) logn"
  note t = poly_montymul_zq [OF m(1) F(1)]
  have tv: "zq (?t ! i) = ev logn (negacyclic ?n (sz g) (sz F)) i" if i: "i < ?n" for i
  proof -
    have "zq (?t ! i) = ev logn (sz g) i * ev logn (sz F) i * (4091 * 2304)"
      unfolding t(2) [OF i] m(2) [OF i] g(2) [OF i] F(2) [OF i] by (simp only: ac_simps)
    then show ?thesis unfolding R_inverse ev_negacyclic [OF assms(1) i] by simp
  qed
  have nz: "\<And>i. i < ?n \<Longrightarrow> ?N f ! i \<noteq> 0" using f(3) assms(5) by blast
  note q = ntt_quotient [OF assms(1) t(1) f(1) tv f(2) nz]
  have "complete_private G0 f g F logn = narrow_loop [0..<?n] (mq_iNTT (quotients ?n ?t (?N f)) logn) G0"
    unfolding complete_private_def Let_def using div_loop_ok [of ?t ?n "?N f"] t(1) nz by simp
  then show ?thesis using q by blast
qed

lemma complete_private_exact:
  assumes "logn \<le> 10" "length f = 2 ^ logn" "length g = 2 ^ logn" "length F = 2 ^ logn" "length G0 = 2 ^ logn"
    and "invertible (2 ^ logn) (sz f)" "complete_private G0 f g F logn = (r, G)"
  shows "r = (if \<exists>v. \<forall>k<2 ^ logn. \<bar>v k\<bar> \<le> 127 \<and>
        negacyclic (2 ^ logn) (\<lambda>i. of_int (v i)) (sz f) k = negacyclic (2 ^ logn) (sz g) (sz F) k then 1 else 0)"
    and "r = 1 \<Longrightarrow> length G = 2 ^ logn"
    and "r = 1 \<Longrightarrow> k < 2 ^ logn \<Longrightarrow> \<bar>sint (G ! k)\<bar> \<le> 127 \<and> negacyclic (2 ^ logn) (sz G) (sz f) k = negacyclic (2 ^ logn) (sz g) (sz F) k"
proof -
  let ?n = "2 ^ logn :: nat"
  let ?P = "\<lambda>v. \<forall>k<?n. \<bar>v k\<bar> \<le> 127 \<and> negacyclic ?n (\<lambda>i. of_int (v i)) (sz f) k = negacyclic ?n (sz g) (sz F) k"
  obtain H where H: "canon ?n H" "complete_private G0 f g F logn = narrow_loop [0..<?n] H G0"
    "\<And>k. k < ?n \<Longrightarrow> negacyclic ?n (\<lambda>i. zq (H ! i)) (sz f) k = negacyclic ?n (sz g) (sz F) k"
    using complete_private_narrow [OF assms(1-4,6)] by blast
  have nH: "of_int (narrow (H ! i)) = zq (H ! i)" if "i < ?n" for i using narrow_zq canon_nth [OF H(1) that] .
  have sol: "negacyclic ?n (\<lambda>i. of_int (narrow (H ! i))) (sz f) k = negacyclic ?n (sz g) (sz F) k" if "k < ?n" for k
    unfolding H(3) [OF that, symmetric] using that nH by (intro negacyclic_cong) auto
  have uniq: "narrow (H ! k) = v k" if v: "?P v" and k: "k < ?n" for v k
  proof -
    have "of_int (v k) = zq (H ! k)"
      using quotient_unique [OF assms(1,6) k, of "\<lambda>i. of_int (v i)" "\<lambda>i. zq (H ! i)"] v H(3) by simp
    then show ?thesis using v k canon_nth [OF H(1) k] by (intro narrow_unique) auto
  qed
  have ok: "(r, G) = (1, map (\<lambda>u. word_of_int (narrow (H ! u))) [0..<?n])" if "\<forall>k<?n. \<bar>narrow (H ! k)\<bar> \<le> 127"
    using narrow_loop_ok [of "[0..<?n]" H G0] that H(2) assms(5,7) fold_update_const [of ?n G0] by simp
  have bad: "r = 0" if nb: "\<not> (\<forall>k<?n. \<bar>narrow (H ! k)\<bar> \<le> 127)"
  proof -
    have e: "narrow_loop [0..<?n] H G0 = (r, G)" using H(2) assms(7) by simp
    obtain k where "k < ?n" "\<not> \<bar>narrow (H ! k)\<bar> \<le> 127" using nb by auto
    then show ?thesis using narrow_loop_fail [of k "[0..<?n]" H G0] unfolding e by simp
  qed
  have ex: "(\<exists>v. ?P v) \<longleftrightarrow> (\<forall>k<?n. \<bar>narrow (H ! k)\<bar> \<le> 127)"
  proof
    show "\<exists>v. ?P v \<Longrightarrow> \<forall>k<?n. \<bar>narrow (H ! k)\<bar> \<le> 127" using uniq by auto
    show "\<forall>k<?n. \<bar>narrow (H ! k)\<bar> \<le> 127 \<Longrightarrow> \<exists>v. ?P v"
      using sol by (intro exI [of _ "\<lambda>k. narrow (H ! k)"]) simp
  qed
  show r: "r = (if \<exists>v. ?P v then 1 else 0)" unfolding ex using ok bad by auto
  assume "r = 1"
  then have all: "\<forall>k<?n. \<bar>narrow (H ! k)\<bar> \<le> 127" using bad by auto
  then have G: "G = map (\<lambda>u. word_of_int (narrow (H ! u))) [0..<?n]" using ok by simp
  show "length G = ?n" by (simp add: G)
  have s: "sint (word_of_int v :: u8) = v" if "\<bar>v\<bar> \<le> 127" for v
    using that by (simp add: sint_sbintrunc' signed_take_bit_int_eq_self)
  then have Gk: "sint (G ! k) = narrow (H ! k)" if "k < ?n" for k using all that by (simp add: G)
  show "\<bar>sint (G ! k)\<bar> \<le> 127 \<and> negacyclic ?n (sz G) (sz f) k = negacyclic ?n (sz g) (sz F) k" if "k < ?n"
    using Gk all that sol [OF that] negacyclic_cong [of ?n "sz G" "\<lambda>i. of_int (narrow (H ! i))" "sz f" "sz f" k] by simp
qed

section \<open>Invertibility and recovery\<close>

lemma bit31_pred:
  fixes x :: u16
  assumes "uint x < qZ"
  shows "bit (ucast x - 1 :: u32) 31 \<longleftrightarrow> x = 0"
proof (cases "x = 0")
  case True
  then show ?thesis by (simp add: top_bit uint_ones)
next
  case False
  then have "1 \<le> uint x" using uint_ge_0 [of x] by (simp add: word_uint_eq_iff less_le int_one_le_iff_zero_less)
  then have "uint (ucast x - 1 :: u32) = uint x - 1" using assms by (simp add: uint_word_ariths)
  then show ?thesis using False assms unfolding top_bit by simp
qed

lemma zero_scan:
  assumes "canon n tt" "0 < n"
  shows "bit (fold (\<lambda>u r. r OR (ucast (tt ! u) - 1)) [0..<n] (0 :: u32)) 31 \<longleftrightarrow> (\<exists>u<n. tt ! u = 0)"
  unfolding bit_or_fold using bit31_pred canon_nth [OF assms(1)] by auto

lemma signed_poly:
  assumes "length (s :: u16 list) = 2 ^ logn" "\<And>u. u < 2 ^ logn \<Longrightarrow> \<bar>sint (s ! u)\<bar> < qZ" "logn \<le> 10"
  defines "N \<equiv> mq_NTT (map (\<lambda>u. reduced (s ! u)) [0..<2 ^ logn]) logn"
  shows "canon (2 ^ logn) N" "i < 2 ^ logn \<Longrightarrow> zq (N ! i) = ev logn (sz s) i"
    "(\<exists>u<2 ^ logn. N ! u = 0) \<longleftrightarrow> \<not> invertible (2 ^ logn) (sz s)"
    "i < 2 ^ logn \<Longrightarrow> N ! i = 0 \<longleftrightarrow> ev logn (sz s) i = 0"
proof -
  let ?a = "map (\<lambda>u. reduced (s ! u)) [0..<2 ^ logn]"
  have a: "canon (2 ^ logn) ?a" "\<And>u. u < 2 ^ logn \<Longrightarrow> zq (?a ! u) = sz s u"
    using reduced_poly [OF assms(1)] assms(2) by blast+
  show c: "canon (2 ^ logn) N" unfolding N_def using assms(3) a(1) by (rule canon_mq_NTT)
  show e: "zq (N ! i) = ev logn (sz s) i" if "i < 2 ^ logn" for i
    unfolding N_def ev_NTT [OF assms(3) a(1) that] using a(2) by (rule ev_cong)
  show z: "N ! i = 0 \<longleftrightarrow> ev logn (sz s) i = 0" if "i < 2 ^ logn" for i
    using e [OF that] zq_eq_0_iff [OF canon_nth [OF c that]] by simp
  show "(\<exists>u<2 ^ logn. N ! u = 0) \<longleftrightarrow> \<not> invertible (2 ^ logn) (sz s)"
    unfolding invertible_iff [OF assms(3)] using z by auto
qed

lemma is_invertible_exact:
  assumes "logn \<le> 10" "length s2 = 2 ^ logn" "\<And>u. u < 2 ^ logn \<Longrightarrow> \<bar>sint (s2 ! u)\<bar> < qZ"
  shows "is_invertible s2 logn = (if invertible (2 ^ logn) (sz s2) then 1 else 0)"
proof -
  note N = signed_poly [OF assms(2,3,1)]
  have "is_invertible s2 logn = (let r = fold (\<lambda>u r. r OR (ucast (mq_NTT (map (\<lambda>u. reduced (s2 ! u)) [0..<2 ^ logn]) logn ! u) - 1)) [0..<2 ^ logn] (0 :: u32)
      in sint (1 - drop_bit 31 r))"
    by (simp add: is_invertible_def reduced_def Let_def)
  then show ?thesis unfolding sign_shift using zero_scan [OF N(1)] N(3) unfolding top_bit Let_def by simp
qed

lemma sint_small: "m \<le> 1024 \<Longrightarrow> sint (of_nat m :: u32) = int m"
proof -
  assume m: "m \<le> 1024"
  have "- (2 ^ 31) \<le> int m" by (rule order_trans [of _ 0]) simp_all
  then have "sint (word_of_int (int m) :: u32) = int m"
    using m by (subst sint_sbintrunc') (simp add: signed_take_bit_int_eq_self)
  then show ?thesis by simp
qed

lemma count_nttzero_exact:
  assumes "logn \<le> 10" "length s2 = 2 ^ logn" "\<And>u. u < 2 ^ logn \<Longrightarrow> \<bar>sint (s2 ! u)\<bar> < qZ"
  shows "count_nttzero s2 logn = int (card {i. i < 2 ^ logn \<and> ev logn (sz s2) i = 0})"
proof -
  let ?N = "mq_NTT (map (\<lambda>u. reduced (s2 ! u)) [0..<2 ^ logn]) logn"
  note N = signed_poly [OF assms(2,3,1)]
  have step: "drop_bit 31 (ucast (?N ! u) - 1 :: u32) = (if ?N ! u = 0 then 1 else 0)" if "u < 2 ^ logn" for u
    unfolding sign_shift using bit31_pred [OF canon_nth [OF N(1) that]] unfolding top_bit by simp
  have "k \<le> 2 ^ logn \<Longrightarrow> fold (\<lambda>u r. r + drop_bit 31 (ucast (?N ! u) - 1)) [0..<k] (0 :: u32) = of_nat (card {i. i < k \<and> ?N ! i = 0})" for k
  proof (induction k)
    case (Suc k)
    have "{i. i < Suc k \<and> ?N ! i = 0} = (if ?N ! k = 0 then insert k {i. i < k \<and> ?N ! i = 0} else {i. i < k \<and> ?N ! i = 0})"
      by (auto simp: less_Suc_eq)
    then show ?case using Suc step [of k] by (simp add: add.commute)
  qed simp
  then have r: "count_nttzero s2 logn = sint (of_nat (card {i. i < 2 ^ logn \<and> ?N ! i = 0}) :: u32)"
    by (simp add: count_nttzero_def reduced_def Let_def)
  have c: "card {i. i < 2 ^ logn \<and> ?N ! i = 0} \<le> 2 ^ logn"
    using card_mono [of "{..<2 ^ logn}" "{i. i < 2 ^ logn \<and> ?N ! i = 0}"] by auto
  have "(2 :: nat) ^ logn \<le> 2 ^ 10" using assms(1) by (intro power_increasing) auto
  then have "sint (of_nat (card {i. i < 2 ^ logn \<and> ?N ! i = 0}) :: u32) = int (card {i. i < 2 ^ logn \<and> ?N ! i = 0})"
    using c by (intro sint_small) simp
  then show ?thesis unfolding r using N(4) by (simp cong: conj_cong)
qed

lemma verify_recover_eq:
  "verify_recover c0 s1 s2 logn =
    (let tt = mq_NTT (map (\<lambda>u. reduced (s2 ! u)) [0..<2 ^ logn]) logn;
         h = mq_NTT (map (\<lambda>u. ucast (mq_sub (ucast (c0 ! u)) (let w = (scast (s1 ! u) :: u32) in w + (Q AND - drop_bit 31 w))) :: u16) [0..<2 ^ logn]) logn
     in case fold (\<lambda>u (r, h). (r OR (ucast (tt ! u) - 1), h[u := ucast (mq_div_12289 (ucast (h ! u)) (ucast (tt ! u)))])) [0..<2 ^ logn] (0 :: u32, h)
        of (r, h) \<Rightarrow> (sint (drop_bit 31 (NOT r AND - word_of_int (is_short s1 s2 logn))), mq_iNTT h logn))"
  by (simp only: verify_recover_def reduced_def Let_def)

lemma verify_recover_exact:
  assumes "logn \<le> 10" "canon (2 ^ logn) c0" "length s1 = 2 ^ logn" "length s2 = 2 ^ logn"
    and small: "\<And>u. u < 2 ^ logn \<Longrightarrow> \<bar>sint (s1 ! u)\<bar> < qZ" "\<And>u. u < 2 ^ logn \<Longrightarrow> \<bar>sint (s2 ! u)\<bar> < qZ"
    and "verify_recover c0 s1 s2 logn = (r, h)"
  shows "r = (if invertible (2 ^ logn) (sz s2) \<and> sqnorm s1 + sqnorm s2 \<le> uint (l2bound ! logn) then 1 else 0)"
    and "r = 1 \<Longrightarrow> canon (2 ^ logn) h"
    and "r = 1 \<Longrightarrow> k < 2 ^ logn \<Longrightarrow> negacyclic (2 ^ logn) (\<lambda>i. zq (h ! i)) (sz s2) k = zq (c0 ! k) - sz s1 k"
proof -
  let ?n = "2 ^ logn :: nat"
  let ?a = "map (\<lambda>u. ucast (mq_sub (ucast (c0 ! u)) (let w = (scast (s1 ! u) :: u32) in w + (Q AND - drop_bit 31 w))) :: u16) [0..<?n]"
  let ?T = "mq_NTT (map (\<lambda>u. reduced (s2 ! u)) [0..<?n]) logn" and ?A = "mq_NTT ?a logn"
  note T = signed_poly [OF assms(4) small(2) assms(1)]
  have "uint (?a ! u) < qZ \<and> zq (?a ! u) = zq (c0 ! u) - sz s1 u" if u: "u < ?n" for u
    using u canon_nth [OF assms(2) u] cond_reduce [OF small(1) [OF u]]
    by (simp add: Let_def uint_to16 mq_ranges zq_simps)
  then have a: "canon ?n ?a" "\<And>u. u < ?n \<Longrightarrow> zq (?a ! u) = zq (c0 ! u) - sz s1 u" by (auto intro!: canonI)
  let ?r = "fold (\<lambda>u r. r OR (ucast (?T ! u) - 1)) [0..<?n] (0 :: u32)"
  have pair: "fold (\<lambda>u (r, h). (r OR f u, h[u := g (h ! u) u])) us (r0, h0) = (fold (\<lambda>u r. r OR f u) us r0, fold (\<lambda>u h. h[u := g (h ! u) u]) us h0)"
    for f :: "nat \<Rightarrow> u32" and g :: "u16 \<Rightarrow> nat \<Rightarrow> u16" and us r0 h0 by (induction us arbitrary: r0 h0) simp_all
  have A: "canon ?n ?A" "\<And>i. i < ?n \<Longrightarrow> zq (?A ! i) = ev logn (\<lambda>u. zq (c0 ! u) - sz s1 u) i"
    using canon_mq_NTT [OF assms(1) a(1)] ev_NTT [OF assms(1) a(1)] ev_cong [OF a(2)] by auto
  have vr: "verify_recover c0 s1 s2 logn =
      (sint (drop_bit 31 (NOT ?r AND - word_of_int (is_short s1 s2 logn))), mq_iNTT (quotients ?n ?A ?T) logn)"
  proof -
    have "fold (\<lambda>u h. h[u := ucast (mq_div_12289 (ucast (h ! u)) (ucast (?T ! u)))]) [0..<?n] ?A = quotients ?n ?A ?T"
      using A(1) fold_update_self [of ?n ?A "\<lambda>u x. ucast (mq_div_12289 (ucast x) (ucast (?T ! u)))"] by (simp add: quotients_def)
    then show ?thesis
      unfolding verify_recover_eq Let_def [of "mq_NTT _ _"]
        pair [of "\<lambda>u. ucast (?T ! u) - 1" "\<lambda>x u. ucast (mq_div_12289 (ucast x) (ucast (?T ! u)))"] by simp
  qed
  have bit: "bit ?r 31 \<longleftrightarrow> \<not> invertible ?n (sz s2)" using zero_scan [OF T(1)] T(3) by simp
  show r: "r = (if invertible ?n (sz s2) \<and> sqnorm s1 + sqnorm s2 \<le> uint (l2bound ! logn) then 1 else 0)"
  proof -
    let ?w = "- word_of_int (is_short s1 s2 logn) :: u32"
    have "bit ?w 31 \<longleftrightarrow> sqnorm s1 + sqnorm s2 \<le> uint (l2bound ! logn)"
      unfolding is_short_exact [OF assms(3,4,1)] by (simp add: top_bit uint_ones)
    then have "bit (NOT ?r AND ?w) 31 \<longleftrightarrow> invertible ?n (sz s2) \<and> sqnorm s1 + sqnorm s2 \<le> uint (l2bound ! logn)"
      using bit by (simp add: bit_and_iff bit_not_iff)
    moreover have "r = sint (drop_bit 31 (NOT ?r AND ?w))" using vr assms(7) by simp
    ultimately show ?thesis unfolding sign_shift top_bit by simp
  qed
  assume "r = 1"
  then have inv: "invertible ?n (sz s2)" using r by (auto split: if_splits)
  have h: "h = mq_iNTT (quotients ?n ?A ?T) logn" using vr assms(7) by simp
  have nz: "\<And>i. i < ?n \<Longrightarrow> ?T ! i \<noteq> 0" using T(3) inv by blast
  note q = ntt_quotient [OF assms(1) A(1) T(1) A(2) T(2) nz]
  show "canon ?n h" unfolding h using q(1) .
  show "k < ?n \<Longrightarrow> negacyclic ?n (\<lambda>i. zq (h ! i)) (sz s2) k = zq (c0 ! k) - sz s1 k" unfolding h using q(2) .
qed

lemma if_one: "(if P then 1 else 0) = (1 :: int) \<Longrightarrow> P"
  by (cases P) auto

lemma all_small: "list_all (\<lambda>x. \<bar>sint x\<bar> < 12289) s \<Longrightarrow> u < length s \<Longrightarrow> \<bar>sint (s ! u)\<bar> < 12289"
  by (simp add: list_all_length)

section \<open>Properties\<close>

text \<open>
  (C27) Signature verification decides the Falcon relation: with the public key prepared by
  \<open>to_ntt_monty\<close>, \<open>verify_raw\<close> returns 1 if and only if some integer vector s1 with
  s1 + s2 h = c0 modulo X^n + 1 and q makes (s1, s2) short enough.
\<close>

theorem verify_raw_correct:
  assumes "logn \<le> 10" "canon (2 ^ logn) c0" "canon (2 ^ logn) h" "length s2 = 2 ^ logn"
    and "list_all (\<lambda>x. \<bar>sint x\<bar> < 12289) s2"
  shows "verify_raw c0 s2 (to_ntt_monty h logn) logn =
    (if \<exists>s1. is_preimage (2 ^ logn) c0 s1 s2 h \<and> (\<Sum>z\<leftarrow>s1. z * z) + sqnorm s2 \<le> uint (l2bound ! logn) then 1 else 0)"
  using assms(1-4) all_small [OF assms(5)] by (intro verify_raw_exact) auto

theorem verify_raw_correct_witness:
  "\<exists>s1. is_preimage 2 [12000, 3] s1 [1, - 2] [7, 9] \<and> (\<Sum>z\<leftarrow>s1. z * z) + sqnorm [1, - 2] \<le> uint (l2bound ! 1)"
proof -
  have c: "canon (2 ^ 1) [12000, 3]" "canon (2 ^ 1) [7, 9]" by (simp_all add: canon_def)
  have s: "list_all (\<lambda>x. \<bar>sint x\<bar> < 12289) [1, - 2 :: u16]" by simp
  have v: "verify_raw [12000, 3] [1, - 2] (to_ntt_monty [7, 9] 1) 1 = 1" by code_simp
  have "(if ?thesis then 1 else 0) = (1 :: int)"
    using verify_raw_correct [OF _ c _ s] unfolding v by (simp only: power_one_right) simp
  then show ?thesis by (rule if_one)
qed

text \<open>
  (C34) Public key computation: \<open>compute_public\<close> succeeds exactly when f is invertible modulo
  X^n + 1 and q, and then returns the key h with h f = g.
\<close>

theorem compute_public_correct:
  assumes "logn \<le> 10" "length f = 2 ^ logn" "length g = 2 ^ logn" "compute_public f g logn = (r, h)"
  shows "r = (if invertible (2 ^ logn) (sz f) then 1 else 0) \<and>
    (r = 1 \<longrightarrow> canon (2 ^ logn) h \<and> (\<forall>k<2 ^ logn. negacyclic (2 ^ logn) (\<lambda>i. zq (h ! i)) (sz f) k = sz g k))"
  using compute_public_exact [OF assms] by simp

theorem compute_public_correct_witness:
  "canon 2 (snd (compute_public [1, 3] [2, 5] 1)) \<and> invertible 2 (sz [1, 3 :: u8])"
proof -
  have "compute_public [1, 3] [2, 5] 1 = (1, snd (compute_public [1, 3] [2, 5] 1))" by code_simp
  from compute_public_correct [OF _ _ _ this] show ?thesis by (simp split: if_splits)
qed

text \<open>
  Completion of the private key: for invertible f, \<open>complete_private\<close> succeeds exactly when some
  G with coefficients in -127..127 satisfies G f = g F modulo X^n + 1 and q, and then returns it.
\<close>

lemma complete_private_correct:
  assumes "logn \<le> 10" "length f = 2 ^ logn" "length g = 2 ^ logn" "length F = 2 ^ logn" "length G0 = 2 ^ logn"
    and "invertible (2 ^ logn) (sz f)" "complete_private G0 f g F logn = (r, G)"
  shows "r = (if \<exists>v. \<forall>k<2 ^ logn. \<bar>v k\<bar> \<le> 127 \<and>
        negacyclic (2 ^ logn) (\<lambda>i. of_int (v i)) (sz f) k = negacyclic (2 ^ logn) (sz g) (sz F) k then 1 else 0) \<and>
    (r = 1 \<longrightarrow> length G = 2 ^ logn \<and> (\<forall>k<2 ^ logn. \<bar>sint (G ! k)\<bar> \<le> 127 \<and>
        negacyclic (2 ^ logn) (sz G) (sz f) k = negacyclic (2 ^ logn) (sz g) (sz F) k))"
  using complete_private_exact [OF assms] by simp

text \<open>
  Public key recovery: \<open>verify_recover\<close> accepts exactly the short pairs whose s2 is invertible, and
  then rebuilds the key h with h s2 = c0 - s1.
\<close>

lemma verify_recover_correct:
  assumes "logn \<le> 10" "canon (2 ^ logn) c0" "length s1 = 2 ^ logn" "length s2 = 2 ^ logn"
    and "list_all (\<lambda>x. \<bar>sint x\<bar> < 12289) s1" "list_all (\<lambda>x. \<bar>sint x\<bar> < 12289) s2"
    and "verify_recover c0 s1 s2 logn = (r, h)"
  shows "r = (if invertible (2 ^ logn) (sz s2) \<and> sqnorm s1 + sqnorm s2 \<le> uint (l2bound ! logn) then 1 else 0) \<and>
    (r = 1 \<longrightarrow> canon (2 ^ logn) h \<and>
      (\<forall>k<2 ^ logn. negacyclic (2 ^ logn) (\<lambda>i. zq (h ! i)) (sz s2) k = zq (c0 ! k) - sz s1 k))"
proof -
  have small: "\<And>u. u < 2 ^ logn \<Longrightarrow> \<bar>sint (s1 ! u)\<bar> < 12289" "\<And>u. u < 2 ^ logn \<Longrightarrow> \<bar>sint (s2 ! u)\<bar> < 12289"
    using all_small [OF assms(5)] all_small [OF assms(6)] assms(3,4) by simp_all
  show ?thesis using verify_recover_exact [OF assms(1-4) small assms(7)] by simp
qed

text \<open>
  The two tests on s2: \<open>is_invertible\<close> decides invertibility modulo X^n + 1 and q, and
  \<open>count_nttzero\<close> counts the roots of X^n + 1 at which the polynomial vanishes.
\<close>

lemma invertibility_tests_correct:
  assumes "logn \<le> 10" "length s2 = 2 ^ logn" "list_all (\<lambda>x. \<bar>sint x\<bar> < 12289) s2"
  shows "is_invertible s2 logn = (if invertible (2 ^ logn) (sz s2) then 1 else 0) \<and>
    count_nttzero s2 logn = int (card {i. i < 2 ^ logn \<and> ev logn (sz s2) i = 0})"
proof -
  have small: "\<And>u. u < 2 ^ logn \<Longrightarrow> \<bar>sint (s2 ! u)\<bar> < 12289" using all_small [OF assms(3)] assms(2) by simp
  show ?thesis using is_invertible_exact [OF assms(1,2) small] count_nttzero_exact [OF assms(1,2) small] by simp
qed

end
