(* ===== verification/Falcon_Keys.thy ===== *)
theory Falcon_Keys
  imports Codec_Comp Vrfy Fips202
begin

text \<open>
  The key and signature handling that falcon.c and pqclean.c have in common, word for word: the
  encoding of a key pair, the decoding of a private key at the head of \<^verbatim>\<open>do_sign\<close>, the signing
  loop, and the decoding and check of a signature in \<^verbatim>\<open>do_verify\<close> once the message is hashed.

  A result \<open>None\<close> stands for a call that does not return a value (a read outside a buffer, or a loop
  that does not end); \<open>Some None\<close> for the return value -1 of the functions that also write a
  result. The generators \<^verbatim>\<open>keygen\<close> and \<^verbatim>\<open>sign_dyn\<close> are arguments of the definitions.
\<close>

section \<open>Model\<close>

definition SECRETKEYBYTES :: nat where "SECRETKEYBYTES = 1281"
definition PUBLICKEYBYTES :: nat where "PUBLICKEYBYTES = 897"
definition CRYPTO_BYTES :: nat where "CRYPTO_BYTES = 666"
definition NONCELEN :: nat where "NONCELEN = 40"

definition encode_private :: "u8 list \<Rightarrow> u8 list \<Rightarrow> u8 list \<Rightarrow> u8 list option" where
  "encode_private f g F =
     (let sk = [0x50 + 9]; u = 1;
          (v, out) = trim_i8_encode False (SECRETKEYBYTES - u) f 9 (unat (max_fg_bits ! 9))
      in if v = 0 then None
         else
           let sk = sk @ out; u = u + v;
               (v, out) = trim_i8_encode False (SECRETKEYBYTES - u) g 9 (unat (max_fg_bits ! 9))
           in if v = 0 then None
              else
                let sk = sk @ out; u = u + v;
                    (v, out) = trim_i8_encode False (SECRETKEYBYTES - u) F 9 (unat (max_FG_bits ! 9))
                in if v = 0 then None
                   else
                     let sk = sk @ out; u = u + v
                     in if u \<noteq> SECRETKEYBYTES then None else Some sk)"

definition encode_public :: "u16 list \<Rightarrow> u8 list option" where
  "encode_public h =
     (let (v, out) = modq_encode False (PUBLICKEYBYTES - 1) h 9
      in if v \<noteq> PUBLICKEYBYTES - 1 then None else Some ((0x00 + 9) # out))"

definition encode_keypair :: "u8 list \<times> u8 list \<times> u8 list \<times> u16 list \<Rightarrow> (u8 list \<times> u8 list) option" where
  "encode_keypair key =
     (let (f, g, F, h) = key
      in case encode_private f g F of
           None \<Rightarrow> None
         | Some sk \<Rightarrow> (case encode_public h of None \<Rightarrow> None | Some pk \<Rightarrow> Some (pk, sk)))"

definition decode_private :: "u8 list \<Rightarrow> (u8 list \<times> u8 list \<times> u8 list \<times> u8 list) option option" where
  "decode_private sk =
     (if sk ! 0 \<noteq> 0x50 + 9 then Some None
      else
        let u = 1
        in case trim_i8_decode 9 (unat (max_fg_bits ! 9)) (take (SECRETKEYBYTES - u) (drop u sk)) of
          None \<Rightarrow> None
        | Some (v, f) \<Rightarrow>
          if v = 0 then Some None
          else
            let u = u + v
            in case trim_i8_decode 9 (unat (max_fg_bits ! 9)) (take (SECRETKEYBYTES - u) (drop u sk)) of
              None \<Rightarrow> None
            | Some (v, g) \<Rightarrow>
              if v = 0 then Some None
              else
                let u = u + v
                in case trim_i8_decode 9 (unat (max_FG_bits ! 9)) (take (SECRETKEYBYTES - u) (drop u sk)) of
                  None \<Rightarrow> None
                | Some (v, F) \<Rightarrow>
                  if v = 0 then Some None
                  else
                    let u = u + v
                    in if u \<noteq> SECRETKEYBYTES then Some None
                       else
                         let (r, G) = complete_private (replicate 512 0) f g F 9
                         in if r = 0 then Some None else Some (Some (f, g, F, G)))"

type_synonym sign_dyn_fun =
  "u64 list \<Rightarrow> u8 list \<times> u8 list \<times> u8 list \<times> u8 list \<Rightarrow> u16 list \<Rightarrow> u64 list \<times> u16 list"

partial_function (option) sign_loop ::
  "sign_dyn_fun \<Rightarrow> nat \<Rightarrow> u8 list \<times> u8 list \<times> u8 list \<times> u8 list \<Rightarrow> u16 list \<Rightarrow> u64 list \<Rightarrow> u8 list option" where
  "sign_loop sign_dyn sigbuflen key hm sc =
     (let (sc, sig) = sign_dyn sc key hm;
          (v, out) = comp_encode False sigbuflen sig 9
      in if v \<noteq> 0 then Some out else sign_loop sign_dyn sigbuflen key hm sc)"

definition randombytes :: "nat \<Rightarrow> u8 list \<Rightarrow> u8 list \<times> u8 list" where
  "randombytes n tape = (take n tape, drop n tape)"

text \<open>A SHAKE256 context (allocated successfully) after the injection of a seed and the flip.\<close>

definition seeded_rng :: "u8 list \<Rightarrow> u64 list" where
  "seeded_rng seed = shake256_inc_finalize (shake256_inc_absorb keccak_inc_init seed)"

section \<open>Decoding in place\<close>

lemma unpack_loop_append:
  "unpack_loop bits dec n acc a buf x = Some r \<Longrightarrow> unpack_loop bits dec n acc a (buf @ rest) x = Some r"
proof (induction buf arbitrary: acc a x)
  case Nil
  then show ?case by (subst (asm) unpack_loop.simps, subst unpack_loop.simps) (auto split: if_splits)
next
  case (Cons b buf)
  then show ?case
    by (subst (asm) (2) unpack_loop.simps, subst unpack_loop.simps)
      (auto simp: Let_def split: if_splits option.splits prod.splits)
qed

lemma field_decode_append:
  "field_decode bits dec n buf = Some (r, x) \<Longrightarrow> r \<noteq> 0 \<Longrightarrow> field_decode bits dec n (buf @ rest) = Some (r, x)"
  using unpack_loop_append [of bits dec n 0 0 buf "[]" _ rest]
  by (auto simp: field_decode_def Let_def decode_end_def split: if_splits option.splits prod.splits)

lemma bits9: "unat (max_fg_bits ! 9) = 6" "unat (max_FG_bits ! 9) = 8"
  by (simp_all add: max_fg_bits_def max_FG_bits_def)

lemma trim_out:
  assumes "length x = 512" "trim_i8_encode False mx x 9 bits = (v, out)" "v \<noteq> 0" "0 < bits" "bits \<le> 8"
  shows "v = 64 * bits" "length out = 64 * bits" "trim_i8_decode 9 bits (out @ rest) = Some (64 * bits, x)"
proof -
  have l: "(512 * bits + 7) div 8 = 64 * bits" by simp
  have o: "v = 64 * bits" "list_all (trim_valid bits) x" "out = pack_values bits (map (trim_enc bits) x)"
    using assms(2,3) trim_i8_encode_eq [of x 9 False mx bits] assms(1) l by (auto simp: Let_def split: if_splits)
  have r: "field_decode bits (trim_dec bits) 512 out = Some (64 * bits, x)" "length out = 64 * bits"
    using trim_roundtrip [of bits x] assms(1,4,5) o l by simp_all
  then show "v = 64 * bits" "length out = 64 * bits" using o by simp_all
  show "trim_i8_decode 9 bits (out @ rest) = Some (64 * bits, x)"
    using field_decode_append [OF r(1), of rest] assms(4) by (simp add: trim_i8_decode_field)
qed

lemma trim_in:
  assumes "trim_i8_decode 9 bits buf = Some (v, x)" "v \<noteq> 0" "0 < bits" "bits \<le> 8" "64 * bits \<le> mx"
  shows "length x = 512" "v = 64 * bits" "v \<le> length buf" "trim_i8_encode False mx x 9 bits = (64 * bits, take (64 * bits) buf)"
proof -
  have fc: "field_codec bits (trim_enc bits) (trim_dec bits) (trim_valid bits :: u8 \<Rightarrow> bool)"
    using assms by (intro trim_field_codec) auto
  have l: "(512 * bits + 7) div 8 = 64 * bits" by simp
  note e = field_codec.encode_decode [OF fc, of 512 buf v x] 
  show "length x = 512" "v = 64 * bits" "v \<le> length buf" "trim_i8_encode False mx x 9 bits = (64 * bits, take (64 * bits) buf)"
    using e assms l trim_i8_encode_eq [of x 9 False mx bits] by (simp_all add: trim_i8_decode_field Let_def not_less)
qed

lemma trim_safe: "0 < bits \<Longrightarrow> bits \<le> 8 \<Longrightarrow> trim_i8_decode logn bits buf \<noteq> None"
  using field_codec.decode_safe [OF trim_field_codec [where ?'a = 8]] by (simp add: trim_i8_decode_field)

section \<open>Private keys\<close>

definition key_bytes :: "u8 list \<Rightarrow> u8 list \<Rightarrow> u8 list \<Rightarrow> u8 list \<Rightarrow> bool" where
  "key_bytes sk f g F \<longleftrightarrow> encode_private f g F = Some sk \<and> length f = 512 \<and> length g = 512 \<and> length F = 512"

lemma encode_private_parts:
  assumes "length f = 512" "length g = 512" "length F = 512"
  shows "encode_private f g F = Some sk \<longleftrightarrow> (\<exists>a b c. sk = 0x59 # a @ b @ c \<and> trim_i8_encode False 1280 f 9 6 = (384, a)
    \<and> trim_i8_encode False 896 g 9 6 = (384, b) \<and> trim_i8_encode False 512 F 9 8 = (512, c))"
proof
  assume "encode_private f g F = Some sk"
  then obtain v1 a v2 b v3 c where e: "trim_i8_encode False 1280 f 9 6 = (v1, a)" "v1 \<noteq> 0"
     "trim_i8_encode False (1280 - v1) g 9 6 = (v2, b)" "v2 \<noteq> 0"
     "trim_i8_encode False (1280 - (v1 + v2)) F 9 8 = (v3, c)" "v3 \<noteq> 0" "sk = 0x59 # a @ b @ c"
    by (auto simp: encode_private_def Let_def bits9 SECRETKEYBYTES_def split: prod.splits if_splits)
  have "v1 = 384" "v2 = 384" "v3 = 512"
    using trim_out(1) [OF assms(1) e(1,2)] trim_out(1) [OF assms(2) e(3,4)] trim_out(1) [OF assms(3) e(5,6)] by simp_all
  then show "\<exists>a b c. sk = 0x59 # a @ b @ c \<and> trim_i8_encode False 1280 f 9 6 = (384, a)
    \<and> trim_i8_encode False 896 g 9 6 = (384, b) \<and> trim_i8_encode False 512 F 9 8 = (512, c)" using e by simp
qed (auto simp: encode_private_def Let_def bits9 SECRETKEYBYTES_def)

lemma decode_private_encoded:
  assumes "key_bytes sk f g F"
  shows "decode_private sk = (let (r, G) = complete_private (replicate 512 0) f g F 9
    in if r = 0 then Some None else Some (Some (f, g, F, G)))" "length sk = 1281"
proof -
  have l: "length f = 512" "length g = 512" "length F = 512" using assms by (simp_all add: key_bytes_def)
  obtain a b c where e: "sk = 0x59 # a @ b @ c" "trim_i8_encode False 1280 f 9 6 = (384, a)"
    "trim_i8_encode False 896 g 9 6 = (384, b)" "trim_i8_encode False 512 F 9 8 = (512, c)"
    using assms encode_private_parts [OF l] by (auto simp: key_bytes_def)
  have A: "length a = 384" "trim_i8_decode 9 6 (a @ rest) = Some (384, f)"
    and B: "length b = 384" "trim_i8_decode 9 6 (b @ rest) = Some (384, g)"
    and C: "length c = 512" "trim_i8_decode 9 8 (c @ rest) = Some (512, F)" for rest
    using trim_out [OF l(1) e(2)] trim_out [OF l(2) e(3)] trim_out [OF l(3) e(4)] by simp_all
  show "length sk = 1281" using A(1) B(1) C(1) e(1) by simp
  show "decode_private sk = (let (r, G) = complete_private (replicate 512 0) f g F 9
    in if r = 0 then Some None else Some (Some (f, g, F, G)))"
    using A(1) A(2) [of "b @ c"] B(1) B(2) [of c] C(1) C(2) [of "[]"] e(1)
    by (simp add: decode_private_def bits9 SECRETKEYBYTES_def Let_def)
qed

lemma decode_private_sound:
  assumes "length sk = 1281" "decode_private sk = Some (Some (f, g, F, G))"
  shows "key_bytes sk f g F" "complete_private (replicate 512 0) f g F 9 = (r, G) \<Longrightarrow> r \<noteq> 0"
    "snd (complete_private (replicate 512 0) f g F 9) = G"
proof -
  have h: "sk ! 0 = 0x59" using assms(2) by (auto simp: decode_private_def split: if_splits)
  obtain v1 v2 v3 where d: "trim_i8_decode 9 6 (drop 1 sk) = Some (v1, f)" "v1 \<noteq> 0"
    "trim_i8_decode 9 6 (drop (1 + v1) sk) = Some (v2, g)" "v2 \<noteq> 0"
    "trim_i8_decode 9 8 (drop (1 + v1 + v2) sk) = Some (v3, F)" "v3 \<noteq> 0" "1 + v1 + v2 + v3 = 1281"
    and c: "complete_private (replicate 512 0) f g F 9 = (r, G) \<Longrightarrow> r \<noteq> 0" "snd (complete_private (replicate 512 0) f g F 9) = G"
    using assms h by (auto simp: decode_private_def bits9 SECRETKEYBYTES_def Let_def split: option.splits prod.splits if_splits)
  have v: "v1 = 384" "v2 = 384" using trim_in(2) [OF d(1,2), of 384] trim_in(2) [OF d(3,4), of 384] by simp_all
  have l: "length f = 512" "length g = 512" "length F = 512"
    using trim_in(1) [OF d(1,2), of 384] trim_in(1) [OF d(3,4), of 384] trim_in(1) [OF d(5,6), of 512] by simp_all
  have "trim_i8_encode False 1280 f 9 6 = (384, take 384 (drop 1 sk))" "trim_i8_encode False 896 g 9 6 = (384, take 384 (drop 385 sk))"
    "trim_i8_encode False 512 F 9 8 = (512, take 512 (drop 769 sk))"
    using trim_in(4) [OF d(1,2), of 1280] trim_in(4) [OF d(3,4), of 896] trim_in(4) [OF d(5,6), of 512] v by simp_all
  moreover have "sk = 0x59 # take 384 (drop 1 sk) @ take 384 (drop 385 sk) @ take 512 (drop 769 sk)"
  proof -
    have "take 384 (drop 385 sk) @ drop 769 sk = drop 385 sk" using append_take_drop_id [of 384 "drop 385 sk"] by simp
    then have "take 384 (drop 1 sk) @ take 384 (drop 385 sk) @ drop 769 sk = drop 1 sk"
      using append_take_drop_id [of 384 "drop 1 sk"] by simp
    moreover have "sk = sk ! 0 # drop 1 sk" using assms(1) by (cases sk) auto
    ultimately show ?thesis using h assms(1) by simp
  qed
  ultimately have "encode_private f g F = Some sk" unfolding encode_private_parts [OF l] by blast
  then show "key_bytes sk f g F" "complete_private (replicate 512 0) f g F 9 = (r, G) \<Longrightarrow> r \<noteq> 0"
    "snd (complete_private (replicate 512 0) f g F 9) = G" using l c by (simp_all add: key_bytes_def)
qed

lemma decode_private_safe: "decode_private sk \<noteq> None"
proof -
  have n: "(trim_i8_decode 9 6 b = None) = False" "(trim_i8_decode 9 8 b = None) = False" for b
    using trim_safe [of 6 9 b] trim_safe [of 8 9 b] by auto
  show ?thesis by (simp add: decode_private_def bits9 Let_def split_beta n split: option.split)
qed

section \<open>Public keys and signatures\<close>

lemma encode_public_canon:
  assumes "length h = 512" "encode_public h = Some pk"
  shows "canon 512 h" "length pk = 897" "pk ! 0 = 9" "modq_decode 9 (drop 1 pk) = Some (896, h)"
proof -
  obtain out where o: "modq_encode False 896 h 9 = (896, out)" "pk = 9 # out"
    using assms(2) by (auto simp: encode_public_def PUBLICKEYBYTES_def split: prod.splits if_splits)
  have v: "list_all (\<lambda>v. v < 12289) h" "out = pack_values 14 (map ucast h)"
    using o(1) modq_encode_eq [of h 9 False 896] assms(1) by (auto simp: Let_def split: if_splits)
  have "uint x < 12289" if "x \<in> set h" for x
  proof -
    have "x < 12289" using v(1) that by (simp only: list_all_iff)
    then show ?thesis by (simp add: word_less_def)
  qed
  then show "canon 512 h" using assms(1) unfolding canon_def by blast
  have "length out = 896" unfolding v(2) using modq.pack_spec(2) [OF v(1)] assms(1) by simp
  moreover have "modq_decode 9 out = Some (896, h)"
    unfolding v(2) modq_decode_field using modq.decode_encode [OF v(1)] assms(1) by simp
  ultimately show "length pk = 897" "pk ! 0 = 9" "modq_decode 9 (drop 1 pk) = Some (896, h)" using o(2) by simp_all
qed

lemma decode_public_encode:
  assumes "length pk = 897" "pk ! 0 = 9" "modq_decode 9 (drop 1 pk) = Some (896, h)"
  shows "encode_public h = Some pk" "length h = 512"
proof -
  note e = modq.encode_decode [of 512 "drop 1 pk" 896 h]
  show l: "length h = 512" using e assms(3) by (simp add: modq_decode_field)
  have "modq_encode False 896 h 9 = (896, drop 1 pk)"
    using e assms(1,3) modq_encode_eq [of h 9 False 896] l by (simp add: modq_decode_field Let_def)
  moreover have "pk = pk ! 0 # drop 1 pk" using assms(1) by (cases pk) auto
  ultimately show "encode_public h = Some pk" using assms(2) by (simp add: encode_public_def PUBLICKEYBYTES_def)
qed

text \<open>
  The check of \<^verbatim>\<open>do_verify\<close> once the message is hashed to \<open>hm\<close>, and the relation it decides: the
  public key and the signature are the canonical encodings of a polynomial \<open>h\<close> and a vector
  \<open>s2\<close>, and some \<open>s1\<close> with \<open>s1 + s2 h = hm\<close> makes \<open>(s1, s2)\<close> short.
\<close>

definition falcon_accepts :: "u16 list \<Rightarrow> u8 list \<Rightarrow> u8 list \<Rightarrow> bool" where
  "falcon_accepts hm sigbuf pk \<longleftrightarrow> (\<exists>h s2 s1. length h = 512 \<and> encode_public h = Some pk \<and> length s2 = 512
     \<and> sigbuf \<noteq> [] \<and> comp_encode False (length sigbuf) s2 9 = (length sigbuf, sigbuf)
     \<and> is_preimage 512 hm s1 s2 h \<and> (\<Sum>z\<leftarrow>s1. z * z) + (\<Sum>z\<leftarrow>s2. sint z * sint z) \<le> 34034726)"

definition verify_core :: "u16 list \<Rightarrow> u8 list \<Rightarrow> u8 list \<Rightarrow> int option" where
  "verify_core hm sigbuf pk =
     (if pk ! 0 \<noteq> 0x00 + 9 then Some (- 1)
      else
        case modq_decode 9 (take (PUBLICKEYBYTES - 1) (drop 1 pk)) of
          None \<Rightarrow> None
        | Some (v, h) \<Rightarrow>
          if v \<noteq> PUBLICKEYBYTES - 1 then Some (- 1)
          else
            let h = to_ntt_monty h 9
            in if length sigbuf = 0 then Some (- 1)
               else
                 let (v, sig) = comp_decode 9 sigbuf
                 in if v \<noteq> length sigbuf then Some (- 1)
                    else if verify_raw hm sig h 9 = 0 then Some (- 1) else Some 0)"

lemma comp_small: "comp_range s2 \<Longrightarrow> u < length s2 \<Longrightarrow> \<bar>sint (s2 ! u)\<bar> < qZ"
  by (fastforce simp: list_all_length)

lemma verify_raw_512:
  assumes "canon 512 hm" "canon 512 h" "length s2 = 512" "comp_range s2"
  shows "verify_raw hm s2 (to_ntt_monty h 9) 9 =
    (if \<exists>s1. is_preimage 512 hm s1 s2 h \<and> (\<Sum>z\<leftarrow>s1. z * z) + (\<Sum>z\<leftarrow>s2. sint z * sint z) \<le> 34034726 then 1 else 0)"
  using verify_raw_exact [of 9 hm h s2] assms comp_small [OF assms(4)] by (simp add: sqnorm_def l2bound_def)

lemma verify_core_correct:
  assumes "canon 512 hm" "length pk = 897"
  shows "verify_core hm sigbuf pk = Some (if falcon_accepts hm sigbuf pk then 0 else - 1)"
proof (cases "falcon_accepts hm sigbuf pk")
  case True
  then obtain h s2 s1 where a: "length h = 512" "encode_public h = Some pk" "length s2 = 512" "sigbuf \<noteq> []"
    "comp_encode False (length sigbuf) s2 9 = (length sigbuf, sigbuf)"
    "is_preimage 512 hm s1 s2 h" "(\<Sum>z\<leftarrow>s1. z * z) + (\<Sum>z\<leftarrow>s2. sint z * sint z) \<le> 34034726"
    unfolding falcon_accepts_def by blast
  note p = encode_public_canon [OF a(1,2)]
  have c: "comp_decode 9 sigbuf = (length sigbuf, s2)" "comp_range s2"
    using comp_decode_encode [of s2 9, OF _ a(5)] a(3,4) by simp_all
  have "verify_raw hm s2 (to_ntt_monty h 9) 9 = 1" using verify_raw_512 [OF assms(1) p(1) a(3) c(2)] a(6,7) by auto
  then show ?thesis using True p(3,4) c(1) a(4) assms(2) by (simp add: verify_core_def PUBLICKEYBYTES_def)
next
  case False
  have safe: "modq_decode 9 b \<noteq> None" for b using modq.decode_safe by (simp add: modq_decode_field)
  have "verify_core hm sigbuf pk = Some (- 1)"
  proof (rule ccontr)
    assume "verify_core hm sigbuf pk \<noteq> Some (- 1)"
    then obtain h s2 where v: "pk ! 0 = 9" "modq_decode 9 (drop 1 pk) = Some (896, h)" "sigbuf \<noteq> []"
      "comp_decode 9 sigbuf = (length sigbuf, s2)" "verify_raw hm s2 (to_ntt_monty h 9) 9 \<noteq> 0"
      using assms(2) safe [of "drop 1 pk"]
      by (auto simp: verify_core_def PUBLICKEYBYTES_def split: if_splits prod.splits)
    note p = decode_public_encode [OF assms(2) v(1,2)]
    note q = encode_public_canon(1) [OF p(2,1)]
    have c: "length s2 = 512" "comp_range s2" "comp_encode False (length sigbuf) s2 9 = (length sigbuf, sigbuf)"
      using comp_decode_canonical [OF v(4)] comp_encode_decode [OF v(4) _ order_refl] v(3) by simp_all
    obtain s1 where "is_preimage 512 hm s1 s2 h" "(\<Sum>z\<leftarrow>s1. z * z) + (\<Sum>z\<leftarrow>s2. sint z * sint z) \<le> 34034726"
      using v(5) verify_raw_512 [OF assms(1) q c(1,2)] by (auto split: if_splits)
    then show False using False p c v(3) unfolding falcon_accepts_def by blast
  qed
  then show ?thesis using False by simp
qed

section \<open>The signing loop\<close>

lemma sign_loop_encoded:
  assumes "sign_loop sign_dyn mx key hm sc = Some out"
  shows "\<exists>sc' v. comp_encode False mx (snd (sign_dyn sc' key hm)) 9 = (v, out) \<and> v \<noteq> 0"
proof (rule sign_loop.raw_induct [OF _ assms, of "\<lambda>sign_dyn mx key hm sc out.
    \<exists>sc' v. comp_encode False mx (snd (sign_dyn sc' key hm)) 9 = (v, out) \<and> v \<noteq> 0"], goal_cases)
  case (1 loop sign_dyn mx key hm sc out)
  obtain sc1 sig where s: "sign_dyn sc key hm = (sc1, sig)" by fastforce
  obtain v o1 where e: "comp_encode False mx sig 9 = (v, o1)" by fastforce
  show ?case
  proof (cases "v = 0")
    case True
    then show ?thesis using 1(1) [of sign_dyn mx key hm sc1 out] 1(2) s e by simp
  next
    case False
    then show ?thesis using 1(2) s e by (intro exI [of _ sc] exI [of _ v]) simp
  qed
qed

lemma sign_loop_result:
  assumes "sign_loop sign_dyn mx key hm sc = Some out" "\<And>sc. length (snd (sign_dyn sc key hm)) = 512"
  shows "\<exists>sc'. comp_encode False (length out) (snd (sign_dyn sc' key hm)) 9 = (length out, out) \<and> out \<noteq> [] \<and> length out \<le> mx"
proof -
  obtain sc' v where e: "comp_encode False mx (snd (sign_dyn sc' key hm)) 9 = (v, out)" "v \<noteq> 0"
    using sign_loop_encoded [OF assms(1)] by blast
  note d = comp_decode_encode [of _ 9, OF _ e, simplified, OF assms(2)]
  have "comp_encode False (length out) (snd (sign_dyn sc' key hm)) 9 = (v, take v out)"
    using comp_encode_decode [OF d(1) e(2), of "length out"] d(2) by simp
  then show ?thesis using d(2,3) e(2) by auto
qed

lemma sign_loop_returns:
  assumes "sign_dyn sc key hm = (sc1, sig)" "fst (comp_encode False mx sig 9) \<noteq> 0"
  shows "sign_loop sign_dyn mx key hm sc = Some (snd (comp_encode False mx sig 9))"
  using assms by (subst sign_loop.simps) (simp add: split_beta Let_def)

text \<open>The loop is the retry loop of one attempt, so it returns the encoding of the first candidate that fits.\<close>

definition sign_attempt ::
  "sign_dyn_fun \<Rightarrow> nat \<Rightarrow> u8 list \<times> u8 list \<times> u8 list \<times> u8 list \<Rightarrow> u16 list \<Rightarrow> u64 list \<Rightarrow> u8 list option" where
  "sign_attempt sign_dyn mx key hm sc =
     (case comp_encode False mx (snd (sign_dyn sc key hm)) 9 of (v, out) \<Rightarrow> if v \<noteq> 0 then Some out else None)"

definition sign_contexts ::
  "sign_dyn_fun \<Rightarrow> u8 list \<times> u8 list \<times> u8 list \<times> u8 list \<Rightarrow> u16 list \<Rightarrow> u64 list \<Rightarrow> nat \<Rightarrow> u64 list" where
  "sign_contexts sign_dyn key hm sc k = ((\<lambda>sc. fst (sign_dyn sc key hm)) ^^ k) sc"

lemma sign_contexts_Suc: "sign_contexts sign_dyn key hm sc (Suc k) = sign_contexts sign_dyn key hm (fst (sign_dyn sc key hm)) k"
  using funpow_swap1 [of "\<lambda>sc. fst (sign_dyn sc key hm)" k sc] by (simp add: sign_contexts_def)

lemma sign_loop_unfold:
  "sign_loop sign_dyn mx key hm sc =
    (case sign_attempt sign_dyn mx key hm sc of None \<Rightarrow> sign_loop sign_dyn mx key hm (fst (sign_dyn sc key hm)) | Some out \<Rightarrow> Some out)"
  by (subst sign_loop.simps) (simp add: sign_attempt_def split_beta Let_def)

lemma sign_loop_first:
  assumes "\<And>j. j < k \<Longrightarrow> sign_attempt sign_dyn mx key hm (sign_contexts sign_dyn key hm sc j) = None"
    and "sign_attempt sign_dyn mx key hm (sign_contexts sign_dyn key hm sc k) = Some out"
  shows "sign_loop sign_dyn mx key hm sc = Some out"
  using assms
proof (induction k arbitrary: sc)
  case 0
  then show ?case by (subst sign_loop_unfold) (simp add: sign_contexts_def)
next
  case (Suc k)
  have "sign_attempt sign_dyn mx key hm sc = None" using Suc.prems(1) [of 0] by (simp add: sign_contexts_def)
  moreover have "sign_loop sign_dyn mx key hm (fst (sign_dyn sc key hm)) = Some out"
    using Suc.prems(1) [of "Suc _"] Suc.prems(2) by (intro Suc.IH) (simp_all add: sign_contexts_Suc)
  ultimately show ?case by (subst sign_loop_unfold) simp
qed

lemma sign_loop_attempts:
  assumes "sign_loop sign_dyn mx key hm sc = Some out"
  shows "\<exists>k. sign_attempt sign_dyn mx key hm (sign_contexts sign_dyn key hm sc k) \<noteq> None"
proof (rule sign_loop.raw_induct [OF _ assms, of "\<lambda>sign_dyn mx key hm sc out.
    \<exists>k. sign_attempt sign_dyn mx key hm (sign_contexts sign_dyn key hm sc k) \<noteq> None"], goal_cases)
  case (1 loop sign_dyn mx key hm sc out)
  show ?case
  proof (cases "sign_attempt sign_dyn mx key hm sc")
    case None
    then have "loop sign_dyn mx key hm (fst (sign_dyn sc key hm)) = Some out"
      using 1(2) by (simp add: sign_attempt_def split_beta Let_def split: if_splits)
    then obtain k where "sign_attempt sign_dyn mx key hm (sign_contexts sign_dyn key hm (fst (sign_dyn sc key hm)) k) \<noteq> None"
      using 1(1) by blast
    then show ?thesis unfolding sign_contexts_Suc [symmetric] by blast
  next
    case (Some out)
    then show ?thesis by (intro exI [of _ 0]) (simp add: sign_contexts_def)
  qed
qed

text \<open>
  (C22) The signing loop of do_sign, which has no bound on its iterations, returns exactly when some candidate of the
  sampler has an encoding that fits, and then it returns the encoding of the first such candidate.
\<close>

theorem sign_loop_terminates:
  "sign_loop sign_dyn mx key hm sc = Some out \<longleftrightarrow>
    (\<exists>k. sign_attempt sign_dyn mx key hm (sign_contexts sign_dyn key hm sc k) = Some out
      \<and> (\<forall>j<k. sign_attempt sign_dyn mx key hm (sign_contexts sign_dyn key hm sc j) = None))"
proof
  assume l: "sign_loop sign_dyn mx key hm sc = Some out"
  let ?t = "\<lambda>k. sign_attempt sign_dyn mx key hm (sign_contexts sign_dyn key hm sc k)"
  define k where "k = (LEAST k. ?t k \<noteq> None)"
  have k: "?t k \<noteq> None" "\<And>j. j < k \<Longrightarrow> ?t j = None"
    unfolding k_def using LeastI_ex [OF sign_loop_attempts [OF l]] not_less_Least by blast+
  then obtain out' where o: "?t k = Some out'" by auto
  then have "sign_loop sign_dyn mx key hm sc = Some out'" using k(2) by (intro sign_loop_first)
  then show "\<exists>k. ?t k = Some out \<and> (\<forall>j<k. ?t j = None)" using l o k(2) by (intro exI [of _ k]) simp
next
  show "\<exists>k. sign_attempt sign_dyn mx key hm (sign_contexts sign_dyn key hm sc k) = Some out
      \<and> (\<forall>j<k. sign_attempt sign_dyn mx key hm (sign_contexts sign_dyn key hm sc j) = None) \<Longrightarrow> sign_loop sign_dyn mx key hm sc = Some out"
    using sign_loop_first by blast
qed

section \<open>A scheme over a message hash\<close>

text \<open>
  What falcon.c and pqclean.c share, over the hash of a nonce and a message: \<open>do_sign\<close> and \<open>do_verify\<close>
  are the loop and the check above on the hashed message.
\<close>

definition sign_core ::
  "(u8 list \<Rightarrow> u8 list \<Rightarrow> u16 list) \<Rightarrow> sign_dyn_fun \<Rightarrow> nat \<Rightarrow> u8 list \<Rightarrow> u8 list \<Rightarrow> u8 list \<Rightarrow>
    ((u8 list \<times> u8 list) option \<times> u8 list) option" where
  "sign_core hash sign_dyn sigbuflen m sk tape =
     (case decode_private sk of
        None \<Rightarrow> None
      | Some None \<Rightarrow> Some (None, tape)
      | Some (Some key) \<Rightarrow>
          (case sign_loop sign_dyn sigbuflen key (hash (take 40 tape) m) (seeded_rng (take 48 (drop 40 tape))) of
             None \<Rightarrow> None
           | Some sigbuf \<Rightarrow> Some (Some (take 40 tape, sigbuf), drop 88 tape)))"

text \<open>
  The contract of the sampler, as inner.h documents it for \<^verbatim>\<open>sign_dyn\<close>: it returns the second half of
  a short preimage of the hashed message under the key.
\<close>

definition short_preimages :: "sign_dyn_fun \<Rightarrow> u8 list \<times> u8 list \<times> u8 list \<times> u8 list \<Rightarrow> u16 list \<Rightarrow> u16 list \<Rightarrow> bool" where
  "short_preimages sign_dyn key h hm \<longleftrightarrow> (\<forall>sc. let s2 = snd (sign_dyn sc key hm) in length s2 = 512 \<and>
     (\<exists>s1. is_preimage 512 hm s1 s2 h \<and> (\<Sum>z\<leftarrow>s1. z * z) + (\<Sum>z\<leftarrow>s2. sint z * sint z) \<le> 34034726))"

locale falcon_scheme =
  fixes hash :: "u8 list \<Rightarrow> u8 list \<Rightarrow> u16 list"
    and hashes :: "u8 list \<Rightarrow> u8 list \<Rightarrow> bool"
    and do_sign :: "sign_dyn_fun \<Rightarrow> nat \<Rightarrow> u8 list \<Rightarrow> u8 list \<Rightarrow> u8 list \<Rightarrow> ((u8 list \<times> u8 list) option \<times> u8 list) option"
    and do_verify :: "u8 list \<Rightarrow> u8 list \<Rightarrow> u8 list \<Rightarrow> u8 list \<Rightarrow> int option"
  assumes hash_canon: "hashes nonce m \<Longrightarrow> canon 512 (hash nonce m)"
    and do_sign_core: "do_sign sign_dyn sigbuflen m sk tape = sign_core hash sign_dyn sigbuflen m sk tape"
    and do_verify_core: "do_verify nonce sigbuf m pk = verify_core (hash nonce m) sigbuf pk"
begin

lemma verify_decides:
  "hashes nonce m \<Longrightarrow> length pk = 897 \<Longrightarrow>
   do_verify nonce sigbuf m pk = Some (if falcon_accepts (hash nonce m) sigbuf pk then 0 else - 1)"
  by (simp add: do_verify_core verify_core_correct hash_canon)

lemma signature_accepted:
  assumes "do_sign sign_dyn mx m sk tape = Some (Some (nonce, sigbuf), tape')"
    and "decode_private sk = Some (Some key)" "length h = 512" "encode_public h = Some pk"
    and "hashes nonce m" "short_preimages sign_dyn key h (hash nonce m)" "40 \<le> length tape"
  shows "do_verify nonce sigbuf m pk = Some 0" "length nonce = 40" "length sigbuf \<le> mx" "nonce = take 40 tape"
proof -
  obtain l: "sign_loop sign_dyn mx key (hash nonce m) (seeded_rng (take 48 (drop 40 tape))) = Some sigbuf"
    and n: "nonce = take 40 tape"
    using assms(1,2) by (auto simp: do_sign_core sign_core_def split: option.splits)
  have len: "\<And>sc. length (snd (sign_dyn sc key (hash nonce m))) = 512"
    using assms(6) by (auto simp: short_preimages_def Let_def)
  obtain sc' where e: "comp_encode False (length sigbuf) (snd (sign_dyn sc' key (hash nonce m))) 9 = (length sigbuf, sigbuf)"
    "sigbuf \<noteq> []" "length sigbuf \<le> mx" using sign_loop_result [OF l len] by blast
  have "falcon_accepts (hash nonce m) sigbuf pk"
    using assms(3,4,6) e(1,2) len [of sc'] unfolding falcon_accepts_def short_preimages_def Let_def by blast
  then show "do_verify nonce sigbuf m pk = Some 0"
    using verify_decides [OF assms(5)] encode_public_canon(2) [OF assms(3,4)] by simp
  show "length nonce = 40" "length sigbuf \<le> mx" "nonce = take 40 tape" using n e(3) assms(7) by simp_all
qed

end

section \<open>Key pairs\<close>

lemma trim_ok:
  assumes "length x = 512" "64 * bits \<le> mx" "0 < bits" "bits \<le> 8"
  shows "\<exists>out. trim_i8_encode False mx x 9 bits = (if list_all (trim_valid bits) x then 64 * bits else 0, out)"
  using trim_i8_encode_eq [of x 9 False mx bits] assms by (auto simp: Let_def)

lemma encode_private_iff:
  assumes "length f = 512" "length g = 512" "length F = 512"
  shows "(\<exists>sk. encode_private f g F = Some sk) \<longleftrightarrow>
    list_all (trim_valid 6) f \<and> list_all (trim_valid 6) g \<and> list_all (trim_valid 8) F"
proof -
  obtain a b c where "trim_i8_encode False 1280 f 9 6 = (if list_all (trim_valid 6) f then 384 else 0, a)"
    "trim_i8_encode False 896 g 9 6 = (if list_all (trim_valid 6) g then 384 else 0, b)"
    "trim_i8_encode False 512 F 9 8 = (if list_all (trim_valid 8) F then 512 else 0, c)"
    using trim_ok [OF assms(1), of 6 1280] trim_ok [OF assms(2), of 6 896] trim_ok [OF assms(3), of 8 512] by auto
  then show ?thesis unfolding encode_private_parts [OF assms] by (auto split: if_splits)
qed

lemma encode_public_iff: "length h = 512 \<Longrightarrow> (\<exists>pk. encode_public h = Some pk) \<longleftrightarrow> list_all (\<lambda>v. v < 12289) h"
  using modq_encode_eq [of h 9 False 896] by (auto simp: encode_public_def PUBLICKEYBYTES_def Let_def)

section \<open>Concrete keys\<close>

text \<open>
  The key \<open>f = 1\<close>, \<open>g = F = 0\<close> and, for a public key \<open>h\<close> equal to the hashed message, the signature
  vector \<open>s2 = 1\<close>, which make the hypotheses of the properties concrete.
\<close>

definition one_poly :: "'a::len word list" where
  "one_poly = 1 # replicate 511 0"

lemma sz_one:
  "k < 512 \<Longrightarrow> sz (one_poly :: u8 list) k = (if k = 0 then 1 else 0)"
  "k < 512 \<Longrightarrow> sz (one_poly :: u16 list) k = (if k = 0 then 1 else 0)"
  by (cases k; simp add: one_poly_def)+

lemma negacyclic_unit:
  assumes "\<And>i. i < n \<Longrightarrow> u i = (if i = 0 then 1 else 0)" "k < n"
  shows "negacyclic n u g k = g k" "negacyclic n g u k = g k"
proof -
  have "negacyclic n u g k = (\<Sum>i<n. if i = 0 then g k else 0)"
    unfolding negacyclic_def using assms(1) by (intro sum.cong) auto
  then show "negacyclic n u g k = g k" using assms(2) by simp
  have "negacyclic n g u k = (\<Sum>i<n. if i = k then g k else 0)"
    unfolding negacyclic_def using assms by (intro sum.cong) auto
  then show "negacyclic n g u k = g k" using assms(2) by simp
qed

lemma one_key:
  obtains sk G where "length sk = 1281" "decode_private sk = Some (Some (one_poly, replicate 512 0, replicate 512 0, G))"
proof -
  let ?z = "replicate 512 0 :: u8 list"
  have "list_all (trim_valid 6) (one_poly :: u8 list)" "list_all (trim_valid 6) ?z" "list_all (trim_valid 8) ?z"
    by (simp_all add: one_poly_def trim_valid_def list_all_iff)
  then obtain sk where sk: "key_bytes sk one_poly ?z ?z"
    using encode_private_iff [of one_poly ?z ?z] by (auto simp: key_bytes_def one_poly_def)
  have u: "invertible (2 ^ 9) (sz (one_poly :: u8 list))"
    unfolding invertible_def
  proof (intro exI allI impI)
    show "negacyclic (2 ^ 9) (\<lambda>k. if k = 0 then 1 else 0) (sz (one_poly :: u8 list)) k = (if k = 0 then 1 else 0)" if "k < 2 ^ 9" for k
      using negacyclic_unit(2) [OF sz_one(1)] that by simp
  qed
  obtain r G where c: "complete_private ?z one_poly ?z ?z 9 = (r, G)" by fastforce
  have "negacyclic 512 (\<lambda>i. of_int 0) (sz (one_poly :: u8 list)) k = negacyclic 512 (sz ?z) (sz ?z) k" if "k < 512" for k
    using that by (simp add: negacyclic_def)
  then have "\<exists>v. \<forall>k<2 ^ 9. \<bar>v k\<bar> \<le> 127 \<and> negacyclic (2 ^ 9) (\<lambda>i. of_int (v i)) (sz (one_poly :: u8 list)) k = negacyclic (2 ^ 9) (sz ?z) (sz ?z) k"
    by (intro exI [of _ "\<lambda>_. 0"]) simp
  then have "r = 1" using complete_private_exact(1) [OF _ _ _ _ _ u c] by (simp add: one_poly_def)
  then show ?thesis using that decode_private_encoded [OF sk] c by simp
qed

lemma one_signature:
  assumes "canon 512 h"
  shows "is_preimage 512 h (replicate 512 0) one_poly h \<and> (\<Sum>z\<leftarrow>replicate 512 (0 :: int). z * z) + (\<Sum>z\<leftarrow>(one_poly :: u16 list). sint z * sint z) \<le> 34034726"
proof -
  have "negacyclic 512 (sz (one_poly :: u16 list)) (\<lambda>i. zq (h ! i)) k = zq (h ! k)" if "k < 512" for k
    using negacyclic_unit(1) [OF sz_one(2) that] by simp
  then show ?thesis by (simp add: is_preimage_def one_poly_def sum_list_replicate)
qed

lemma canon_public: "canon 512 h \<Longrightarrow> \<exists>pk. encode_public h = Some pk"
  using encode_public_iff [of h] unfolding canon_def list_all_iff by (auto simp: word_less_def)

lemma one_encoding: "fst (comp_encode False 623 (one_poly :: u16 list) 9) \<noteq> 0"
proof -
  have l: "length (one_poly :: u16 list) = 2 ^ 9" by (simp add: one_poly_def)
  have "comp_range (one_poly :: u16 list)" "(length (comp_string (one_poly :: u16 list)) + 7) div 8 = 576"
    by (simp_all add: one_poly_def list_all_iff comp_bits_def length_concat nat_bits_def sum_list_replicate)
  then obtain out where "comp_encode False 623 (one_poly :: u16 list) 9 = (576, out)"
    using comp_encode_ok [OF l, of 623] by auto
  then show ?thesis by simp
qed

lemma one_sign_loop:
  assumes "\<And>sc. sign_dyn sc key hm = (sc, one_poly)"
  shows "sign_loop sign_dyn 623 key hm sc = Some (snd (comp_encode False 623 one_poly 9))"
  by (rule sign_loop_returns [of sign_dyn, OF assms one_encoding])

theorem sign_loop_terminates_witness:
  "sign_loop (\<lambda>sc key hm. (sc, one_poly)) 623 ([], [], [], []) [] [] = Some (snd (comp_encode False 623 one_poly 9))"
  unfolding sign_loop_terminates
  using one_encoding by (intro exI [of _ 0]) (simp add: sign_attempt_def sign_contexts_def split_beta)

end
