(* ===== verification/Compaction.thy ===== *)
theory Compaction
  imports Prelude
begin

text \<open>
  The compaction passes of \<^verbatim>\<open>hash_to_point_ct\<close> in common.c: samples are written to three arrays,
  \<^verbatim>\<open>x\<close>, \<^verbatim>\<open>tt1\<close> and \<^verbatim>\<open>tt2\<close>, rejected ones as 0xFFFF, and a logarithmic number of passes moves the
  valid samples down without branching on their values.
\<close>

section \<open>Model\<close>

type_synonym ct_bufs = "u16 list \<times> u16 list \<times> u16 list"

definition slot :: "nat \<Rightarrow> ct_bufs \<Rightarrow> nat \<Rightarrow> u16" where
  "slot n bufs u =
     (case bufs of (x, tt1, tt2) \<Rightarrow>
        if u < n then x ! u else if u < 2 * n then tt1 ! (u - n) else tt2 ! (u - 2 * n))"

definition set_slot :: "nat \<Rightarrow> nat \<Rightarrow> u16 \<Rightarrow> ct_bufs \<Rightarrow> ct_bufs" where
  "set_slot n u w bufs =
     (case bufs of (x, tt1, tt2) \<Rightarrow>
        if u < n then (x[u := w], tt1, tt2)
        else if u < 2 * n then (x, tt1[u - n := w], tt2)
        else (x, tt1, tt2[u - 2 * n := w]))"

definition ct_step :: "nat \<Rightarrow> nat \<Rightarrow> nat \<Rightarrow> u32 \<times> ct_bufs \<Rightarrow> u32 \<times> ct_bufs" where
  "ct_step n p u st =
     (let (v, bufs) = st;
          sv = ucast (slot n bufs u) :: u32;
          j = of_nat u - v;
          mk = drop_bit 15 sv - 1;
          v = v - mk
      in if u < p then (v, bufs)
         else
           let dv = ucast (slot n bufs (u - p));
               mk = mk AND - drop_bit 9 ((j AND of_nat p) + 0x1FF);
               bufs = set_slot n u (ucast (sv XOR (mk AND (sv XOR dv)))) bufs;
               bufs = set_slot n (u - p) (ucast (dv XOR (mk AND (sv XOR dv)))) bufs
           in (v, bufs))"

definition ct_pass :: "nat \<Rightarrow> nat \<Rightarrow> nat \<Rightarrow> ct_bufs \<Rightarrow> ct_bufs" where
  "ct_pass n m p bufs = snd (fold (ct_step n p) [0..<m] (0, bufs))"

function ct_passes :: "nat \<Rightarrow> nat \<Rightarrow> nat \<Rightarrow> nat \<Rightarrow> ct_bufs \<Rightarrow> ct_bufs" where
  "ct_passes n m over p bufs =
     (if p = 0 \<or> over < p then bufs else ct_passes n m over (2 * p) (ct_pass n m p bufs))"
  by pat_completeness auto
termination
  by (relation "measure (\<lambda>(n, m, over, p, bufs). Suc over - p)") auto

declare ct_passes.simps [simp del]

section \<open>The three arrays as one\<close>

definition flat :: "ct_bufs \<Rightarrow> u16 list" where
  "flat bufs = (case bufs of (x, tt1, tt2) \<Rightarrow> x @ tt1 @ tt2)"

definition shaped :: "nat \<Rightarrow> ct_bufs \<Rightarrow> bool" where
  "shaped n bufs \<longleftrightarrow> length (fst bufs) = n \<and> length (fst (snd bufs)) = n"

lemma slot_flat: "shaped n bufs \<Longrightarrow> slot n bufs u = flat bufs ! u"
  by (cases bufs) (auto simp: slot_def flat_def shaped_def nth_append mult_2)

lemma flat_set_slot: "shaped n bufs \<Longrightarrow> flat (set_slot n u w bufs) = (flat bufs)[u := w]"
  by (cases bufs) (auto simp: set_slot_def flat_def shaped_def list_update_append mult_2)

lemma shaped_set_slot: "shaped n bufs \<Longrightarrow> shaped n (set_slot n u w bufs)"
  by (cases bufs) (simp add: set_slot_def shaped_def)

lemma ct_step_shaped: "shaped n (snd st) \<Longrightarrow> shaped n (snd (ct_step n p u st))"
  by (cases st) (simp add: ct_step_def shaped_set_slot Let_def)

section \<open>One step\<close>

lemma and_pow2: "(j :: u32) AND of_nat (2 ^ k) = (if bit j k then 2 ^ k else 0)"
  by (rule bit_word_eqI) (auto simp: bit_and_iff bit_exp_iff)

lemma move_mask:
  assumes "k \<le> 8"
  shows "- drop_bit 9 (((j :: u32) AND of_nat (2 ^ k)) + 0x1FF) = (if bit j k then - 1 else 0)"
proof -
  have "k \<in> {0, 1, 2, 3, 4, 5, 6, 7, 8}" using assms by auto
  then have "drop_bit 9 (2 ^ k + 0x1FF :: u32) = 1" by (auto simp: drop_bit_eq_div)
  then show ?thesis unfolding and_pow2 by simp
qed

lemma valid_mask: "unat w < 2 ^ 15 \<Longrightarrow> drop_bit 15 (ucast w :: u32) = 0" for w :: u16
  by (simp add: word_unat_eq_iff unat_shr unat_ucast_mod)

lemma ucast_up_down: "ucast (ucast (a :: u16) :: u32) = a"
  using unsigned_less [of a, where ?'a = nat] by (simp add: word_unat_eq_iff unat_ucast_mod)

lemma xor_back: "(a XOR b) XOR a = b" for a b :: u32
  by (simp add: xor.commute [of a] xor.assoc)

lemma step_valid:
  assumes "shaped n bufs" "unat (flat bufs ! u) < 2 ^ 15" "k \<le> 8"
  shows "fst (ct_step n (2 ^ k) u (v, bufs)) = v + 1 \<and>
    flat (snd (ct_step n (2 ^ k) u (v, bufs))) =
      (if u < 2 ^ k \<or> \<not> bit (of_nat u - v) k then flat bufs
       else (flat bufs)[u := flat bufs ! (u - 2 ^ k), u - 2 ^ k := flat bufs ! u])"
  using assms(1) valid_mask [OF assms(2)]
  by (simp add: ct_step_def slot_flat flat_set_slot shaped_set_slot move_mask [OF assms(3), simplified]
      xor.assoc [symmetric] xor_back ucast_up_down Let_def)

lemma step_invalid:
  assumes "shaped n bufs" "flat bufs ! u = 0xFFFF"
  shows "fst (ct_step n p u (v, bufs)) = v \<and> flat (snd (ct_step n p u (v, bufs))) = flat bufs"
proof -
  have "drop_bit 15 (ucast (flat bufs ! u) :: u32) - 1 = 0" by (simp add: assms(2))
  then show ?thesis using assms(1)
    by (simp add: ct_step_def slot_flat flat_set_slot shaped_set_slot ucast_up_down Let_def)
qed

section \<open>One pass\<close>

text \<open>
  The valid samples \<open>e\<close> sit at increasing positions \<open>f\<close>; every other slot is 0xFFFF. Sample \<open>i\<close> starts
  at position \<open>i + d i\<close> and has to move down by \<open>d i\<close>; after the passes for 1, 2, \<dots>, \<open>2 ^ (k - 1)\<close> the low
  \<open>k\<close> bits of that distance have been travelled.
\<close>

definition laid_out :: "nat \<Rightarrow> u16 list \<Rightarrow> u16 list \<Rightarrow> (nat \<Rightarrow> nat) \<Rightarrow> bool" where
  "laid_out m L e f \<longleftrightarrow> m \<le> length L \<and> (\<forall>i < length e. f i < m \<and> L ! f i = e ! i) \<and>
     (\<forall>q < m. (\<forall>i < length e. f i \<noteq> q) \<longrightarrow> L ! q = 0xFFFF)"

definition place :: "(nat \<Rightarrow> nat) \<Rightarrow> nat \<Rightarrow> nat \<Rightarrow> nat" where
  "place d k i = i + 2 ^ k * (d i div 2 ^ k)"

lemma place_mono:
  assumes "mono_on {..<t} d" "i < j" "j < t"
  shows "place d k i < place d k j"
proof -
  have "d i \<le> d j" using assms by (intro mono_onD [OF assms(1)]) auto
  then show ?thesis using assms(2) by (simp add: place_def add_less_le_mono div_le_mono)
qed

lemma place_inj: "mono_on {..<t} d \<Longrightarrow> i < t \<Longrightarrow> j < t \<Longrightarrow> place d k i = place d k j \<longleftrightarrow> i = j"
  using place_mono [of t d i j k] place_mono [of t d j i k] by (metis less_irrefl linorder_less_linear)

lemma place_Suc:
  "place d k i = place d (Suc k) i + (if odd (d i div 2 ^ k) then 2 ^ k else 0)"
proof -
  have "d i div 2 ^ Suc k = d i div 2 ^ k div 2" by (metis div_mult2_eq power_Suc2)
  then show ?thesis by (cases "odd (d i div 2 ^ k)") (auto simp: place_def elim: oddE evenE)
qed

lemma place_le: "place d (Suc k) i \<le> place d k i"
  using place_Suc [of d k i] by simp

lemma bit_jump:
  assumes "k < 32" "place d k i < 2 ^ 32"
  shows "bit (of_nat (place d k i) - of_nat i :: u32) k \<longleftrightarrow> odd (d i div 2 ^ k)"
proof -
  have "of_nat (place d k i) - of_nat i = (of_nat (2 ^ k * (d i div 2 ^ k)) :: u32)" by (simp add: place_def)
  moreover have "bit (of_nat (2 ^ k * (d i div 2 ^ k)) :: u32) k \<longleftrightarrow> bit (2 ^ k * (d i div 2 ^ k)) k"
    using assms(1) by (simp add: bit_of_nat_iff del: of_nat_mult)
  ultimately show ?thesis by (simp add: bit_iff_odd)
qed

lemma laid_out_lookup:
  assumes "laid_out m L e f" "i < length e"
  shows "f i < m" "m \<le> length L" "L ! f i = e ! i"
  using assms by (simp_all add: laid_out_def)

lemma laid_out_empty:
  assumes "laid_out m L e f" "q < m" "\<And>i. i < length e \<Longrightarrow> f i \<noteq> q"
  shows "L ! q = 0xFFFF"
  using assms by (simp add: laid_out_def)

lemma laid_out_move:
  assumes L: "laid_out m L e f" and i: "i < length e" and q: "q < m" "\<And>j. j < length e \<Longrightarrow> f j \<noteq> q"
    and inj: "\<And>j. j < length e \<Longrightarrow> f j = f i \<Longrightarrow> j = i"
  shows "laid_out m (L[f i := L ! q, q := L ! f i]) e (f(i := q))"
  unfolding laid_out_def
proof (intro conjI allI impI)
  show ml: "m \<le> length (L[f i := L ! q, q := L ! f i])" using L by (simp add: laid_out_def)
  fix j assume j: "j < length e"
  show "(f(i := q)) j < m" using laid_out_lookup [OF L j] q(1) by simp
  show "L[f i := L ! q, q := L ! f i] ! (f(i := q)) j = e ! j"
  proof (cases "j = i")
    case True
    then show ?thesis using laid_out_lookup [OF L i] q(1) by simp
  next
    case False
    then have "f i \<noteq> f j" "q \<noteq> f j" using inj [OF j] q(2) [OF j] by auto
    then show ?thesis using False laid_out_lookup [OF L j] by simp
  qed
next
  fix r assume r: "r < m" "\<forall>j < length e. (f(i := q)) j \<noteq> r"
  then have "r \<noteq> q" using i by auto
  moreover have "L ! r = 0xFFFF" if "r \<noteq> f i" using that r by (intro laid_out_empty [OF L]) (auto split: if_splits)
  moreover have "L ! q = 0xFFFF" using q by (intro laid_out_empty [OF L]) auto
  ultimately show "L[f i := L ! q, q := L ! f i] ! r = 0xFFFF" using r(1) L by (cases "r = f i") (simp_all add: laid_out_def)
qed

lemma laid_out_cong: "laid_out m L e f \<Longrightarrow> (\<And>i. i < length e \<Longrightarrow> f i = g i) \<Longrightarrow> laid_out m L e g"
  by (simp add: laid_out_def)

definition pass_inv :: "nat \<Rightarrow> u16 list \<Rightarrow> (nat \<Rightarrow> nat) \<Rightarrow> nat \<Rightarrow> nat \<Rightarrow> nat \<Rightarrow> nat \<Rightarrow> u32 \<times> ct_bufs \<Rightarrow> bool" where
  "pass_inv n e d k m u i st \<longleftrightarrow> shaped n (snd st) \<and> fst st = of_nat i \<and> i \<le> length e \<and>
     (\<forall>j < i. place d k j < u) \<and> (\<forall>j. i \<le> j \<longrightarrow> j < length e \<longrightarrow> u \<le> place d k j) \<and>
     laid_out m (flat (snd st)) e (\<lambda>j. if j < i then place d (Suc k) j else place d k j)"

lemma pass_step:
  assumes inv: "pass_inv n e d k m u i st" and mono: "mono_on {..<length e} d" and k: "k \<le> 8"
    and u: "u < m" "m < 2 ^ 32" and e: "\<And>w. w \<in> set e \<Longrightarrow> unat w < 2 ^ 15"
  shows "\<exists>i'. pass_inv n e d k m (Suc u) i' (ct_step n (2 ^ k) u st)"
proof -
  obtain v bufs where st: "st = (v, bufs)" by (cases st)
  let ?L = "flat bufs" and ?f = "\<lambda>j. if j < i then place d (Suc k) j else place d k j"
  note I = inv [unfolded pass_inv_def st fst_conv snd_conv]
  have sh: "shaped n bufs" and v: "v = of_nat i" and le: "i \<le> length e"
    and lay: "laid_out m ?L e ?f" using I by simp_all
  have low: "place d (Suc k) j < u" if "j < i" for j using I that place_le [of d k j] by (meson le_less_trans)
  have sh': "shaped n (snd (ct_step n (2 ^ k) u st))" using ct_step_shaped [of n st] sh st by simp
  show ?thesis
  proof (cases "i < length e \<and> place d k i = u")
    case True
    have Lu: "?L ! u = e ! i" using laid_out_lookup(3) [OF lay, of i] True by simp
    then have "unat (?L ! u) < 2 ^ 15" using e True by simp
    note sv = step_valid [OF sh this k, of v]
    have b: "bit (of_nat u - v) k \<longleftrightarrow> odd (d i div 2 ^ k)" using bit_jump [of k d i] True k u v by auto
    have low': "\<forall>j < Suc i. place d k j < Suc u" using I True by (auto simp: less_Suc_eq)
    have high': "Suc u \<le> place d k j" if "Suc i \<le> j" "j < length e" for j
      using place_mono [OF mono, of i j k] that True by simp
    have "laid_out m (flat (snd (ct_step n (2 ^ k) u st))) e (\<lambda>j. if j < Suc i then place d (Suc k) j else place d k j)"
    proof (cases "odd (d i div 2 ^ k)")
      case odd: True
      have pl: "place d (Suc k) i = u - 2 ^ k" "2 ^ k \<le> u" using place_Suc [of d k i] True odd by simp_all
      have "0 < u" using pl(2) by (metis gr0I le_zero_eq power_not_zero zero_neq_numeral)
      then have lt: "u - 2 ^ k < u" by simp
      have free: "?f j \<noteq> u - 2 ^ k" if "j < length e" for j
        using place_inj [OF mono that, of i "Suc k"] place_mono [OF mono, of i j k] that True pl lt
        by (cases "j < i") (auto simp: not_less le_less)
      have "laid_out m (?L[?f i := ?L ! (u - 2 ^ k), u - 2 ^ k := ?L ! ?f i]) e (?f(i := u - 2 ^ k))"
      proof (rule laid_out_move [OF lay _ _ free])
        fix j assume "j < length e" "?f j = ?f i"
        then show "j = i" using low [of j] True place_inj [OF mono, of j i k] by (auto split: if_splits)
      qed (use True u in auto)
      then have "laid_out m (?L[u := ?L ! (u - 2 ^ k), u - 2 ^ k := ?L ! u]) e (?f(i := u - 2 ^ k))"
        using True by simp
      then show ?thesis using sv b odd pl st by (auto elim!: laid_out_cong simp: less_Suc_eq)
    next
      case False
      then have "place d (Suc k) i = place d k i" using place_Suc [of d k i] by simp
      then show ?thesis using sv b False st lay by (auto elim!: laid_out_cong simp: less_Suc_eq)
    qed
    then have "pass_inv n e d k m (Suc u) (Suc i) (ct_step n (2 ^ k) u st)"
      unfolding pass_inv_def using sv sh' low' high' v st True by simp
    then show ?thesis by blast
  next
    case False
    have hi: "Suc u \<le> place d k j" if "i \<le> j" "j < length e" for j
      using I that False place_mono [OF mono, of i j k] le_less [of i j] by (metis Suc_leI le_less le_less_trans)
    have "?L ! u = 0xFFFF"
    proof (rule laid_out_empty [OF lay u(1)])
      show "?f j \<noteq> u" if "j < length e" for j using low [of j] hi [of j] that by (cases "j < i") auto
    qed
    note si = step_invalid [OF sh this, of "2 ^ k" v]
    have "pass_inv n e d k m (Suc u) i (ct_step n (2 ^ k) u st)"
      unfolding pass_inv_def using si sh' I hi st by (auto intro: less_SucI)
    then show ?thesis by blast
  qed
qed

lemma pass_steps:
  assumes "pass_inv n e d k m 0 0 (0, bufs)" "mono_on {..<length e} d" "k \<le> 8" "m < 2 ^ 32"
    "\<And>w. w \<in> set e \<Longrightarrow> unat w < 2 ^ 15" "l \<le> m"
  shows "\<exists>i. pass_inv n e d k m l i (fold (ct_step n (2 ^ k)) [0..<l] (0, bufs))"
  using assms(6)
proof (induction l)
  case (Suc l)
  then obtain i where "pass_inv n e d k m l i (fold (ct_step n (2 ^ k)) [0..<l] (0, bufs))" by auto
  from pass_step [OF this assms(2,3) _ assms(4,5)] Suc.prems show ?case by simp
qed (use assms(1) in auto)

lemma ct_pass_laid_out:
  assumes "shaped n bufs" "laid_out m (flat bufs) e (place d k)" "mono_on {..<length e} d" "k \<le> 8"
    "m < 2 ^ 32" "\<And>w. w \<in> set e \<Longrightarrow> unat w < 2 ^ 15"
    "\<And>i. i < length e \<Longrightarrow> i + d i < m"
  shows "shaped n (ct_pass n m (2 ^ k) bufs) \<and> laid_out m (flat (ct_pass n m (2 ^ k) bufs)) e (place d (Suc k))"
proof -
  let ?st = "fold (ct_step n (2 ^ k)) [0..<m] (0, bufs)"
  have "pass_inv n e d k m 0 0 (0, bufs)" using assms(1,2) by (simp add: pass_inv_def)
  from pass_steps [OF this assms(3-6), of m] obtain i where i: "pass_inv n e d k m m i ?st" by blast
  have "i = length e"
  proof (rule ccontr)
    assume "i \<noteq> length e"
    then have "i < length e" using i by (simp add: pass_inv_def)
    moreover from this have "m \<le> place d k i" using i by (simp add: pass_inv_def)
    moreover have "place d k i \<le> i + d i" by (simp add: place_def mult.commute)
    ultimately show False using assms(7) [of i] by simp
  qed
  then show ?thesis using i by (auto simp: pass_inv_def ct_pass_def elim!: laid_out_cong)
qed

lemma ct_passes_laid_out:
  assumes "mono_on {..<length e} d" "m < 2 ^ 32" "\<And>w. w \<in> set e \<Longrightarrow> unat w < 2 ^ 15"
    "\<And>i. i < length e \<Longrightarrow> i + d i < m" "\<And>i. i < length e \<Longrightarrow> d i \<le> over" "over < 512"
  shows "shaped n bufs \<Longrightarrow> laid_out m (flat bufs) e (place d k) \<Longrightarrow>
    shaped n (ct_passes n m over (2 ^ k) bufs) \<and> laid_out m (flat (ct_passes n m over (2 ^ k) bufs)) e (\<lambda>i. i)"
  using assms
proof (induction "512 - k" arbitrary: k bufs rule: less_induct)
  case less
  show ?case
  proof (cases "over < 2 ^ k")
    case True
    have "place d k i = i" if "i < length e" for i using less.prems(7) [OF that] True by (simp add: place_def)
    then show ?thesis using True less.prems(1,2) by (subst ct_passes.simps, subst (2) ct_passes.simps) (auto elim!: laid_out_cong)
  next
    case False
    then have "2 ^ k < (2 :: nat) ^ 9" using less.prems(8) by simp
    then have k: "k \<le> 8" by (simp only: power_strict_increasing_iff)
    let ?b = "ct_pass n m (2 ^ k) bufs"
    have p: "shaped n ?b \<and> laid_out m (flat ?b) e (place d (Suc k))"
      using less.prems k by (intro ct_pass_laid_out) auto
    have "ct_passes n m over (2 ^ k) bufs = ct_passes n m over (2 ^ Suc k) ?b"
      using False by (subst ct_passes.simps) simp
    moreover have "512 - Suc k < 512 - k" using k by simp
    ultimately show ?thesis using less.hyps [of "Suc k" ?b] p less.prems by simp
  qed
qed

section \<open>All passes\<close>

lemma filter_positions:
  assumes "\<And>w. w \<in> set ws \<Longrightarrow> w = 0xFFFF \<or> P w" "\<not> P 0xFFFF"
  shows "\<exists>d. mono_on {..<length (filter P ws)} d \<and> (\<forall>i < length (filter P ws). d i \<le> length ws - length (filter P ws))
    \<and> laid_out (length ws) ws (filter P ws) (\<lambda>i. i + d i)"
  using assms(1)
proof (induction ws rule: rev_induct)
  case Nil
  show ?case by (simp add: laid_out_def mono_on_def)
next
  case (snoc w ws)
  let ?e = "filter P ws" and ?m = "length ws"
  have "\<And>w. w \<in> set ws \<Longrightarrow> w = 0xFFFF \<or> P w" using snoc.prems by simp
  from snoc.IH [OF this] obtain d where d: "mono_on {..<length ?e} d"
    "\<And>i. i < length ?e \<Longrightarrow> d i \<le> ?m - length ?e" "laid_out ?m ws ?e (\<lambda>i. i + d i)" by blast
  have t: "length ?e \<le> ?m" by simp
  show ?case
  proof (cases "P w")
    case True
    let ?d = "d(length ?e := ?m - length ?e)"
    have "mono_on {..<Suc (length ?e)} ?d" using d(1,2) by (auto simp: mono_on_def)
    moreover have "laid_out (Suc ?m) (ws @ [w]) (?e @ [w]) (\<lambda>i. i + ?d i)"
      using d(3) t by (auto simp: laid_out_def less_Suc_eq nth_append)
    ultimately show ?thesis using True d(2) by (intro exI [of _ ?d]) (auto simp: less_Suc_eq fun_upd_def)
  next
    case False
    then have "w = 0xFFFF" using snoc.prems by auto
    then have "laid_out (Suc ?m) (ws @ [w]) ?e (\<lambda>i. i + d i)"
      using d(3) by (auto simp: laid_out_def less_Suc_eq nth_append)
    moreover have "d i \<le> Suc ?m - length ?e" if "i < length ?e" for i using d(2) [OF that] by simp
    ultimately show ?thesis using False d(1) by (intro exI [of _ d]) auto
  qed
qed

lemma laid_out_take: "m \<le> length L \<Longrightarrow> laid_out m (take m L) e f \<Longrightarrow> laid_out m L e f"
  by (auto simp: laid_out_def)

lemma compaction_correct:
  assumes "shaped n bufs" "m \<le> length (flat bufs)" "m = n + over" "over < 512" "m < 2 ^ 32"
    "\<And>w. w \<in> set (take m (flat bufs)) \<Longrightarrow> w = 0xFFFF \<or> unat w < 2 ^ 15"
    "n \<le> length (filter (\<lambda>w. unat w < 2 ^ 15) (take m (flat bufs)))"
  shows "fst (ct_passes n m over 1 bufs) = take n (filter (\<lambda>w. unat w < 2 ^ 15) (take m (flat bufs)))"
proof -
  let ?ws = "take m (flat bufs)" and ?P = "\<lambda>w :: u16. unat w < 2 ^ 15"
  let ?e = "filter ?P ?ws" and ?r = "ct_passes n m over 1 bufs"
  have m: "length ?ws = m" using assms(2) by simp
  obtain d where d: "mono_on {..<length ?e} d" "\<And>i. i < length ?e \<Longrightarrow> d i \<le> m - length ?e"
    "laid_out m ?ws ?e (\<lambda>i. i + d i)" using filter_positions [of ?ws ?P] assms(6) m by auto
  have lay: "laid_out m (flat bufs) ?e (place d 0)"
    using laid_out_take [OF assms(2) d(3)] by (simp add: place_def [abs_def])
  have r: "shaped n ?r \<and> laid_out m (flat ?r) ?e (\<lambda>i. i)"
    using ct_passes_laid_out [OF d(1) assms(5) _ _ _ assms(4,1) lay] d(2,3) assms(3,7)
    by (force simp: laid_out_def)
  show ?thesis
  proof (rule nth_equalityI)
    show len: "length (fst ?r) = length (take n ?e)" using r assms(7) by (simp add: shaped_def)
    fix i assume i: "i < length (fst ?r)"
    then have "fst ?r ! i = flat ?r ! i" by (cases ?r) (simp add: flat_def nth_append)
    then show "fst ?r ! i = take n ?e ! i" using laid_out_lookup(3) [of m "flat ?r" ?e "\<lambda>i. i" i] r i len by simp
  qed
qed

end
