(* ===== verification/Hash_To_Point.thy ===== *)
theory Hash_To_Point
  imports Fips202 Compaction
begin

text \<open>
  The two hash-to-point routines of common.c on a SHAKE256 context in squeezing mode: the
  specification's rejection loop \<^verbatim>\<open>hash_to_point_vartime\<close>, which runs until it has enough samples and
  is a partial function here (\<open>None\<close> stands for a loop that never ends), and the constant-time
  \<^verbatim>\<open>hash_to_point_ct\<close>, which draws a fixed number of samples and compacts the valid ones.
\<close>

section \<open>Model\<close>

function reduce_w :: "u32 \<Rightarrow> u32" where
  "reduce_w w = (if 12289 \<le> w then reduce_w (w - 12289) else w)"
  by pat_completeness auto
termination
  by (relation "measure unat") (auto simp: word_le_nat_alt unat_sub)

declare reduce_w.simps [simp del]

definition sample16 :: "u8 list \<Rightarrow> u32" where
  "sample16 buf = push_bit 8 (ucast (buf ! 0)) OR ucast (buf ! 1)"

partial_function (option) hash_to_point_vartime_loop ::
  "u64 list \<Rightarrow> nat \<Rightarrow> u16 list \<Rightarrow> (u64 list \<times> u16 list) option" where
  "hash_to_point_vartime_loop sc n x =
     (if n = 0 then Some (sc, x)
      else
        let (sc, buf) = shake256_inc_squeeze sc 2;
            w = sample16 buf
        in if w < 61445 then hash_to_point_vartime_loop sc (n - 1) (x @ [ucast (reduce_w w)])
           else hash_to_point_vartime_loop sc n x)"

definition hash_to_point_vartime :: "u64 list \<Rightarrow> nat \<Rightarrow> (u64 list \<times> u16 list) option" where
  "hash_to_point_vartime sc logn = hash_to_point_vartime_loop sc (2 ^ logn) []"

definition overtab :: "nat list" where
  "overtab = [0, 65, 67, 71, 77, 86, 100, 122, 154, 205, 287]"

definition ct_reduce :: "u32 \<Rightarrow> u32" where
  "ct_reduce w =
     (let wr = w - (24578 AND (drop_bit 31 (w - 24578) - 1));
          wr = wr - (24578 AND (drop_bit 31 (wr - 24578) - 1));
          wr = wr - (12289 AND (drop_bit 31 (wr - 12289) - 1))
      in wr OR (drop_bit 31 (w - 61445) - 1))"

definition ct_sample :: "nat \<Rightarrow> nat \<Rightarrow> u64 list \<times> ct_bufs \<Rightarrow> u64 list \<times> ct_bufs" where
  "ct_sample n u st =
     (let (sc, bufs) = st;
          (sc, buf) = shake256_inc_squeeze sc 2;
          wr = ct_reduce (sample16 buf)
      in (sc, set_slot n u (ucast wr) bufs))"

definition hash_to_point_ct :: "u64 list \<Rightarrow> ct_bufs \<Rightarrow> nat \<Rightarrow> u64 list \<times> ct_bufs" where
  "hash_to_point_ct sc bufs logn =
     (let n = 2 ^ logn;
          over = overtab ! logn;
          m = n + over;
          (sc, bufs) = fold (ct_sample n) [0..<m] (sc, bufs)
      in (sc, ct_passes n m over 1 bufs))"

section \<open>Samples\<close>

lemma uint_sub_small: "a < 2 ^ 31 \<Longrightarrow> 0 \<le> a \<Longrightarrow> c < 2 ^ 31 \<Longrightarrow> 0 \<le> c \<Longrightarrow>
    2147483648 \<le> (a - c) mod 4294967296 \<longleftrightarrow> a < c" for a c :: int
  using mod_pos_pos_trivial [of "a - c" 4294967296] mod_neg_once [of "a - c" 4294967296] by (cases "a < c") auto

lemma cond_sub_mask:
  assumes "uint (w :: u32) < 2 ^ 31" "uint c < 2 ^ 31"
  shows "drop_bit 31 (w - c) - 1 = (if w < c then 0 else - 1)"
proof -
  have "2147483648 \<le> uint (w - c) \<longleftrightarrow> w < c"
    using uint_sub_small [of "uint w" "uint c"] assms by (simp add: uint_word_ariths word_less_def)
  then show ?thesis by (simp add: sign_shift)
qed

lemma cond_sub:
  assumes "uint (w :: u32) < 2 ^ 31" "uint c < 2 ^ 31"
  shows "w - (c AND (drop_bit 31 (w - c) - 1)) = (if w < c then w else w - c)"
  using cond_sub_mask [OF assms] by simp

lemma reduce_w_mod: "reduce_w w = w mod 12289"
proof (induction w rule: reduce_w.induct)
  case (1 w)
  show ?case
  proof (cases "12289 \<le> w")
    case True
    then have "unat (w - 12289) mod 12289 = unat w mod 12289"
      by (simp add: unat_sub word_le_nat_alt le_mod_geq)
    then have "(w - 12289) mod 12289 = w mod 12289" by (simp add: word_unat_eq_iff unat_mod)
    then show ?thesis using 1 True by (subst reduce_w.simps) simp
  next
    case False
    then show ?thesis by (subst reduce_w.simps) (simp add: word_unat_eq_iff unat_mod word_le_nat_alt)
  qed
qed

lemma ct_reduce_value:
  assumes "uint w < 65536"
  shows "ct_reduce w = (if w < 61445 then w mod 12289 else - 1)"
proof -
  define w1 where "w1 = (if w < 24578 then w else w - 24578)"
  define w2 where "w2 = (if w1 < 24578 then w1 else w1 - 24578)"
  define w3 where "w3 = (if w2 < 12289 then w2 else w2 - 12289)"
  have 1: "uint w1 = (if uint w < 24578 then uint w else uint w - 24578)"
    using assms by (auto simp: w1_def word_less_def uint_sub_if_size)
  have 2: "uint w2 = (if uint w1 < 24578 then uint w1 else uint w1 - 24578)"
    using assms 1 by (auto simp: w2_def word_less_def uint_sub_if_size)
  have 3: "uint w3 = (if uint w2 < 12289 then uint w2 else uint w2 - 12289)"
    using assms 1 2 by (auto simp: w3_def word_less_def uint_sub_if_size)
  have "w - (24578 AND (drop_bit 31 (w - 24578) - 1)) = w1"
    using cond_sub [of w 24578] assms unfolding w1_def by simp
  moreover have "w1 - (24578 AND (drop_bit 31 (w1 - 24578) - 1)) = w2"
    using cond_sub [of w1 24578] assms 1 unfolding w2_def by simp
  moreover have "w2 - (12289 AND (drop_bit 31 (w2 - 12289) - 1)) = w3"
    using cond_sub [of w2 12289] assms 1 2 unfolding w3_def by simp
  moreover have "drop_bit 31 (w - 61445) - 1 = (if w < 61445 then 0 else - 1)"
    using cond_sub_mask [of w 61445] assms by simp
  ultimately have c: "ct_reduce w = w3 OR (if w < 61445 then 0 else - 1)"
    unfolding ct_reduce_def Let_def by simp
  have "w3 = w mod 12289" if "w < 61445"
  proof -
    have "uint w < 61445" using that by (simp add: word_less_def)
    then have "uint w3 < 12289" "uint w \<in> {uint w3, uint w3 + 12289, uint w3 + 2 * 12289, uint w3 + 3 * 12289, uint w3 + 4 * 12289}"
      using 1 2 3 by (auto split: if_splits)
    moreover from this(2) obtain k where "uint w = uint w3 + 12289 * k" by fastforce
    ultimately have "uint w mod 12289 = uint w3" by simp
    then show ?thesis by (simp add: word_uint_eq_iff uint_mod)
  qed
  then show ?thesis using c by simp
qed

definition accepted :: "u8 list \<Rightarrow> bool" where
  "accepted buf \<longleftrightarrow> sample16 buf < 61445"

lemma sample16_less: "uint (sample16 buf) < 65536"
proof -
  have "sample16 buf = take_bit 16 (sample16 buf)"
    by (rule bit_word_eqI) (auto simp: sample16_def bit_take_bit_iff bit_or_iff bit_push_bit_iff bit_ucast_iff dest: bit_imp_le_length)
  moreover have "uint (take_bit 16 (sample16 buf)) < 65536" by (simp add: take_bit_eq_mod uint_mod)
  ultimately show ?thesis by metis
qed

lemma mod_q_small: "unat (w mod 12289) < 12289" for w :: u32
  by (simp add: unat_mod)

lemma ucast_ones: "ucast (- 1 :: u32) = (0xFFFF :: u16)"
  by (simp add: word_uint_eq_iff uint_ucast_mod uint_word_ariths)

lemma ct_reduce_accepted:
  "accepted buf \<Longrightarrow> ucast (ct_reduce (sample16 buf)) = (ucast (reduce_w (sample16 buf)) :: u16)"
  "\<not> accepted buf \<Longrightarrow> ucast (ct_reduce (sample16 buf)) = (0xFFFF :: u16)"
  by (simp_all add: accepted_def ct_reduce_value [OF sample16_less] reduce_w_mod ucast_ones)

lemma sample_valid: "unat (ucast (ct_reduce (sample16 buf)) :: u16) < 2 ^ 15 \<longleftrightarrow> accepted buf"
  using mod_q_small [of "sample16 buf"]
  by (cases "accepted buf") (simp_all add: ct_reduce_accepted reduce_w_mod unat_ucast_mod)

section \<open>Drawing the samples\<close>

lemma vartime_samples:
  assumes "length (filter accepted (snd (shake256.squeeze_blocks sc 2 k))) \<ge> n"
  shows "\<exists>sc'. hash_to_point_vartime_loop sc n x = Some (sc', x @ take n (map (\<lambda>b. ucast (reduce_w (sample16 b)))
      (filter accepted (snd (shake256.squeeze_blocks sc 2 k)))))"
  using assms
proof (induction k arbitrary: sc n x)
  case 0
  then show ?case by (subst hash_to_point_vartime_loop.simps) simp
next
  case (Suc k)
  obtain sc1 buf where b: "shake256_inc_squeeze sc 2 = (sc1, buf)" by fastforce
  show ?case
  proof (cases n)
    case 0
    then show ?thesis by (subst hash_to_point_vartime_loop.simps) simp
  next
    case n: (Suc n')
    show ?thesis
    proof (cases "accepted buf")
      case True
      then have "n' \<le> length (filter accepted (snd (shake256.squeeze_blocks sc1 2 k)))"
        using Suc.prems n b by (simp add: split_beta Let_def)
      from Suc.IH [OF this, of "x @ [ucast (reduce_w (sample16 buf))]"] show ?thesis
        using True n b by (subst hash_to_point_vartime_loop.simps) (simp add: accepted_def [of buf] split_beta Let_def)
    next
      case False
      then have "n \<le> length (filter accepted (snd (shake256.squeeze_blocks sc1 2 k)))"
        using Suc.prems b by (simp add: split_beta Let_def)
      from Suc.IH [OF this, of x] show ?thesis
        using False n b by (subst hash_to_point_vartime_loop.simps) (simp add: accepted_def [of buf] split_beta Let_def)
    qed
  qed
qed

lemma ct_sample_fold:
  assumes "shaped n bufs" "m \<le> length (flat bufs)"
  shows "\<exists>b. fold (ct_sample n) [0..<m] (sc, bufs) = (fst (shake256.squeeze_blocks sc 2 m), b) \<and> shaped n b \<and>
     flat b = map (\<lambda>b. ucast (ct_reduce (sample16 b))) (snd (shake256.squeeze_blocks sc 2 m)) @ drop m (flat bufs)"
  using assms(2)
proof (induction m)
  case 0
  then show ?case using assms(1) by simp
next
  case (Suc m)
  have sb: "shake256.squeeze_blocks sc 2 (Suc m) =
     (let (c, xss) = shake256.squeeze_blocks sc 2 m; (c, xs) = shake256_inc_squeeze c 2 in (c, xss @ [xs]))" for sc
    by (induction m arbitrary: sc) (simp_all add: split_beta Let_def)
  obtain b where b: "fold (ct_sample n) [0..<m] (sc, bufs) = (fst (shake256.squeeze_blocks sc 2 m), b)" "shaped n b"
     "flat b = map (\<lambda>b. ucast (ct_reduce (sample16 b))) (snd (shake256.squeeze_blocks sc 2 m)) @ drop m (flat bufs)"
    using Suc by auto
  have "drop m (flat bufs) = flat bufs ! m # drop (Suc m) (flat bufs)" using Suc.prems by (simp add: Cons_nth_drop_Suc)
  moreover have "fold (ct_sample n) [0..<Suc m] (sc, bufs) = ct_sample n m (fst (shake256.squeeze_blocks sc 2 m), b)"
    using b(1) by simp
  ultimately show ?case using b(2,3)
    by (simp add: sb ct_sample_def [of n m] split_beta Let_def flat_set_slot shaped_set_slot list_update_append del: shake256.squeeze_blocks.simps upt.simps)
qed

lemma overtab_fits:
  assumes "0 < logn" "logn \<le> 10"
  shows "overtab ! logn \<le> 2 ^ logn + 63" "overtab ! logn < 512" "2 ^ logn + overtab ! logn < 2 ^ 32"
proof -
  have "logn \<in> {1, 2, 3, 4, 5, 6, 7, 8, 9, 10}" using assms by (simp only: insert_iff empty_iff) arith
  then show "overtab ! logn \<le> 2 ^ logn + 63" "overtab ! logn < 512" "2 ^ logn + overtab ! logn < 2 ^ 32"
    by (auto simp: overtab_def)
qed

lemma ct_point:
  assumes "0 < logn" "logn \<le> 10" "length x = 2 ^ logn" "length tt1 = 2 ^ logn" "length tt2 = 63"
    and acc: "2 ^ logn \<le> length (filter accepted (snd (shake256.squeeze_blocks sc 2 (2 ^ logn + overtab ! logn))))"
  shows "fst (snd (hash_to_point_ct sc (x, tt1, tt2) logn)) = take (2 ^ logn)
    (map (\<lambda>b. ucast (reduce_w (sample16 b))) (filter accepted (snd (shake256.squeeze_blocks sc 2 (2 ^ logn + overtab ! logn)))))"
proof -
  let ?n = "2 ^ logn" and ?over = "overtab ! logn"
  let ?m = "?n + ?over" and ?f = "\<lambda>b. ucast (ct_reduce (sample16 b)) :: u16"
  let ?ws = "snd (shake256.squeeze_blocks sc 2 ?m)"
  have sh: "shaped ?n (x, tt1, tt2)" "length (flat (x, tt1, tt2)) = ?n + ?n + 63"
    using assms(3-5) by (simp_all add: shaped_def flat_def)
  note ov = overtab_fits [OF assms(1,2)]
  obtain b where b: "fold (ct_sample ?n) [0..<?m] (sc, x, tt1, tt2) = (fst (shake256.squeeze_blocks sc 2 ?m), b)"
      "shaped ?n b" "flat b = map ?f ?ws @ drop ?m (flat (x, tt1, tt2))"
    using ct_sample_fold [OF sh(1), of ?m sc] sh(2) ov(1) by auto
  have tk: "take ?m (flat b) = map ?f ?ws" using b(3) by simp
  have fl: "filter (\<lambda>w. unat w < 2 ^ 15) (map ?f ws) = map (\<lambda>b. ucast (reduce_w (sample16 b))) (filter accepted ws)" for ws
    by (induction ws) (simp_all only: list.map filter.simps sample_valid, simp add: ct_reduce_accepted)
  have "fst (ct_passes ?n ?m ?over 1 b) = take ?n (map (\<lambda>b. ucast (reduce_w (sample16 b))) (filter accepted ?ws))"
  proof -
    have "?m \<le> length (flat b)" using b(3) by simp
    moreover have "w = 0xFFFF \<or> unat w < 2 ^ 15" if "w \<in> set (take ?m (flat b))" for w
      using that unfolding tk by (auto simp only: set_map sample_valid) (simp add: ct_reduce_accepted)
    moreover have "?n \<le> length (filter (\<lambda>w. unat w < 2 ^ 15) (take ?m (flat b)))"
      unfolding tk fl length_map by (rule acc)
    ultimately show ?thesis using compaction_correct [OF b(2) _ refl ov(2,3)] unfolding tk fl by blast
  qed
  moreover have "fst (snd (hash_to_point_ct sc (x, tt1, tt2) logn)) = fst (ct_passes ?n ?m ?over 1 b)"
    by (simp add: hash_to_point_ct_def Let_def b(1))
  ultimately show ?thesis by simp
qed

lemma ct_agrees:
  assumes "0 < logn" "logn \<le> 10" "length x = 2 ^ logn" "length tt1 = 2 ^ logn" "length tt2 = 63"
    and acc: "2 ^ logn \<le> length (filter accepted (snd (shake256.squeeze_blocks sc 2 (2 ^ logn + overtab ! logn))))"
  shows "\<exists>sc'. hash_to_point_vartime sc logn = Some (sc', fst (snd (hash_to_point_ct sc (x, tt1, tt2) logn)))"
  using vartime_samples [OF acc, of "[]"] ct_point [OF assms] by (simp add: hash_to_point_vartime_def)

lemma ct_point_range:
  assumes "0 < logn" "logn \<le> 10" "length x = 2 ^ logn" "length tt1 = 2 ^ logn" "length tt2 = 63"
    and acc: "2 ^ logn \<le> length (filter accepted (snd (shake256.squeeze_blocks sc 2 (2 ^ logn + overtab ! logn))))"
  shows "length (fst (snd (hash_to_point_ct sc (x, tt1, tt2) logn))) = 2 ^ logn"
    "w \<in> set (fst (snd (hash_to_point_ct sc (x, tt1, tt2) logn))) \<Longrightarrow> uint w < 12289"
proof -
  show "length (fst (snd (hash_to_point_ct sc (x, tt1, tt2) logn))) = 2 ^ logn"
    unfolding ct_point [OF assms] using acc by simp
  assume "w \<in> set (fst (snd (hash_to_point_ct sc (x, tt1, tt2) logn)))"
  then have "w \<in> set (map (\<lambda>b. ucast (reduce_w (sample16 b))) (filter accepted (snd (shake256.squeeze_blocks sc 2 (2 ^ logn + overtab ! logn)))))"
    unfolding ct_point [OF assms] by (rule in_set_takeD)
  then obtain b where "w = ucast (reduce_w (sample16 b))" by auto
  moreover have "uint (sample16 b mod 12289) < 12289" by (simp add: uint_mod)
  ultimately show "uint w < 12289" by (simp add: reduce_w_mod uint_ucast_mod)
qed

lemma unat_sample16: "unat (sample16 buf) = 256 * unat (buf ! 0) + unat (buf ! 1)"
proof -
  have "sample16 buf = push_bit 8 (ucast (buf ! 0)) + ucast (buf ! 1)" unfolding sample16_def
    by (rule disjunctive_add [symmetric]) (auto simp: bit_push_bit_iff bit_ucast_iff dest: bit_imp_le_length)
  then have "sample16 buf = of_nat (256 * unat (buf ! 0) + unat (buf ! 1))"
    by (simp add: push_bit_eq_mult mult.commute)
  moreover have "256 * unat (buf ! 0) + unat (buf ! 1) < 2 ^ 32"
    using unsigned_less [of "buf ! 0", where ?'a = nat] unsigned_less [of "buf ! 1", where ?'a = nat] by simp
  ultimately show ?thesis by (simp only: unat_of_nat) simp
qed

lemma accepted_bytes:
  assumes "k_squeezing SHAKE256_RATE sc"
  shows "length (filter accepted (snd (shake256.squeeze_blocks sc 2 m))) =
    (let bytes = snd (shake256_inc_squeeze sc (m * 2))
     in length (filter (\<lambda>u. 256 * unat (bytes ! (2 * u)) + unat (bytes ! (2 * u + 1)) < 61445) [0..<m]))"
proof -
  let ?bytes = "snd (shake256_inc_squeeze sc (m * 2))" and ?bs = "snd (shake256.squeeze_blocks sc 2 m)"
  have l: "length ?bytes = m * 2" using shake256.squeeze_length [OF assms] .
  have "accepted (?bs ! u) \<longleftrightarrow> 256 * unat (?bytes ! (2 * u)) + unat (?bytes ! (2 * u + 1)) < 61445" if "u < m" for u
    using shake256.squeeze_blocks_nth [OF assms that, of 2] that l
    by (simp add: accepted_def word_less_nat_alt unat_sample16)
  then have "filter (\<lambda>u. accepted (?bs ! u)) [0..<m] =
      filter (\<lambda>u. 256 * unat (?bytes ! (2 * u)) + unat (?bytes ! (2 * u + 1)) < 61445) [0..<m]"
    by (intro filter_cong) auto
  moreover have "length (filter accepted ?bs) = length (filter (\<lambda>u. accepted (?bs ! u)) [0..<m])"
    using arg_cong [OF map_nth [of ?bs], of "\<lambda>xs. length (filter accepted xs)"] by (simp add: filter_map comp_def)
  ultimately show ?thesis by (simp add: Let_def)
qed

section \<open>Properties\<close>

text \<open>
  (C19) The constant-time hash-to-point agrees with the rejection loop of the specification: whenever the
  oversampled output of SHAKE256 holds at least \<open>2 ^ logn\<close> acceptable samples, the rejection loop
  terminates and both return the same point, whatever the temporary buffers held.
\<close>

theorem hash_to_point_ct_correct:
  assumes "0 < logn" "logn \<le> 10" "length x = 2 ^ logn" "length tt1 = 2 ^ logn" "length tt2 = 63"
    and "length sc = 26" "unat (sc ! 25) \<le> 136" "m = 2 ^ logn + overtab ! logn"
    and "bytes = snd (shake256_inc_squeeze sc (m * 2))"
    and "2 ^ logn \<le> length (filter (\<lambda>u. 256 * unat (bytes ! (2 * u)) + unat (bytes ! (2 * u + 1)) < 61445) [0..<m])"
  shows "\<exists>sc'. hash_to_point_vartime sc logn = Some (sc', fst (snd (hash_to_point_ct sc (x, tt1, tt2) logn)))"
proof (rule ct_agrees [OF assms(1-5)])
  have "k_squeezing SHAKE256_RATE sc" using assms(6,7) by (simp add: k_squeezing_def shake_rates)
  from accepted_bytes [OF this, of m] assms(10)
  show "2 ^ logn \<le> length (filter accepted (snd (shake256.squeeze_blocks sc 2 (2 ^ logn + overtab ! logn))))"
    by (simp add: assms(9) Let_def flip: assms(8))
qed

theorem hash_to_point_ct_correct_witness:
  "\<exists>sc'. hash_to_point_vartime (replicate 25 0 @ [136]) 1 =
     Some (sc', fst (snd (hash_to_point_ct (replicate 25 0 @ [136]) ([7, 9], [1, 2], replicate 63 5) 1)))"
proof -
  let ?sc = "replicate 25 0 @ [136 :: u64]"
  have b: "snd (shake256_inc_squeeze ?sc (67 * 2)) = replicate 134 0"
    by (rule nth_equalityI) (auto simp: shake256_inc_squeeze_def keccak_inc_squeeze_def keccak_inc_squeeze_loop.simps
      shake_rates Let_def nth_append state_byte_def)
  show ?thesis
    by (rule hash_to_point_ct_correct [where m = 67, OF _ _ _ _ _ _ _ _ refl, unfolded b])
      (simp_all add: overtab_def nth_append b [simplified])
qed

end
