(* ===== verification/Falcon_Api.thy ===== *)
theory Falcon_Api
  imports Falcon_Keys Hash_To_Point
begin

text \<open>
  The reference signature scheme of pqclean.c, Falcon-512 with SHAKE256, with detached signatures
  (\<^verbatim>\<open>crypto_sign_signature\<close>, \<^verbatim>\<open>crypto_sign_verify\<close>) and signed messages (\<^verbatim>\<open>crypto_sign\<close>,
  \<^verbatim>\<open>crypto_sign_open\<close>). Arrays that the code leaves uninitialized are filled with zeros in the model;
  the code writes them before it reads them.
\<close>

section \<open>Model\<close>

definition crypto_sign_keypair ::
  "(u64 list \<Rightarrow> u8 list \<times> u8 list \<times> u8 list \<times> u16 list) \<Rightarrow> u8 list \<Rightarrow> (u8 list \<times> u8 list) option \<times> u8 list" where
  "crypto_sign_keypair keygen tape =
     (let (seed, tape) = randombytes 48 tape;
          rng = seeded_rng seed;
          (f, g, F, h) = keygen rng
      in (encode_keypair (f, g, F, h), tape))"

definition hash_message :: "u8 list \<Rightarrow> u8 list \<Rightarrow> u16 list" where
  "hash_message nonce m =
     (let sc = keccak_inc_init;
          sc = shake256_inc_absorb sc (take NONCELEN nonce);
          sc = shake256_inc_absorb sc m;
          sc = shake256_inc_finalize sc;
          (sc, hm, tt1, tt2) = hash_to_point_ct sc (replicate 512 0, replicate 512 0, replicate 63 0) 9
      in hm)"

definition do_sign ::
  "sign_dyn_fun \<Rightarrow> nat \<Rightarrow> u8 list \<Rightarrow> u8 list \<Rightarrow> u8 list \<Rightarrow> ((u8 list \<times> u8 list) option \<times> u8 list) option" where
  "do_sign sign_dyn sigbuflen m sk tape =
     (case decode_private sk of
        None \<Rightarrow> None
      | Some None \<Rightarrow> Some (None, tape)
      | Some (Some key) \<Rightarrow>
          let (nonce, tape) = randombytes NONCELEN tape;
              hm = hash_message nonce m;
              (seed, tape) = randombytes 48 tape;
              sc = seeded_rng seed
          in (case sign_loop sign_dyn sigbuflen key hm sc of
                None \<Rightarrow> None
              | Some sigbuf \<Rightarrow> Some (Some (nonce, sigbuf), tape)))"

definition do_verify :: "u8 list \<Rightarrow> u8 list \<Rightarrow> u8 list \<Rightarrow> u8 list \<Rightarrow> int option" where
  "do_verify nonce sigbuf m pk =
     (if pk ! 0 \<noteq> 0x00 + 9 then Some (- 1)
      else
        case modq_decode 9 (take (PUBLICKEYBYTES - 1) (drop 1 pk)) of
          None \<Rightarrow> None
        | Some (v, h) \<Rightarrow>
          if v \<noteq> PUBLICKEYBYTES - 1 then Some (- 1)
          else
            let h = to_ntt_monty h 9
            in if length sigbuf = 0 then Some (- 1)
               else
                 let (v, sig) = comp_decode 9 sigbuf
                 in if v \<noteq> length sigbuf then Some (- 1)
                    else
                      let hm = hash_message nonce m
                      in if verify_raw hm sig h 9 = 0 then Some (- 1) else Some 0)"

definition crypto_sign_signature ::
  "sign_dyn_fun \<Rightarrow> u8 list \<Rightarrow> u8 list \<Rightarrow> u8 list \<Rightarrow> (u8 list option \<times> u8 list) option" where
  "crypto_sign_signature sign_dyn m sk tape =
     (let vlen = CRYPTO_BYTES - NONCELEN - 3
      in case do_sign sign_dyn vlen m sk tape of
           None \<Rightarrow> None
         | Some (None, tape) \<Rightarrow> Some (None, tape)
         | Some (Some (nonce, sigbuf), tape) \<Rightarrow> Some (Some ((0x30 + 9) # nonce @ sigbuf), tape))"

definition crypto_sign_verify :: "u8 list \<Rightarrow> u8 list \<Rightarrow> u8 list \<Rightarrow> int option" where
  "crypto_sign_verify sig m pk =
     (if length sig < 1 + NONCELEN then Some (- 1)
      else if sig ! 0 \<noteq> 0x30 + 9 then Some (- 1)
      else do_verify (take NONCELEN (drop 1 sig)) (drop (1 + NONCELEN) sig) m pk)"

definition crypto_sign ::
  "sign_dyn_fun \<Rightarrow> u8 list \<Rightarrow> u8 list \<Rightarrow> u8 list \<Rightarrow> (u8 list option \<times> u8 list) option" where
  "crypto_sign sign_dyn m sk tape =
     (let pm = m;
          sigbuflen = CRYPTO_BYTES - NONCELEN - 3
      in case do_sign sign_dyn sigbuflen pm sk tape of
           None \<Rightarrow> None
         | Some (None, tape) \<Rightarrow> Some (None, tape)
         | Some (Some (nonce, sigbuf), tape) \<Rightarrow>
             let sigbuflen = (of_nat (length sigbuf) :: u64) + 1
             in Some (Some ([ucast (drop_bit 8 sigbuflen), ucast sigbuflen] @ nonce @ pm @ [0x20 + 9] @ sigbuf), tape))"

definition crypto_sign_open :: "u8 list \<Rightarrow> u8 list \<Rightarrow> u8 list option option" where
  "crypto_sign_open sm pk =
     (let smlen = length sm
      in if smlen < 3 + NONCELEN then Some None
         else
           let sigbuflen = unat (push_bit 8 (ucast (sm ! 0)) OR ucast (sm ! 1) :: u64)
           in if sigbuflen < 2 \<or> sigbuflen > smlen - NONCELEN - 2 then Some None
              else
                let sigbuflen = sigbuflen - 1;
                    pmlen = smlen - NONCELEN - 3 - sigbuflen
                in if sm ! (2 + NONCELEN + pmlen) \<noteq> 0x20 + 9 then Some None
                   else
                     let sigbuf = take sigbuflen (drop (2 + NONCELEN + pmlen + 1) sm)
                     in case do_verify (take NONCELEN (drop 2 sm)) sigbuf (take pmlen (drop (2 + NONCELEN) sm)) pk of
                          None \<Rightarrow> None
                        | Some r \<Rightarrow> if r < 0 then Some None else Some (Some (take pmlen (drop (2 + NONCELEN) sm))))"

section \<open>The scheme\<close>

definition enough_samples :: "u8 list \<Rightarrow> u8 list \<Rightarrow> bool" where
  "enough_samples nonce m \<longleftrightarrow> 512 \<le> length (filter accepted (snd (shake256.squeeze_blocks
     (shake256_inc_finalize (shake256_inc_absorb (shake256_inc_absorb keccak_inc_init (take NONCELEN nonce)) m)) 2 717)))"

lemma hash_message_ct_canon: "enough_samples nonce m \<Longrightarrow> canon 512 (hash_message nonce m)"
  using ct_point_range [of 9 "replicate 512 0" "replicate 512 0" "replicate 63 0"]
  unfolding canon_def enough_samples_def hash_message_def Let_def by (simp add: split_beta overtab_def)

interpretation shake_scheme: falcon_scheme hash_message enough_samples do_sign do_verify
proof
  show "enough_samples nonce m \<Longrightarrow> canon 512 (hash_message nonce m)" for nonce m by (rule hash_message_ct_canon)
  show "do_sign sign_dyn sigbuflen m sk tape = sign_core hash_message sign_dyn sigbuflen m sk tape"
    for sign_dyn sigbuflen m sk tape
    by (simp add: do_sign_def sign_core_def randombytes_def NONCELEN_def split: option.splits)
  show "do_verify nonce sigbuf m pk = verify_core (hash_message nonce m) sigbuf pk" for nonce sigbuf m pk
    unfolding do_verify_def verify_core_def Let_def by (rule refl)
qed

lemma do_verify_result: "do_verify nonce sigbuf m pk = Some 0 \<or> do_verify nonce sigbuf m pk = Some (- 1)"
proof -
  have "modq_decode 9 b \<noteq> None" for b using modq.decode_safe by (simp add: modq_decode_field)
  then obtain v h where d: "modq_decode 9 (take (PUBLICKEYBYTES - 1) (drop 1 pk)) = Some (v, h)" by fastforce
  show ?thesis unfolding do_verify_def Let_def d option.case prod.case split_beta by simp
qed

lemma do_sign_sigbuf:
  assumes "do_sign sign_dyn mx m sk tape = Some (Some (nonce, sigbuf), tape')" "40 \<le> length tape"
    "\<And>sc key hm. length (snd (sign_dyn sc key hm)) = 512"
  shows "sigbuf \<noteq> []" "length sigbuf \<le> mx" "length nonce = 40" "nonce = take 40 tape"
proof -
  obtain r where r: "decode_private sk = Some r" using decode_private_safe by blast
  obtain key where "r = Some key" using assms(1) r by (cases r) (simp_all add: do_sign_def)
  then obtain l: "sign_loop sign_dyn mx key (hash_message (take 40 tape) m) (seeded_rng (take 48 (drop 40 tape))) = Some sigbuf"
    and n: "nonce = take 40 tape"
    using assms(1) r by (simp add: do_sign_def randombytes_def NONCELEN_def split: option.splits)
  from sign_loop_result [OF l assms(3)] show "sigbuf \<noteq> []" "length sigbuf \<le> mx" by blast+
  show "length nonce = 40" "nonce = take 40 tape" using n assms(2) by simp_all
qed

section \<open>Signed messages\<close>

lemma length_header:
  assumes "n < 65536"
  shows "ucast (drop_bit 8 (of_nat n :: u64)) = (of_nat (n div 256) :: u8)" "ucast (of_nat n :: u64) = (of_nat (n mod 256) :: u8)"
proof -
  have "unat (of_nat n :: u64) = n" using assms by (simp add: unat_of_nat)
  then show "ucast (drop_bit 8 (of_nat n :: u64)) = (of_nat (n div 256) :: u8)" "ucast (of_nat n :: u64) = (of_nat (n mod 256) :: u8)"
    by (simp_all add: word_unat_eq_iff unat_ucast_mod unat_shr unat_of_nat)
qed

lemma length_bytes:
  assumes "n < 65536"
  shows "unat (push_bit 8 (ucast (ucast (drop_bit 8 (of_nat n :: u64)) :: u8)) OR ucast (ucast (of_nat n :: u64) :: u8) :: u64) = n"
proof -
  have "push_bit 8 (ucast (ucast (drop_bit 8 (of_nat n :: u64)) :: u8)) OR ucast (ucast (of_nat n :: u64) :: u8) = (of_nat n :: u64)"
  proof (rule bit_word_eqI)
    fix k assume k: "k < LENGTH(64)"
    have hi: "\<not> bit (of_nat n :: u64) k" if "16 \<le> k"
    proof -
      have "n < 2 ^ k" using assms that power_increasing [of 16 k "2 :: nat"] by simp
      then have "\<not> bit n k" by (simp add: bit_iff_odd)
      then show ?thesis by (simp add: bit_of_nat_iff)
    qed
    consider "k < 8" | "8 \<le> k" "k - 8 < 8" | "16 \<le> k" by linarith
    then show "bit (push_bit 8 (ucast (ucast (drop_bit 8 (of_nat n :: u64)) :: u8)) OR ucast (ucast (of_nat n :: u64) :: u8) :: u64) k
        = bit (of_nat n :: u64) k"
    proof cases
      case 3
      then have "\<not> k < 8" "\<not> k - 8 < 8" by simp_all
      then show ?thesis using hi [OF 3] k by (simp add: bit_or_iff bit_push_bit_iff bit_ucast_iff)
    qed (use k in \<open>simp_all add: bit_or_iff bit_push_bit_iff bit_ucast_iff bit_drop_bit_eq\<close>)
  qed
  then show ?thesis using assms by (simp add: unat_of_nat)
qed

lemma bytes_length:
  fixes a b :: u8
  defines "w \<equiv> push_bit 8 (ucast a) OR ucast b :: u64"
  shows "ucast (drop_bit 8 w) = a" "ucast w = b" "unat w < 65536"
proof -
  show "ucast (drop_bit 8 w) = a"
    by (rule bit_word_eqI) (auto simp: w_def bit_or_iff bit_push_bit_iff bit_ucast_iff bit_drop_bit_eq dest: bit_imp_le_length)
  show "ucast w = b"
    by (rule bit_word_eqI) (auto simp: w_def bit_or_iff bit_push_bit_iff bit_ucast_iff)
  have "w = take_bit 16 w"
    by (rule bit_word_eqI) (auto simp: w_def bit_take_bit_iff bit_or_iff bit_push_bit_iff bit_ucast_iff dest: bit_imp_le_length)
  moreover have "unat (take_bit 16 w) < 65536" by (simp add: take_bit_eq_mod unat_mod)
  ultimately show "unat w < 65536" by metis
qed

definition signed_message :: "u8 list \<Rightarrow> u8 list \<Rightarrow> u8 list \<Rightarrow> u8 list" where
  "signed_message nonce m sigbuf =
     (let l = of_nat (length sigbuf + 1) :: u64
      in [ucast (drop_bit 8 l), ucast l] @ nonce @ m @ [0x29] @ sigbuf)"

lemma open_signed_message:
  assumes "length nonce = 40" "sigbuf \<noteq> []" "length sigbuf < 65535"
  shows "crypto_sign_open (signed_message nonce m sigbuf) pk =
    (if do_verify nonce sigbuf m pk = Some 0 then Some (Some m) else Some None)"
proof -
  let ?sm = "signed_message nonce m sigbuf" and ?l = "of_nat (length sigbuf + 1) :: u64"
  have sm: "?sm = ucast (drop_bit 8 ?l) # ucast ?l # nonce @ m @ 0x29 # sigbuf" by (simp add: signed_message_def Let_def)
  have n: "unat (push_bit 8 (ucast (?sm ! 0)) OR ucast (?sm ! 1) :: u64) = length sigbuf + 1"
    using length_bytes [of "length sigbuf + 1"] assms(3) unfolding sm by (simp del: of_nat_add)
  have len: "length ?sm = 43 + length m + length sigbuf" using assms(1) unfolding sm by simp
  have parts: "?sm ! (42 + length m) = 0x29" "take 40 (drop 2 ?sm) = nonce" "take (length m) (drop 42 ?sm) = m"
    unfolding sm using assms(1) by (simp_all add: nth_append)
  have "?sm = (ucast (drop_bit 8 ?l) # ucast ?l # nonce @ m @ [0x29]) @ sigbuf" unfolding sm by simp
  then have rest: "drop (43 + length m) ?sm = sigbuf"
    using assms(1) append_eq_conv_conj [of "ucast (drop_bit 8 ?l) # ucast ?l # nonce @ m @ [0x29]" sigbuf ?sm] by simp
  have ok: "\<not> length ?sm < 3 + 40" "\<not> (length sigbuf + 1 < 2 \<or> length sigbuf + 1 > length ?sm - 40 - 2)"
    "length ?sm - 40 - 3 - (length sigbuf + 1 - 1) = length m"
    using assms(2) unfolding len by simp_all
  have a: "2 + 40 + length m = 42 + length m" "2 + 40 + length m + 1 = 43 + length m" "2 + 40 = (42 :: nat)" "length sigbuf + 1 - 1 = length sigbuf" by simp_all
  have "crypto_sign_open ?sm pk = (case do_verify nonce sigbuf m pk of None \<Rightarrow> None
      | Some r \<Rightarrow> if r < 0 then Some None else Some (Some m))"
    unfolding crypto_sign_open_def Let_def NONCELEN_def n using ok parts
    by (simp only: if_False a ok(3) parts rest) (simp add: assms(2) rest)
  then show ?thesis using do_verify_result [of nonce sigbuf m pk] by auto
qed

lemma open_format:
  assumes "crypto_sign_open sm pk \<noteq> Some None"
  shows "\<exists>nonce m sigbuf. sm = signed_message nonce m sigbuf \<and> length nonce = 40 \<and> sigbuf \<noteq> [] \<and> length sigbuf < 65535"
proof -
  let ?w = "push_bit 8 (ucast (sm ! 0)) OR ucast (sm ! 1) :: u64"
  let ?s = "unat ?w - 1"
  let ?p = "length sm - 43 - ?s"
  have l: "43 \<le> length sm" "2 \<le> unat ?w" "unat ?w \<le> length sm - 42" "sm ! (42 + ?p) = 0x29"
    using assms by (auto simp: crypto_sign_open_def Let_def NONCELEN_def split: if_splits)
  let ?nonce = "take 40 (drop 2 sm)" and ?m = "take ?p (drop 42 sm)" and ?sig = "drop (43 + ?p) sm"
  have len: "length ?nonce = 40" "length ?sig = ?s" "43 + ?p + ?s = length sm" using l by auto
  have "of_nat (length ?sig + 1) = ?w" unfolding len(2) using l(2) by simp
  then have b: "ucast (drop_bit 8 (of_nat (length ?sig + 1) :: u64)) = sm ! 0" "ucast (of_nat (length ?sig + 1) :: u64) = sm ! 1"
    using bytes_length(1,2) [of "sm ! 0" "sm ! 1"] by (simp_all only:)
  have "drop (42 + ?p) sm = 0x29 # ?sig" using Cons_nth_drop_Suc [of "42 + ?p" sm] l len(3) by simp
  then have "drop 42 sm = ?m @ 0x29 # ?sig" using append_take_drop_id [of ?p "drop 42 sm"] by (simp add: add.commute)
  then have "drop 2 sm = ?nonce @ ?m @ 0x29 # ?sig" using append_take_drop_id [of 40 "drop 2 sm"] by simp
  moreover have "sm = sm ! 0 # sm ! 1 # drop 2 sm" using l(1) by (cases sm; cases "tl sm") auto
  ultimately have "sm = signed_message ?nonce ?m ?sig" unfolding signed_message_def Let_def b by simp
  moreover have "?sig \<noteq> []" "length ?sig < 65535" using len(2) l(2) bytes_length(3) [of "sm ! 0" "sm ! 1"] by auto
  ultimately show ?thesis using len(1) by blast
qed

section \<open>Properties\<close>

text \<open>
  (C6) Opening a signed message is verifying its detached signature: \<open>crypto_sign_open\<close> returns the message
  m exactly when the input is the two-byte length, the nonce, m, the header byte and a nonempty signature value for
  which \<open>crypto_sign_verify\<close> accepts; on every other byte string it returns -1, without reading outside the input.
\<close>

theorem crypto_sign_open_correct:
  "crypto_sign_open sm pk \<noteq> None \<and>
   (crypto_sign_open sm pk = Some (Some m) \<longleftrightarrow>
     (\<exists>nonce sigbuf. sm = signed_message nonce m sigbuf \<and> length nonce = 40 \<and> sigbuf \<noteq> [] \<and> length sigbuf < 65535
        \<and> crypto_sign_verify (0x39 # nonce @ sigbuf) m pk = Some 0))"
proof -
  have v: "crypto_sign_verify (0x39 # nonce @ sigbuf) m pk = do_verify nonce sigbuf m pk" if "length nonce = 40" for nonce sigbuf m
    using that by (simp add: crypto_sign_verify_def NONCELEN_def)
  show ?thesis
  proof (cases "crypto_sign_open sm pk = Some None")
    case True
    then show ?thesis using open_signed_message v by fastforce
  next
    case False
    then obtain nonce m' sigbuf where f: "sm = signed_message nonce m' sigbuf" "length nonce = 40" "sigbuf \<noteq> []" "length sigbuf < 65535"
      using open_format by blast
    then have o: "crypto_sign_open sm pk = Some (Some m')" "do_verify nonce sigbuf m' pk = Some 0"
      using open_signed_message [OF f(2-4), of m' pk] False by (auto split: if_splits)
    then show ?thesis using f v [OF f(2)] open_signed_message v by fastforce
  qed
qed

text \<open>
  (C25) Signed messages and detached signatures agree: with the same random bytes, \<open>crypto_sign\<close> and
  \<open>crypto_sign_signature\<close> return together or not at all, fail together and leave the same randomness. The detached
  signature is the byte 0x39, the first 40 random bytes as the nonce and a value v; the signed message is the
  length of v plus one as two bytes, the same nonce, the message, the byte 0x29 and the same v, and nothing else.
  Opening it gives the message back when the detached signature verifies, and fails otherwise.
\<close>

theorem crypto_sign_consistent:
  assumes "88 \<le> length tape" "\<forall>sc key hm. length (snd (sign_dyn sc key hm)) = 512"
  shows "crypto_sign sign_dyn m sk tape =
      (case crypto_sign_signature sign_dyn m sk tape of
         None \<Rightarrow> None
       | Some (None, tape') \<Rightarrow> Some (None, tape')
       | Some (Some sig, tape') \<Rightarrow>
           let v = drop 41 sig
           in Some (Some ([of_nat ((length v + 1) div 256), of_nat ((length v + 1) mod 256)] @ take 40 tape @ m @ [0x29] @ v), tape')) \<and>
    (\<forall>sig tape'. crypto_sign_signature sign_dyn m sk tape = Some (Some sig, tape') \<longrightarrow>
       sig = [0x39] @ take 40 tape @ drop 41 sig \<and> 41 < length sig \<and> length sig \<le> 664 \<and>
       (\<forall>sm. crypto_sign sign_dyn m sk tape = Some (Some sm, tape') \<longrightarrow>
          crypto_sign_open sm pk = (if crypto_sign_verify sig m pk = Some 0 then Some (Some m) else Some None)))"
proof (cases "\<exists>nonce sigbuf tape'. do_sign sign_dyn 623 m sk tape = Some (Some (nonce, sigbuf), tape')")
  case False
  then show ?thesis
    by (auto simp: crypto_sign_def crypto_sign_signature_def CRYPTO_BYTES_def NONCELEN_def split: option.splits prod.splits)
next
  case True
  then obtain nonce sigbuf tape' where d: "do_sign sign_dyn 623 m sk tape = Some (Some (nonce, sigbuf), tape')" by blast
  have l: "sigbuf \<noteq> []" "length sigbuf \<le> 623" "length nonce = 40" "nonce = take 40 tape"
    using do_sign_sigbuf [OF d] assms by simp_all
  have sig: "crypto_sign_signature sign_dyn m sk tape = Some (Some (0x39 # nonce @ sigbuf), tape')"
    using d by (simp add: crypto_sign_signature_def CRYPTO_BYTES_def NONCELEN_def)
  have sm: "crypto_sign sign_dyn m sk tape = Some (Some (signed_message nonce m sigbuf), tape')"
    using d by (simp add: crypto_sign_def signed_message_def Let_def CRYPTO_BYTES_def NONCELEN_def add.commute)
  have b: "signed_message nonce m sigbuf =
      [of_nat ((length sigbuf + 1) div 256), of_nat ((length sigbuf + 1) mod 256)] @ nonce @ m @ [0x29] @ sigbuf"
    using length_header [of "length sigbuf + 1"] l(2) by (simp add: signed_message_def Let_def)
  have "crypto_sign_verify (0x39 # nonce @ sigbuf) m pk = do_verify nonce sigbuf m pk"
    using l(3) by (simp add: crypto_sign_verify_def NONCELEN_def)
  then have o: "crypto_sign_open (signed_message nonce m sigbuf) pk =
      (if crypto_sign_verify (0x39 # nonce @ sigbuf) m pk = Some 0 then Some (Some m) else Some None)"
    using open_signed_message [OF l(3,1), of m pk] l(2) by simp
  have v: "drop 41 (0x39 # nonce @ sigbuf) = sigbuf" using l(3) by simp
  show ?thesis unfolding sig sm using o b l v by (simp add: Let_def)
qed

theorem crypto_sign_consistent_witness:
  "\<exists>sign_dyn sk v. let t = replicate 88 5; sig = [0x39] @ replicate 40 5 @ v;
      sm = [of_nat ((length v + 1) div 256), of_nat ((length v + 1) mod 256)] @ replicate 40 5 @ [1, 2, 3] @ [0x29] @ v
    in crypto_sign_signature sign_dyn [1, 2, 3] sk t = Some (Some sig, []) \<and> crypto_sign sign_dyn [1, 2, 3] sk t = Some (Some sm, []) \<and>
      crypto_sign_open sm (replicate 897 9) = (if crypto_sign_verify sig [1, 2, 3] (replicate 897 9) = Some 0 then Some (Some [1, 2, 3]) else Some None)"
proof -
  let ?sd = "\<lambda>sc key hm. (sc, one_poly) :: u64 list \<times> u16 list" and ?t = "replicate 88 5 :: u8 list"
  obtain sk G where sk: "decode_private sk = Some (Some (one_poly, replicate 512 0, replicate 512 0, G))" by (rule one_key)
  have "sign_loop ?sd 623 key hm sc = Some (snd (comp_encode False 623 one_poly 9))" for key hm sc
    by (rule one_sign_loop) simp
  then obtain sig where sig: "crypto_sign_signature ?sd [1, 2, 3] sk ?t = Some (Some sig, [])"
    by (simp add: crypto_sign_signature_def do_sign_def sk randombytes_def CRYPTO_BYTES_def NONCELEN_def Let_def)
  have "length (one_poly :: u16 list) = 512" by (simp add: one_poly_def)
  then have c: "88 \<le> length ?t" "\<forall>sc key hm. length (snd (?sd sc key hm)) = 512" by simp_all
  note w = crypto_sign_consistent [OF c, of "[1, 2, 3]" sk "replicate 897 9", unfolded sig]
  have "take 40 ?t = replicate 40 5" by simp
  with w have s: "sig = [0x39] @ replicate 40 5 @ drop 41 sig" by simp
  show ?thesis
    by (intro exI [of _ ?sd] exI [of _ sk] exI [of _ "drop 41 sig"]) (use w s sig in \<open>simp add: Let_def\<close>)
qed

end
