(* ===== verification/Modp.thy ===== *)
theory Modp
  imports Modular
begin

text \<open>
  Arithmetic modulo a small prime \<open>p\<close>, \<open>2^30 < p < 2^31\<close>, as keygen.c does it on 32-bit words: branch-free
  additions and subtractions, Montgomery products with \<open>2^31\<close> and division by exponentiation. The locale
  \<open>small_modulus\<close> is the contract the callers rely on; all its laws hold for every odd modulus of
  that size, division for prime ones.
\<close>

section \<open>Model\<close>

definition modp_set :: "u32 \<Rightarrow> u32 \<Rightarrow> u32" where
  "modp_set x p = (let w = x in w + (p AND - drop_bit 31 w))"

definition modp_norm :: "u32 \<Rightarrow> u32 \<Rightarrow> u32" where
  "modp_norm x p = x - (p AND (drop_bit 31 (x - drop_bit 1 (p + 1)) - 1))"

definition modp_ninv31 :: "u32 \<Rightarrow> u32" where
  "modp_ninv31 p =
     (let y = 2 - p;
          y = y * (2 - p * y);
          y = y * (2 - p * y);
          y = y * (2 - p * y);
          y = y * (2 - p * y)
      in 0x7FFFFFFF AND - y)"

definition modp_R :: "u32 \<Rightarrow> u32" where
  "modp_R p = push_bit 31 1 - p"

definition modp_add :: "u32 \<Rightarrow> u32 \<Rightarrow> u32 \<Rightarrow> u32" where
  "modp_add a b p = (let d = a + b - p in d + (p AND - drop_bit 31 d))"

definition modp_sub :: "u32 \<Rightarrow> u32 \<Rightarrow> u32 \<Rightarrow> u32" where
  "modp_sub a b p = (let d = a - b in d + (p AND - drop_bit 31 d))"

definition modp_montymul :: "u32 \<Rightarrow> u32 \<Rightarrow> u32 \<Rightarrow> u32 \<Rightarrow> u32" where
  "modp_montymul a b p p0i =
     (let z = ucast a * ucast b :: u64;
          w = ((z * ucast p0i) AND 0x7FFFFFFF) * ucast p;
          d = ucast (drop_bit 31 (z + w)) - p
      in d + (p AND - drop_bit 31 d))"

definition modp_R2 :: "u32 \<Rightarrow> u32 \<Rightarrow> u32" where
  "modp_R2 p p0i =
     (let z = modp_R p;
          z = modp_add z z p;
          z = modp_montymul z z p p0i;
          z = modp_montymul z z p p0i;
          z = modp_montymul z z p p0i;
          z = modp_montymul z z p p0i;
          z = modp_montymul z z p p0i
      in drop_bit 1 (z + (p AND - (z AND 1))))"

function modp_Rx_loop :: "nat \<Rightarrow> u32 \<Rightarrow> u32 \<Rightarrow> u32 \<Rightarrow> u32 \<Rightarrow> u32 \<Rightarrow> u32" where
  "modp_Rx_loop i x r z p p0i =
     (if i < 32 \<and> push_bit i 1 \<le> x then
        let z = (if x AND push_bit i 1 \<noteq> 0 then modp_montymul z r p p0i else z);
            r = modp_montymul r r p p0i
        in modp_Rx_loop (i + 1) x r z p p0i
      else z)"
  by pat_completeness auto
termination
  by (relation "measure (\<lambda>(i, x, r, z, p, p0i). 32 - i)") auto

declare modp_Rx_loop.simps [simp del]

definition modp_Rx :: "u32 \<Rightarrow> u32 \<Rightarrow> u32 \<Rightarrow> u32 \<Rightarrow> u32" where
  "modp_Rx x p p0i R2 = modp_Rx_loop 0 (x - 1) R2 (modp_R p) p p0i"

definition modp_div_step :: "u32 \<Rightarrow> u32 \<Rightarrow> u32 \<Rightarrow> u32 \<Rightarrow> nat \<Rightarrow> u32 \<Rightarrow> u32" where
  "modp_div_step b p p0i e i z =
     (let z = modp_montymul z z p p0i;
          z2 = modp_montymul z b p p0i
      in z XOR ((z XOR z2) AND - (drop_bit i e AND 1)))"

definition modp_div :: "u32 \<Rightarrow> u32 \<Rightarrow> u32 \<Rightarrow> u32 \<Rightarrow> u32 \<Rightarrow> u32" where
  "modp_div a b p p0i R =
     (let e = p - 2;
          z = R;
          z = fold (modp_div_step b p p0i e) (rev [0..<31]) z;
          z = modp_montymul z 1 p p0i
      in modp_montymul a z p p0i)"

section \<open>Conditional corrections\<close>

lemma sint_word_of_int:
  assumes "- (2 ^ (LENGTH('a) - 1)) \<le> v" "v < 2 ^ (LENGTH('a) - 1)"
  shows "sint (word_of_int v :: 'a::len word) = v"
  unfolding sint_sbintrunc' using assms by (rule signed_take_bit_int_eq_self)

lemma and_mask31: "x AND 0x7FFFFFFF = take_bit 31 x" "0x7FFFFFFF AND x = take_bit 31 x" for x :: "'a::len word"
  by (simp_all add: take_bit_eq_mask mask_eq_exp_minus_1 and.commute)

lemma uint_and_mask31: "uint (x AND 0x7FFFFFFF) = uint x mod 2147483648" "uint (0x7FFFFFFF AND x) = uint x mod 2147483648"
  for x :: "'a::len word"
  unfolding and_mask31 unsigned_take_bit_eq by (simp_all add: take_bit_eq_mod)

lemma uint_up64 [simp]: "uint (ucast x :: u64) = uint x" for x :: u32
  unfolding uint_ucast_mod using uint32_lt [of x] by simp

lemma sign_mask32: "p AND - drop_bit 31 d = (if 2147483648 \<le> uint d then p else 0)" for d p :: u32
  unfolding sign_shift by simp

lemma cond_add_p:
  fixes d p :: u32
  assumes d: "uint d = v mod 4294967296" and v: "- uint p \<le> v" "v < uint p" and p: "uint p < 2147483648"
  shows "uint (d + (p AND - drop_bit 31 d)) = v mod uint p"
proof (cases "v < 0")
  case True
  then have "uint d = v + 4294967296" using d v p by (simp add: mod_neg_once)
  then show ?thesis using True v p mod_add_self1 [of 4294967296 "v + uint p"] unfolding sign_mask32
    by (simp add: uint_word_ariths mod_neg_once ac_simps)
next
  case False
  then have "uint d = v" using d v p by simp
  then show ?thesis using False v p unfolding sign_mask32 by simp
qed

lemma modp_ninv31_inverse:
  assumes "odd (uint p)"
  shows "(uint p * uint (modp_ninv31 p) + 1) mod 2147483648 = 0"
proof -
  define y0 where "y0 = 2 - p"
  define y1 where "y1 = y0 * (2 - p * y0)"
  define y2 where "y2 = y1 * (2 - p * y1)"
  define y3 where "y3 = y2 * (2 - p * y2)"
  define y4 where "y4 = y3 * (2 - p * y3)"
  have sq: "1 - p * (y * (2 - p * y)) = (1 - p * y) ^ 2" for y by (simp add: power2_eq_square algebra_simps)
  have "1 - p * y0 = (p - 1) ^ 2" by (simp add: y0_def power2_eq_square algebra_simps)
  then have "1 - p * y4 = ((((((p - 1) ^ 2) ^ 2) ^ 2) ^ 2) ^ 2)"
    unfolding y4_def y3_def y2_def y1_def sq by simp
  then have pw: "1 - p * y4 = (p - 1) ^ 32" by (simp flip: power_mult)
  obtain k where "uint p = 2 * k + 1" using assms by (elim oddE)
  then have "p = 2 * word_of_int k + 1" using word_of_int_uint [of p] by simp
  then have "(p - 1) ^ 32 = 2 ^ 32 * word_of_int k ^ 32" by (simp only: add_diff_cancel_right' power_mult_distrib)
  also have "(2 :: u32) ^ 32 = 0" by simp
  finally have "p * y4 = 1" using pw by simp
  then have n: "p * - y4 = - 1" by simp
  have r: "modp_ninv31 p = 0x7FFFFFFF AND - y4"
    unfolding modp_ninv31_def Let_def y4_def [symmetric] y3_def [symmetric] y2_def [symmetric] y1_def [symmetric] y0_def [symmetric] by (rule refl)
  have "uint (p * - y4) = 4294967295" unfolding n by (simp add: uint_word_ariths)
  then have m: "uint p * uint (- y4) mod 4294967296 = 4294967295" using uint_mult_mod [of p "- y4"] by simp
  have "(uint p * (uint (- y4) mod 2147483648) + 1) mod 2147483648 = (uint p * uint (- y4) + 1) mod 2147483648"
    by (metis mod_add_left_eq mod_mult_right_eq)
  also have "\<dots> = (uint p * uint (- y4) mod 4294967296 mod 2147483648 + 1) mod 2147483648"
    by (simp add: mod_mod_cancel mod_add_left_eq)
  finally show ?thesis unfolding r by (simp add: m uint_and_mask31)
qed

lemma montymul_commute: "modp_montymul a b p p0i = modp_montymul b a p p0i"
  unfolding modp_montymul_def mult.commute [of "ucast a"] by (rule refl)

section \<open>The contract of a small modulus\<close>

locale small_modulus =
  fixes p :: u32 and p0i :: u32
  assumes size: "1073741824 < uint p" "uint p < 2147483648" and odd_p: "odd (uint p)" and p0i: "p0i = modp_ninv31 p"
begin

abbreviation P :: int where
  "P \<equiv> uint p"

text \<open>The inverse of \<open>2^31\<close> modulo \<open>p\<close>.\<close>

definition RI :: int where
  "RI = (P * uint p0i + 1) div 2147483648"

lemma RI: "2147483648 * RI = P * uint p0i + 1"
  using modp_ninv31_inverse [OF odd_p] by (simp add: RI_def flip: p0i) (simp add: mod_0_imp_dvd)

lemma RI_inverse: "2147483648 * RI mod P = 1"
  unfolding RI using size by simp

lemma cancel_R:
  assumes "a * 2147483648 mod P = b * 2147483648 mod P"
  shows "a mod P = b mod P"
proof -
  have "x * 2147483648 * RI mod P = x mod P" for x
    using RI_inverse by (metis mod_mult_right_eq mult.assoc mult.right_neutral)
  then show ?thesis using assms by (metis mod_mult_left_eq)
qed

lemma uint_set [c_bounds]:
  assumes "- P < sint x" "sint x < P"
  shows "uint (modp_set x p) = sint x mod P"
proof -
  have "uint x = sint x mod 4294967296" by (simp add: uint_sint take_bit_eq_mod)
  then show ?thesis unfolding modp_set_def Let_def using assms size by (intro cond_add_p) simp_all
qed

lemma uint_add [c_bounds]:
  assumes "uint a < P" "uint b < P"
  shows "uint (modp_add a b p) = (uint a + uint b) mod P"
proof -
  have "uint (modp_add a b p) = (uint a + uint b - P) mod P" unfolding modp_add_def Let_def
    using assms size by (intro cond_add_p) (simp_all add: uint_word_ariths mod_simps add_increasing)
  then show ?thesis by simp
qed

lemma uint_sub [c_bounds]:
  assumes "uint a < P" "uint b \<le> P"
  shows "uint (modp_sub a b p) = (uint a - uint b) mod P"
proof -
  have "0 \<le> uint a" "0 \<le> uint b" by simp_all
  then show ?thesis unfolding modp_sub_def Let_def
    using assms size by (intro cond_add_p) (simp only: uint_word_ariths len_of_numeral_defs, simp, linarith+)
qed

lemma uint_R [c_bounds]: "uint (modp_R p) = 2147483648 mod P" "uint (modp_R p) < P"
proof -
  have "uint (modp_R p) = 2147483648 - P" unfolding modp_R_def using size by (simp add: uint_word_ariths)
  then show "uint (modp_R p) = 2147483648 mod P" using size by (simp add: mod_once)
  then show "uint (modp_R p) < P" using size by simp
qed

lemma monty_reduce:
  assumes z: "0 \<le> z" "z < 2147483648 * P"
  defines "t \<equiv> z + (z * uint p0i mod 2147483648) * P"
  shows "t mod 2147483648 = 0" "0 \<le> t" "t < 2147483648 * (2 * P)" "t div 2147483648 mod P = z * RI mod P"
proof -
  have "t mod 2147483648 = (z + z * uint p0i * P) mod 2147483648" unfolding t_def by (metis mod_add_right_eq mod_mult_left_eq)
  also have "z + z * uint p0i * P = 2147483648 * (RI * z)" using arg_cong [OF RI, of "\<lambda>r. r * z"] by (simp add: algebra_simps)
  finally show t0: "t mod 2147483648 = 0" by simp
  have m: "0 \<le> z * uint p0i mod 2147483648" "z * uint p0i mod 2147483648 < 2147483648" by simp_all
  then have "0 \<le> (z * uint p0i mod 2147483648) * P" "(z * uint p0i mod 2147483648) * P < 2147483648 * P"
    using size by (simp_all add: mult_strict_right_mono)
  then show "0 \<le> t" "t < 2147483648 * (2 * P)" using z unfolding t_def by linarith+
  have "t div 2147483648 * 2147483648 mod P = t mod P" using t0 by (simp add: mod_0_imp_dvd)
  also have "\<dots> = z mod P" unfolding t_def by simp
  also have "\<dots> = z * (2147483648 * RI mod P) mod P" unfolding RI_inverse by simp
  also have "\<dots> = z * RI * 2147483648 mod P" by (simp add: mod_mult_right_eq mult.assoc mult.left_commute mult.commute)
  finally show "t div 2147483648 mod P = z * RI mod P" by (rule cancel_R)
qed

lemma uint_montymul:
  assumes "uint a * uint b < 2147483648 * P"
  shows "uint (modp_montymul a b p p0i) = uint a * uint b * RI mod P"
proof -
  let ?z = "uint a * uint b"
  let ?m = "?z * uint p0i mod 2147483648"
  note f = monty_reduce [of ?z]
  have z: "uint (ucast a * ucast b :: u64) = ?z"
    using assms size by (simp add: uint_mult_mod)
  have p0: "uint (ucast p0i :: u64) = uint p0i" "uint (ucast p :: u64) = P" by simp_all
  have "uint ((ucast a * ucast b * ucast p0i :: u64) AND 0x7FFFFFFF) = uint (ucast a * ucast b * ucast p0i :: u64) mod 2147483648"
    by (rule uint_and_mask31)
  also have "uint (ucast a * ucast b * ucast p0i :: u64) = ?z * uint p0i mod 18446744073709551616"
    using uint_mult_mod [of "ucast a * ucast b :: u64" "ucast p0i"] z p0 by simp
  finally have m: "uint ((ucast a * ucast b * ucast p0i :: u64) AND 0x7FFFFFFF) = ?m" by (simp add: mod_mod_cancel)
  have m0: "0 \<le> ?m" "?m < 2147483648" by simp_all
  then have "?m * P < 2147483648 * 2147483648" using size by (intro mult_strict_mono') auto
  then have w: "uint (((ucast a * ucast b * ucast p0i :: u64) AND 0x7FFFFFFF) * ucast p) = ?m * P"
    using m0 size unfolding uint_mult_mod m p0 by simp
  have "?z + ?m * P < 18446744073709551616" using f(3) assms size by simp
  then have s: "uint (ucast a * ucast b + ((ucast a * ucast b * ucast p0i :: u64) AND 0x7FFFFFFF) * ucast p) = ?z + ?m * P"
    using m0 size by (simp add: uint_word_ariths(1) z w)
  let ?t = "(?z + ?m * P) div 2147483648"
  have t: "0 \<le> ?t" "?t < 2 * P" using f(2,3) assms by (simp_all add: pos_imp_zdiv_nonneg_iff div_less_iff_less_mult)
  have d: "uint (ucast (drop_bit 31 (ucast a * ucast b + ((ucast a * ucast b * ucast p0i :: u64) AND 0x7FFFFFFF) * ucast p)) :: u32) = ?t"
    using t size by (simp add: uint_ucast_mod uint_shr s)
  have "uint (modp_montymul a b p p0i) = (?t - P) mod P"
    unfolding modp_montymul_def Let_def
    by (rule cond_add_p) (use t size in \<open>simp_all add: uint_word_ariths d\<close>)
  then show ?thesis using f(4) assms by simp
qed

lemma montymul_range [c_bounds]:
  assumes "uint a < P" "uint b < 2147483648"
  shows "uint (modp_montymul a b p p0i) = uint a * uint b * RI mod P" "uint (modp_montymul a b p p0i) < P"
proof -
  have "uint a * uint b < P * 2147483648" using assms size by (intro mult_strict_mono') simp_all
  then show "uint (modp_montymul a b p p0i) = uint a * uint b * RI mod P" by (intro uint_montymul) (simp add: mult.commute)
  then show "uint (modp_montymul a b p p0i) < P" using size by simp
qed

subsection \<open>Montgomery representation\<close>

definition mont :: "u32 \<Rightarrow> int \<Rightarrow> bool" where
  "mont a x \<longleftrightarrow> uint a = x * 2147483648 mod P"

lemma mont_range: "mont a x \<Longrightarrow> uint a < P"
  using size by (simp add: mont_def)

lemma mult_R_RI: "x * 2147483648 * RI mod P = x mod P"
proof -
  have "x * 2147483648 * RI mod P = x * (2147483648 * RI mod P) mod P" by (simp add: mod_mult_right_eq mult.assoc)
  then show ?thesis unfolding RI_inverse by simp
qed

lemma mont_mult:
  assumes "mont a x" "uint b < P"
  shows "uint (modp_montymul a b p p0i) = x * uint b mod P"
proof -
  have "uint (modp_montymul a b p p0i) = (x * 2147483648 mod P) * (uint b * RI) mod P"
    using montymul_range(1) [of a b] mont_range [OF assms(1)] assms size by (simp add: mont_def mult.assoc)
  also have "\<dots> = x * 2147483648 * (uint b * RI) mod P" by (rule mod_mult_left_eq)
  also have "\<dots> = x * uint b * 2147483648 * RI mod P" by (simp only: ac_simps)
  finally show ?thesis unfolding mult_R_RI .
qed

lemma mont_mont_mult:
  assumes "mont a x" "mont b y"
  shows "mont (modp_montymul a b p p0i) (x * y)"
  using mont_mult [OF assms(1) mont_range [OF assms(2)]] assms(2) by (simp add: mont_def mod_mult_right_eq mult.assoc)

lemma mont_R: "mont (modp_R p) 1"
  by (simp add: mont_def uint_R)

lemma mont_add: "mont a x \<Longrightarrow> mont b y \<Longrightarrow> mont (modp_add a b p) (x + y)"
  using uint_add [of a b] by (simp add: mont_range) (simp add: mont_def mod_add_eq distrib_right)

lemma mont_self: "uint b < P \<Longrightarrow> mont b (uint b * RI)"
  using mult_R_RI [of "uint b"] by (simp add: mont_def ac_simps)

lemma cancel_2: "2 * a mod P = 2 * b mod P \<Longrightarrow> a mod P = b mod P"
proof (rule cancel_R)
  assume h: "2 * a mod P = 2 * b mod P"
  have "x * 2147483648 mod P = (2 * x mod P) * 1073741824 mod P" for x by (simp add: mod_mult_left_eq mult.commute)
  then show "a * 2147483648 mod P = b * 2147483648 mod P" using h by simp
qed

lemma halve:
  assumes "uint z < P"
  shows "uint (drop_bit 1 (z + (p AND - (z AND 1)))) < P" "2 * uint (drop_bit 1 (z + (p AND - (z AND 1)))) mod P = uint z mod P"
proof -
  have z0: "0 \<le> uint z" by simp
  have odd: "z AND 1 = (if odd (uint z) then 1 else 0)"
    by (simp add: and_one_eq odd_iff_mod_2_eq_one word_uint_eq_iff uint_mod)
  have r: "uint (drop_bit 1 (z + (p AND - (z AND 1)))) = (if odd (uint z) then (uint z + P) div 2 else uint z div 2)"
    unfolding odd using assms size by (simp add: uint_shr uint_word_ariths)
  have "(uint z + P) div 2 < P" "uint z div 2 < P" using assms z0 by linarith+
  then show "uint (drop_bit 1 (z + (p AND - (z AND 1)))) < P" unfolding r by simp
  have "2 * ((uint z + P) div 2) = uint z + P" if "odd (uint z)" using that odd_p by (simp add: odd_even_add)
  then show "2 * uint (drop_bit 1 (z + (p AND - (z AND 1)))) mod P = uint z mod P" unfolding r by simp
qed

lemma uint_R2 [c_bounds]: "uint (modp_R2 p p0i) = 4611686018427387904 mod P" "uint (modp_R2 p p0i) < P" "mont (modp_R2 p p0i) 2147483648"
proof -
  define z0 where "z0 = modp_add (modp_R p) (modp_R p) p"
  define z1 where "z1 = modp_montymul z0 z0 p p0i"
  define z2 where "z2 = modp_montymul z1 z1 p p0i"
  define z3 where "z3 = modp_montymul z2 z2 p p0i"
  define z4 where "z4 = modp_montymul z3 z3 p p0i"
  define z5 where "z5 = modp_montymul z4 z4 p p0i"
  have 0: "mont z0 2" using mont_add [OF mont_R mont_R] by (simp add: z0_def)
  have 1: "mont z1 4" using mont_mont_mult [OF 0 0] by (simp add: z1_def)
  have 2: "mont z2 16" using mont_mont_mult [OF 1 1] by (simp add: z2_def)
  have 3: "mont z3 256" using mont_mont_mult [OF 2 2] by (simp add: z3_def)
  have 4: "mont z4 65536" using mont_mont_mult [OF 3 3] by (simp add: z4_def)
  have 5: "mont z5 4294967296" using mont_mont_mult [OF 4 4] by (simp add: z5_def)
  have r: "modp_R2 p p0i = drop_bit 1 (z5 + (p AND - (z5 AND 1)))"
    unfolding modp_R2_def Let_def z5_def z4_def z3_def z2_def z1_def z0_def by (rule refl)
  have h: "uint (modp_R2 p p0i) < P" "2 * uint (modp_R2 p p0i) mod P = 2 * 4611686018427387904 mod P"
    using halve [OF mont_range [OF 5]] 5 unfolding r mont_def by simp_all
  show e: "uint (modp_R2 p p0i) = 4611686018427387904 mod P" using cancel_2 [OF h(2)] h(1) by simp
  show "uint (modp_R2 p p0i) < P" by (rule h(1))
  show "mont (modp_R2 p p0i) 2147483648" unfolding mont_def e by simp
qed

lemma mont_of: "uint a < P \<Longrightarrow> mont (modp_montymul a (modp_R2 p p0i) p p0i) (uint a)"
  using mont_mult [OF uint_R2(3), of a] montymul_commute [of a] by (simp add: mont_def mult.commute)

lemma Rx_loop:
  assumes "i \<le> 32" "mont r (2147483648 ^ 2 ^ i)" "mont z (2147483648 ^ (unat x mod 2 ^ i))"
  shows "mont (modp_Rx_loop i x r z p p0i) (2147483648 ^ unat x)"
  using assms
proof (induction "32 - i" arbitrary: i r z)
  case 0
  then have i: "i = 32" by linarith
  have "unat x < 2 ^ i" unfolding i using unsigned_less [of x, where ?'a = nat] by simp
  moreover have "\<not> i < 32" using i by simp
  ultimately show ?case using 0(4) by (subst modp_Rx_loop.simps) simp
next
  case (Suc k)
  then have i: "i < 32" by simp
  then have "(2 :: nat) ^ i < 2 ^ 32" by (simp only: power_strict_increasing_iff)
  then have one: "unat (push_bit i 1 :: u32) = 2 ^ i" unfolding unat_shl by simp
  show ?case
  proof (cases "push_bit i 1 \<le> x")
    case True
    have bit: "x AND push_bit i 1 \<noteq> 0 \<longleftrightarrow> bit x i" "x AND 2 ^ i = 0 \<longleftrightarrow> \<not> bit x i" using i by (simp_all add: push_bit_eq_mult and_exp_eq_0_iff_not_bit)
    have step: "unat x mod 2 ^ Suc i = unat x mod 2 ^ i + (if bit x i then 2 ^ i else 0)"
      using take_bit_Suc_from_most [of i "unat x"] by (simp add: take_bit_eq_mod bit_unsigned_iff)
    let ?z = "if bit x i then modp_montymul z r p p0i else z"
    have "mont ?z (2147483648 ^ (unat x mod 2 ^ Suc i))"
      using mont_mont_mult [OF Suc.prems(3,2)] Suc.prems(3) unfolding step by (simp add: power_add)
    moreover have "mont (modp_montymul r r p p0i) (2147483648 ^ 2 ^ Suc i)"
      using mont_mont_mult [OF Suc.prems(2,2)] by (simp add: mult_2 flip: power_add)
    ultimately have "mont (modp_Rx_loop (Suc i) x (modp_montymul r r p p0i) ?z p p0i) (2147483648 ^ unat x)"
      using Suc.hyps(1) [of "Suc i"] Suc.hyps(2) i by simp
    then show ?thesis using True i by (subst modp_Rx_loop.simps) (simp add: bit Let_def)
  next
    case False
    then have "unat x < 2 ^ i" unfolding word_le_nat_alt one by simp
    then show ?thesis using False Suc.prems by (subst modp_Rx_loop.simps) simp
  qed
qed

lemma uint_Rx [c_bounds]:
  assumes "0 < x"
  shows "uint (modp_Rx x p p0i (modp_R2 p p0i)) = 2 ^ (31 * unat x) mod P"
proof -
  have "mont (modp_Rx x p p0i (modp_R2 p p0i)) (2147483648 ^ unat (x - 1))"
    unfolding modp_Rx_def by (rule Rx_loop) (use uint_R2(3) mont_R in simp_all)
  moreover have "unat x = Suc (unat (x - 1))" using assms by (simp add: unat_minus_one unat_gt_0)
  ultimately show ?thesis unfolding mont_def power_mult by (simp add: mult.commute)
qed

lemma uint_norm [c_bounds]:
  assumes "uint x < P"
  shows "sint (modp_norm x p) = (if 2 * uint x < P then uint x else uint x - P)"
proof -
  have x0: "0 \<le> uint x" by simp
  obtain k where k: "P = 2 * k + 1" using odd_p by (elim oddE)
  have "uint (drop_bit 1 (p + 1)) = k + 1" using size k by (simp add: uint_shr uint_word_ariths)
  then have "uint (x - drop_bit 1 (p + 1)) = (uint x - (k + 1)) mod 4294967296" by (simp add: uint_word_ariths)
  also have "(uint x - (k + 1)) mod 4294967296 = (if uint x < k + 1 then uint x - (k + 1) + 4294967296 else uint x - (k + 1))"
  proof (cases "uint x < k + 1")
    case True
    then have "uint x - (k + 1) < 0" "- 4294967296 \<le> uint x - (k + 1)" using size k x0 by linarith+
    then show ?thesis using True by (simp only: mod_neg_once if_True)
  qed (use assms size k in simp)
  finally have u: "uint (x - drop_bit 1 (p + 1)) = (if uint x < k + 1 then uint x - (k + 1) + 4294967296 else uint x - (k + 1))" .
  have "2147483648 \<le> uint (x - drop_bit 1 (p + 1)) \<longleftrightarrow> 2 * uint x < P"
    unfolding u using assms size k x0 by (cases "uint x < k + 1"; simp only: if_True if_False; linarith)
  then have m: "p AND (drop_bit 31 (x - drop_bit 1 (p + 1)) - 1) = (if 2 * uint x < P then 0 else p)"
    unfolding sign_shift by simp
  have "sint x = uint x"
    unfolding sint_uint by (rule signed_take_bit_int_eq_self) (use assms size x0 in \<open>simp only: len_of_numeral_defs; simp; linarith\<close>)+
  moreover have "sint (x - p) = uint x - P"
  proof -
    have "x - p = word_of_int (uint x - P)" by simp
    moreover have "sint (word_of_int (uint x - P) :: u32) = uint x - P"
      by (rule sint_word_of_int) (use assms size x0 in \<open>simp only: len_of_numeral_defs; simp; linarith\<close>)+
    ultimately show ?thesis by simp
  qed
  ultimately show ?thesis unfolding modp_norm_def m by simp
qed

lemma norm_set:
  assumes "uint a < P"
  shows "modp_set (modp_norm a p) p = a" "2 * \<bar>sint (modp_norm a p)\<bar> < P"
proof -
  have a0: "0 \<le> uint a" by simp
  have "2 * uint a \<noteq> P" using odd_p by (metis even_mult_iff even_numeral)
  then show "2 * \<bar>sint (modp_norm a p)\<bar> < P" unfolding uint_norm [OF assms] using assms a0 by (simp split: if_splits; linarith)
  have "- P < sint (modp_norm a p)" "sint (modp_norm a p) < P" unfolding uint_norm [OF assms] using assms a0 size by (simp split: if_splits; linarith)+
  then have "uint (modp_set (modp_norm a p) p) = sint (modp_norm a p) mod P" by (rule uint_set)
  also have "\<dots> = uint a" unfolding uint_norm [OF assms] using assms a0 by simp
  finally show "modp_set (modp_norm a p) p = a" by (simp only: word_uint_eq_iff)
qed

lemma residues:
  assumes "uint a < P" "uint b < P"
  shows "uint (modp_add a b p) = (uint a + uint b) mod P \<and> uint (modp_sub a b p) = (uint a - uint b) mod P
    \<and> uint (modp_montymul a b p p0i) < P \<and> uint (modp_montymul a b p p0i) * 2 ^ 31 mod P = uint a * uint b mod P
    \<and> modp_set (modp_norm a p) p = a \<and> 2 * \<bar>sint (modp_norm a p)\<bar> < P"
proof -
  have b: "uint b < 2147483648" using assms(2) size by linarith
  have "uint a * uint b * RI mod P * 2147483648 mod P = uint a * uint b * 2147483648 * RI mod P" by (simp add: mod_mult_left_eq ac_simps)
  then have "uint (modp_montymul a b p p0i) * 2 ^ 31 mod P = uint a * uint b mod P"
    unfolding montymul_range(1) [OF assms(1) b] by (simp add: mult_R_RI)
  then show ?thesis using uint_add [OF assms] uint_sub [OF assms(1), of b] assms(2) montymul_range(2) [OF assms(1) b] norm_set [OF assms(1)] by simp
qed

subsection \<open>Division\<close>

lemma div_step:
  assumes "mont z (c ^ (unat e div 2 ^ Suc i))" "mont b c"
  shows "mont (modp_div_step b p p0i e i z) (c ^ (unat e div 2 ^ i))"
proof -
  let ?n = "unat e div 2 ^ Suc i"
  have sq: "mont (modp_montymul z z p p0i) (c ^ (?n + ?n))" using mont_mont_mult [OF assms(1,1)] by (simp add: power_add)
  have mu: "mont (modp_montymul (modp_montymul z z p p0i) b p p0i) (c ^ Suc (?n + ?n))"
    using mont_mont_mult [OF sq assms(2)] by (simp add: mult.commute)
  have bit: "drop_bit i e AND 1 = (if odd (unat e div 2 ^ i) then 1 else 0)"
    by (simp add: and_one_eq odd_iff_mod_2_eq_one word_unat_eq_iff unat_mod unat_shr)
  have "unat e div 2 ^ i = (if odd (unat e div 2 ^ i) then Suc (?n + ?n) else ?n + ?n)"
    unfolding power_Suc2 div_mult2_eq by (metis add_self_div_2 div_add1_eq even_two_times_div_two mult_2 odd_two_times_div_two_succ add.commute plus_1_eq_Suc)
  then show ?thesis unfolding modp_div_step_def Let_def bit using sq mu by (auto simp: xor.left_commute xor.commute)
qed

lemma div_loop:
  assumes "mont b c" "mont z (c ^ (unat e div 2 ^ n))"
  shows "mont (fold (modp_div_step b p p0i e) (rev [0..<n]) z) (c ^ unat e)"
  using assms(2)
proof (induction n arbitrary: z)
  case (Suc n)
  then show ?case using div_step [OF Suc.prems assms(1)] by simp
qed simp

lemma div_correct [c_bounds]:
  assumes "is_prime (nat P)" "uint a < P" "uint b < P" "b \<noteq> 0"
  shows "uint (modp_div a b p p0i (modp_R p)) * uint b mod P = uint a" "uint (modp_div a b p p0i (modp_R p)) < P"
proof -
  define z where "z = fold (modp_div_step b p p0i (p - 2)) (rev [0..<31]) (modp_R p)"
  let ?c = "uint b * RI"
  have "2 \<le> p" using size by (simp add: word_le_def)
  then have e: "unat (p - 2) = nat P - 2" by (simp add: unat_sub)
  have "nat P < 2 ^ 31" using size by (simp add: nat_less_iff del: nat_uint_eq)
  then have "unat (p - 2) < 2 ^ 31" unfolding e by linarith
  then have "mont (modp_R p) (?c ^ (unat (p - 2) div 2 ^ 31))" using mont_R by (simp only: div_less power_0)
  then have "mont z (?c ^ (nat P - 2))"
    unfolding z_def e [symmetric] by (rule div_loop [OF mont_self [OF assms(3)]])
  then have z1: "uint (modp_montymul z 1 p p0i) = ?c ^ (nat P - 2) mod P"
    using mont_mult [of z _ 1] size by simp
  have zb: "?c ^ (nat P - 2) mod P < 2147483648" using pos_mod_bound [of P "?c ^ (nat P - 2)"] size by linarith
  let ?d = "modp_div a b p p0i (modp_R p)"
  have d: "?d = modp_montymul a (modp_montymul z 1 p p0i) p p0i" by (simp add: modp_div_def z_def)
  have r: "uint ?d = uint a * (?c ^ (nat P - 2) mod P) * RI mod P" "uint ?d < P"
    unfolding d z1 [symmetric] by (rule montymul_range [OF assms(2)], use z1 zb in simp)+
  show "uint ?d < P" by (rule r(2))
  have "\<not> int (nat P) dvd ?c"
  proof
    assume "int (nat P) dvd ?c"
    then have "?c mod P = 0" using size by simp
    then have "?c * 2147483648 mod P = 0" by (simp add: mod_0_imp_dvd dvd_imp_mod_0)
    then have "uint b mod P = 0" using mult_R_RI [of "uint b"] by (simp add: ac_simps)
    then show False using assms(3,4) by (simp add: uint_0_iff)
  qed
  then have f: "?c ^ (nat P - 1) mod P = 1" using fermat_int [OF assms(1), of ?c] size by simp
  define w where "w = ?c ^ (nat P - 2)"
  have pw: "w * ?c = ?c ^ (nat P - 1)"
  proof -
    have "2 < nat P" using size by linarith
    then have "nat P - 1 = Suc (nat P - 2)" by linarith
    then show ?thesis unfolding w_def by (simp only: power_Suc2)
  qed
  have "uint ?d * uint b mod P = (w mod P) * (uint a * RI * uint b) mod P"
    unfolding r(1) w_def [symmetric] mod_mult_left_eq [of "uint a * (w mod P) * RI"] by (simp only: ac_simps)
  also have "\<dots> = w * (uint a * RI * uint b) mod P" by (rule mod_mult_left_eq)
  also have "w * (uint a * RI * uint b) = uint a * (w * ?c)" by (simp only: ac_simps)
  also have "\<dots> mod P = uint a * (?c ^ (nat P - 1) mod P) mod P" unfolding pw by (simp only: mod_mult_right_eq)
  finally show "uint ?d * uint b mod P = uint a" unfolding f using assms(2) by simp
qed

end

end
