(* ===== verification/Zint.thy ===== *)
theory Zint
  imports Modp
begin

text \<open>
  The big integers of keygen.c: arrays of 31-bit words in 32-bit variables, least significant first, with
  two's complement over the whole array for negative values. The value of an array is \<open>zval\<close>, read as a
  signed number \<open>zsval\<close>; every operation is shown to be the integer operation on these values, with the
  carries and truncations of the code.
\<close>

section \<open>Model\<close>

definition zint_sub :: "u32 list \<Rightarrow> u32 list \<Rightarrow> nat \<Rightarrow> u32 \<Rightarrow> u32 list \<times> u32" where
  "zint_sub a b len ctl =
     (let m = - ctl
      in fold (\<lambda>u (a, cc).
           let aw = a ! u;
               w = aw - b ! u - cc;
               cc = drop_bit 31 w;
               aw = aw XOR (((w AND 0x7FFFFFFF) XOR aw) AND m)
           in (a[u := aw], cc)) [0..<len] (a, 0))"

definition zint_mul_small :: "u32 list \<Rightarrow> nat \<Rightarrow> u32 \<Rightarrow> u32 list \<times> u32" where
  "zint_mul_small m mlen x =
     fold (\<lambda>u (m, cc).
       let z = ucast (m ! u) * ucast x + ucast cc :: u64
       in (m[u := ucast z AND 0x7FFFFFFF], ucast (drop_bit 31 z))) [0..<mlen] (m, 0 :: u32)"

definition zint_mod_small_unsigned :: "u32 list \<Rightarrow> nat \<Rightarrow> u32 \<Rightarrow> u32 \<Rightarrow> u32 \<Rightarrow> u32" where
  "zint_mod_small_unsigned d dlen p p0i R2 =
     fold (\<lambda>u x.
       let x = modp_montymul x R2 p p0i;
           w = d ! u - p;
           w = w + (p AND - drop_bit 31 w)
       in modp_add x w p) (rev [0..<dlen]) 0"

definition zint_mod_small_signed :: "u32 list \<Rightarrow> nat \<Rightarrow> u32 \<Rightarrow> u32 \<Rightarrow> u32 \<Rightarrow> u32 \<Rightarrow> u32" where
  "zint_mod_small_signed d dlen p p0i R2 Rx =
     (if dlen = 0 then 0
      else
        let z = zint_mod_small_unsigned d dlen p p0i R2
        in modp_sub z (Rx AND - drop_bit 30 (d ! (dlen - 1))) p)"

definition zint_add_mul_small :: "u32 list \<Rightarrow> u32 list \<Rightarrow> nat \<Rightarrow> u32 \<Rightarrow> u32 list" where
  "zint_add_mul_small x y len s =
     (let (x, cc) = fold (\<lambda>u (x, cc).
            let xw = x ! u;
                yw = y ! u;
                z = ucast yw * ucast s + ucast xw + ucast cc :: u64
            in (x[u := ucast z AND 0x7FFFFFFF], ucast (drop_bit 31 z))) [0..<len] (x, 0 :: u32)
      in x[len := cc])"

definition norm_zero_step :: "u32 list \<Rightarrow> u32 list \<Rightarrow> nat \<Rightarrow> u32 \<times> u32 \<Rightarrow> u32 \<times> u32" where
  "norm_zero_step x p u st =
     (let (r, bb) = st;
          wx = x ! u;
          wp = drop_bit 1 (p ! u) OR push_bit 30 bb;
          bb = p ! u AND 1;
          cc = wp - wx;
          cc = drop_bit 31 (- cc) OR - drop_bit 31 cc;
          r = r OR (cc AND ((r AND 1) - 1))
      in (r, bb))"

definition zint_norm_zero :: "u32 list \<Rightarrow> u32 list \<Rightarrow> nat \<Rightarrow> u32 list" where
  "zint_norm_zero x p len =
     (let (r, bb) = fold (norm_zero_step x p) (rev [0..<len]) (0, 0);
          (x, cc) = zint_sub x p len (drop_bit 31 r)
      in x)"

definition zint_negate :: "u32 list \<Rightarrow> nat \<Rightarrow> u32 \<Rightarrow> u32 list" where
  "zint_negate a len ctl =
     (let cc = ctl;
          m = drop_bit 1 (- ctl);
          (a, cc) = fold (\<lambda>u (a, cc).
            let aw = a ! u;
                aw = (aw XOR m) + cc
            in (a[u := aw AND 0x7FFFFFFF], drop_bit 31 aw)) [0..<len] (a, cc)
      in a)"

definition scaled_word :: "u32 list \<Rightarrow> nat \<Rightarrow> u32 \<Rightarrow> nat \<Rightarrow> nat \<Rightarrow> u32 \<Rightarrow> u32 \<times> u32" where
  "scaled_word y ylen ysign scl v tw =
     (let wy = (if v < ylen then y ! v else ysign)
      in ((push_bit scl wy AND 0x7FFFFFFF) OR tw, drop_bit (31 - scl) wy))"

definition zint_add_scaled_mul_small :: "u32 list \<Rightarrow> nat \<Rightarrow> u32 list \<Rightarrow> nat \<Rightarrow> u32 \<Rightarrow> nat \<Rightarrow> nat \<Rightarrow> u32 list" where
  "zint_add_scaled_mul_small x xlen y ylen k sch scl =
     (if ylen = 0 then x
      else
        let ysign = drop_bit 1 (- drop_bit 30 (y ! (ylen - 1)));
            (x, tw, cc) = fold (\<lambda>u (x, tw, cc).
              let (wys, tw) = scaled_word y ylen ysign scl (u - sch) tw;
                  z = ucast wys * scast k + ucast (x ! u) + scast cc :: u64;
                  ccu = ucast (drop_bit 31 z)
              in (x[u := ucast z AND 0x7FFFFFFF], tw, ccu)) [sch..<xlen] (x, 0 :: u32, 0 :: u32)
        in x)"

definition zint_sub_scaled :: "u32 list \<Rightarrow> nat \<Rightarrow> u32 list \<Rightarrow> nat \<Rightarrow> nat \<Rightarrow> nat \<Rightarrow> u32 list" where
  "zint_sub_scaled x xlen y ylen sch scl =
     (if ylen = 0 then x
      else
        let ysign = drop_bit 1 (- drop_bit 30 (y ! (ylen - 1)));
            (x, tw, cc) = fold (\<lambda>u (x, tw, cc).
              let (wys, tw) = scaled_word y ylen ysign scl (u - sch) tw;
                  w = x ! u - wys - cc
              in (x[u := w AND 0x7FFFFFFF], tw, drop_bit 31 w)) [sch..<xlen] (x, 0 :: u32, 0)
        in x)"

definition zint_one_to_plain :: "u32 list \<Rightarrow> u32" where
  "zint_one_to_plain x = (let w = x ! 0 in w OR push_bit 1 (w AND 0x40000000))"

section \<open>Values of word arrays\<close>

abbreviation B :: int where
  "B \<equiv> 2147483648"

definition zwords :: "u32 list \<Rightarrow> bool" where
  "zwords xs \<longleftrightarrow> (\<forall>x \<in> set xs. uint x < B)"

primrec zval :: "u32 list \<Rightarrow> int" where
  "zval [] = 0" |
  "zval (x # xs) = uint x + B * zval xs"

definition zsval :: "u32 list \<Rightarrow> int" where
  "zsval xs = (if xs \<noteq> [] \<and> 1073741824 \<le> uint (last xs) then zval xs - B ^ length xs else zval xs)"

lemma zwords_simps [simp]: "zwords []" "zwords (x # xs) \<longleftrightarrow> uint x < B \<and> zwords xs" "zwords (xs @ ys) \<longleftrightarrow> zwords xs \<and> zwords ys"
  by (auto simp: zwords_def)

lemma zwords_nth: "zwords xs \<Longrightarrow> u < length xs \<Longrightarrow> uint (xs ! u) < B"
  by (simp add: zwords_def)

lemma zwords_take: "zwords xs \<Longrightarrow> zwords (take n xs)"
  by (auto simp: zwords_def dest: in_set_takeD)

lemma zval_append: "zval (xs @ ys) = zval xs + B ^ length xs * zval ys"
  by (induction xs) (simp_all add: algebra_simps)

lemma zval_snoc [simp]: "zval (xs @ [x]) = zval xs + B ^ length xs * uint x"
  by (simp add: zval_append)

lemma zval_take_Suc: "u < length xs \<Longrightarrow> zval (take (Suc u) xs) = zval (take u xs) + B ^ u * uint (xs ! u)"
  by (simp add: take_Suc_conv_app_nth)

lemma zval_sum: "n \<le> length xs \<Longrightarrow> zval (take n xs) = (\<Sum>u<n. uint (xs ! u) * B ^ u)"
  by (induction n) (simp_all add: zval_take_Suc mult.commute)

lemma zval_sum_all: "zval xs = (\<Sum>u<length xs. uint (xs ! u) * B ^ u)"
  using zval_sum [of "length xs" xs] by simp

lemma zval_nonneg: "0 \<le> zval xs"
  by (induction xs) simp_all

lemma zval_less: "zwords xs \<Longrightarrow> zval xs < B ^ length xs"
proof (induction xs)
  case (Cons x xs)
  then have "B * (zval xs + 1) \<le> B * B ^ length xs" by (intro mult_left_mono) simp_all
  then show ?case using Cons.prems by simp
qed simp

lemma zval_inj: "zwords xs \<Longrightarrow> zwords ys \<Longrightarrow> length xs = length ys \<Longrightarrow> zval xs = zval ys \<Longrightarrow> xs = ys"
proof (induction xs ys rule: list_induct2')
  case (4 x xs y ys)
  have "(uint x + B * zval xs) mod B = uint x" "(uint y + B * zval ys) mod B = uint y" using 4(2,3) by simp_all
  then have "uint x = uint y" using 4(5) by (simp only: zval.simps)
  then show ?case using 4 by (simp add: word_uint_eq_iff)
qed simp_all

section \<open>Loops with a carry\<close>

text \<open>
  Every loop of the source goes over an array from its low end, replaces a word and passes a carry on. If each
  step keeps \<open>word + B carry' = t u + carry\<close>, the whole loop adds up the terms \<open>t u\<close>.
\<close>

lemma carry_fold:
  fixes K :: "'c \<Rightarrow> int" and f :: "nat \<Rightarrow> u32 \<Rightarrow> 'c \<Rightarrow> u32 \<times> 'c"
  assumes step: "\<And>u c w c'. u < len \<Longrightarrow> J u c \<Longrightarrow> f u (a ! u) c = (w, c') \<Longrightarrow>
      uint w < B \<and> J (Suc u) c' \<and> uint w + B * K c' = t u + K c"
    and loop: "fold (\<lambda>u (x, c). case f u (x ! u) c of (w, c') \<Rightarrow> (x[u := w], c')) [0..<len] (a, c0) = (a', c')"
    and "J 0 c0" "len \<le> length a"
  shows "length a' = length a" "drop len a' = drop len a" "zwords (take len a')" "J len c'"
    "zval (take len a') + B ^ len * K c' = (\<Sum>u<len. t u * B ^ u) + K c0"
proof -
  have "length a' = length a \<and> drop n a' = drop n a \<and> zwords (take n a') \<and> J n c' \<and>
      zval (take n a') + B ^ n * K c' = (\<Sum>u<n. t u * B ^ u) + K c0"
    if "n \<le> len" "fold (\<lambda>u (x, c). case f u (x ! u) c of (w, c') \<Rightarrow> (x[u := w], c')) [0..<n] (a, c0) = (a', c')" for n a' c'
    using that
  proof (induction n arbitrary: a' c')
    case (Suc n)
    obtain a1 c1 where 1: "fold (\<lambda>u (x, c). case f u (x ! u) c of (w, c') \<Rightarrow> (x[u := w], c')) [0..<n] (a, c0) = (a1, c1)"
      by fastforce
    obtain w c2 where 2: "f n (a1 ! n) c1 = (w, c2)" by fastforce
    have e: "a' = a1[n := w]" "c' = c2" using Suc.prems(2) 1 2 by simp_all
    have IH: "length a1 = length a" "drop n a1 = drop n a" "zwords (take n a1)" "J n c1"
      "zval (take n a1) + B ^ n * K c1 = (\<Sum>u<n. t u * B ^ u) + K c0" using Suc.IH [OF _ 1] Suc.prems(1) by simp_all
    have n: "n < length a1" "n < length a" using Suc.prems(1) assms(4) IH(1) by simp_all
    have "a1 ! n = a ! n" using arg_cong [OF IH(2), of hd] n by (simp add: hd_drop_conv_nth)
    then have s: "uint w < B" "J (Suc n) c2" "uint w + B * K c2 = t n + K c1"
      using step [of n c1 w c2] Suc.prems(1) IH(4) 2 by simp_all
    have t: "take (Suc n) a' = take n a1 @ [w]" using n by (simp add: e take_Suc_conv_app_nth)
    have "zval (take (Suc n) a') + B ^ Suc n * K c' = zval (take n a1) + B ^ n * (uint w + B * K c2)"
      unfolding t e(2) using n by (simp add: algebra_simps)
    also have "\<dots> = (\<Sum>u<Suc n. t u * B ^ u) + K c0" unfolding s(3) using IH(5) by (simp add: algebra_simps)
    finally have v: "zval (take (Suc n) a') + B ^ Suc n * K c' = (\<Sum>u<Suc n. t u * B ^ u) + K c0" .
    have "drop (Suc n) a1 = drop (Suc n) a" using arg_cong [OF IH(2), of tl] by (simp add: tl_drop flip: drop_Suc)
    then have "drop (Suc n) a' = drop (Suc n) a" by (simp add: e(1))
    then show ?case using v IH s t n by (simp add: e)
  qed (use assms(3) in simp)
  from this [OF order.refl loop] show "length a' = length a" "drop len a' = drop len a" "zwords (take len a')" "J len c'"
    "zval (take len a') + B ^ len * K c' = (\<Sum>u<len. t u * B ^ u) + K c0" by blast+
qed

lemma split31: "uint (w AND 0x7FFFFFFF) + B * uint (drop_bit 31 w) = uint w" "uint (w AND 0x7FFFFFFF) < B" for w :: "'a::len word"
  by (simp_all add: uint_and_mask31 uint_shr)

lemma borrow31:
  fixes w :: u32
  assumes "uint w = v mod 4294967296" "- B \<le> v" "v < B"
  shows "uint (w AND 0x7FFFFFFF) = v + B * uint (drop_bit 31 w)" "uint (drop_bit 31 w) = (if v < 0 then 1 else 0)"
proof -
  have w: "uint w = (if v < 0 then v + 4294967296 else v)"
    using assms mod_neg_once [of v 4294967296] by (cases "v < 0") simp_all
  then have "B \<le> uint w \<longleftrightarrow> v < 0" using assms by (cases "v < 0") simp_all
  then show c: "uint (drop_bit 31 w) = (if v < 0 then 1 else 0)" unfolding sign_shift by simp
  show "uint (w AND 0x7FFFFFFF) = v + B * uint (drop_bit 31 w)"
    using split31(1) [of w] w by (simp add: c split: if_splits)
qed

lemma sub_step:
  fixes aw bw c :: u32
  assumes "uint aw < B" "uint bw < B" "uint c \<le> 1"
  shows "uint (aw - bw - c AND 0x7FFFFFFF) < B \<and> uint (drop_bit 31 (aw - bw - c)) \<le> 1 \<and>
    uint (aw - bw - c AND 0x7FFFFFFF) + B * - uint (drop_bit 31 (aw - bw - c)) = (uint aw - uint bw) + - uint c"
proof -
  have w: "0 \<le> uint aw" "0 \<le> uint bw" "0 \<le> uint c" by simp_all
  have "uint (aw - bw - c AND 0x7FFFFFFF) = (uint aw - uint bw - uint c) + B * uint (drop_bit 31 (aw - bw - c))"
    "uint (drop_bit 31 (aw - bw - c)) = (if uint aw - uint bw - uint c < 0 then 1 else 0)"
    using w assms by (intro borrow31; (simp only: uint_word_ariths mod_simps len_of_numeral_defs; simp)?; linarith)+
  then show ?thesis using split31(2) [of "aw - bw - c"] by simp
qed

lemma xor_cancel: "a XOR (m XOR a) = m" for a m :: "'a::len word"
  by (metis xor.assoc xor.commute xor_self_eq xor.right_neutral)

definition borrow_chain :: "u32 list \<Rightarrow> u32 list \<Rightarrow> nat \<Rightarrow> u32 \<Rightarrow> u32" where
  "borrow_chain a b len c = fold (\<lambda>u cc. drop_bit 31 (a ! u - b ! u - cc)) [0..<len] c"

lemma borrow_chain_less:
  assumes "zwords (take len a)" "zwords (take len b)" "len \<le> length a" "len \<le> length b"
  shows "uint (borrow_chain a b len 0) = (if zval (take len a) < zval (take len b) then 1 else 0)"
  using assms
proof (induction len)
  case (Suc n)
  let ?c = "borrow_chain a b n 0" and ?D = "zval (take n a) - zval (take n b)"
  have z: "zwords (take n a)" "zwords (take n b)" using zwords_take [OF Suc.prems(1), of n] zwords_take [OF Suc.prems(2), of n] by simp_all
  then have IH: "uint ?c = (if ?D < 0 then 1 else 0)" using Suc by simp
  have D: "- (B ^ n) < ?D" "?D < B ^ n"
    using zval_less [OF z(1)] zval_less [OF z(2)] zval_nonneg [of "take n a"] zval_nonneg [of "take n b"] Suc.prems by simp_all
  have w: "0 \<le> uint (a ! n)" "0 \<le> uint (b ! n)" "uint (a ! n) < B" "uint (b ! n) < B"
    using Suc.prems by (simp_all add: take_Suc_conv_app_nth)
  define d where "d = uint (a ! n) - uint (b ! n)"
  have "uint (drop_bit 31 (a ! n - b ! n - ?c)) = (if d - uint ?c < 0 then 1 else 0)"
  proof (rule borrow31(2))
    show "uint (a ! n - b ! n - ?c) = (d - uint ?c) mod 4294967296" by (simp add: uint_word_ariths d_def mod_simps)
    have "0 \<le> uint ?c" "uint ?c \<le> 1" using IH by simp_all
    then show "- B \<le> d - uint ?c" "d - uint ?c < B" using w unfolding d_def by linarith+
  qed
  also have "d - uint ?c < 0 \<longleftrightarrow> B ^ n * d + ?D < 0"
  proof -
    consider "d \<le> - 1" | "d = 0" | "1 \<le> d" by linarith
    then show ?thesis
    proof cases
      case 1
      then have "B ^ n * d \<le> - (B ^ n)" using mult_left_mono [of d "- 1" "B ^ n"] by simp
      then show ?thesis using 1 D uint_nonnegative [of ?c] by linarith
    next
      case 3
      then have "B ^ n \<le> B ^ n * d" using mult_left_mono [of 1 d "B ^ n"] by simp
      moreover have "uint ?c \<le> 1" using IH by simp
      ultimately show ?thesis using 3 D by linarith
    qed (use IH in simp)
  qed
  finally show ?case using Suc.prems by (simp add: borrow_chain_def zval_take_Suc d_def algebra_simps)
qed (simp add: borrow_chain_def)

lemma fold_snd_read:
  assumes "\<And>u x c. snd (f u (x, c)) = h u (x ! u) c" "\<And>u x c v. v \<noteq> u \<Longrightarrow> fst (f u (x, c)) ! v = x ! v"
  shows "snd (fold f [0..<n] (a, c)) = fold (\<lambda>u. h u (a ! u)) [0..<n] c \<and> (\<forall>v\<ge>n. fst (fold f [0..<n] (a, c)) ! v = a ! v)"
proof (induction n)
  case (Suc n)
  obtain a1 c1 where 1: "fold f [0..<n] (a, c) = (a1, c1)" by fastforce
  then show ?case using Suc assms by simp
qed simp

lemma zint_sub_carry: "snd (zint_sub a b len ctl) = borrow_chain a b len 0"
  unfolding zint_sub_def borrow_chain_def Let_def
  using fold_snd_read [where f = "\<lambda>u (x, c). (x[u := x ! u XOR (((x ! u - b ! u - c AND 0x7FFFFFFF) XOR x ! u) AND - ctl)], drop_bit 31 (x ! u - b ! u - c))"
    and h = "\<lambda>u w c. drop_bit 31 (w - b ! u - c)" and n = len and a = a and c = 0] by simp

lemma zint_sub_0: "fst (zint_sub a b len 0) = a"
proof -
  have "fst (fold (\<lambda>u (x, c). (x[u := x ! u], drop_bit 31 (x ! u - b ! u - c))) us (a, c)) = a" for us c
    by (induction us arbitrary: c) simp_all
  then show ?thesis by (simp add: zint_sub_def Let_def)
qed

lemma zint_sub_1:
  assumes "zwords (take len a)" "zwords (take len b)" "len \<le> length a" "len \<le> length b" "zint_sub a b len 1 = (a', c)"
  shows "zval (take len a') = zval (take len a) - zval (take len b) + B ^ len * uint c" "zwords (take len a')"
    "length a' = length a" "drop len a' = drop len a"
proof -
  have l: "fold (\<lambda>u (x, c). case (x ! u - b ! u - c AND 0x7FFFFFFF, drop_bit 31 (x ! u - b ! u - c)) of (w, c') \<Rightarrow> (x[u := w], c')) [0..<len] (a, 0) = (a', c)"
    using assms(5) by (simp add: zint_sub_def Let_def xor_cancel)
  have step: "uint (a ! u - b ! u - c AND 0x7FFFFFFF) < B \<and> uint (drop_bit 31 (a ! u - b ! u - c)) \<le> 1 \<and>
      uint (a ! u - b ! u - c AND 0x7FFFFFFF) + B * - uint (drop_bit 31 (a ! u - b ! u - c)) = (uint (a ! u) - uint (b ! u)) + - uint c"
    if "u < len" "uint c \<le> 1" for u c
    using that assms(1-4) zwords_nth [of "take len a" u] zwords_nth [of "take len b" u] by (intro sub_step) simp_all
  note r = carry_fold [OF _ l, where J = "\<lambda>_ c. uint c \<le> 1" and K = "\<lambda>c. - uint c" and t = "\<lambda>u. uint (a ! u) - uint (b ! u)"]
  show "zwords (take len a')" "length a' = length a" "drop len a' = drop len a" using step assms(3) by (intro r; auto)+
  have "zval (take len a') + B ^ len * - uint c = (\<Sum>u<len. (uint (a ! u) - uint (b ! u)) * B ^ u)"
    using step assms(3) r(5) by force
  also have "\<dots> = zval (take len a) - zval (take len b)"
    using assms(3,4) by (simp add: zval_sum left_diff_distrib sum_subtractf)
  finally show "zval (take len a') = zval (take len a) - zval (take len b) + B ^ len * uint c" by simp
qed

lemma zint_sub_correct:
  assumes "zwords a" "zwords b" "length a = length b"
  shows "zint_sub a b (length a) 0 = (a, if zval a < zval b then 1 else 0)"
    "zval (fst (zint_sub a b (length a) 1)) = (zval a - zval b) mod B ^ length a"
    "zwords (fst (zint_sub a b (length a) 1))" "length (fst (zint_sub a b (length a) 1)) = length a"
    "snd (zint_sub a b (length a) 1) = (if zval a < zval b then 1 else 0)"
proof -
  let ?c = "if zval a < zval b then 1 else 0 :: u32"
  have c: "snd (zint_sub a b (length a) ctl) = ?c" for ctl
    using borrow_chain_less [of "length a" a b] assms by (simp add: zint_sub_carry word_uint_eq_iff)
  show "zint_sub a b (length a) 0 = (a, ?c)" using zint_sub_0 [of a b "length a"] c [of 0] by (cases "zint_sub a b (length a) 0") simp
  obtain a' where a': "zint_sub a b (length a) 1 = (a', ?c)" using c [of 1] by (cases "zint_sub a b (length a) 1") simp
  note r = zint_sub_1 [of "length a" a b, OF _ _ _ _ a']
  show "zwords (fst (zint_sub a b (length a) 1))" "length (fst (zint_sub a b (length a) 1)) = length a"
    "snd (zint_sub a b (length a) 1) = ?c" using r assms a' by simp_all
  have l: "zval a < B ^ length a" "zval b < B ^ length a" using zval_less [OF assms(1)] zval_less [OF assms(2)] assms(3) by simp_all
  have "zval a' = zval a - zval b + B ^ length a * uint ?c" using r assms by simp
  also have "\<dots> = (zval a - zval b) mod B ^ length a"
    using l zval_nonneg [of a] zval_nonneg [of b] mod_neg_once [of "zval a - zval b" "B ^ length a"] by simp
  finally show "zval (fst (zint_sub a b (length a) 1)) = (zval a - zval b) mod B ^ length a" using a' by simp
qed

section \<open>Products with a word\<close>

lemma mul_acc:
  fixes z :: u64
  assumes "uint z < B * B"
  shows "uint (ucast z AND 0x7FFFFFFF :: u32) = uint z mod B" "uint (ucast (drop_bit 31 z) :: u32) = uint z div B"
    "uint (ucast (drop_bit 31 z) :: u32) < B"
proof -
  have "uint z div B < B" using assms by (simp add: div_less_iff_less_mult)
  moreover have "0 \<le> uint z div B" by (simp add: pos_imp_zdiv_nonneg_iff)
  ultimately show d: "uint (ucast (drop_bit 31 z) :: u32) = uint z div B" by (simp add: uint_ucast_mod uint_shr)
  then show "uint (ucast (drop_bit 31 z) :: u32) < B" using \<open>uint z div B < B\<close> by simp
  show "uint (ucast z AND 0x7FFFFFFF :: u32) = uint z mod B" by (simp add: uint_and_mask31 uint_ucast_mod mod_mod_cancel)
qed

lemma product_bound: "0 \<le> a \<Longrightarrow> a < B \<Longrightarrow> 0 \<le> b \<Longrightarrow> b < B \<Longrightarrow> a * b + (B - 1) + (B - 1) < B * B" for a b :: int
proof -
  assume "0 \<le> a" "a < B" "0 \<le> b" "b < B"
  then have "a * b \<le> (B - 1) * (B - 1)" by (intro mult_mono) simp_all
  then show ?thesis by simp
qed

lemma uint_mul_acc:
  fixes yw s xw cc :: u32
  assumes "uint yw < B" "uint s < B" "uint xw < B" "uint cc < B"
  shows "uint (ucast yw * ucast s + ucast xw + ucast cc :: u64) = uint yw * uint s + uint xw + uint cc"
    "uint yw * uint s + uint xw + uint cc < B * B"
proof -
  have b: "uint yw * uint s + uint xw + uint cc < B * B" using product_bound [of "uint yw" "uint s"] assms by simp
  then show "uint yw * uint s + uint xw + uint cc < B * B" .
  have "uint (ucast yw * ucast s + ucast xw + ucast cc :: u64) = (uint yw * uint s + uint xw + uint cc) mod 18446744073709551616"
    by (simp only: uint_word_ariths mod_simps uint_up64 len_of_numeral_defs) simp
  also have "\<dots> = uint yw * uint s + uint xw + uint cc" using b by (intro mod_pos_pos_trivial) simp_all
  finally show "uint (ucast yw * ucast s + ucast xw + ucast cc :: u64) = uint yw * uint s + uint xw + uint cc" .
qed

lemma add_mul_loop:
  fixes s :: u32
  assumes "zwords (take len x)" "zwords (take len y)" "len \<le> length x" "len \<le> length y" "uint s < B"
    "fold (\<lambda>u (x, cc).
       let xw = x ! u;
           yw = y ! u;
           z = ucast yw * ucast s + ucast xw + ucast cc :: u64
       in (x[u := ucast z AND 0x7FFFFFFF], ucast (drop_bit 31 z))) [0..<len] (x, 0 :: u32) = (x', cc)"
  shows "zval (take len x') + B ^ len * uint cc = zval (take len x) + uint s * zval (take len y)" "uint cc < B"
    "zwords (take len x')" "length x' = length x" "drop len x' = drop len x"
proof -
  let ?z = "\<lambda>u w cc. ucast (y ! u) * ucast s + ucast w + ucast (cc :: u32) :: u64"
  have l: "fold (\<lambda>u (x, c). case (ucast (?z u (x ! u) c) AND 0x7FFFFFFF, ucast (drop_bit 31 (?z u (x ! u) c))) of (w, c') \<Rightarrow> (x[u := w], c'))
      [0..<len] (x, 0) = (x', cc)"
    using assms(6) by (simp add: Let_def)
  have step: "uint (ucast (?z u (x ! u) c) AND 0x7FFFFFFF :: u32) < B \<and> uint (ucast (drop_bit 31 (?z u (x ! u) c)) :: u32) < B \<and>
      uint (ucast (?z u (x ! u) c) AND 0x7FFFFFFF :: u32) + B * uint (ucast (drop_bit 31 (?z u (x ! u) c)) :: u32)
        = (uint (x ! u) + uint s * uint (y ! u)) + uint c"
    if "u < len" "uint c < B" for u c
  proof -
    have w: "uint (x ! u) < B" "uint (y ! u) < B"
      using that(1) assms(1-4) zwords_nth [of "take len x" u] zwords_nth [of "take len y" u] by simp_all
    note z = uint_mul_acc [OF w(2) assms(5) w(1) that(2)]
    have "uint (?z u (x ! u) c) < B * B" unfolding z(1) by (rule z(2))
    note m = mul_acc [OF this]
    show ?thesis using m(3) unfolding m z(1) by (simp add: mult.commute)
  qed
  note r = carry_fold [OF _ l, where J = "\<lambda>_ c. uint c < B" and K = uint and t = "\<lambda>u. uint (x ! u) + uint s * uint (y ! u)"]
  show "uint cc < B" "zwords (take len x')" "length x' = length x" "drop len x' = drop len x" using step assms(3) by (intro r; auto)+
  have "zval (take len x') + B ^ len * uint cc = (\<Sum>u<len. (uint (x ! u) + uint s * uint (y ! u)) * B ^ u)"
    using step assms(3) r(5) by force
  also have "\<dots> = zval (take len x) + uint s * zval (take len y)"
    using assms(3,4) by (simp add: zval_sum distrib_right sum.distrib sum_distrib_left mult.assoc)
  finally show "zval (take len x') + B ^ len * uint cc = zval (take len x) + uint s * zval (take len y)" .
qed

lemma take_update_end: "len < length x \<Longrightarrow> take (Suc len) (x[len := c]) = take len x @ [c]"
  by (simp add: take_Suc_conv_app_nth)

lemma zint_add_mul_small_correct:
  assumes "zwords (take len x)" "zwords (take len y)" "len < length x" "len \<le> length y" "uint s < B"
  shows "zval (take (Suc len) (zint_add_mul_small x y len s)) = zval (take len x) + uint s * zval (take len y)"
    "zwords (take (Suc len) (zint_add_mul_small x y len s))" "length (zint_add_mul_small x y len s) = length x"
    "drop (Suc len) (zint_add_mul_small x y len s) = drop (Suc len) x"
proof -
  obtain x' cc where l: "fold (\<lambda>u (x, cc).
       let xw = x ! u;
           yw = y ! u;
           z = ucast yw * ucast s + ucast xw + ucast cc :: u64
       in (x[u := ucast z AND 0x7FFFFFFF], ucast (drop_bit 31 z))) [0..<len] (x, 0 :: u32) = (x', cc)" by fastforce
  note r = add_mul_loop [OF assms(1,2) less_imp_le [OF assms(3)] assms(4,5) l]
  have e: "zint_add_mul_small x y len s = x'[len := cc]" unfolding zint_add_mul_small_def l by simp
  have t: "take (Suc len) (x'[len := cc]) = take len x' @ [cc]" using assms(3) r(4) by (intro take_update_end) simp
  show "zval (take (Suc len) (zint_add_mul_small x y len s)) = zval (take len x) + uint s * zval (take len y)"
    unfolding e t using r(1,4) assms(3) by simp
  show "zwords (take (Suc len) (zint_add_mul_small x y len s))" unfolding e t using r(2,3) by simp
  show "length (zint_add_mul_small x y len s) = length x" unfolding e using r(4) by simp
  have "drop (Suc len) x' = drop (Suc len) x" using arg_cong [OF r(5), of tl] by (simp add: tl_drop flip: drop_Suc)
  then show "drop (Suc len) (zint_add_mul_small x y len s) = drop (Suc len) x" unfolding e by simp
qed

lemma zint_mul_small_correct:
  assumes "zwords (take len m)" "len \<le> length m" "uint x < B" "zint_mul_small m len x = (m', cc)"
  shows "zval (take len m') + B ^ len * uint cc = zval (take len m) * uint x" "uint cc < B" "zwords (take len m')"
    "length m' = length m" "drop len m' = drop len m"
proof -
  let ?z = "\<lambda>w cc. ucast w * ucast x + ucast (cc :: u32) :: u64"
  have l: "fold (\<lambda>u (m, c). case (ucast (?z (m ! u) c) AND 0x7FFFFFFF, ucast (drop_bit 31 (?z (m ! u) c))) of (w, c') \<Rightarrow> (m[u := w], c'))
      [0..<len] (m, 0) = (m', cc)"
    using assms(4) by (simp add: zint_mul_small_def Let_def)
  have step: "uint (ucast (?z (m ! u) c) AND 0x7FFFFFFF :: u32) < B \<and> uint (ucast (drop_bit 31 (?z (m ! u) c)) :: u32) < B \<and>
      uint (ucast (?z (m ! u) c) AND 0x7FFFFFFF :: u32) + B * uint (ucast (drop_bit 31 (?z (m ! u) c)) :: u32) = uint (m ! u) * uint x + uint c"
    if "u < len" "uint c < B" for u c
  proof -
    have w: "uint (m ! u) < B" using that(1) assms(1,2) zwords_nth [of "take len m" u] by simp
    have z: "uint (?z (m ! u) c) = uint (m ! u) * uint x + uint c" "uint (m ! u) * uint x + uint c < B * B"
      using uint_mul_acc [of "m ! u" x 0 c] w assms(3) that(2) by simp_all
    have "uint (?z (m ! u) c) < B * B" unfolding z(1) by (rule z(2))
    note k = mul_acc [OF this]
    show ?thesis using k(3) unfolding k z(1) by simp
  qed
  note r = carry_fold [OF _ l, where J = "\<lambda>_ c. uint c < B" and K = uint and t = "\<lambda>u. uint (m ! u) * uint x"]
  show "uint cc < B" "zwords (take len m')" "length m' = length m" "drop len m' = drop len m" using step assms(2) by (intro r; auto)+
  have "zval (take len m') + B ^ len * uint cc = (\<Sum>u<len. uint (m ! u) * uint x * B ^ u)"
    using step assms(2) r(5) by force
  also have "\<dots> = zval (take len m) * uint x" using assms(2) by (simp add: zval_sum sum_distrib_left ac_simps)
  finally show "zval (take len m') + B ^ len * uint cc = zval (take len m) * uint x" .
qed

section \<open>Reduction modulo a small prime\<close>

lemma top_sign: "uint w < B \<Longrightarrow> drop_bit 30 w = (if 1073741824 \<le> uint w then 1 else 0)" for w :: u32
proof -
  assume "uint w < B"
  then have "uint w div 1073741824 = (if 1073741824 \<le> uint w then 1 else 0)"
    using uint_nonnegative [of w] int_div_pos_eq [of "uint w" 1073741824 1 "uint w - 1073741824"] by (simp add: div_pos_pos_trivial)
  then show ?thesis by (simp add: word_uint_eq_iff uint_shr)
qed

context small_modulus
begin

lemma mod_small_step:
  assumes "uint x < P" "uint w < B"
  shows "uint (modp_add (modp_montymul x (modp_R2 p p0i) p p0i) (w - p + (p AND - drop_bit 31 (w - p))) p) = (uint x * B + uint w) mod P"
proof -
  have "uint (w - p + (p AND - drop_bit 31 (w - p))) = (uint w - P) mod P"
    using assms(2) size uint_nonnegative [of w] by (intro cond_add_p) (simp_all add: uint_word_ariths)
  moreover have "uint (modp_montymul x (modp_R2 p p0i) p p0i) = uint x * B mod P"
    using mont_of [OF assms(1)] by (simp add: mont_def)
  ultimately show ?thesis using size by (subst uint_add) (simp_all add: mod_add_eq)
qed

lemma mod_small_unsigned:
  assumes "zwords (take dlen d)" "dlen \<le> length d"
  shows "uint (zint_mod_small_unsigned d dlen p p0i (modp_R2 p p0i)) = zval (take dlen d) mod P"
proof -
  have "uint (fold (\<lambda>u x.
       let x = modp_montymul x (modp_R2 p p0i) p p0i;
           w = d ! u - p;
           w = w + (p AND - drop_bit 31 w)
       in modp_add x w p) (rev [0..<dlen]) x) = (uint x * B ^ dlen + zval (take dlen d)) mod P" if "uint x < P" for x
    using assms that
  proof (induction dlen arbitrary: x)
    case (Suc n)
    have z: "zwords (take n d)" "uint (d ! n) < B" using Suc.prems by (simp_all add: take_Suc_conv_app_nth)
    let ?x = "modp_add (modp_montymul x (modp_R2 p p0i) p p0i) (d ! n - p + (p AND - drop_bit 31 (d ! n - p))) p"
    have x: "uint ?x = (uint x * B + uint (d ! n)) mod P" by (rule mod_small_step [OF Suc.prems(3) z(2)])
    have "uint ?x < P" unfolding x using size by simp
    note IH = Suc.IH [OF z(1) _ this]
    have "(uint ?x * B ^ n + zval (take n d)) mod P = ((uint x * B + uint (d ! n)) * B ^ n + zval (take n d)) mod P"
      unfolding x by (rule mod_add_cong [OF mod_mult_left_eq refl])
    also have "(uint x * B + uint (d ! n)) * B ^ n + zval (take n d) = uint x * B ^ Suc n + zval (take (Suc n) d)"
      using Suc.prems(2) by (simp add: zval_take_Suc algebra_simps)
    finally show ?case using IH Suc.prems(2) by (simp add: Let_def)
  qed simp
  from this [of 0] show ?thesis using size by (simp add: zint_mod_small_unsigned_def)
qed

lemma mod_small_signed:
  assumes "zwords d" "d \<noteq> []" "length d < 2 ^ 32"
  shows "uint (zint_mod_small_signed d (length d) p p0i (modp_R2 p p0i) (modp_Rx (of_nat (length d)) p p0i (modp_R2 p p0i))) = zsval d mod P"
proof -
  let ?z = "zint_mod_small_unsigned d (length d) p p0i (modp_R2 p p0i)" and ?Rx = "modp_Rx (of_nat (length d)) p p0i (modp_R2 p p0i)"
  have z: "uint ?z = zval d mod P" using mod_small_unsigned [of "length d" d] assms by simp
  have "unat (of_nat (length d) :: u32) = length d" using assms(3) by (simp add: unat_of_nat)
  moreover from this have "0 < (of_nat (length d) :: u32)" using assms(2) by (metis length_greater_0_conv unat_gt_0 word_neq_0_conv)
  ultimately have R: "uint ?Rx = B ^ length d mod P" using uint_Rx [of "of_nat (length d)"] by (simp add: power_mult)
  have "uint (last d) < B" using assms by (simp add: zwords_def)
  from top_sign [OF this]
  have t: "?Rx AND - drop_bit 30 (d ! (length d - 1)) = (if 1073741824 \<le> uint (last d) then ?Rx else 0)"
    using assms(2) by (simp add: last_conv_nth)
  have "B ^ length d mod P \<le> P" using size by (intro less_imp_le pos_mod_bound) simp
  then have "uint (modp_sub ?z (if 1073741824 \<le> uint (last d) then ?Rx else 0) p) = zsval d mod P"
    using z R size by (subst uint_sub) (simp_all add: zsval_def assms(2) mod_diff_eq)
  then show ?thesis using assms(2) unfolding zint_mod_small_signed_def Let_def t by simp
qed

end

section \<open>Normalization around zero\<close>

definition order_code :: "int \<Rightarrow> u32" where
  "order_code d = (if d < 0 then - 1 else if d = 0 then 0 else 1)"

lemma norm_zero_code:
  assumes "uint pw < B" "uint wx < B" "bb = 0 \<or> bb = 1"
  defines "wp \<equiv> drop_bit 1 pw OR push_bit 30 bb"
  defines "c \<equiv> drop_bit 31 (- (wp - wx)) OR - drop_bit 31 (wp - wx)"
  shows "c = order_code (uint pw div 2 + uint bb * 1073741824 - uint wx)"
proof -
  let ?h = "uint pw div 2 + uint bb * 1073741824"
  have h0: "0 \<le> uint pw div 2" "uint pw div 2 < 1073741824" using assms(1) uint_nonnegative [of pw] by linarith+
  have "drop_bit 1 pw OR push_bit 30 bb = drop_bit 1 pw + push_bit 30 bb" by (rule or_shift) (use h0 in \<open>simp add: uint_shr\<close>)
  then have wp: "uint wp = ?h" unfolding wp_def using h0 assms(3) by (auto simp: uint_word_ariths uint_shr uint_shl)
  have bbv: "0 \<le> uint bb" "uint bb \<le> 1" using assms(3) by auto
  define v where "v = ?h - uint wx"
  have v: "- B < v" "v < B" unfolding v_def using h0 assms(2) bbv uint_nonnegative [of wx] by linarith+
  have u: "uint (wp - wx) = v mod 4294967296" by (simp add: uint_word_ariths wp v_def)
  moreover have "uint (- (wp - wx)) = (- v) mod 4294967296" by (simp add: uint_word_ariths wp v_def)
  ultimately have "uint (drop_bit 31 (wp - wx)) = (if v < 0 then 1 else 0)" "uint (drop_bit 31 (- (wp - wx))) = (if - v < 0 then 1 else 0)"
    using v by (intro borrow31(2); simp)+
  then have "drop_bit 31 (wp - wx) = (if v < 0 then 1 else 0)" "drop_bit 31 (- (wp - wx)) = (if 0 < v then 1 else 0)"
    by (auto simp: word_uint_eq_iff)
  then show ?thesis unfolding c_def v_def [symmetric] order_code_def by auto
qed

lemma norm_zero_loop:
  assumes "zwords x" "zwords p" "length x = length p" "n \<le> length p"
  defines "D \<equiv> \<lambda>k. zval (drop k p) div 2 - zval (drop k x)"
  shows "fst (fold (norm_zero_step x p) (rev [0..<n]) (order_code (D n), word_of_int (zval (drop n p) mod 2))) = order_code (D 0)"
  using assms(4)
proof (induction n)
  case (Suc n)
  have n: "n < length p" "n < length x" using Suc.prems assms(3) by simp_all
  let ?bb = "word_of_int (zval (drop (Suc n) p) mod 2) :: u32" and ?H = "zval (drop (Suc n) p)"
  have bb: "?bb = 0 \<or> ?bb = 1" "uint ?bb = ?H mod 2" by (auto simp: uint_word_of_int) (metis even_iff_mod_2_eq_zero odd_iff_mod_2_eq_one of_int_0 of_int_1)+
  have d: "zval (drop n p) = uint (p ! n) + B * ?H" "zval (drop n x) = uint (x ! n) + B * zval (drop (Suc n) x)"
    using n by (simp_all flip: Cons_nth_drop_Suc)
  define e where "e = uint (p ! n) div 2 + uint ?bb * 1073741824 - uint (x ! n)"
  have w: "uint (p ! n) < B" "uint (x ! n) < B" using n assms(1,2) by (simp_all add: zwords_nth)
  have "uint (p ! n) + B * ?H = uint (p ! n) + 2 * (?H mod 2 * 1073741824 + B * (?H div 2))"
  proof -
    have "B * (h * 2 + b) = 2 * (b * 1073741824 + B * h)" for h b :: int by simp
    from this [of "?H div 2" "?H mod 2"] show ?thesis unfolding div_mult_mod_eq by simp
  qed
  then have "zval (drop n p) div 2 = uint (p ! n) div 2 + ?H mod 2 * 1073741824 + B * (?H div 2)" unfolding d by simp
  then have D: "D n = B * D (Suc n) + e" unfolding D_def e_def d(2) bb(2) by simp
  have "uint (p ! n) div 2 < 1073741824" "0 \<le> uint (p ! n) div 2" "0 \<le> uint (x ! n)" "uint ?bb \<le> 1" "0 \<le> uint ?bb"
    using w bb uint_nonnegative [of "p ! n"] by auto
  then have eb: "- B < e" "e < B" using w unfolding e_def by linarith+
  have "norm_zero_step x p n (order_code (D (Suc n)), ?bb) =
     (order_code (D (Suc n)) OR (order_code e AND ((order_code (D (Suc n)) AND 1) - 1)), p ! n AND 1)"
    using norm_zero_code [OF w bb(1)] by (simp add: norm_zero_step_def Let_def e_def)
  also have "order_code (D (Suc n)) OR (order_code e AND ((order_code (D (Suc n)) AND 1) - 1)) = order_code (D n)"
  proof -
    consider "D (Suc n) \<le> - 1" | "D (Suc n) = 0" | "1 \<le> D (Suc n)" by linarith
    then show ?thesis
    proof cases
      case 1 then have "D n < 0" using D eb by linarith
      then show ?thesis using 1 by (simp add: order_code_def)
    next
      case 2 then show ?thesis using D by (simp add: order_code_def)
    next
      case 3 then have "0 < D n" using D eb by linarith
      then show ?thesis using 3 by (simp add: order_code_def)
    qed
  qed
  also have "p ! n AND 1 = word_of_int (zval (drop n p) mod 2)"
  proof -
    have "zval (drop n p) = uint (p ! n) + 2 * (1073741824 * ?H)" unfolding d by simp
    then have "zval (drop n p) mod 2 = uint (p ! n) mod 2" by (simp only: mod_mult_self2)
    then show ?thesis by (simp add: word_uint_eq_iff and_one_eq uint_mod uint_word_of_int)
  qed
  finally show ?case using Suc.IH n by simp
qed simp

lemma zsval_eq:
  assumes "zwords xs"
  shows "zsval xs = (if 2 * zval xs < B ^ length xs then zval xs else zval xs - B ^ length xs)"
proof (cases xs rule: rev_cases)
  case (snoc ys y)
  define n where "n = length ys"
  have v: "zval xs = zval ys + B ^ n * uint y" "0 \<le> zval ys" "zval ys < B ^ n" "length xs = Suc n"
    using snoc assms zval_nonneg [of ys] zval_less [of ys] by (simp_all add: n_def)
  have "2 * zval xs < B ^ Suc n \<longleftrightarrow> uint y < 1073741824"
  proof (cases "uint y < 1073741824")
    case True
    then have "B ^ n * uint y \<le> B ^ n * 1073741823" by (intro mult_left_mono) simp_all
    then have "2 * zval xs < B ^ Suc n" using v unfolding power_Suc by linarith
    then show ?thesis using True by blast
  next
    case False
    then have "B ^ n * 1073741824 \<le> B ^ n * uint y" by (intro mult_left_mono) simp_all
    then have "B ^ Suc n \<le> 2 * zval xs" using v unfolding power_Suc by linarith
    then show ?thesis using False by linarith
  qed
  then show ?thesis using v(4) snoc by (simp add: zsval_def not_less)
qed (simp add: zsval_def)

lemma zsval_unique:
  assumes "zwords xs" "zval xs = v mod B ^ length xs" "- (B ^ length xs) \<le> 2 * v" "2 * v < B ^ length xs"
  shows "zsval xs = v"
proof (cases "v < 0")
  case True
  then have "zval xs = v + B ^ length xs" using assms(2,3) by (simp add: mod_neg_once)
  then show ?thesis using True assms(3) unfolding zsval_eq [OF assms(1)] by simp
next
  case False
  then have "v < B ^ length xs" using assms(4) by linarith
  then have "zval xs = v" using assms(2) False by simp
  then show ?thesis using assms(4) unfolding zsval_eq [OF assms(1)] by simp
qed

lemma order_code_sign: "drop_bit 31 (order_code d) = (if d < 0 then 1 else 0)"
  by (simp add: sign_shift order_code_def uint_word_ariths)

lemma zint_norm_zero_correct:
  assumes "zwords x" "zwords p" "length x = length p" "zval x < zval p" "odd (zval p)"
  shows "zsval (zint_norm_zero x p (length p)) = (if 2 * zval x < zval p then zval x else zval x - zval p)"
    "zwords (zint_norm_zero x p (length p))" "length (zint_norm_zero x p (length p)) = length p"
proof -
  define r where "r = fst (fold (norm_zero_step x p) (rev [0..<length p]) (0, 0))"
  have "r = order_code (zval p div 2 - zval x)"
    using norm_zero_loop [OF assms(1-3) order.refl] assms(3) by (simp add: r_def order_code_def)
  moreover have "zval p div 2 - zval x < 0 \<longleftrightarrow> \<not> 2 * zval x < zval p" using assms(5) by presburger
  ultimately have c: "drop_bit 31 r = (if 2 * zval x < zval p then 0 else 1)" by (simp add: order_code_sign)
  have z: "zint_norm_zero x p (length p) = fst (zint_sub x p (length x) (drop_bit 31 r))"
    by (simp add: zint_norm_zero_def r_def split_beta assms(3))
  note s = zint_sub_correct [OF assms(1-3)]
  have "zwords (zint_norm_zero x p (length p)) \<and> length (zint_norm_zero x p (length p)) = length p
    \<and> zval (zint_norm_zero x p (length p)) = (if 2 * zval x < zval p then zval x else zval x - zval p) mod B ^ length p"
    unfolding z c using s assms zval_nonneg [of x] zval_less [OF assms(1)] by simp
  then show "zwords (zint_norm_zero x p (length p))" "length (zint_norm_zero x p (length p)) = length p"
    "zsval (zint_norm_zero x p (length p)) = (if 2 * zval x < zval p then zval x else zval x - zval p)"
    using zval_less [OF assms(2)] zval_nonneg [of x] assms(4) by (auto intro!: zsval_unique)
qed

section \<open>Negation and the last word of a loop\<close>

lemma carry_fold_mod:
  fixes K :: "'c \<Rightarrow> int" and f :: "nat \<Rightarrow> u32 \<Rightarrow> 'c \<Rightarrow> u32 \<times> 'c"
  assumes step: "\<And>u c w c'. u < n \<Longrightarrow> J u c \<Longrightarrow> f u (a ! u) c = (w, c') \<Longrightarrow>
      uint w < B \<and> J (Suc u) c' \<and> uint w + B * K c' = t u + K c"
    and top: "\<And>c w c'. J n c \<Longrightarrow> f n (a ! n) c = (w, c') \<Longrightarrow> uint w = (t n + K c) mod B"
    and loop: "fold (\<lambda>u (x, c). case f u (x ! u) c of (w, c') \<Rightarrow> (x[u := w], c')) [0..<Suc n] (a, c0) = (a', c')"
    and "J 0 c0" "length a = Suc n"
  shows "length a' = Suc n" "zwords a'" "zval a' = ((\<Sum>u<Suc n. t u * B ^ u) + K c0) mod B ^ Suc n"
proof -
  obtain a1 c1 where 1: "fold (\<lambda>u (x, c). case f u (x ! u) c of (w, c') \<Rightarrow> (x[u := w], c')) [0..<n] (a, c0) = (a1, c1)" by fastforce
  have r: "length a1 = length a" "drop n a1 = drop n a" "zwords (take n a1)" "J n c1"
    "zval (take n a1) + B ^ n * K c1 = (\<Sum>u<n. t u * B ^ u) + K c0"
    by (rule carry_fold [where f = f and a = a and J = J and t = t and K = K, OF step 1 assms(4)]; use assms(5) in simp)+
  obtain w c2 where 2: "f n (a1 ! n) c1 = (w, c2)" by fastforce
  have "a1 ! n = a ! n" using arg_cong [OF r(2), of hd] r(1) assms(5) by (simp add: hd_drop_conv_nth)
  then have w: "uint w = (t n + K c1) mod B" using top r(4) 2 by simp
  have "a' = a1[n := w]" using loop 1 2 by simp
  then have a': "a' = take n a1 @ [w]" using r(1) assms(5) by (simp add: upd_conv_take_nth_drop)
  show "length a' = Suc n" using a' r(1) assms(5) by simp
  show "zwords a'" using a' r(3) w by simp
  let ?S = "(\<Sum>u<Suc n. t u * B ^ u) + K c0"
  have "?S = zval (take n a1) + B ^ n * (t n + K c1)" using r(5) by (simp add: algebra_simps)
  also have "t n + K c1 = uint w + B * ((t n + K c1) div B)" unfolding w by simp
  finally have "?S = zval a' + B ^ Suc n * ((t n + K c1) div B)"
    using a' r(1) assms(5) by (simp add: algebra_simps)
  then have "?S mod B ^ Suc n = zval a' mod B ^ Suc n" by simp
  then show "zval a' = ?S mod B ^ Suc n" using zval_less [OF \<open>zwords a'\<close>] zval_nonneg [of a'] \<open>length a' = Suc n\<close> by simp
qed

lemma geometric_B: "(\<Sum>u<n. (B - 1) * B ^ u) = B ^ n - 1"
  by (induction n) (simp_all add: algebra_simps)

lemma zval_top: "length a = Suc n \<Longrightarrow> zval a = (\<Sum>u<Suc n. uint (a ! u) * B ^ u)"
  by (simp add: zval_sum_all)

lemma xor_mask31:
  fixes w :: u32
  assumes "uint w < B"
  shows "uint (w XOR 0x7FFFFFFF) = B - 1 - uint w"
proof -
  have "uint (w AND 0x7FFFFFFF) = uint w" unfolding uint_and_mask31 using assms by simp
  then have w: "w = w AND 0x7FFFFFFF" by (simp only: word_uint_eq_iff)
  have "NOT m AND (w AND m) = 0" for m by (rule bit_word_eqI) (auto simp: bit_and_iff bit_not_iff)
  from this [of "0x7FFFFFFF"] have "0x7FFFFFFF - w = 0x7FFFFFFF XOR w" unfolding w [symmetric]
    by (simp only: disjunctive_diff_eq_and_not disjunctive_and_not_eq_xor)
  then have "uint (w XOR 0x7FFFFFFF) = uint (0x7FFFFFFF - w)" by (simp only: xor.commute)
  also have "\<dots> = (B - 1 - uint w) mod 4294967296" by (simp add: uint_word_ariths)
  also have "\<dots> = B - 1 - uint w" using assms uint_nonnegative [of w] by (intro mod_pos_pos_trivial) linarith+
  finally show ?thesis .
qed

lemma zint_negate_correct:
  assumes "length a = Suc n" "zwords (take n a)" "ctl = 0 \<or> ctl = 1"
  shows "zval (zint_negate a (Suc n) ctl) = (if ctl = 1 then - zval a else zval a) mod B ^ Suc n"
    "zwords (zint_negate a (Suc n) ctl)" "length (zint_negate a (Suc n) ctl) = Suc n"
proof -
  let ?m = "drop_bit 1 (- ctl)"
  let ?t = "\<lambda>u. if ctl = 1 then B - 1 - uint (a ! u) else uint (a ! u)"
  have m: "?m = (if ctl = 1 then 0x7FFFFFFF else 0)" using assms(3) by (auto simp: word_uint_eq_iff uint_shr uint_word_ariths)
  obtain a' c' where l: "fold (\<lambda>u (x, c). case ((x ! u XOR ?m) + c AND 0x7FFFFFFF, drop_bit 31 ((x ! u XOR ?m) + c)) of (w, c') \<Rightarrow> (x[u := w], c'))
      [0..<Suc n] (a, ctl) = (a', c')" by fastforce
  have a': "zint_negate a (Suc n) ctl = a'" using l by (simp add: zint_negate_def Let_def)
  have x: "uint (a ! u XOR ?m) = ?t u" if "u < n" for u
    using xor_mask31 [of "a ! u"] zwords_nth [OF assms(2), of u] that assms(1) unfolding m by simp
  have step: "uint ((a ! u XOR ?m) + c AND 0x7FFFFFFF) < B \<and> uint (drop_bit 31 ((a ! u XOR ?m) + c)) \<le> 1 \<and>
      uint ((a ! u XOR ?m) + c AND 0x7FFFFFFF) + B * uint (drop_bit 31 ((a ! u XOR ?m) + c)) = ?t u + uint c"
    if "u < n" "uint c \<le> 1" for u c
  proof -
    have "uint (a ! u) < B" using zwords_nth [OF assms(2), of u] that(1) assms(1) by simp
    then have "0 \<le> B - 1 - uint (a ! u)" "B - 1 - uint (a ! u) < B" using uint_nonnegative [of "a ! u"] by linarith+
    then have t: "0 \<le> ?t u" "?t u < B" using \<open>uint (a ! u) < B\<close> by simp_all
    define v where "v = ?t u + uint c"
    have "0 \<le> v" "v < 4294967296" using t that(2) uint_nonnegative [of c] unfolding v_def by linarith+
    then have "uint ((a ! u XOR ?m) + c) = ?t u + uint c"
      unfolding uint_word_ariths x [OF that(1)] v_def [symmetric] by simp
    moreover have "uint (drop_bit 31 ((a ! u XOR ?m) + c)) \<le> 1" by (simp only: sign_shift) simp
    ultimately show ?thesis using split31 [of "(a ! u XOR ?m) + c"] by linarith
  qed
  have top: "uint ((a ! n XOR ?m) + c AND 0x7FFFFFFF) = (?t n + uint c) mod B" for c
  proof -
    have "uint (a ! n XOR ?m) mod B = ?t n mod B"
    proof (cases "ctl = 1")
      case True
      have "(a ! n XOR 0x7FFFFFFF) AND 0x7FFFFFFF = (a ! n AND 0x7FFFFFFF) XOR 0x7FFFFFFF"
        by (rule bit_word_eqI) (auto simp: bit_and_iff bit_xor_iff)
      then have "uint (a ! n XOR 0x7FFFFFFF) mod B = B - 1 - uint (a ! n) mod B"
        using xor_mask31 [OF split31(2), of "a ! n"] by (simp only: uint_and_mask31 flip: uint_and_mask31(1) [of "a ! n XOR 0x7FFFFFFF"])
      also have "\<dots> = (B - 1 - uint (a ! n) mod B) mod B" by simp
      finally show ?thesis using True unfolding m by (simp add: mod_diff_right_eq)
    qed (simp only: m if_False xor.right_neutral)
    then have "(uint (a ! n XOR ?m) + uint c) mod B = (?t n + uint c) mod B" by (rule mod_add_cong) (rule refl)
    then show ?thesis by (simp add: uint_and_mask31 uint_word_ariths mod_mod_cancel)
  qed
  note r = carry_fold_mod [OF _ _ l, where J = "\<lambda>_ c. uint c \<le> 1" and K = uint and t = ?t]
  show "zwords (zint_negate a (Suc n) ctl)" "length (zint_negate a (Suc n) ctl) = Suc n"
    unfolding a' using step top assms(1,3) by (intro r; auto)+
  have "zval a' = ((\<Sum>u<Suc n. ?t u * B ^ u) + uint ctl) mod B ^ Suc n"
    using step top assms(1,3) by (intro r; auto)
  also have "(\<Sum>u<Suc n. ?t u * B ^ u) + uint ctl = (if ctl = 1 then B ^ Suc n - zval a else zval a)"
    using assms(3) geometric_B [of "Suc n"] unfolding zval_top [OF assms(1)]
    by (auto simp: left_diff_distrib sum_subtractf simp del: sum.lessThan_Suc)
  finally show "zval (zint_negate a (Suc n) ctl) = (if ctl = 1 then - zval a else zval a) mod B ^ Suc n"
    unfolding a' by (simp add: mod_diff_left_eq [symmetric])
qed

end
