(* ===== verification/Zint_Bezout.thy ===== *)
theory Zint_Bezout
  imports Zint
begin

text \<open>
  The extended binary GCD of keygen.c on big integers. Each round inspects the low and the high words of the
  operands, collects 31 steps of the binary algorithm into four signed coefficients, and applies them to the
  operands and to the Bezout coefficients at once.
\<close>

section \<open>Model\<close>

text \<open>
  Signed 64-bit values are words read with \<^const>\<open>sint\<close>; \<open>signed_drop_bit\<close> is the arithmetic shift of an
  \<^verbatim>\<open>int64_t\<close>.
\<close>

definition zint_co_reduce :: "u32 list \<Rightarrow> u32 list \<Rightarrow> nat \<Rightarrow> u64 \<Rightarrow> u64 \<Rightarrow> u64 \<Rightarrow> u64 \<Rightarrow> u32 list \<times> u32 list \<times> u32" where
  "zint_co_reduce a b len xa xb ya yb =
     (let (a, b, cca, ccb) = fold (\<lambda>u (a, b, cca, ccb).
            let wa = a ! u;
                wb = b ! u;
                za = ucast wa * xa + ucast wb * xb + cca;
                zb = ucast wa * ya + ucast wb * yb + ccb;
                (a, b) = (if u > 0 then (a[u - 1 := ucast za AND 0x7FFFFFFF], b[u - 1 := ucast zb AND 0x7FFFFFFF]) else (a, b))
            in (a, b, signed_drop_bit 31 za, signed_drop_bit 31 zb)) [0..<len] (a, b, 0 :: u64, 0 :: u64);
          a = a[len - 1 := ucast cca];
          b = b[len - 1 := ucast ccb];
          nega = ucast (drop_bit 63 cca);
          negb = ucast (drop_bit 63 ccb);
          a = zint_negate a len nega;
          b = zint_negate b len negb
      in (a, b, nega OR push_bit 1 negb))"

definition zint_finish_mod :: "u32 list \<Rightarrow> nat \<Rightarrow> u32 list \<Rightarrow> u32 \<Rightarrow> u32 list" where
  "zint_finish_mod a len m neg =
     (let cc = fold (\<lambda>u cc. drop_bit 31 (a ! u - m ! u - cc)) [0..<len] 0;
          xm = drop_bit 1 (- neg);
          ym = - (neg OR (1 - cc));
          cc = neg;
          (a, cc) = fold (\<lambda>u (a, cc).
            let aw = a ! u;
                mw = (m ! u XOR xm) AND ym;
                aw = aw - mw - cc
            in (a[u := aw AND 0x7FFFFFFF], drop_bit 31 aw)) [0..<len] (a, cc)
      in a)"

definition zint_co_reduce_mod :: "u32 list \<Rightarrow> u32 list \<Rightarrow> u32 list \<Rightarrow> nat \<Rightarrow> u32 \<Rightarrow> u64 \<Rightarrow> u64 \<Rightarrow> u64 \<Rightarrow> u64 \<Rightarrow> u32 list \<times> u32 list" where
  "zint_co_reduce_mod a b m len m0i xa xb ya yb =
     (let fa = ((a ! 0 * ucast xa + b ! 0 * ucast xb) * m0i) AND 0x7FFFFFFF;
          fb = ((a ! 0 * ucast ya + b ! 0 * ucast yb) * m0i) AND 0x7FFFFFFF;
          (a, b, cca, ccb) = fold (\<lambda>u (a, b, cca, ccb).
            let wa = a ! u;
                wb = b ! u;
                za = ucast wa * xa + ucast wb * xb + ucast (m ! u) * ucast fa + cca;
                zb = ucast wa * ya + ucast wb * yb + ucast (m ! u) * ucast fb + ccb;
                (a, b) = (if u > 0 then (a[u - 1 := ucast za AND 0x7FFFFFFF], b[u - 1 := ucast zb AND 0x7FFFFFFF]) else (a, b))
            in (a, b, signed_drop_bit 31 za, signed_drop_bit 31 zb)) [0..<len] (a, b, 0 :: u64, 0 :: u64);
          a = a[len - 1 := ucast cca];
          b = b[len - 1 := ucast ccb];
          a = zint_finish_mod a len m (ucast (drop_bit 63 cca));
          b = zint_finish_mod b len m (ucast (drop_bit 63 ccb))
      in (a, b))"

definition bezout_top :: "u32 list \<Rightarrow> u32 list \<Rightarrow> nat \<Rightarrow> u64 \<times> u64" where
  "bezout_top a b len =
     (let (c0, c1, a0, a1, b0, b1) = fold (\<lambda>j (c0, c1, a0, a1, b0, b1).
            let aw = a ! j;
                bw = b ! j;
                a0 = a0 XOR ((a0 XOR aw) AND c0);
                a1 = a1 XOR ((a1 XOR aw) AND c1);
                b0 = b0 XOR ((b0 XOR bw) AND c0);
                b1 = b1 XOR ((b1 XOR bw) AND c1);
                c1 = c0;
                c0 = c0 AND (drop_bit 31 ((aw OR bw) + 0x7FFFFFFF) - 1)
            in (c0, c1, a0, a1, b0, b1)) (rev [0..<len]) (- 1, - 1, 0, 0, 0, 0);
          a1 = a1 OR (a0 AND c1);
          a0 = a0 AND NOT c1;
          b1 = b1 OR (b0 AND c1);
          b0 = b0 AND NOT c1
      in (push_bit 31 (ucast (a0 :: u32)) + ucast a1, push_bit 31 (ucast (b0 :: u32)) + ucast b1))"

record gcd_state =
  a_lo :: u32
  b_lo :: u32
  a_hi :: u64
  b_hi :: u64
  pa :: u64
  pb :: u64
  qa :: u64
  qb :: u64

definition hi_greater :: "u64 \<Rightarrow> u64 \<Rightarrow> u32" where
  "hi_greater a b = (let rz = b - a in ucast (drop_bit 63 (rz XOR ((a XOR b) AND (a XOR rz)))))"

definition gcd_step :: "nat \<Rightarrow> gcd_state \<Rightarrow> gcd_state" where
  "gcd_step i s =
     (let rt = hi_greater (a_hi s) (b_hi s);
          oa = drop_bit i (a_lo s) AND 1;
          ob = drop_bit i (b_lo s) AND 1;
          cAB = oa AND ob AND rt;
          cBA = oa AND ob AND NOT rt;
          cA = cAB OR (oa XOR 1);
          al = a_lo s - (b_lo s AND - cAB);
          ah = a_hi s - (b_hi s AND - ucast cAB);
          pa' = pa s - (qa s AND - ucast cAB);
          pb' = pb s - (qb s AND - ucast cAB);
          bl = b_lo s - (al AND - cBA);
          bh = b_hi s - (ah AND - ucast cBA);
          qa' = qa s - (pa' AND - ucast cBA);
          qb' = qb s - (pb' AND - ucast cBA);
          al = al + (al AND (cA - 1));
          pa' = pa' + (pa' AND (ucast cA - 1));
          pb' = pb' + (pb' AND (ucast cA - 1));
          ah = ah XOR ((ah XOR drop_bit 1 ah) AND - ucast cA);
          bl = bl + (bl AND - cA);
          qa' = qa' + (qa' AND - ucast cA);
          qb' = qb' + (qb' AND - ucast cA);
          bh = bh XOR ((bh XOR drop_bit 1 bh) AND (ucast cA - 1))
      in \<lparr>a_lo = al, b_lo = bl, a_hi = ah, b_hi = bh, pa = pa', pb = pb', qa = qa', qb = qb'\<rparr>)"

definition bezout_factors :: "u32 list \<Rightarrow> u32 list \<Rightarrow> nat \<Rightarrow> gcd_state" where
  "bezout_factors a b len =
     (let (ah, bh) = bezout_top a b len
      in fold gcd_step [0..<31] \<lparr>a_lo = a ! 0, b_lo = b ! 0, a_hi = ah, b_hi = bh, pa = 1, pb = 0, qa = 0, qb = 1\<rparr>)"

record bezout =
  bz_a :: "u32 list"
  bz_b :: "u32 list"
  bz_u0 :: "u32 list"
  bz_u1 :: "u32 list"
  bz_v0 :: "u32 list"
  bz_v1 :: "u32 list"

definition bezout_round :: "u32 list \<Rightarrow> u32 list \<Rightarrow> nat \<Rightarrow> bezout \<Rightarrow> bezout" where
  "bezout_round x y len z =
     (let s = bezout_factors (bz_a z) (bz_b z) len;
          (a, b, r) = zint_co_reduce (bz_a z) (bz_b z) len (pa s) (pb s) (qa s) (qb s);
          pa' = pa s - ((pa s + pa s) AND - ucast (r AND 1));
          pb' = pb s - ((pb s + pb s) AND - ucast (r AND 1));
          qa' = qa s - ((qa s + qa s) AND - ucast (drop_bit 1 r));
          qb' = qb s - ((qb s + qb s) AND - ucast (drop_bit 1 r));
          (u0, u1) = zint_co_reduce_mod (bz_u0 z) (bz_u1 z) y len (modp_ninv31 (y ! 0)) pa' pb' qa' qb';
          (v0, v1) = zint_co_reduce_mod (bz_v0 z) (bz_v1 z) x len (modp_ninv31 (x ! 0)) pa' pb' qa' qb'
      in \<lparr>bz_a = a, bz_b = b, bz_u0 = u0, bz_u1 = u1, bz_v0 = v0, bz_v1 = v1\<rparr>)"

function bezout_loop :: "nat \<Rightarrow> u32 list \<Rightarrow> u32 list \<Rightarrow> nat \<Rightarrow> bezout \<Rightarrow> bezout" where
  "bezout_loop num x y len z =
     (if num \<ge> 30 then bezout_loop (num - 30) x y len (bezout_round x y len z) else z)"
  by pat_completeness auto
termination
  by (relation "measure (\<lambda>(num, x, y, len, z). num)") auto

declare bezout_loop.simps [simp del]

definition zint_bezout :: "u32 list \<Rightarrow> u32 list \<Rightarrow> nat \<Rightarrow> u32 \<times> u32 list \<times> u32 list" where
  "zint_bezout x y len =
     (if len = 0 then (0, [], [])
      else
        let z = \<lparr>bz_a = x, bz_b = y, bz_u0 = 1 # replicate (len - 1) 0, bz_u1 = y, bz_v0 = replicate len 0, bz_v1 = x[0 := x ! 0 - 1]\<rparr>;
            z = bezout_loop (62 * len + 30) x y len z;
            rc = bz_a z ! 0 XOR 1;
            rc = fold (\<lambda>j rc. rc OR bz_a z ! j) [1..<len] rc
        in ((1 - drop_bit 31 (rc OR - rc)) AND x ! 0 AND y ! 0, bz_u0 z, bz_v0 z))"

section \<open>Loops that divide by B\<close>

lemma sint_add_small:
  fixes x y :: u64
  assumes "x = word_of_int v" "\<bar>v + sint y\<bar> < 9223372036854775808"
  shows "sint (x + y) = v + sint y"
proof -
  have "x + y = word_of_int (v + sint y)" using assms(1) by simp
  then show ?thesis using assms(2) by (simp only:) (rule sint_word_of_int, simp_all)
qed

lemma sint_shift: "sint (signed_drop_bit 31 z) = sint z div B" for z :: u64
  by (simp add: sint_signed_drop_bit_eq drop_bit_eq_div)

lemma uint_low31: "uint (ucast z AND 0x7FFFFFFF :: u32) = sint z mod B" for z :: u64
proof -
  have "sint z mod 18446744073709551616 = uint z" by (simp add: uint_sint take_bit_eq_mod)
  then have "sint z mod B = uint z mod B" using mod_mod_cancel [of B 18446744073709551616 "sint z"] by simp
  then show ?thesis by (simp add: uint_and_mask31 uint_ucast_mod mod_mod_cancel)
qed

text \<open>
  The loops of \<open>zint_co_reduce\<close> and \<open>zint_co_reduce_mod\<close> add up terms \<open>f u\<close> with a signed carry and store word
  \<open>u - 1\<close> in step \<open>u\<close>: the stored words and the last carry are the sum divided by B.
\<close>

definition shift_step :: "(nat \<Rightarrow> u32 \<Rightarrow> u32 \<Rightarrow> u64) \<Rightarrow> (nat \<Rightarrow> u32 \<Rightarrow> u32 \<Rightarrow> u64) \<Rightarrow> nat
    \<Rightarrow> u32 list \<times> u32 list \<times> u64 \<times> u64 \<Rightarrow> u32 list \<times> u32 list \<times> u64 \<times> u64" where
  "shift_step F G u st =
     (let (a, b, cca, ccb) = st;
          za = F u (a ! u) (b ! u) + cca;
          zb = G u (a ! u) (b ! u) + ccb;
          (a, b) = (if u > 0 then (a[u - 1 := ucast za AND 0x7FFFFFFF], b[u - 1 := ucast zb AND 0x7FFFFFFF]) else (a, b))
      in (a, b, signed_drop_bit 31 za, signed_drop_bit 31 zb))"

definition shifted :: "(nat \<Rightarrow> int) \<Rightarrow> nat \<Rightarrow> u32 list \<Rightarrow> u64 \<Rightarrow> bool" where
  "shifted f n a c \<longleftrightarrow> zwords (take (n - 1) a) \<and> \<bar>sint c\<bar> \<le> 2 * B \<and>
     (\<Sum>u<n. f u * B ^ u) = (if n = 0 then 0 else f 0 mod B) + B * zval (take (n - 1) a) + B ^ n * sint c"

lemma shifted_step:
  assumes "shifted f n a c" "z = word_of_int (f n) + c" "\<bar>f n\<bar> + 2 * B < 2 * B * B" "n < length a"
  shows "shifted f (Suc n) (if n > 0 then a[n - 1 := ucast z AND 0x7FFFFFFF] else a) (signed_drop_bit 31 z)"
proof -
  have c: "\<bar>sint c\<bar> \<le> 2 * B" using assms(1) by (simp add: shifted_def)
  have z: "sint z = f n + sint c" unfolding assms(2) by (rule sint_add_small) (use c assms(3) in auto)
  let ?w = "ucast z AND 0x7FFFFFFF :: u32"
  have w: "uint ?w + B * sint (signed_drop_bit 31 z) = f n + sint c" unfolding uint_low31 sint_shift z by simp
  have "\<bar>sint z\<bar> < 2 * B * B" using z c assms(3) by linarith
  then have "\<bar>sint (signed_drop_bit 31 z)\<bar> \<le> 2 * B" unfolding sint_shift by linarith
  moreover have "zwords (take n (if n > 0 then a[n - 1 := ?w] else a)) \<and>
     (\<Sum>u<Suc n. f u * B ^ u) = f 0 mod B + B * zval (take n (if n > 0 then a[n - 1 := ?w] else a)) + B ^ Suc n * sint (signed_drop_bit 31 z)"
  proof (cases n)
    case 0
    have "sint c = 0" using assms(1) 0 by (simp add: shifted_def)
    then show ?thesis using w 0 unfolding uint_low31 z by simp
  next
    case (Suc m)
    have t: "take n (a[n - 1 := ?w]) = take m a @ [?w]" using Suc assms(4) by (simp add: take_Suc_conv_app_nth)
    have "(\<Sum>u<Suc n. f u * B ^ u) = f 0 mod B + B * zval (take m a) + B ^ n * (f n + sint c)"
      using assms(1) Suc by (simp add: shifted_def algebra_simps)
    also have "\<dots> = f 0 mod B + B * zval (take m a) + B ^ n * (uint ?w + B * sint (signed_drop_bit 31 z))" unfolding w ..
    finally have "(\<Sum>u<Suc n. f u * B ^ u) = f 0 mod B + B * zval (take n (a[n - 1 := ?w])) + B ^ Suc n * sint (signed_drop_bit 31 z)"
      unfolding t using Suc assms(4) by (simp add: algebra_simps)
    moreover have "zwords (take n (a[n - 1 := ?w]))" unfolding t using assms(1) Suc split31(2) [of "ucast z :: u32"] by (simp add: shifted_def)
    ultimately show ?thesis using Suc by simp
  qed
  ultimately show ?thesis unfolding shifted_def by simp
qed

lemma shift_fold:
  assumes "\<And>u. u < len \<Longrightarrow> F u (a ! u) (b ! u) = word_of_int (f u) \<and> G u (a ! u) (b ! u) = word_of_int (g u)
        \<and> \<bar>f u\<bar> + 2 * B < 2 * B * B \<and> \<bar>g u\<bar> + 2 * B < 2 * B * B"
    and "len \<le> length a" "length b = length a"
    and "fold (shift_step F G) [0..<len] (a, b, 0, 0) = (a', b', ca, cb)"
  shows "shifted f len a' ca" "shifted g len b' cb" "length a' = length a" "length b' = length a"
    "drop len a' = drop len a" "drop len b' = drop len b"
proof -
  have "shifted f n a' ca \<and> shifted g n b' cb \<and> length a' = length a \<and> length b' = length a \<and> drop n a' = drop n a \<and> drop n b' = drop n b"
    if "n \<le> len" "fold (shift_step F G) [0..<n] (a, b, 0, 0) = (a', b', ca, cb)" for n a' b' ca cb
    using that
  proof (induction n arbitrary: a' b' ca cb)
    case 0
    then show ?case using assms(3) by (auto simp: shifted_def)
  next
    case (Suc n)
    obtain a1 b1 c1 d1 where 1: "fold (shift_step F G) [0..<n] (a, b, 0, 0) = (a1, b1, c1, d1)" by (cases "fold (shift_step F G) [0..<n] (a, b, 0, 0)")
    have IH: "shifted f n a1 c1" "shifted g n b1 d1" "length a1 = length a" "length b1 = length a" "drop n a1 = drop n a" "drop n b1 = drop n b"
      using Suc.IH [OF _ 1] Suc.prems(1) by simp_all
    have n: "n < length a" "n < length b" using Suc.prems(1) assms(2,3) by simp_all
    have e: "a1 ! n = a ! n" "b1 ! n = b ! n"
      using arg_cong [OF IH(5), of hd] arg_cong [OF IH(6), of hd] n IH(3,4) by (simp_all add: hd_drop_conv_nth)
    have st: "shift_step F G n (a1, b1, c1, d1) = (a', b', ca, cb)" using Suc.prems(2) 1 by simp
    let ?za = "word_of_int (f n) + c1" and ?zb = "word_of_int (g n) + d1"
    have s: "a' = (if n > 0 then a1[n - 1 := ucast ?za AND 0x7FFFFFFF] else a1)" "b' = (if n > 0 then b1[n - 1 := ucast ?zb AND 0x7FFFFFFF] else b1)"
      "ca = signed_drop_bit 31 ?za" "cb = signed_drop_bit 31 ?zb"
      using st Suc.prems(1) e assms(1) [of n] by (simp_all add: shift_step_def Let_def split: if_splits)
    have "\<bar>f n\<bar> + 2 * B < 2 * B * B" "\<bar>g n\<bar> + 2 * B < 2 * B * B" using assms(1) [of n] Suc.prems(1) by simp_all
    then have "shifted f (Suc n) a' ca" "shifted g (Suc n) b' cb"
      unfolding s using shifted_step [OF IH(1) refl] shifted_step [OF IH(2) refl] n IH(3,4) by metis+
    moreover have "drop (Suc n) a1 = drop (Suc n) a" "drop (Suc n) b1 = drop (Suc n) b"
      using arg_cong [OF IH(5), of tl] arg_cong [OF IH(6), of tl] by (simp_all add: tl_drop flip: drop_Suc)
    ultimately show ?case using IH(3,4) unfolding s by (cases "n = 0") simp_all
  qed
  from this [OF order.refl assms(4)] show "shifted f len a' ca" "shifted g len b' cb" "length a' = length a" "length b' = length a"
    "drop len a' = drop len a" "drop len b' = drop len b" by blast+
qed

lemma sign63: "ucast (drop_bit 63 c) = (if sint c < 0 then 1 else 0 :: u32)" for c :: u64
proof -
  have "uint c = sint c mod 18446744073709551616" by (simp add: uint_sint take_bit_eq_mod)
  moreover have b: "- 9223372036854775808 \<le> sint c" "sint c < 9223372036854775808"
    using sint_ge [of c] sint_lt [of c] by simp_all
  ultimately have u: "uint c = (if sint c < 0 then sint c + 18446744073709551616 else sint c)"
    using mod_neg_once [of "sint c" 18446744073709551616] by (cases "sint c < 0") simp_all
  have "uint c div 9223372036854775808 = (if sint c < 0 then 1 else 0)"
    using u b int_div_pos_eq [of "uint c" 9223372036854775808 1 "sint c + 9223372036854775808"] by (cases "sint c < 0") simp_all
  then show ?thesis by (simp add: word_uint_eq_iff uint_ucast_mod uint_shr)
qed

lemma shifted_top:
  assumes "shifted f (Suc n) a c" "length a = Suc n" "(\<Sum>u<Suc n. f u * B ^ u) = B * T"
  shows "T = zval (take n a) + B ^ n * sint c" "zval (a[n := ucast c]) mod B ^ Suc n = T mod B ^ Suc n"
    "ucast (drop_bit 63 c) = (if T < 0 then 1 else 0 :: u32)" "zwords (take n (a[n := ucast c]))"
    "zval (a[n := ucast c]) = zval (take n a) + B ^ n * (sint c mod 4294967296)"
proof -
  have s: "B * T = f 0 mod B + B * zval (take n a) + B ^ Suc n * sint c" "zwords (take n a)"
    using assms(1,3) by (simp_all add: shifted_def)
  have "f 0 mod B = B * (T - zval (take n a) - B ^ n * sint c)" using s(1) by (simp add: algebra_simps)
  then have "f 0 mod B mod B = (B * (T - zval (take n a) - B ^ n * sint c)) mod B" by (rule arg_cong)
  then have "f 0 mod B = 0" by simp
  then show T: "T = zval (take n a) + B ^ n * sint c" using s(1) by simp
  have "a[n := ucast c] = take n a @ [ucast c]" using assms(2) by (simp add: upd_conv_take_nth_drop)
  moreover have "uint (ucast c :: u32) = sint c mod 4294967296"
  proof -
    have "sint c mod 18446744073709551616 = uint c" by (simp add: uint_sint take_bit_eq_mod)
    then show ?thesis using mod_mod_cancel [of 4294967296 18446744073709551616 "sint c"] by (simp add: uint_ucast_mod)
  qed
  ultimately show v: "zval (a[n := ucast c]) = zval (take n a) + B ^ n * (sint c mod 4294967296)" using assms(2) by simp
  have "B ^ n * sint c = B ^ n * (sint c mod 4294967296) + B ^ Suc n * (2 * (sint c div 4294967296))"
    unfolding power_Suc2 mult.assoc distrib_left [symmetric] by simp
  then have "T = zval (a[n := ucast c]) + B ^ Suc n * (2 * (sint c div 4294967296))" unfolding v T by simp
  then show "zval (a[n := ucast c]) mod B ^ Suc n = T mod B ^ Suc n" by (simp only: mod_mult_self2)
  show "zwords (take n (a[n := ucast c]))" using s(2) by simp
  have "0 \<le> zval (take n a)" "zval (take n a) < B ^ n" using zval_nonneg zval_less [OF s(2)] assms(2) by simp_all
  moreover have "B ^ n * sint c \<le> - (B ^ n)" if "sint c < 0" using that mult_left_mono [of "sint c" "- 1" "B ^ n"] by simp
  moreover have "0 \<le> B ^ n * sint c" if "\<not> sint c < 0" using that by simp
  ultimately have "T < 0 \<longleftrightarrow> sint c < 0" unfolding T by linarith
  then show "ucast (drop_bit 63 c) = (if T < 0 then 1 else 0 :: u32)" by (simp add: sign63)
qed

lemma combine_bound:
  fixes x y :: int
  assumes "0 \<le> a" "a \<le> m" "0 \<le> b" "b \<le> m" "\<bar>x\<bar> + \<bar>y\<bar> \<le> K"
  shows "\<bar>a * x + b * y\<bar> \<le> K * m"
proof -
  have "\<bar>a * x\<bar> \<le> m * \<bar>x\<bar>" "\<bar>b * y\<bar> \<le> m * \<bar>y\<bar>" using assms by (simp_all add: abs_mult mult_right_mono)
  then have "\<bar>a * x + b * y\<bar> \<le> m * (\<bar>x\<bar> + \<bar>y\<bar>)" by (simp add: distrib_left)
  also have "\<dots> \<le> m * K" using assms by (intro mult_left_mono) simp_all
  finally show ?thesis by (simp add: mult.commute)
qed

lemma word_combine: "ucast (w :: u32) * x = (word_of_int (uint w * sint x) :: u64)"
  by (simp flip: word_of_int_uint)

lemma co_reduce_step:
  "(\<lambda>u (a, b, cca, ccb).
            let wa = a ! u;
                wb = b ! u;
                za = ucast wa * xa + ucast wb * xb + cca;
                zb = ucast wa * ya + ucast wb * yb + ccb;
                (a, b) = (if u > 0 then (a[u - 1 := ucast za AND 0x7FFFFFFF], b[u - 1 := ucast zb AND 0x7FFFFFFF]) else (a, b))
            in (a, b, signed_drop_bit 31 za, signed_drop_bit 31 zb))
   = shift_step (\<lambda>u wa wb. ucast wa * xa + ucast wb * xb) (\<lambda>u wa wb. ucast wa * ya + ucast wb * yb)"
  by (intro ext) (simp add: shift_step_def Let_def split: prod.splits)

definition combo :: "u32 list \<Rightarrow> u32 list \<Rightarrow> u64 \<Rightarrow> u64 \<Rightarrow> int" where
  "combo a b x y = sint x * zval a + sint y * zval b"

lemma combo_sum:
  assumes "length a = Suc n" "length b = Suc n"
  shows "(\<Sum>u<Suc n. (uint (a ! u) * sint x + uint (b ! u) * sint y) * B ^ u) = combo a b x y"
  using assms unfolding combo_def zval_top [OF assms(1)] zval_top [OF assms(2)]
  by (simp add: distrib_right sum.distrib sum_distrib_left ac_simps del: sum.lessThan_Suc)

lemma combo_bound:
  assumes "zwords a" "zwords b" "length a = Suc n" "length b = Suc n" "\<bar>sint x\<bar> + \<bar>sint y\<bar> \<le> B" "combo a b x y = B * T"
  shows "\<bar>T\<bar> < B ^ Suc n"
proof -
  have "\<bar>zval a * sint x + zval b * sint y\<bar> \<le> B * (B ^ Suc n - 1)"
    using zval_less [OF assms(1)] zval_less [OF assms(2)] assms(3-5) zval_nonneg by (intro combine_bound) simp_all
  then have "B * \<bar>T\<bar> \<le> B * (B ^ Suc n - 1)" using assms(6) by (simp add: combo_def abs_mult mult.commute)
  then have "\<bar>T\<bar> \<le> B ^ Suc n - 1" by (simp only: mult_le_cancel_left_pos zero_less_numeral)
  then show ?thesis by linarith
qed

lemma co_reduce_term:
  assumes "uint wa < B" "uint wb < B" "\<bar>sint x\<bar> + \<bar>sint y\<bar> \<le> B"
  shows "\<bar>uint wa * sint x + uint wb * sint y\<bar> \<le> B * (B - 1)"
  using assms by (intro combine_bound) simp_all

lemma abs_mod: "\<bar>T\<bar> < m \<Longrightarrow> (if T < 0 then - T else T) mod m = \<bar>T\<bar>" for T m :: int
  by auto

lemma negate_shifted:
  assumes "shifted f (Suc n) a c" "length a = Suc n" "(\<Sum>u<Suc n. f u * B ^ u) = B * T" "\<bar>T\<bar> < B ^ Suc n"
  shows "zval (zint_negate (a[n := ucast c]) (Suc n) (ucast (drop_bit 63 c))) = \<bar>T\<bar>"
    "zwords (zint_negate (a[n := ucast c]) (Suc n) (ucast (drop_bit 63 c)))"
    "length (zint_negate (a[n := ucast c]) (Suc n) (ucast (drop_bit 63 c))) = Suc n"
proof -
  note t = shifted_top [OF assms(1-3)]
  have c: "ucast (drop_bit 63 c) = (0 :: u32) \<or> ucast (drop_bit 63 c) = (1 :: u32)" unfolding t(3) by simp
  have l: "length (a[n := ucast c]) = Suc n" using assms(2) by simp
  note r = zint_negate_correct [OF l t(4) c]
  show "zwords (zint_negate (a[n := ucast c]) (Suc n) (ucast (drop_bit 63 c)))"
    "length (zint_negate (a[n := ucast c]) (Suc n) (ucast (drop_bit 63 c))) = Suc n" by (rule r(2), rule r(3))
  have "zval (zint_negate (a[n := ucast c]) (Suc n) (ucast (drop_bit 63 c))) = (if T < 0 then - zval (a[n := ucast c]) else zval (a[n := ucast c])) mod B ^ Suc n"
  proof -
    have "ucast (drop_bit 63 c) = (1 :: u32) \<longleftrightarrow> T < 0" using t(3) by simp
    then show ?thesis using r(1) by (simp only:)
  qed
  also have "\<dots> = (if T < 0 then - T else T) mod B ^ Suc n" 
  proof -
    have "- zval (a[n := ucast c]) mod B ^ Suc n = - T mod B ^ Suc n"
      by (subst (1 2) mod_minus_eq [symmetric]) (simp only: t(2))
    then show ?thesis using t(2) by (cases "T < 0") (simp_all only: if_True if_False)
  qed
  finally show "zval (zint_negate (a[n := ucast c]) (Suc n) (ucast (drop_bit 63 c))) = \<bar>T\<bar>" using abs_mod [OF assms(4)] by simp
qed

lemma zint_co_reduce_correct:
  assumes "zwords a" "zwords b" "length a = Suc n" "length b = Suc n"
    and "\<bar>sint xa\<bar> + \<bar>sint xb\<bar> \<le> B" "\<bar>sint ya\<bar> + \<bar>sint yb\<bar> \<le> B"
    and "combo a b xa xb = B * Ta" "combo a b ya yb = B * Tb"
    and "zint_co_reduce a b (Suc n) xa xb ya yb = (a', b', r)"
  shows "zval a' = \<bar>Ta\<bar>" "zwords a'" "length a' = Suc n" "zval b' = \<bar>Tb\<bar>" "zwords b'" "length b' = Suc n"
    "r = (if Ta < 0 then 1 else 0) OR push_bit 1 (if Tb < 0 then 1 else 0)"
proof -
  let ?f = "\<lambda>u. uint (a ! u) * sint xa + uint (b ! u) * sint xb" and ?g = "\<lambda>u. uint (a ! u) * sint ya + uint (b ! u) * sint yb"
  let ?F = "\<lambda>u wa wb. ucast wa * xa + ucast wb * xb" and ?G = "\<lambda>u wa wb. ucast wa * ya + ucast wb * yb"
  obtain a1 b1 ca cb where l: "fold (shift_step ?F ?G) [0..<Suc n] (a, b, 0, 0) = (a1, b1, ca, cb)"
    by (cases "fold (shift_step ?F ?G) [0..<Suc n] (a, b, 0, 0)")
  have terms: "?F u (a ! u) (b ! u) = word_of_int (?f u) \<and> ?G u (a ! u) (b ! u) = word_of_int (?g u)
      \<and> \<bar>?f u\<bar> + 2 * B < 2 * B * B \<and> \<bar>?g u\<bar> + 2 * B < 2 * B * B" if "u < Suc n" for u
  proof (intro conjI)
    have w: "uint (a ! u) < B" "uint (b ! u) < B" using zwords_nth assms(1-4) that by simp_all
    show "\<bar>?f u\<bar> + 2 * B < 2 * B * B" "\<bar>?g u\<bar> + 2 * B < 2 * B * B"
      using co_reduce_term [OF w assms(5)] co_reduce_term [OF w assms(6)] by simp_all
  qed (simp_all only: word_combine of_int_add)
  have sa: "shifted ?f (Suc n) a1 ca" "shifted ?g (Suc n) b1 cb" "length a1 = length a" "length b1 = length a"
    by (rule shift_fold [where F = ?F and G = ?G and f = ?f and g = ?g, OF terms _ _ l]; use assms(3,4) in simp)+
  note sa = sa [unfolded assms(3)]
  have Ta: "(\<Sum>u<Suc n. ?f u * B ^ u) = B * Ta" "(\<Sum>u<Suc n. ?g u * B ^ u) = B * Tb"
    unfolding combo_sum [OF assms(3,4)] by (rule assms(7), rule assms(8))
  note na = negate_shifted [OF sa(1,3) Ta(1) combo_bound [OF assms(1-5,7)]]
  note nb = negate_shifted [OF sa(2,4) Ta(2) combo_bound [OF assms(1-4,6,8)]]
  have e: "a' = zint_negate (a1[n := ucast ca]) (Suc n) (ucast (drop_bit 63 ca))" "b' = zint_negate (b1[n := ucast cb]) (Suc n) (ucast (drop_bit 63 cb))"
    "r = ucast (drop_bit 63 ca) OR push_bit 1 (ucast (drop_bit 63 cb))"
    using assms(9) unfolding zint_co_reduce_def co_reduce_step l by (simp_all add: Let_def)
  show "zval a' = \<bar>Ta\<bar>" "zwords a'" "length a' = Suc n" "zval b' = \<bar>Tb\<bar>" "zwords b'" "length b' = Suc n"
    unfolding e(1,2) by (rule na nb)+
  show "r = (if Ta < 0 then 1 else 0) OR push_bit 1 (if Tb < 0 then 1 else 0)"
    unfolding e(3) shifted_top(3) [OF sa(1,3) Ta(1)] shifted_top(3) [OF sa(2,4) Ta(2)] ..
qed

section \<open>Modular combinations\<close>

lemma finish_chain:
  assumes "length a = Suc n" "length m = Suc n" "zwords (take n a)" "zwords m" "zval a < 2 * zval m"
  shows "uint (borrow_chain a m (Suc n) 0) = (if zval a < zval m then 1 else 0)"
proof -
  let ?c = "borrow_chain a m n 0"
  have za: "zval a = zval (take n a) + B ^ n * uint (a ! n)" "zval m = zval (take n m) + B ^ n * uint (m ! n)"
    using zval_take_Suc [of n a] zval_take_Suc [of n m] assms(1,2) by simp_all
  have c: "uint ?c = (if zval (take n a) < zval (take n m) then 1 else 0)"
    by (rule borrow_chain_less) (use assms zwords_take in simp_all)
  have lo: "0 \<le> zval (take n a)" "zval (take n a) < B ^ n" "0 \<le> zval (take n m)" "zval (take n m) < B ^ n"
    using zval_nonneg zval_less [OF assms(3)] zval_less [OF zwords_take [OF assms(4)], of n] assms(1,2) by simp_all
  define d where "d = uint (a ! n) - uint (m ! n) - uint ?c"
  define e where "e = zval (take n a) - zval (take n m) + B ^ n * uint ?c"
  have e: "0 \<le> e" "e < B ^ n" "zval a - zval m = B ^ n * d + e"
    using lo c by (simp_all add: e_def d_def za algebra_simps)
  have m: "zval m < B ^ n * B" using zval_less [OF assms(4)] assms(2) by (simp add: mult.commute)
  have "B ^ n * d < B ^ n * B" using e assms(5) m by linarith
  then have "d < B" by simp
  moreover have "- B \<le> d"
  proof -
    have "uint (m ! n) < B" "uint ?c \<le> 1" using zwords_nth [OF assms(4)] assms(2) c by simp_all
    then show ?thesis unfolding d_def using uint_nonnegative [of "a ! n"] by linarith
  qed
  ultimately have "uint (drop_bit 31 (a ! n - m ! n - ?c)) = (if d < 0 then 1 else 0)"
    by (intro borrow31(2)) (simp_all add: d_def uint_word_ariths mod_simps)
  also have "d < 0 \<longleftrightarrow> zval a < zval m"
  proof (cases "d < 0")
    case True
    then have "B ^ n * d \<le> - (B ^ n)" using mult_left_mono [of d "- 1" "B ^ n"] by simp
    then show ?thesis using True e by linarith
  next
    case False
    then have "0 \<le> B ^ n * d" by simp
    then show ?thesis using False e by linarith
  qed
  finally show ?thesis by (simp add: borrow_chain_def)
qed

lemma zint_finish_mod_correct:
  assumes "length a = Suc n" "length m = Suc n" "zwords (take n a)" "zwords m"
    and "neg = 0 \<and> zval a < 2 * zval m \<and> T = zval a \<or> neg = 1 \<and> zval a mod B ^ Suc n = T mod B ^ Suc n \<and> - zval m \<le> T \<and> T < 0"
  shows "zval (zint_finish_mod a (Suc n) m neg) = T mod zval m" "zwords (zint_finish_mod a (Suc n) m neg)"
    "length (zint_finish_mod a (Suc n) m neg) = Suc n"
proof -
  define cc where "cc = borrow_chain a m (Suc n) 0"
  let ?xm = "drop_bit 1 (- neg)" and ?ym = "- (neg OR (1 - cc))"
  let ?mw = "\<lambda>u. (m ! u XOR ?xm) AND ?ym"
  let ?t = "\<lambda>u. uint (a ! u) - uint (?mw u)"
  have cc: "cc = (if zval a < zval m then 1 else 0)" if "neg = 0"
    using finish_chain [OF assms(1-4)] assms(5) that by (simp add: cc_def word_uint_eq_iff)
  have cc01: "cc = 0 \<or> cc = 1"
    unfolding cc_def borrow_chain_def using sign_shift by simp
  have mb: "uint (m ! u) < B" if "u < Suc n" for u using zwords_nth [OF assms(4)] assms(2) that by simp
  have mw: "uint (?mw u) = (if neg = 1 then B - 1 - uint (m ! u) else if cc = 1 then 0 else uint (m ! u))" if "u < Suc n" for u
  proof (cases "neg = 1")
    case True
    have x: "?xm = 0x7FFFFFFF" unfolding True by (simp add: mask_eq_exp_minus_1)
    have y: "?ym = - 1" unfolding True using cc01 by auto
    show ?thesis unfolding x y using True xor_mask31 [OF mb [OF that]] by simp
  next
    case False
    then have "neg = 0" using assms(5) by auto
    then show ?thesis using cc01 by auto
  qed
  then have mwb: "0 \<le> uint (?mw u)" "uint (?mw u) < B" if "u < Suc n" for u
    using mb [OF that] that uint_nonnegative [of "m ! u"] by (simp_all, linarith?)
  obtain a' c' where l: "fold (\<lambda>u (x, c). case (x ! u - ?mw u - c AND 0x7FFFFFFF, drop_bit 31 (x ! u - ?mw u - c)) of (w, c') \<Rightarrow> (x[u := w], c'))
      [0..<Suc n] (a, neg) = (a', c')" by fastforce
  have a': "zint_finish_mod a (Suc n) m neg = a'"
    using l unfolding zint_finish_mod_def borrow_chain_def [symmetric] cc_def [symmetric] Let_def by simp
  have ab: "uint (a ! u) < B" if "u < n" for u using zwords_nth [OF assms(3), of u] assms(1) that by simp
  have step: "uint (a ! u - ?mw u - c AND 0x7FFFFFFF) < B \<and> uint (drop_bit 31 (a ! u - ?mw u - c)) \<le> 1 \<and>
      uint (a ! u - ?mw u - c AND 0x7FFFFFFF) + B * - uint (drop_bit 31 (a ! u - ?mw u - c)) = ?t u + - uint c"
    if "u < n" "uint c \<le> 1" for u c
    by (rule sub_step [OF ab [OF that(1)] mwb(2) that(2)]) (use that in simp)
  have top: "uint (a ! n - ?mw n - c AND 0x7FFFFFFF) = (?t n + - uint c) mod B" for c
    unfolding uint_and_mask31 by (simp add: uint_word_ariths mod_mod_cancel mod_simps)
  have neg: "uint neg \<le> 1" using assms(5) by auto
  note r = carry_fold_mod [OF _ _ l, where J = "\<lambda>_ c. uint c \<le> 1" and K = "\<lambda>c. - uint c" and t = ?t]
  show "zwords (zint_finish_mod a (Suc n) m neg)" "length (zint_finish_mod a (Suc n) m neg) = Suc n"
    unfolding a' using step top neg assms(1) by (intro r; auto)+
  have "zval a' = ((\<Sum>u<Suc n. ?t u * B ^ u) + - uint neg) mod B ^ Suc n"
    using step top neg assms(1) by (intro r; auto)
  also have "(\<Sum>u<Suc n. ?t u * B ^ u) = zval a - (\<Sum>u<Suc n. uint (?mw u) * B ^ u)"
    unfolding zval_top [OF assms(1)] by (simp only: left_diff_distrib sum_subtractf)
  also have "(\<Sum>u<Suc n. uint (?mw u) * B ^ u) = (if neg = 1 then B ^ Suc n - 1 - zval m else if cc = 1 then 0 else zval m)"
  proof -
    have "(\<Sum>u<Suc n. uint (?mw u) * B ^ u) = (\<Sum>u<Suc n. (if neg = 1 then B - 1 - uint (m ! u) else if cc = 1 then 0 else uint (m ! u)) * B ^ u)"
      by (intro sum.cong) (simp_all only: mw lessThan_iff)
    also have "\<dots> = (if neg = 1 then B ^ Suc n - 1 - zval m else if cc = 1 then 0 else zval m)"
      using geometric_B [of "Suc n"] unfolding zval_top [OF assms(2)] by (simp add: left_diff_distrib sum_subtractf del: sum.lessThan_Suc)
    finally show ?thesis .
  qed
  finally have v: "zval a' = (zval a - (if neg = 1 then B ^ Suc n - 1 - zval m else if cc = 1 then 0 else zval m) + - uint neg) mod B ^ Suc n" .
  have m: "0 \<le> zval m" "zval m < B ^ Suc n" using zval_nonneg zval_less [OF assms(4)] assms(2) by simp_all
  have "zval a' = T mod zval m"
  proof (cases "neg = 1")
    case True
    then have T: "zval a mod B ^ Suc n = T mod B ^ Suc n" "- zval m \<le> T" "T < 0" using assms(5) by auto
    have "zval a' = (zval a + zval m - B ^ Suc n) mod B ^ Suc n" unfolding v using True by (simp add: algebra_simps)
    also have "\<dots> = (zval a + zval m) mod B ^ Suc n" by simp
    also have "\<dots> = (T + zval m) mod B ^ Suc n" using T(1) by (rule mod_add_cong) (rule refl)
    also have "\<dots> = T + zval m" using T m by (intro mod_pos_pos_trivial) linarith+
    finally show ?thesis using T by (simp add: mod_neg_once)
  next
    case False
    then have "neg = 0" "zval a < 2 * zval m" "T = zval a" using assms(5) by auto
    then show ?thesis using v cc m zval_nonneg [of a] by (simp add: mod_once)
  qed
  then show "zval (zint_finish_mod a (Suc n) m neg) = T mod zval m" unfolding a' .
qed

lemma co_reduce_mod_step:
  "(\<lambda>u (a, b, cca, ccb).
            let wa = a ! u;
                wb = b ! u;
                za = ucast wa * xa + ucast wb * xb + ucast (m ! u) * ucast fa + cca;
                zb = ucast wa * ya + ucast wb * yb + ucast (m ! u) * ucast fb + ccb;
                (a, b) = (if u > 0 then (a[u - 1 := ucast za AND 0x7FFFFFFF], b[u - 1 := ucast zb AND 0x7FFFFFFF]) else (a, b))
            in (a, b, signed_drop_bit 31 za, signed_drop_bit 31 zb))
   = shift_step (\<lambda>u wa wb. ucast wa * xa + ucast wb * xb + ucast (m ! u) * ucast fa) (\<lambda>u wa wb. ucast wa * ya + ucast wb * yb + ucast (m ! u) * ucast fb)"
  by (intro ext) (simp add: shift_step_def Let_def split: prod.splits)

lemma finish_shifted:
  assumes "shifted f (Suc n) a c" "length a = Suc n" "(\<Sum>u<Suc n. f u * B ^ u) = B * T"
    and "length m = Suc n" "zwords m" "- zval m \<le> T" "T < 2 * zval m"
  defines "r \<equiv> zint_finish_mod (a[n := ucast c]) (Suc n) m (ucast (drop_bit 63 c))"
  shows "zval r = T mod zval m" "zwords r" "length r = Suc n"
proof -
  note t = shifted_top [OF assms(1-3)]
  have l: "length (a[n := ucast c]) = Suc n" using assms(2) by simp
  have nonneg: "zval (a[n := ucast c]) = T" if "\<not> T < 0"
  proof -
    have "zval m < B ^ Suc n" using zval_less [OF assms(5)] assms(4) by (simp only:)
    then have "B ^ n * sint c < 2 * B ^ Suc n" using t(1) assms(7) zval_nonneg [of "take n a"] by linarith
    then have "B ^ n * sint c < B ^ n * (2 * B)" by (simp add: ac_simps)
    then have "sint c < 2 * B" by (simp only: mult_less_cancel_left_pos zero_less_power zero_less_numeral)
    moreover have "0 \<le> sint c" using t(3) that sign63 [of c] by (simp split: if_splits)
    ultimately show ?thesis unfolding t(5) t(1) by simp
  qed
  have h: "ucast (drop_bit 63 c) = (0 :: u32) \<and> zval (a[n := ucast c]) < 2 * zval m \<and> T = zval (a[n := ucast c])
      \<or> ucast (drop_bit 63 c) = (1 :: u32) \<and> zval (a[n := ucast c]) mod B ^ Suc n = T mod B ^ Suc n \<and> - zval m \<le> T \<and> T < 0"
    using t(2,3) nonneg assms(6,7) by (cases "T < 0") simp_all
  show "zval r = T mod zval m" "zwords r" "length r = Suc n"
    unfolding r_def by (rule zint_finish_mod_correct [OF l assms(4) t(4) assms(5) h])+
qed

lemma sint_ucast_mod: "uint (ucast x :: u32) mod B = sint x mod B" for x :: u64
proof -
  have "sint x mod 18446744073709551616 = uint x" by (simp add: uint_sint take_bit_eq_mod)
  then have "sint x mod B = uint x mod B" using mod_mod_cancel [of B 18446744073709551616 "sint x"] by simp
  then show ?thesis by (simp add: uint_ucast_mod mod_mod_cancel)
qed

definition monty_factor :: "u32 list \<Rightarrow> u32 list \<Rightarrow> u32 list \<Rightarrow> u64 \<Rightarrow> u64 \<Rightarrow> u32" where
  "monty_factor a b m x y = ((a ! 0 * ucast x + b ! 0 * ucast y) * modp_ninv31 (m ! 0)) AND 0x7FFFFFFF"

lemma monty_factor:
  assumes "odd (uint (m ! 0))"
  shows "(uint (a ! 0) * sint x + uint (b ! 0) * sint y + uint (m ! 0) * uint (monty_factor a b m x y)) mod B = 0"
    "uint (monty_factor a b m x y) < B"
proof -
  let ?s = "uint (a ! 0) * sint x + uint (b ! 0) * sint y" and ?i = "uint (modp_ninv31 (m ! 0))"
  have "uint (monty_factor a b m x y) = (uint (a ! 0) * uint (ucast x :: u32) + uint (b ! 0) * uint (ucast y :: u32)) * ?i mod B"
    unfolding monty_factor_def uint_and_mask31 by (simp add: uint_word_ariths mod_mod_cancel mod_simps)
  also have "\<dots> = ?s * ?i mod B"
    by (intro mod_mult_cong mod_add_cong sint_ucast_mod refl)
  finally have f: "uint (monty_factor a b m x y) = ?s * ?i mod B" .
  have "(?s + uint (m ! 0) * (?s * ?i mod B)) mod B = (?s + uint (m ! 0) * (?s * ?i)) mod B"
    by (intro mod_add_cong refl mod_mult_right_eq)
  also have "?s + uint (m ! 0) * (?s * ?i) = ?s * (uint (m ! 0) * ?i + 1)" by (simp add: algebra_simps)
  also have "\<dots> mod B = ?s * ((uint (m ! 0) * ?i + 1) mod B) mod B" by (simp only: mod_mult_right_eq)
  finally show "(?s + uint (m ! 0) * uint (monty_factor a b m x y)) mod B = 0"
    unfolding f modp_ninv31_inverse [OF assms] by simp
  show "uint (monty_factor a b m x y) < B" unfolding f by simp
qed

lemma zval_mod_B: "zval a mod B = (if a = [] then 0 else uint (hd a) mod B)"
  by (cases a) simp_all

lemma zval_odd: "length m = Suc n \<Longrightarrow> odd (zval m) \<longleftrightarrow> odd (uint (m ! 0))"
  by (cases m) simp_all

lemma monty_quotient:
  assumes "length a = Suc n" "length b = Suc n" "length m = Suc n" "odd (zval m)"
    and "zval a \<le> zval m" "zval b \<le> zval m" "\<bar>sint x\<bar> + \<bar>sint y\<bar> \<le> B"
  obtains T where "combo a b x y + uint (monty_factor a b m x y) * zval m = B * T" "- zval m \<le> T" "T < 2 * zval m"
proof -
  let ?f = "uint (monty_factor a b m x y)"
  have o: "odd (uint (m ! 0))" using assms(3,4) zval_odd by blast
  note f = monty_factor [OF o, where a = a and b = b and x = x and y = y]
  have m1: "0 < zval m" using assms(4) zval_nonneg [of m] by (cases "zval m = 0") auto
  have "zval c mod B = uint (c ! 0) mod B" if "length c = Suc n" for c using that by (cases c) simp_all
  then have "(zval a * sint x + zval b * sint y + zval m * ?f) mod B = (uint (a ! 0) * sint x + uint (b ! 0) * sint y + uint (m ! 0) * ?f) mod B"
    using assms(1-3) by (intro mod_add_cong mod_mult_cong refl) simp_all
  then have "(combo a b x y + ?f * zval m) mod B = 0" using f(1) by (simp add: combo_def ac_simps)
  then obtain T where T: "combo a b x y + ?f * zval m = B * T" by (auto simp: mod_eq_0_iff_dvd elim: dvdE)
  have c: "\<bar>combo a b x y\<bar> \<le> B * zval m"
    using combine_bound [OF zval_nonneg assms(5) zval_nonneg assms(6,7)] by (simp add: combo_def ac_simps)
  have fm: "0 \<le> ?f * zval m" "?f * zval m < B * zval m" using f(2) m1 by simp_all
  have "B * (- zval m) \<le> B * T" "B * T < B * (2 * zval m)" using c fm T by linarith+
  then have "- zval m \<le> T" "T < 2 * zval m" by (simp_all only: mult_le_cancel_left_pos mult_less_cancel_left_pos zero_less_numeral)
  then show thesis using that T by blast
qed

lemma modular_combination:
  assumes "zwords a" "zwords b" "zwords m" "length a = Suc n" "length b = Suc n" "length m = Suc n" "odd (zval m)"
    and "zval a \<le> zval m" "zval b \<le> zval m" "\<bar>sint x\<bar> + \<bar>sint y\<bar> \<le> B"
  defines "f \<equiv> \<lambda>u. uint (a ! u) * sint x + uint (b ! u) * sint y + uint (m ! u) * uint (monty_factor a b m x y)"
  shows "\<And>u. u < Suc n \<Longrightarrow> \<bar>f u\<bar> + 2 * B < 2 * B * B"
    "\<lbrakk>shifted f (Suc n) a1 c; length a1 = Suc n; r = zint_finish_mod (a1[n := ucast c]) (Suc n) m (ucast (drop_bit 63 c))\<rbrakk>
     \<Longrightarrow> zwords r \<and> length r = Suc n \<and> zval r < zval m \<and> B * zval r mod zval m = combo a b x y mod zval m"
proof -
  let ?f = "uint (monty_factor a b m x y)"
  have o: "odd (uint (m ! 0))" using assms(6,7) zval_odd by blast
  have fb: "?f < B" by (rule monty_factor(2) [OF o])
  show "\<bar>f u\<bar> + 2 * B < 2 * B * B" if "u < Suc n" for u
  proof -
    have w: "uint (a ! u) < B" "uint (b ! u) < B" "uint (m ! u) < B" using zwords_nth assms(1-6) that by simp_all
    have "\<bar>uint (a ! u) * sint x + uint (b ! u) * sint y\<bar> \<le> B * (B - 1)" by (rule co_reduce_term [OF w(1,2) assms(10)])
    moreover have "0 \<le> uint (m ! u) * ?f" "uint (m ! u) * ?f \<le> (B - 1) * (B - 1)" using w(3) fb by (simp, intro mult_mono, simp_all)
    moreover have "\<bar>s + t\<bar> + 2 * B < 2 * B * B" if "\<bar>s\<bar> \<le> B * (B - 1)" "0 \<le> t" "t \<le> (B - 1) * (B - 1)" for s t :: int
      using that by simp
    ultimately show ?thesis unfolding f_def by blast
  qed
  assume s: "shifted f (Suc n) a1 c" "length a1 = Suc n" "r = zint_finish_mod (a1[n := ucast c]) (Suc n) m (ucast (drop_bit 63 c))"
  obtain T where T: "combo a b x y + ?f * zval m = B * T" "- zval m \<le> T" "T < 2 * zval m"
    by (rule monty_quotient [OF assms(4-10)])
  have "(\<Sum>u<Suc n. f u * B ^ u) = combo a b x y + ?f * zval m"
    unfolding f_def distrib_right [of "_ + _"] sum.distrib combo_sum [OF assms(4,5)] zval_top [OF assms(6)] sum_distrib_left
    by (simp add: ac_simps del: sum.lessThan_Suc)
  then have B: "(\<Sum>u<Suc n. f u * B ^ u) = B * T" using T(1) by simp
  have r: "zval r = T mod zval m" "zwords r" "length r = Suc n"
    unfolding s(3) by (rule finish_shifted [OF s(1,2) B assms(6,3) T(2,3)])+
  have "0 < zval m" using assms(7) zval_nonneg [of m] by (cases "zval m = 0") auto
  then have "zval r < zval m" unfolding r(1) by simp
  moreover have "B * zval r mod zval m = combo a b x y mod zval m"
  proof -
    have "B * zval r mod zval m = (combo a b x y + ?f * zval m) mod zval m" unfolding r(1) T(1) by (simp only: mod_mult_right_eq)
    then show ?thesis by simp
  qed
  ultimately show "zwords r \<and> length r = Suc n \<and> zval r < zval m \<and> B * zval r mod zval m = combo a b x y mod zval m" using r by blast
qed

lemma zint_co_reduce_mod_correct:
  assumes "zwords a" "zwords b" "zwords m" "length a = Suc n" "length b = Suc n" "length m = Suc n" "odd (zval m)"
    and "zval a \<le> zval m" "zval b \<le> zval m" "\<bar>sint xa\<bar> + \<bar>sint xb\<bar> \<le> B" "\<bar>sint ya\<bar> + \<bar>sint yb\<bar> \<le> B"
    and "zint_co_reduce_mod a b m (Suc n) (modp_ninv31 (m ! 0)) xa xb ya yb = (a', b')"
  shows "zwords a' \<and> length a' = Suc n \<and> zval a' < zval m \<and> B * zval a' mod zval m = combo a b xa xb mod zval m"
    "zwords b' \<and> length b' = Suc n \<and> zval b' < zval m \<and> B * zval b' mod zval m = combo a b ya yb mod zval m"
proof -
  let ?fa = "monty_factor a b m xa xb" and ?fb = "monty_factor a b m ya yb"
  let ?F = "\<lambda>u wa wb. ucast wa * xa + ucast wb * xb + ucast (m ! u) * ucast ?fa" and ?G = "\<lambda>u wa wb. ucast wa * ya + ucast wb * yb + ucast (m ! u) * ucast ?fb"
  let ?f = "\<lambda>u. uint (a ! u) * sint xa + uint (b ! u) * sint xb + uint (m ! u) * uint ?fa"
  let ?g = "\<lambda>u. uint (a ! u) * sint ya + uint (b ! u) * sint yb + uint (m ! u) * uint ?fb"
  note A = modular_combination [OF assms(1-10)] and B = modular_combination [OF assms(1-9,11)]
  obtain a1 b1 ca cb where l: "fold (shift_step ?F ?G) [0..<Suc n] (a, b, 0, 0) = (a1, b1, ca, cb)"
    by (cases "fold (shift_step ?F ?G) [0..<Suc n] (a, b, 0, 0)")
  have w: "ucast (v :: u32) * ucast (k :: u32) = (word_of_int (uint v * uint k) :: u64)" for v k by (simp flip: word_of_int_uint)
  have terms: "?F u (a ! u) (b ! u) = word_of_int (?f u) \<and> ?G u (a ! u) (b ! u) = word_of_int (?g u)
      \<and> \<bar>?f u\<bar> + 2 * B < 2 * B * B \<and> \<bar>?g u\<bar> + 2 * B < 2 * B * B" if "u < Suc n" for u
    using A(1) [OF that] B(1) [OF that] unfolding w word_combine [of _ xa] word_combine [of _ xb] word_combine [of _ ya] word_combine [of _ yb]
    by (simp only: of_int_add simp_thms)
  have sa: "shifted ?f (Suc n) a1 ca" "shifted ?g (Suc n) b1 cb" "length a1 = length a" "length b1 = length a"
    by (rule shift_fold [where F = ?F and G = ?G and f = ?f and g = ?g, OF terms _ _ l]; use assms(4,5) in simp)+
  note sa = sa [unfolded assms(4)]
  have e: "a' = zint_finish_mod (a1[n := ucast ca]) (Suc n) m (ucast (drop_bit 63 ca))" "b' = zint_finish_mod (b1[n := ucast cb]) (Suc n) m (ucast (drop_bit 63 cb))"
  proof -
    have "(a', b') = (zint_finish_mod (a1[n := ucast ca]) (Suc n) m (ucast (drop_bit 63 ca)), zint_finish_mod (b1[n := ucast cb]) (Suc n) m (ucast (drop_bit 63 cb)))"
      unfolding assms(12) [symmetric] zint_co_reduce_mod_def monty_factor_def [symmetric]
      by (subst Let_def, subst Let_def, subst co_reduce_mod_step, subst l) (simp add: Let_def)
    then show "a' = zint_finish_mod (a1[n := ucast ca]) (Suc n) m (ucast (drop_bit 63 ca))" "b' = zint_finish_mod (b1[n := ucast cb]) (Suc n) m (ucast (drop_bit 63 cb))"
      by simp_all
  qed
  show "zwords a' \<and> length a' = Suc n \<and> zval a' < zval m \<and> B * zval a' mod zval m = combo a b xa xb mod zval m"
    by (rule A(2) [OF sa(1,3) e(1)])
  show "zwords b' \<and> length b' = Suc n \<and> zval b' < zval m \<and> B * zval b' mod zval m = combo a b ya yb mod zval m"
    by (rule B(2) [OF sa(2,4) e(2)])
qed

section \<open>Coefficients of a round\<close>

definition small :: "u64 \<Rightarrow> u64 \<Rightarrow> int \<Rightarrow> bool" where
  "small x y k \<longleftrightarrow> \<bar>sint x\<bar> + \<bar>sint y\<bar> \<le> k"

lemma small_mono: "small x y k \<Longrightarrow> k \<le> k' \<Longrightarrow> small x y k'"
  by (simp add: small_def)

lemma sint_diff_small:
  fixes x y :: u64
  assumes "\<bar>sint x\<bar> \<le> B" "\<bar>sint y\<bar> \<le> B"
  shows "sint (x - y) = sint x - sint y" "sint (x + y) = sint x + sint y" "sint (- y) = - sint y"
proof -
  have "x - y = word_of_int (sint x - sint y)" "x + y = word_of_int (sint x + sint y)" "- y = word_of_int (- sint y)" by simp_all
  then show "sint (x - y) = sint x - sint y" "sint (x + y) = sint x + sint y" "sint (- y) = - sint y"
    by (simp_all only:) (rule sint_word_of_int; use assms in simp)+
qed

lemma small_diff: "small v w k \<Longrightarrow> small x y k \<Longrightarrow> k \<le> B \<Longrightarrow> small (v - x) (w - y) (2 * k)"
  using sint_diff_small(1) [of v x] sint_diff_small(1) [of w y] by (simp add: small_def)

lemma small_double: "small v w k \<Longrightarrow> k \<le> B \<Longrightarrow> small (v + v) (w + w) (2 * k)"
  using sint_diff_small(2) [of v v] sint_diff_small(2) [of w w] by (simp add: small_def)

lemma small_neg: "small v w k \<Longrightarrow> k \<le> B \<Longrightarrow> small (- v) (- w) k \<and> sint (- v) = - sint v \<and> sint (- w) = - sint w"
  using sint_diff_small(3) [of 0 v] sint_diff_small(3) [of 0 w] by (simp add: small_def)

definition gcd_inv :: "u32 \<Rightarrow> u32 \<Rightarrow> nat \<Rightarrow> gcd_state \<Rightarrow> bool" where
  "gcd_inv a b i s \<longleftrightarrow>
     a_lo s = a * ucast (pa s) + b * ucast (pb s) \<and> b_lo s = a * ucast (qa s) + b * ucast (qb s) \<and>
     take_bit i (a_lo s) = 0 \<and> take_bit i (b_lo s) = 0 \<and> small (pa s) (pb s) (2 ^ i) \<and> small (qa s) (qb s) (2 ^ i)"

lemma drop_bit_and_one: "drop_bit i w AND 1 = of_bool (bit w i)" for w :: u32
proof (rule bit_word_eqI)
  show "bit (drop_bit i w AND 1) k = bit (of_bool (bit w i) :: u32) k" for k
    by (cases k) (simp_all add: bit_and_iff bit_drop_bit_eq bit_1_iff)
qed

lemma bit63: "bit w 63 \<longleftrightarrow> 9223372036854775808 \<le> uint w" for w :: u64
proof -
  have "uint w < 18446744073709551616" using uint_lt2p [of w] by simp
  then have "uint w div 9223372036854775808 = (if 9223372036854775808 \<le> uint w then 1 else 0)"
    using int_div_pos_eq [of "uint w" 9223372036854775808 1 "uint w - 9223372036854775808"] by simp
  moreover have "bit w 63 \<longleftrightarrow> odd (uint w div 9223372036854775808)" using bit_uint_iff [of w 63] unfolding bit_iff_odd [of "uint w"] by simp
  ultimately show ?thesis by simp
qed

lemma shift63: "ucast (drop_bit 63 w) = (if bit w 63 then 1 else 0 :: u32)" for w :: u64
proof -
  have "uint w < 18446744073709551616" using uint_lt2p [of w] by simp
  then have "uint w div 9223372036854775808 = (if 9223372036854775808 \<le> uint w then 1 else 0)"
    using int_div_pos_eq [of "uint w" 9223372036854775808 1 "uint w - 9223372036854775808"] by simp
  then show ?thesis unfolding bit63 by (simp add: word_uint_eq_iff uint_ucast_mod uint_shr)
qed

lemma hi_greater: "hi_greater a b = (if b < a then 1 else 0)"
proof -
  let ?M = "9223372036854775808 :: int"
  have r: "uint a < 2 * ?M" "uint b < 2 * ?M" using uint_lt2p [of a] uint_lt2p [of b] by simp_all
  have z: "uint (b - a) = (if uint a \<le> uint b then uint b - uint a else uint b - uint a + 2 * ?M)"
    unfolding uint_sub_if' by simp
  have "bit (b - a) 63 = (if (?M \<le> uint a) = (?M \<le> uint b) then b < a else bit (b - a) 63)"
    unfolding bit63 z word_less_def using r uint_ge_0 [of a] uint_ge_0 [of b] by presburger
  moreover have "b < a \<longleftrightarrow> ?M \<le> uint a" if "(?M \<le> uint a) \<noteq> (?M \<le> uint b)"
    using that unfolding word_less_def by linarith
  ultimately have "bit ((b - a) XOR ((a XOR b) AND (a XOR (b - a)))) 63 \<longleftrightarrow> b < a"
    unfolding bit_xor_iff bit_and_iff bit63 [of a] bit63 [of b] by argo
  then show ?thesis by (simp only: hi_greater_def Let_def shift63)
qed

lemma gcd_step_branches [code]:
  "gcd_step i s =
    (if \<not> bit (a_lo s) i then s\<lparr>b_lo := b_lo s + b_lo s, a_hi := drop_bit 1 (a_hi s), qa := qa s + qa s, qb := qb s + qb s\<rparr>
     else if \<not> bit (b_lo s) i then s\<lparr>a_lo := a_lo s + a_lo s, b_hi := drop_bit 1 (b_hi s), pa := pa s + pa s, pb := pb s + pb s\<rparr>
     else if b_hi s < a_hi s then
       \<lparr>a_lo = a_lo s - b_lo s, b_lo = b_lo s + b_lo s, a_hi = drop_bit 1 (a_hi s - b_hi s), b_hi = b_hi s,
        pa = pa s - qa s, pb = pb s - qb s, qa = qa s + qa s, qb = qb s + qb s\<rparr>
     else
       \<lparr>a_lo = a_lo s + a_lo s, b_lo = b_lo s - a_lo s, a_hi = a_hi s, b_hi = drop_bit 1 (b_hi s - a_hi s),
        pa = pa s + pa s, pb = pb s + pb s, qa = qa s - pa s, qb = qb s - pb s\<rparr>)"
  by (cases "bit (a_lo s) i"; cases "bit (b_lo s) i"; cases "b_hi s < a_hi s") (simp_all add: gcd_step_def hi_greater drop_bit_and_one Let_def)

lemma gcd_step_cases:
  obtains (halve_a) "\<not> bit (a_lo s) i" "a_lo (gcd_step i s) = a_lo s" "b_lo (gcd_step i s) = b_lo s + b_lo s"
      "pa (gcd_step i s) = pa s" "pb (gcd_step i s) = pb s" "qa (gcd_step i s) = qa s + qa s" "qb (gcd_step i s) = qb s + qb s"
  | (sub_b) "bit (a_lo s) i" "bit (b_lo s) i" "a_lo (gcd_step i s) = a_lo s - b_lo s" "b_lo (gcd_step i s) = b_lo s + b_lo s"
      "pa (gcd_step i s) = pa s - qa s" "pb (gcd_step i s) = pb s - qb s" "qa (gcd_step i s) = qa s + qa s" "qb (gcd_step i s) = qb s + qb s"
  | (sub_a) "bit (a_lo s) i" "bit (b_lo s) i" "a_lo (gcd_step i s) = a_lo s + a_lo s" "b_lo (gcd_step i s) = b_lo s - a_lo s"
      "pa (gcd_step i s) = pa s + pa s" "pb (gcd_step i s) = pb s + pb s" "qa (gcd_step i s) = qa s - pa s" "qb (gcd_step i s) = qb s - pb s"
  | (halve_b) "bit (a_lo s) i" "\<not> bit (b_lo s) i" "a_lo (gcd_step i s) = a_lo s + a_lo s" "b_lo (gcd_step i s) = b_lo s"
      "pa (gcd_step i s) = pa s + pa s" "pb (gcd_step i s) = pb s + pb s" "qa (gcd_step i s) = qa s" "qb (gcd_step i s) = qb s"
  by (cases "bit (a_lo s) i"; cases "bit (b_lo s) i"; cases "b_hi s < a_hi s") (simp_all add: gcd_step_branches)

lemma low_zero: "take_bit i w = 0 \<longleftrightarrow> (\<forall>k<i. \<not> bit w k)" for w :: "'a::len word"
  by (auto simp: bit_eq_iff bit_take_bit_iff dest: bit_imp_le_length)

lemma take_bit_double: "take_bit i w = 0 \<Longrightarrow> take_bit (Suc i) (w + w) = 0" for w :: "'a::len word"
proof -
  have "w + w = push_bit 1 w" by simp
  show "take_bit i w = 0 \<Longrightarrow> take_bit (Suc i) (w + w) = 0"
    unfolding low_zero \<open>w + w = push_bit 1 w\<close> bit_push_bit_iff by auto
qed

lemma take_bit_halve: "take_bit i w = 0 \<Longrightarrow> \<not> bit w i \<Longrightarrow> take_bit (Suc i) w = 0" for w :: "'a::len word"
  by (auto simp: low_zero less_Suc_eq)

lemma take_bit_cancel: "take_bit i v = 0 \<Longrightarrow> take_bit i w = 0 \<Longrightarrow> bit v i \<Longrightarrow> bit w i \<Longrightarrow> take_bit (Suc i) (v - w) = 0" for v w :: u32
proof -
  assume h: "take_bit i v = 0" "take_bit i w = 0" "bit v i" "bit w i"
  then have e: "take_bit (Suc i) v = take_bit (Suc i) w" unfolding low_zero by (intro bit_word_eqI) (auto simp: bit_take_bit_iff less_Suc_eq)
  have t: "uint (take_bit (Suc i) z) = uint z mod 2 ^ Suc i" for z :: u32
    unfolding unsigned_take_bit_eq by (rule take_bit_eq_mod)
  have d: "(2 :: int) ^ Suc i dvd 4294967296" using bit_imp_le_length [OF h(3)] le_imp_power_dvd [of "Suc i" 32 "2 :: int"] by simp
  have "uint (v - w) mod 2 ^ Suc i = (uint v - uint w) mod 2 ^ Suc i"
    using mod_mod_cancel [OF d, of "uint v - uint w"] by (simp add: uint_word_ariths)
  also have "\<dots> = 0" using arg_cong [OF e, of uint] unfolding t by (metis diff_self mod_diff_cong mod_0)
  finally show ?thesis by (simp only: word_uint_eq_iff t) simp
qed

lemma ucast_arith: "ucast (x + y :: u64) = (ucast x + ucast y :: u32)" "ucast (x - y :: u64) = (ucast x - ucast y :: u32)"
  by (simp_all add: word_uint_eq_iff uint_ucast_mod uint_word_ariths mod_mod_cancel mod_simps)

lemma lo_double: "v = a * ucast x + b * ucast y \<Longrightarrow> v + v = a * ucast (x + x) + b * ucast (y + y)" for v :: u32 and x y :: u64
  unfolding ucast_arith by (simp only: algebra_simps)

lemma lo_diff: "v = a * ucast x + b * ucast y \<Longrightarrow> w = a * ucast x' + b * ucast y' \<Longrightarrow> v - w = a * ucast (x - x') + b * ucast (y - y')"
  for v w :: u32 and x y x' y' :: u64
  unfolding ucast_arith by (simp only: algebra_simps)

lemma gcd_step_inv:
  assumes "gcd_inv a b i s" "i < 31"
  shows "gcd_inv a b (Suc i) (gcd_step i s)"
proof -
  have k: "(2 :: int) ^ i \<le> B" using power_increasing [of i 31 "2 :: int"] assms(2) by simp
  note g = assms(1) [unfolded gcd_inv_def]
  have P: "small (pa s) (pb s) (2 ^ i)" "small (qa s) (qb s) (2 ^ i)" using g by blast+
  have S: "small (pa s) (pb s) (2 * 2 ^ i)" "small (qa s) (qb s) (2 * 2 ^ i)" using P by (auto elim: small_mono)
  note sm = small_diff [OF P k] small_diff [OF P(2,1) k] small_double [OF P(1) k] small_double [OF P(2) k] S
  note hints = take_bit_double take_bit_halve take_bit_cancel lo_double lo_diff
  show ?thesis
  proof (cases rule: gcd_step_cases [of s i])
    case halve_a
    show ?thesis unfolding gcd_inv_def halve_a power_Suc by (intro conjI) (use g sm halve_a(1) in \<open>blast intro: hints\<close>)+
  next
    case sub_b
    show ?thesis unfolding gcd_inv_def sub_b power_Suc by (intro conjI) (use g sm sub_b(1,2) in \<open>blast intro: hints\<close>)+
  next
    case sub_a
    show ?thesis unfolding gcd_inv_def sub_a power_Suc by (intro conjI) (use g sm sub_a(1,2) in \<open>blast intro: hints\<close>)+
  next
    case halve_b
    show ?thesis unfolding gcd_inv_def halve_b power_Suc by (intro conjI) (use g sm halve_b(1,2) in \<open>blast intro: hints\<close>)+
  qed
qed

lemma bezout_factors_inv: "gcd_inv (a ! 0) (b ! 0) 31 (bezout_factors a b len)"
proof -
  define s0 where "s0 = \<lparr>a_lo = a ! 0, b_lo = b ! 0, a_hi = fst (bezout_top a b len), b_hi = snd (bezout_top a b len), pa = 1, pb = 0, qa = 0, qb = 1\<rparr>"
  have "gcd_inv (a ! 0) (b ! 0) i (fold gcd_step [0..<i] s0)" if "i \<le> 31" for i
    using that
  proof (induction i)
    case 0
    then show ?case by (simp add: s0_def gcd_inv_def small_def)
  next
    case (Suc i)
    then show ?case using gcd_step_inv by simp
  qed
  then show ?thesis by (simp add: bezout_factors_def s0_def split_beta)
qed

lemma round_divides:
  assumes "length a = Suc n" "length b = Suc n" "a ! 0 * ucast x + b ! 0 * ucast y = w" "take_bit 31 w = 0"
  shows "combo a b x y mod B = 0"
proof -
  have e: "zval c mod B = uint (c ! 0) mod B" if "length c = Suc n" for c using that by (cases c) simp_all
  have "combo a b x y mod B = (uint (a ! 0) * uint (ucast x :: u32) + uint (b ! 0) * uint (ucast y :: u32)) mod B"
    unfolding combo_def mult.commute [of "sint _"] using e [OF assms(1)] e [OF assms(2)] sint_ucast_mod
    by (intro mod_add_cong mod_mult_cong) simp_all
  also have "\<dots> = uint w mod B" unfolding assms(3) [symmetric] by (simp add: uint_word_ariths mod_mod_cancel mod_simps)
  also have "\<dots> = 0" using arg_cong [OF assms(4), of uint] unfolding unsigned_take_bit_eq by (simp add: take_bit_eq_mod)
  finally show ?thesis .
qed

end
