(* ===== verification/Bezout.thy ===== *)
theory Bezout
  imports Zint_Bezout
begin

text \<open>
  Soundness of the extended binary GCD: the six big integers of \<open>zint_bezout\<close> keep the congruences of the
  comment at keygen.c:1560, and a returned 1 makes them the Bezout equation.
\<close>

section \<open>One round\<close>

lemma sign_adjust: "w - ((w + w) AND - ucast (r :: u32)) = (if r = 0 then w else - w)" if "r = 0 \<or> r = 1" for w :: u64
  using that by auto

lemma negation_flags:
  fixes P Q :: bool
  defines "r \<equiv> ((if P then 1 else 0) OR push_bit 1 (if Q then 1 else 0) :: u32)"
  shows "r AND 1 = (if P then 1 else 0)" "drop_bit 1 r = (if Q then 1 else 0)"
  unfolding r_def by (cases P; cases Q; simp)+

lemma odd_cancel_B:
  fixes m :: int
  assumes "odd m" "m dvd B * d"
  shows "m dvd d"
proof -
  have "coprime m (2 ^ 31)" unfolding coprime_power_right_iff using assms(1) by (simp add: coprime_right_2_iff_odd)
  then have "coprime m B" by simp
  then show ?thesis using assms(2) by (simp only: coprime_dvd_mult_right_iff)
qed

lemma congruence_step:
  fixes m :: int
  assumes "odd m" "m dvd t * u0 - a" "m dvd t * u1 - b"
    and "B * u' mod m = (p * u0 + q * u1) mod m" "B * a' = p * a + q * b"
  shows "m dvd t * u' - a'"
proof -
  have "m dvd B * u' - (p * u0 + q * u1)" using assms(4) by (simp only: mod_eq_dvd_iff)
  then have "m dvd t * (B * u' - (p * u0 + q * u1)) + p * (t * u0 - a) + q * (t * u1 - b)"
    using assms(2,3) by (intro dvd_add dvd_mult)
  also have "t * (B * u' - (p * u0 + q * u1)) + p * (t * u0 - a) + q * (t * u1 - b) = B * (t * u' - a')"
    using assms(5) by (simp add: algebra_simps)
  finally show ?thesis by (rule odd_cancel_B [OF assms(1)])
qed

definition zarr :: "nat \<Rightarrow> u32 list \<Rightarrow> bool" where
  "zarr n a \<longleftrightarrow> zwords a \<and> length a = n"

definition coeff_inv :: "int \<Rightarrow> int \<Rightarrow> nat \<Rightarrow> u32 list \<Rightarrow> u32 list \<Rightarrow> bool" where
  "coeff_inv t m n u a \<longleftrightarrow> zarr n u \<and> zval u \<le> m \<and> m dvd t * zval u - zval a"

definition bezout_inv :: "u32 list \<Rightarrow> u32 list \<Rightarrow> nat \<Rightarrow> bezout \<Rightarrow> bool" where
  "bezout_inv x y n z \<longleftrightarrow> zarr n (bz_a z) \<and> zarr n (bz_b z) \<and>
     coeff_inv (zval x) (zval y) n (bz_u0 z) (bz_a z) \<and> coeff_inv (zval x) (zval y) n (bz_u1 z) (bz_b z) \<and>
     coeff_inv (- zval y) (zval x) n (bz_v0 z) (bz_a z) \<and> coeff_inv (- zval y) (zval x) n (bz_v1 z) (bz_b z)"

lemma coeff_round:
  assumes "coeff_inv t (zval m) (Suc n) u0 a" "coeff_inv t (zval m) (Suc n) u1 b" "zarr (Suc n) m" "odd (zval m)"
    and "small p q B" "small p' q' B" "B * zval a' = combo a b p q" "B * zval b' = combo a b p' q'"
    and "zint_co_reduce_mod u0 u1 m (Suc n) (modp_ninv31 (m ! 0)) p q p' q' = (w0, w1)"
  shows "coeff_inv t (zval m) (Suc n) w0 a'" "coeff_inv t (zval m) (Suc n) w1 b'" "zval w0 < zval m" "zval w1 < zval m"
proof -
  have c: "zwords u0" "zwords u1" "length u0 = Suc n" "length u1 = Suc n" "zval u0 \<le> zval m" "zval u1 \<le> zval m"
      "zval m dvd t * zval u0 - zval a" "zval m dvd t * zval u1 - zval b" "zwords m" "length m = Suc n"
    using assms(1-3) by (simp_all add: coeff_inv_def zarr_def)
  note R = zint_co_reduce_mod_correct [OF c(1,2,9,3,4,10) assms(4) c(5,6) assms(5,6) [unfolded small_def] assms(9)]
  have w: "zarr (Suc n) w0" "zarr (Suc n) w1" "zval w0 < zval m" "zval w1 < zval m" using R by (simp_all add: zarr_def)
  have "zval m dvd t * zval w0 - zval a'"
    using congruence_step [OF assms(4) c(7,8), of "zval w0" "sint p" "sint q" "zval a'"] R(1) assms(7) by (simp add: combo_def)
  moreover have "zval m dvd t * zval w1 - zval b'"
    using congruence_step [OF assms(4) c(7,8), of "zval w1" "sint p'" "sint q'" "zval b'"] R(2) assms(8) by (simp add: combo_def)
  ultimately show "coeff_inv t (zval m) (Suc n) w0 a'" "coeff_inv t (zval m) (Suc n) w1 b'" "zval w0 < zval m" "zval w1 < zval m"
    using w by (simp_all add: coeff_inv_def)
qed

lemma signed_combo:
  assumes "small p q B" "combo a b p q = B * T" "a' = \<bar>T\<bar>"
  defines "s \<equiv> (\<lambda>w. if T < 0 then - w else w :: u64)"
  shows "small (s p) (s q) B" "B * a' = combo a b (s p) (s q)"
proof -
  note g = small_neg [OF assms(1) order.refl]
  show "small (s p) (s q) B" using g assms(1) unfolding s_def by (cases "T < 0") simp_all
  show "B * a' = combo a b (s p) (s q)"
    using g assms(2) unfolding s_def assms(3) by (cases "T < 0") (simp_all add: combo_def algebra_simps)
qed

lemma bezout_round_inv:
  assumes "bezout_inv x y (Suc n) z" "zarr (Suc n) x" "zarr (Suc n) y" "odd (zval x)" "odd (zval y)"
  defines "z' \<equiv> bezout_round x y (Suc n) z"
  shows "bezout_inv x y (Suc n) z'" "zval (bz_u0 z') < zval y" "zval (bz_v0 z') < zval x"
proof -
  let ?a = "bz_a z" and ?b = "bz_b z"
  define s where "s = bezout_factors ?a ?b (Suc n)"
  have ab: "zwords ?a" "zwords ?b" "length ?a = Suc n" "length ?b = Suc n" using assms(1) by (simp_all add: bezout_inv_def zarr_def)
  have g: "gcd_inv (?a ! 0) (?b ! 0) 31 s" unfolding s_def by (rule bezout_factors_inv)
  have sm: "small (pa s) (pb s) B" "small (qa s) (qb s) B" using g by (simp_all add: gcd_inv_def)
  have "combo ?a ?b (pa s) (pb s) mod B = 0" "combo ?a ?b (qa s) (qb s) mod B = 0"
    using g round_divides [OF ab(3,4)] unfolding gcd_inv_def by metis+
  then obtain Ta Tb where T: "combo ?a ?b (pa s) (pb s) = B * Ta" "combo ?a ?b (qa s) (qb s) = B * Tb"
    by (auto simp only: mod_eq_0_iff_dvd elim!: dvdE)
  obtain a b r where co: "zint_co_reduce ?a ?b (Suc n) (pa s) (pb s) (qa s) (qb s) = (a, b, r)"
    by (cases "zint_co_reduce ?a ?b (Suc n) (pa s) (pb s) (qa s) (qb s)")
  note C = zint_co_reduce_correct [OF ab sm [unfolded small_def] T co]
  note A = signed_combo [OF sm(1) T(1) C(1)] and D = signed_combo [OF sm(2) T(2) C(4)]
  define f where "f = (\<lambda>w. if Ta < 0 then - w else w :: u64)"
  define h where "h = (\<lambda>w. if Tb < 0 then - w else w :: u64)"
  have r: "r AND 1 = (if Ta < 0 then 1 else 0)" "drop_bit 1 r = (if Tb < 0 then 1 else 0)"
    unfolding C(7) by (rule negation_flags)+
  have adj: "w - ((w + w) AND - ucast (r AND 1)) = f w" "w - ((w + w) AND - ucast (drop_bit 1 r)) = h w" for w :: u64
    unfolding r f_def h_def by (simp_all add: sign_adjust)
  obtain u0 u1 where u: "zint_co_reduce_mod (bz_u0 z) (bz_u1 z) y (Suc n) (modp_ninv31 (y ! 0)) (f (pa s)) (f (pb s)) (h (qa s)) (h (qb s)) = (u0, u1)"
    by fastforce
  obtain v0 v1 where v: "zint_co_reduce_mod (bz_v0 z) (bz_v1 z) x (Suc n) (modp_ninv31 (x ! 0)) (f (pa s)) (f (pb s)) (h (qa s)) (h (qb s)) = (v0, v1)"
    by fastforce
  have z: "z' = \<lparr>bz_a = a, bz_b = b, bz_u0 = u0, bz_u1 = u1, bz_v0 = v0, bz_v1 = v1\<rparr>"
    unfolding z'_def bezout_round_def s_def [symmetric] Let_def co split_conv adj u v by simp
  have inv: "coeff_inv (zval x) (zval y) (Suc n) (bz_u0 z) ?a" "coeff_inv (zval x) (zval y) (Suc n) (bz_u1 z) ?b"
      "coeff_inv (- zval y) (zval x) (Suc n) (bz_v0 z) ?a" "coeff_inv (- zval y) (zval x) (Suc n) (bz_v1 z) ?b"
    using assms(1) by (simp_all add: bezout_inv_def)
  note U = coeff_round [OF inv(1,2) assms(3,5) A(1) D(1) A(2) D(2) u [unfolded f_def h_def]]
  note V = coeff_round [OF inv(3,4) assms(2,4) A(1) D(1) A(2) D(2) v [unfolded f_def h_def]]
  show "bezout_inv x y (Suc n) z'" "zval (bz_u0 z') < zval y" "zval (bz_v0 z') < zval x"
    unfolding z bezout_inv_def using U V C by (simp_all add: zarr_def)
qed

section \<open>The whole loop\<close>

lemma bezout_loop_inv:
  assumes "zarr (Suc n) x" "zarr (Suc n) y" "odd (zval x)" "odd (zval y)" "bezout_inv x y (Suc n) z"
  shows "bezout_inv x y (Suc n) (bezout_loop num x y (Suc n) z)"
    "30 \<le> num \<Longrightarrow> zval (bz_u0 (bezout_loop num x y (Suc n) z)) < zval y \<and> zval (bz_v0 (bezout_loop num x y (Suc n) z)) < zval x"
proof -
  have "bezout_inv x y (Suc n) (bezout_loop num x y (Suc n) z) \<and>
     (30 \<le> num \<or> zval (bz_u0 z) < zval y \<and> zval (bz_v0 z) < zval x \<longrightarrow>
      zval (bz_u0 (bezout_loop num x y (Suc n) z)) < zval y \<and> zval (bz_v0 (bezout_loop num x y (Suc n) z)) < zval x)"
    using assms(5)
  proof (induction num arbitrary: z rule: less_induct)
    case (less num)
    note r = bezout_round_inv [OF less.prems assms(1-4)]
    show ?case
    proof (cases "30 \<le> num")
      case True
      have "bezout_loop num x y (Suc n) z = bezout_loop (num - 30) x y (Suc n) (bezout_round x y (Suc n) z)"
        by (subst bezout_loop.simps) (simp only: True if_True)
      then show ?thesis using less.IH [OF _ r(1), of "num - 30"] r(2,3) True by simp
    next
      case False
      have "bezout_loop num x y (Suc n) z = z" by (subst bezout_loop.simps) (simp only: False if_False)
      then show ?thesis using less.prems False by simp
    qed
  qed
  then show "bezout_inv x y (Suc n) (bezout_loop num x y (Suc n) z)"
    "30 \<le> num \<Longrightarrow> zval (bz_u0 (bezout_loop num x y (Suc n) z)) < zval y \<and> zval (bz_v0 (bezout_loop num x y (Suc n) z)) < zval x"
    by blast+
qed

definition bezout_init :: "u32 list \<Rightarrow> u32 list \<Rightarrow> nat \<Rightarrow> bezout" where
  "bezout_init x y len = \<lparr>bz_a = x, bz_b = y, bz_u0 = 1 # replicate (len - 1) 0, bz_u1 = y, bz_v0 = replicate len 0, bz_v1 = x[0 := x ! 0 - 1]\<rparr>"

lemma zval_zeros [simp]: "zval (replicate n 0) = 0" "zwords (replicate n 0)"
  by (induction n) simp_all

lemma bezout_init_inv:
  assumes "zarr (Suc n) x" "zarr (Suc n) y" "odd (zval x)" "odd (zval y)"
  shows "bezout_inv x y (Suc n) (bezout_init x y (Suc n))"
proof -
  obtain w xs where x: "x = w # xs" using assms(1) by (cases x) (auto simp: zarr_def)
  have "odd (uint w)" using assms(3) unfolding x by simp
  then have "uint w \<noteq> 0" by (intro notI) simp
  then have "1 \<le> uint w" using uint_ge_0 [of w] by linarith
  then have d: "uint (w - 1) = uint w - 1" using uint_lt2p [of w] by (simp add: uint_word_ariths)
  have v1: "zarr (Suc n) (x[0 := x ! 0 - 1])" "zval (x[0 := x ! 0 - 1]) = zval x - 1"
    using assms(1) unfolding zarr_def x by (simp_all add: d)
  have "zval y \<noteq> 0" using assms(4) by (intro notI) simp
  then have "1 \<le> zval y" using zval_nonneg [of y] by linarith
  moreover have "- (zval y * (zval x - 1)) - zval y = zval x * - zval y" by (simp add: algebra_simps)
  ultimately show ?thesis
    using v1 assms(1,2) zval_nonneg [of x] by (simp add: bezout_inv_def bezout_init_def coeff_inv_def zarr_def)
qed

lemma nonzero_flag: "1 - drop_bit 31 (w OR - w) = (if w = 0 then 1 else 0)" for w :: u32
proof (cases "w = 0")
  case False
  then have n: "uint (- w) = 4294967296 - uint w" using uint_ge_0 [of w] uint_lt2p [of w] by (simp add: uint_word_ariths zmod_zminus1_eq_if unsigned_eq_0_iff)
  have "drop_bit 31 w OR drop_bit 31 (- w) = 1"
    unfolding sign_shift n by (cases "2147483648 \<le> uint w") simp_all
  then show ?thesis using False by (simp only: drop_bit_or) simp
qed simp

lemma xor_zero_eq: "v XOR w = 0 \<longleftrightarrow> v = w" for v w :: u32
  by (metis xor.assoc xor.left_neutral xor.right_neutral xor_self_eq)

lemma or_fold_zero: "fold (\<lambda>j rc. rc OR f j) js rc = 0 \<longleftrightarrow> rc = 0 \<and> (\<forall>j\<in>set js. f j = (0 :: u32))"
  by (induction js arbitrary: rc) (auto simp: or_eq_0_iff)

lemma zval_one: "length a = Suc n \<Longrightarrow> a ! 0 = 1 \<Longrightarrow> \<forall>j\<in>set [1..<Suc n]. a ! j = 0 \<Longrightarrow> zval a = 1"
proof (cases a)
  case (Cons w ws)
  assume h: "length a = Suc n" "a ! 0 = 1" "\<forall>j\<in>set [1..<Suc n]. a ! j = 0"
  have "ws = replicate n 0"
  proof (rule nth_equalityI)
    show "ws ! i = replicate n 0 ! i" if "i < length ws" for i
    proof -
      have i: "Suc i \<in> set [1..<Suc n]" "i < n" using h(1) Cons that by auto
      show ?thesis using bspec [OF h(3) i(1)] i(2) Cons by simp
    qed
  qed (use h Cons in simp)
  then show "zval a = 1" using h(2) Cons by simp
qed simp

lemma bezout_equation:
  fixes x y u v :: int
  assumes "0 < x" "0 < y" "0 \<le> u" "u < y" "0 \<le> v" "v < x" "y dvd x * u - 1" "x dvd - y * v - 1"
  shows "coprime x y" "if y = 1 then u = 0 \<and> v = x - 1 else x * u - y * v = 1"
proof -
  let ?D = "x * u - y * v - 1"
  show c: "coprime x y"
  proof (rule coprimeI)
    fix d :: int assume d: "d dvd x" "d dvd y"
    then have "d dvd x * u - 1" using assms(7) dvd_trans by blast
    moreover have "d dvd x * u" using d(1) by simp
    ultimately have "d dvd x * u - (x * u - 1)" by (rule dvd_diff [rotated])
    moreover have "x * u - (x * u - 1) = 1" by simp
    ultimately show "is_unit d" by (simp only:)
  qed
  have "y dvd x * u - 1 - y * v" "x dvd x * u + (- y * v - 1)" by (rule dvd_diff [OF assms(7)] dvd_add [OF _ assms(8)], simp)+
  moreover have "x * u - 1 - y * v = ?D" "x * u + (- y * v - 1) = ?D" by simp_all
  ultimately have "y dvd ?D" "x dvd ?D" by (simp_all only:)
  then have D: "x * y dvd ?D" using c by (intro divides_mult)
  have b: "0 \<le> x * u" "x * u \<le> x * (y - 1)" "0 \<le> y * v" "y * v \<le> y * (x - 1)" using assms by simp_all
  show "if y = 1 then u = 0 \<and> v = x - 1 else x * u - y * v = 1"
  proof (cases "y = 1")
    case True
    then have "u = 0" "x dvd - v - 1" using assms by simp_all
    then have "x dvd v + 1" by (metis dvd_minus_iff minus_add_distrib uminus_add_conv_diff add.commute)
    then have "x \<le> v + 1" using assms(5) by (intro zdvd_imp_le) simp_all
    then show ?thesis using True \<open>u = 0\<close> assms(6) by simp
  next
    case False
    then have "2 \<le> y" using assms(2) by simp
    then have "\<bar>?D\<bar> < x * y" using b assms(1) by (simp add: algebra_simps)
    then have "?D = 0" using D dvd_imp_le_int [of ?D "x * y"] by auto
    then show ?thesis using False by simp
  qed
qed

lemma even_uint: "even (uint w) \<longleftrightarrow> even w" for w :: u32
  using bit_uint_iff [of w 0] by (simp add: bit_0)

lemma and_one_bool: "1 AND w = 0 \<or> 1 AND w = 1" for w :: u32
  using parity_cases [of w] by (auto simp: one_and_eq)

text \<open>
  (C7) Soundness of the extended binary GCD: for two integers of the same number of 31-bit words the returned flag
  is 0 or 1, and when it is 1 the operands are odd and coprime and the two returned integers are reduced words
  below y and x that solve the Bezout equation, except when y is 1, where they are 0 and x - 1.
\<close>

theorem zint_bezout_sound:
  assumes "zarr len x" "zarr len y" "zint_bezout x y len = (r, u, v)"
  shows "(r = 0 \<or> r = 1) \<and>
    (r = 1 \<longrightarrow> odd (zval x) \<and> odd (zval y) \<and> coprime (zval x) (zval y) \<and> zarr len u \<and> zarr len v \<and>
      zval u < zval y \<and> zval v < zval x \<and>
      (if zval y = 1 then zval u = 0 \<and> zval v = zval x - 1 else zval x * zval u - zval y * zval v = 1))"
proof (intro conjI [OF _ impI])
  define z where "z = bezout_loop (62 * len + 30) x y len (bezout_init x y len)"
  define rc where "rc = fold (\<lambda>j rc. rc OR bz_a z ! j) [1..<len] (bz_a z ! 0 XOR 1)"
  have e: "r = (if rc = 0 then 1 else 0) AND x ! 0 AND y ! 0 \<and> u = bz_u0 z \<and> v = bz_v0 z" if "len \<noteq> 0"
    using assms(3) that unfolding zint_bezout_def bezout_init_def [symmetric] Let_def z_def [symmetric] rc_def [symmetric] nonzero_flag
    by simp
  have zero: "r = 0" if "len = 0" using assms(3) that by (simp add: zint_bezout_def)
  show "r = 0 \<or> r = 1"
  proof (cases "len = 0")
    case False
    then show ?thesis using e and_one_bool by (cases "rc = 0") (simp_all only: if_True if_False and.assoc, simp_all)
  qed (use zero in simp)
  assume r: "r = 1"
  then have len: "len \<noteq> 0" using zero by auto
  then obtain n where n: "len = Suc n" by (cases len) auto
  note x = assms(1) [unfolded n] and y = assms(2) [unfolded n]
  have rc0: "rc = 0" and one: "1 AND x ! 0 AND y ! 0 = 1" using e [OF len] r by (auto split: if_splits)
  have "bit (1 AND x ! 0 AND y ! 0) 0" unfolding one by simp
  then have rc: "rc = 0" "odd (x ! 0)" "odd (y ! 0)" using rc0 by (simp_all only: bit_and_iff flip: bit_0)
  have o: "odd (zval x)" "odd (zval y)" using rc(2,3) zval_odd x y by (simp_all add: zarr_def even_uint)
  note inv = bezout_loop_inv [OF x y o bezout_init_inv [OF x y o], of "62 * len + 30", folded n, folded z_def]
  have "bz_a z ! 0 = 1" "\<forall>j\<in>set [1..<Suc n]. bz_a z ! j = 0"
    using rc(1) unfolding rc_def or_fold_zero n by (simp_all add: xor_zero_eq)
  then have a: "zval (bz_a z) = 1" using inv(1) zval_one [of "bz_a z" n] by (simp add: bezout_inv_def zarr_def n)
  have z: "zarr len (bz_u0 z)" "zarr len (bz_v0 z)" "zval y dvd zval x * zval (bz_u0 z) - 1" "zval x dvd - zval y * zval (bz_v0 z) - 1"
    using inv(1) a by (simp_all add: bezout_inv_def coeff_inv_def)
  have b: "zval (bz_u0 z) < zval y" "zval (bz_v0 z) < zval x" using inv(2) by simp_all
  then have pos: "0 < zval x" "0 < zval y" using zval_nonneg [of "bz_v0 z"] zval_nonneg [of "bz_u0 z"] by linarith+
  note E = bezout_equation [OF pos zval_nonneg b(1) zval_nonneg b(2) z(3,4)]
  show "odd (zval x) \<and> odd (zval y) \<and> coprime (zval x) (zval y) \<and> zarr len u \<and> zarr len v \<and>
      zval u < zval y \<and> zval v < zval x \<and>
      (if zval y = 1 then zval u = 0 \<and> zval v = zval x - 1 else zval x * zval u - zval y * zval v = 1)"
    using o E z(1,2) b e [OF len] by simp
qed

text \<open>
  A concrete run with x = 3 and y = 5: the first round reaches a = 1 and b = 0, and the other two keep that state.
\<close>

lemma top_eval: "bezout_top [3] [5] 1 = (3, 5)" "bezout_top [1] [0] 1 = (1, 0)" "bezout_top [3] [1] 1 = (3, 1)"
  by (simp_all add: bezout_top_def Let_def)

lemmas steps_eval = gcd_step_branches upt_rec [of 0] upt_rec [of "Suc 0"] numeral_2_eq_2 [symmetric]

lemma factors_3_5: "bezout_factors [3] [5] 1 =
    \<lparr>a_lo = 2147483648, b_lo = 0, a_hi = 1, b_hi = 0, pa = 1610612736, pb = - 536870912, qa = - 5, qb = 3\<rparr>"
  by (simp only: bezout_factors_def top_eval Let_def split_conv) (simp add: steps_eval)

lemma factors_1_0: "bezout_factors [1] [0] 1 =
    \<lparr>a_lo = 2147483648, b_lo = 0, a_hi = 1, b_hi = 0, pa = 2147483648, pb = 0, qa = 0, qb = 1\<rparr>"
  by (simp only: bezout_factors_def top_eval Let_def split_conv) (simp add: steps_eval)

lemma round_3_5: "bezout_round [3] [5] 1 \<lparr>bz_a = [3], bz_b = [5], bz_u0 = [1], bz_u1 = [5], bz_v0 = [0], bz_v1 = [2]\<rparr> =
    \<lparr>bz_a = [1], bz_b = [0], bz_u0 = [2], bz_u1 = [0], bz_v0 = [1], bz_v1 = [0]\<rparr>"
  by (simp only: bezout_round_def bezout.simps factors_3_5) code_simp

lemma round_1_0: "bezout_round [3] [5] 1 \<lparr>bz_a = [1], bz_b = [0], bz_u0 = [2], bz_u1 = [0], bz_v0 = [1], bz_v1 = [0]\<rparr> =
    \<lparr>bz_a = [1], bz_b = [0], bz_u0 = [2], bz_u1 = [0], bz_v0 = [1], bz_v1 = [0]\<rparr>"
  by (simp only: bezout_round_def bezout.simps factors_1_0) code_simp

lemma zint_bezout_3_5: "zint_bezout [3] [5] 1 = (1, [2], [1])"
  by (simp add: zint_bezout_def bezout_loop.simps round_3_5 [unfolded One_nat_def] round_1_0 [unfolded One_nat_def] Let_def)

theorem zint_bezout_sound_witness:
  "zarr 1 [3] \<and> zarr 1 [5] \<and> zint_bezout [3] [5] 1 = (1, [2], [1]) \<and> zval [3] * zval [2] - zval [5] * zval [1] = 1"
  using zint_bezout_sound [of 1 "[3]" "[5]" 1 "[2]" "[1]"] zint_bezout_3_5 by (simp add: zarr_def)

text \<open>
  For y = 1 the equation of the comment at keygen.c:1550 fails: the call succeeds with u = 0 and v = x - 1.
\<close>

lemma factors_3_1: "bezout_factors [3] [1] 1 =
    \<lparr>a_lo = 2147483648, b_lo = 0, a_hi = 1, b_hi = 0, pa = 1073741824, pb = - 1073741824, qa = - 1, qb = 3\<rparr>"
  by (simp only: bezout_factors_def top_eval Let_def split_conv) (simp add: steps_eval)

lemma round_3_1: "bezout_round [3] [1] 1 \<lparr>bz_a = [3], bz_b = [1], bz_u0 = [1], bz_u1 = [1], bz_v0 = [0], bz_v1 = [2]\<rparr> =
    \<lparr>bz_a = [1], bz_b = [0], bz_u0 = [0], bz_u1 = [0], bz_v0 = [2], bz_v1 = [0]\<rparr>"
  by (simp only: bezout_round_def bezout.simps factors_3_1) code_simp

lemma round_1_0_y1: "bezout_round [3] [1] 1 \<lparr>bz_a = [1], bz_b = [0], bz_u0 = [0], bz_u1 = [0], bz_v0 = [2], bz_v1 = [0]\<rparr> =
    \<lparr>bz_a = [1], bz_b = [0], bz_u0 = [0], bz_u1 = [0], bz_v0 = [2], bz_v1 = [0]\<rparr>"
  by (simp only: bezout_round_def bezout.simps factors_1_0) code_simp

lemma zint_bezout_y_one: "zint_bezout [3] [1] 1 = (1, [0], [2])"
  by (simp add: zint_bezout_def bezout_loop.simps round_3_1 [unfolded One_nat_def] round_1_0_y1 [unfolded One_nat_def] Let_def)

end
