(* ===== verification/Retry.thy ===== *)
theory Retry
  imports Main
begin

text \<open>
  Loops that repeat an attempt until it succeeds, such as the sampling and key generation loops of keygen.c. An
  attempt maps a state to \<open>Some (s, Some r)\<close> when it succeeds, to \<open>Some (s, None)\<close> when the loop has to try again
  and to \<open>None\<close> when it does not return itself; a loop that never succeeds is \<open>None\<close>.
\<close>

partial_function (option) retry :: "('s \<Rightarrow> ('s \<times> 'r option) option) \<Rightarrow> 's \<Rightarrow> ('s \<times> 'r) option" where
  "retry attempt s =
     (case attempt s of
        None \<Rightarrow> None
      | Some (s', None) \<Rightarrow> retry attempt s'
      | Some (s', Some r) \<Rightarrow> Some (s', r))"

text \<open>The state after \<open>k\<close> failed attempts.\<close>

primrec failures :: "nat \<Rightarrow> ('s \<Rightarrow> ('s \<times> 'r option) option) \<Rightarrow> 's \<Rightarrow> 's option" where
  "failures 0 attempt s = Some s"
| "failures (Suc k) attempt s = (case attempt s of Some (s', None) \<Rightarrow> failures k attempt s' | _ \<Rightarrow> None)"

lemma retry_success: "failures k attempt s = Some t \<Longrightarrow> attempt t = Some (s', Some r) \<Longrightarrow> retry attempt s = Some (s', r)"
  by (induction k arbitrary: s) (subst retry.simps, auto split: option.splits prod.splits)+

lemma retry_failures:
  assumes "retry attempt s = Some (s', r)"
  shows "\<exists>k t. failures k attempt s = Some t \<and> attempt t = Some (s', Some r)"
proof -
  have "\<exists>k t. failures k attempt s = Some t \<and> attempt t = Some (fst p, Some (snd p))" if "retry attempt s = Some p" for p
  proof (rule retry.raw_induct [OF _ that, of "\<lambda>attempt s p. \<exists>k t. failures k attempt s = Some t \<and> attempt t = Some (fst p, Some (snd p))"], goal_cases)
    case (1 loop attempt s p)
    then show ?case
    proof (cases "attempt s")
      case (Some w)
      obtain s1 q where w: "w = (s1, q)" by (cases w)
      show ?thesis
      proof (cases q)
        case None
        then obtain k t where "failures k attempt s1 = Some t" "attempt t = Some (fst p, Some (snd p))" using 1 Some w by fastforce
        then show ?thesis using Some w None by (intro exI [of _ "Suc k"]) simp
      next
        case (Some x)
        then show ?thesis using 1(2) \<open>attempt s = Some w\<close> w by (intro exI [of _ 0]) auto
      qed
    qed simp
  qed
  from this [OF assms] show ?thesis by simp
qed

text \<open>A retry loop returns exactly the result of the first successful attempt.\<close>

theorem retry_iff: "retry attempt s = Some (s', r) \<longleftrightarrow> (\<exists>k t. failures k attempt s = Some t \<and> attempt t = Some (s', Some r))"
  using retry_success retry_failures by metis

lemma retry_result: "retry attempt s = Some (s', r) \<Longrightarrow> (\<And>t. attempt t = Some (s', Some r) \<Longrightarrow> P) \<Longrightarrow> P"
  unfolding retry_iff by blast

text \<open>When every attempt returns, the loop returns exactly when some later attempt succeeds.\<close>

lemma failures_total:
  assumes "\<And>s. attempt s = Some (nx s, res s)" "\<And>j. j < k \<Longrightarrow> res ((nx ^^ j) s) = None"
  shows "failures k attempt s = Some ((nx ^^ k) s)"
  using assms(2)
proof (induction k arbitrary: s)
  case (Suc k)
  have "res s = None" using Suc.prems [of 0] by simp
  moreover have "failures k attempt (nx s) = Some ((nx ^^ k) (nx s))"
    using Suc.prems [of "Suc _"] by (intro Suc.IH) (simp add: funpow_swap1)
  ultimately show ?case using assms(1) [of s] by (simp add: funpow_swap1)
qed simp

lemma failures_state:
  assumes "\<And>s. attempt s = Some (nx s, res s)"
  shows "failures k attempt s = Some t \<Longrightarrow> t = (nx ^^ k) s"
proof (induction k arbitrary: s)
  case (Suc k)
  then show ?case using assms [of s] by (simp add: funpow_swap1 split: option.splits)
qed simp

lemma retry_returns_iff:
  assumes "\<And>s. attempt s = Some (nx s, res s)"
  shows "(\<exists>p. retry attempt s = Some p) \<longleftrightarrow> (\<exists>k. res ((nx ^^ k) s) \<noteq> None)"
proof
  assume "\<exists>p. retry attempt s = Some p"
  then obtain s' r where "retry attempt s = Some (s', r)" by auto
  then obtain k t where "failures k attempt s = Some t" "attempt t = Some (s', Some r)" unfolding retry_iff by blast
  then show "\<exists>k. res ((nx ^^ k) s) \<noteq> None" using failures_state [of attempt nx res k s t, OF assms] assms [of t] by (intro exI [of _ k]) auto
next
  assume h: "\<exists>k. res ((nx ^^ k) s) \<noteq> None"
  define k where "k = (LEAST k. res ((nx ^^ k) s) \<noteq> None)"
  obtain r where "res ((nx ^^ k) s) = Some r" using LeastI_ex [OF h] unfolding k_def by auto
  moreover have "failures k attempt s = Some ((nx ^^ k) s)"
    using not_less_Least unfolding k_def by (intro failures_total [of attempt nx res, OF assms]) blast
  ultimately have "retry attempt s = Some (nx ((nx ^^ k) s), r)" by (intro retry_success) (simp_all add: assms)
  then show "\<exists>p. retry attempt s = Some p" by blast
qed

lemma retry_now: "attempt s = Some (s', Some r) \<Longrightarrow> retry attempt s = Some (s', r)"
  using retry_success [of 0 attempt s s] by simp

end
