(* ===== verification/Keygen_Sampling.thy ===== *)
theory Keygen_Sampling
  imports Fips202 Norm Retry
begin

text \<open>
  The sampling of the private polynomials in keygen.c: 64-bit integers drawn from the SHAKE256 context, the
  constant-time scan of the table of the discrete Gaussian distribution, and the rejection loop that makes the
  coefficients small and their sum odd. The source of 64-bit integers is an argument \<open>nxt\<close> of the samplers, as
  the macro \<^verbatim>\<open>RNG_CONTEXT\<close> leaves it open; keygen.c draws them with \<open>get_rng_u64\<close>.
\<close>

section \<open>Model\<close>

definition get_rng_u64 :: "u64 list \<Rightarrow> u64 list \<times> u64" where
  "get_rng_u64 rng =
     (let (rng, tmp) = shake256_inc_squeeze rng 8
      in (rng, ucast (tmp ! 0) OR push_bit 8 (ucast (tmp ! 1)) OR push_bit 16 (ucast (tmp ! 2)) OR push_bit 24 (ucast (tmp ! 3))
        OR push_bit 32 (ucast (tmp ! 4)) OR push_bit 40 (ucast (tmp ! 5)) OR push_bit 48 (ucast (tmp ! 6)) OR push_bit 56 (ucast (tmp ! 7))))"

definition gauss_1024_12289 :: "u64 list" where
  "gauss_1024_12289 =
     [1283868770400643928, 6416574995475331444, 4078260278032692663, 2353523259288686585, 1227179971273316331,
      575931623374121527, 242543240509105209, 91437049221049666, 30799446349977173, 9255276791179340, 2478152334826140,
      590642893610164, 125206034929641, 23590435911403, 3948334035941, 586753615614, 77391054539, 9056793210, 940121950,
      86539696, 7062824, 510971, 32764, 1862, 94, 4, 0]"

definition gauss_scan :: "u64 \<Rightarrow> u32 \<Rightarrow> u32" where
  "gauss_scan r f =
     (let (v, f) = fold (\<lambda>k (v, f).
            let t = ucast (drop_bit 63 (r - gauss_1024_12289 ! k)) XOR 1
            in (v OR (of_nat k AND - (t AND (f XOR 1))), f OR t)) [1..<27] (0, f)
      in v)"

definition gauss_value :: "u64 \<Rightarrow> u64 \<Rightarrow> u32" where
  "gauss_value r0 r1 =
     (let neg = ucast (drop_bit 63 r0);
          r = r0 AND NOT (push_bit 63 1);
          f = ucast (drop_bit 63 (r - gauss_1024_12289 ! 0));
          r = r1 AND NOT (push_bit 63 1);
          v = gauss_scan r f
      in (v XOR - neg) + neg)"

definition mkgauss :: "('r \<Rightarrow> 'r \<times> u64) \<Rightarrow> 'r \<Rightarrow> nat \<Rightarrow> 'r \<times> u32" where
  "mkgauss nxt rng logn =
     (let g = 2 ^ (10 - logn)
      in fold (\<lambda>u (rng, val).
           let (rng, r0) = nxt rng;
               (rng, r1) = nxt rng;
               v = gauss_value r0 r1
           in (rng, val + v)) [0..<g] (rng, 0))"

text \<open>The label \<^verbatim>\<open>restart\<close> of \<^verbatim>\<open>poly_small_mkgauss\<close>: one coefficient is drawn until it is accepted.\<close>

definition mkgauss_attempt :: "('r \<Rightarrow> 'r \<times> u64) \<Rightarrow> nat \<Rightarrow> bool \<Rightarrow> u32 \<Rightarrow> 'r \<Rightarrow> ('r \<times> u32 option) option" where
  "mkgauss_attempt nxt logn final mod2 rng =
     (let (rng, s) = mkgauss nxt rng logn
      in if sint s < - 127 \<or> sint s > 127 then Some (rng, None)
         else if final \<and> mod2 XOR (s AND 1) = 0 then Some (rng, None)
         else Some (rng, Some s))"

definition mkgauss_coeff :: "('r \<Rightarrow> 'r \<times> u64) \<Rightarrow> nat \<Rightarrow> bool \<Rightarrow> u32 \<Rightarrow> 'r \<Rightarrow> ('r \<times> u32) option" where
  "mkgauss_coeff nxt logn final mod2 rng = retry (mkgauss_attempt nxt logn final mod2) rng"

fun mkgauss_loop :: "('r \<Rightarrow> 'r \<times> u64) \<Rightarrow> nat list \<Rightarrow> nat \<Rightarrow> 'r \<Rightarrow> u8 list \<Rightarrow> u32 \<Rightarrow> ('r \<times> u8 list) option" where
  "mkgauss_loop nxt [] logn rng f mod2 = Some (rng, f)"
| "mkgauss_loop nxt (u # us) logn rng f mod2 =
     (case mkgauss_coeff nxt logn (u = 2 ^ logn - 1) mod2 rng of
        None \<Rightarrow> None
      | Some (rng, s) \<Rightarrow>
          let mod2 = (if u = 2 ^ logn - 1 then mod2 else mod2 XOR (s AND 1))
          in mkgauss_loop nxt us logn rng (f[u := ucast s]) mod2)"

definition poly_small_mkgauss :: "('r \<Rightarrow> 'r \<times> u64) \<Rightarrow> 'r \<Rightarrow> u8 list \<Rightarrow> nat \<Rightarrow> ('r \<times> u8 list) option" where
  "poly_small_mkgauss nxt rng f logn = mkgauss_loop nxt [0..<2 ^ logn] logn rng f 0"

definition poly_small_sqnorm :: "u8 list \<Rightarrow> nat \<Rightarrow> u32" where
  "poly_small_sqnorm f logn =
     (let (s, ng) = fold (\<lambda>u (s, ng).
            let z = scast (f ! u) :: u32;
                s = s + z * z
            in (s, ng OR s)) [0..<2 ^ logn] (0, 0)
      in s OR - drop_bit 31 ng)"

section \<open>The table scan\<close>

abbreviation gaussZ :: "nat \<Rightarrow> int" where
  "gaussZ k \<equiv> uint (gauss_1024_12289 ! k)"

lemma gauss_table: "length gauss_1024_12289 = 27" "list_all (\<lambda>t. uint t < 2 ^ 63) gauss_1024_12289" "gaussZ 26 = 0"
  by (simp_all add: gauss_1024_12289_def)

lemma gauss_small: "k < 27 \<Longrightarrow> gaussZ k < 2 ^ 63"
  using gauss_table(1,2) by (simp add: list_all_length)

lemma below_flag:
  fixes r t :: u64
  assumes "uint r < 2 ^ 63" "uint t < 2 ^ 63"
  shows "ucast (drop_bit 63 (r - t)) = (if uint r < uint t then 1 else 0 :: u32)"
proof -
  have "uint (r - t) = (if uint t \<le> uint r then uint r - uint t else uint r - uint t + 18446744073709551616)"
    unfolding uint_sub_if' by simp
  moreover have "(uint r - uint t + 18446744073709551616) div 9223372036854775808 = 1" if "uint r < uint t"
  proof (rule int_div_pos_eq [where r = "uint r - uint t + 9223372036854775808"])
    have "0 \<le> uint r" by simp
    moreover have "uint t < 9223372036854775808" using assms(2) by simp
    ultimately show "0 \<le> uint r - uint t + 9223372036854775808" by linarith
  qed (use that in simp_all)
  moreover have "(uint r - uint t) div 9223372036854775808 = 0" if "\<not> uint r < uint t"
  proof (rule div_pos_pos_trivial)
    have "0 \<le> uint t" by simp
    moreover have "uint r < 9223372036854775808" using assms(1) by simp
    ultimately show "uint r - uint t < 9223372036854775808" by linarith
  qed (use that in simp)
  ultimately have "uint (r - t) div 9223372036854775808 = (if uint r < uint t then 1 else 0)" by simp
  then show ?thesis by (simp add: word_uint_eq_iff uint_ucast_mod uint_shr)
qed

lemma clear_top: "uint (r AND NOT (push_bit 63 1)) = uint r mod 2 ^ 63" for r :: u64
proof -
  have "r AND NOT (push_bit 63 1) = take_bit 63 r"
    by (rule bit_word_eqI) (auto simp only: bit_and_iff bit_not_iff bit_push_bit_iff bit_take_bit_iff bit_1_iff possible_bit_word len_of_numeral_defs)
  then have "uint (r AND NOT (push_bit 63 1)) = take_bit 63 (uint r)" by (simp only: unsigned_take_bit_eq)
  then show ?thesis by (simp only: take_bit_eq_mod)
qed

definition first_below :: "u64 \<Rightarrow> nat \<Rightarrow> nat" where
  "first_below r n = (if \<exists>k<n. 1 \<le> k \<and> gaussZ k \<le> uint r then LEAST k. 1 \<le> k \<and> gaussZ k \<le> uint r else 0)"

lemma scan_fold:
  assumes "uint r < 2 ^ 63" "1 \<le> n" "n \<le> 27"
  shows "fold (\<lambda>k (v, f).
            let t = ucast (drop_bit 63 (r - gauss_1024_12289 ! k)) XOR 1
            in (v OR (of_nat k AND - (t AND (f XOR 1))), f OR t)) [1..<n] (0 :: u32, 0) =
    (of_nat (first_below r n), if first_below r n = 0 then 0 else 1)"
  using assms(2,3)
proof (induction n rule: dec_induct)
  case base
  then show ?case by (simp add: first_below_def)
next
  case (step n)
  have t: "ucast (drop_bit 63 (r - gauss_1024_12289 ! n)) XOR 1 = (if gaussZ n \<le> uint r then 1 else 0 :: u32)"
    using below_flag [OF assms(1) gauss_small, of n] step.prems by simp
  have f: "first_below r (Suc n) = (if first_below r n = 0 then if gaussZ n \<le> uint r then n else 0 else first_below r n)"
  proof (cases "\<exists>k<n. 1 \<le> k \<and> gaussZ k \<le> uint r")
    case True
    then have "1 \<le> (LEAST k. 1 \<le> k \<and> gaussZ k \<le> uint r)" by (metis (no_types, lifting) LeastI_ex)
    moreover have "\<exists>k<Suc n. 1 \<le> k \<and> gaussZ k \<le> uint r" using True less_Suc_eq by auto
    ultimately show ?thesis using True by (auto simp: first_below_def)
  next
    case False
    have "(LEAST k. 1 \<le> k \<and> gaussZ k \<le> uint r) = n" if "gaussZ n \<le> uint r"
      using that False step.hyps(1) by (intro Least_equality) (auto simp: not_less [symmetric])
    then show ?thesis using False step.hyps(1) by (auto simp: first_below_def less_Suc_eq)
  qed
  show ?case using step by (simp add: t f Let_def)
qed

lemma scan_done: "fold (\<lambda>k (v, f).
            let t = ucast (drop_bit 63 (r - gauss_1024_12289 ! k)) XOR 1
            in (v OR (of_nat k AND - (t AND (f XOR 1))), f OR t)) ks (0 :: u32, 1) = (0, 1)" if "set ks \<subseteq> {..<27}" "uint r < 2 ^ 63"
  using that
proof (induction ks)
  case (Cons k ks)
  then show ?case using below_flag [OF Cons.prems(2) gauss_small, of k] by (simp add: Let_def)
qed simp

section \<open>The samplers\<close>

text \<open>The reference sampler: inversion of the tabulated distribution function.\<close>

definition gauss_ref :: "int \<Rightarrow> int \<Rightarrow> int" where
  "gauss_ref r0 r1 =
     (if r0 mod 2 ^ 63 < gaussZ 0 then 0
      else (if 2 ^ 63 \<le> r0 then - 1 else 1) * int (LEAST k. 1 \<le> k \<and> gaussZ k \<le> r1 mod 2 ^ 63))"

lemma gauss_least:
  assumes "0 \<le> r"
  shows "1 \<le> (LEAST k. 1 \<le> k \<and> gaussZ k \<le> r) \<and> (LEAST k. 1 \<le> k \<and> gaussZ k \<le> r) \<le> 26"
proof -
  have h: "1 \<le> (26 :: nat) \<and> gaussZ 26 \<le> r" using gauss_table(3) assms by simp
  have "1 \<le> (LEAST k. 1 \<le> k \<and> gaussZ k \<le> r)" using LeastI [of "\<lambda>k. 1 \<le> k \<and> gaussZ k \<le> r", OF h] by simp
  moreover have "(LEAST k. 1 \<le> k \<and> gaussZ k \<le> r) \<le> 26" using Least_le [of "\<lambda>k. 1 \<le> k \<and> gaussZ k \<le> r", OF h] .
  ultimately show ?thesis by simp
qed

lemma first_below_all: "first_below r 27 = (LEAST k. 1 \<le> k \<and> gaussZ k \<le> uint r)"
proof -
  have "\<exists>k<27. 1 \<le> k \<and> gaussZ k \<le> uint r" using gauss_table(3) by (intro exI [of _ 26]) simp
  then show ?thesis by (simp add: first_below_def)
qed

lemma gauss_scan_eq:
  assumes "uint r < 2 ^ 63"
  shows "gauss_scan r 0 = of_nat (LEAST k. 1 \<le> k \<and> gaussZ k \<le> uint r)" "gauss_scan r 1 = 0"
proof -
  have "set [1..<27] \<subseteq> {..<27 :: nat}" by auto
  then show "gauss_scan r 1 = 0" unfolding gauss_scan_def by (subst scan_done [OF _ assms]) simp_all
  show "gauss_scan r 0 = of_nat (LEAST k. 1 \<le> k \<and> gaussZ k \<le> uint r)"
    unfolding gauss_scan_def first_below_all [symmetric] by (subst scan_fold [OF assms]) simp_all
qed

lemma gauss_ref_bound: "\<bar>gauss_ref r0 r1\<bar> \<le> 26"
  using gauss_least [of "r1 mod 2 ^ 63"] by (simp add: gauss_ref_def)

lemma gauss_value_eq: "gauss_value r0 r1 = word_of_int (gauss_ref (uint r0) (uint r1))"
proof -
  let ?r = "r0 AND NOT (push_bit 63 1)" and ?s = "r1 AND NOT (push_bit 63 1)"
  have b: "uint ?r < 2 ^ 63" "uint ?s < 2 ^ 63" unfolding clear_top by simp_all
  have f: "ucast (drop_bit 63 (?r - gauss_1024_12289 ! 0)) = (if uint r0 mod 2 ^ 63 < gaussZ 0 then 1 else 0 :: u32)"
    using below_flag [OF b(1) gauss_small, of 0] unfolding clear_top by simp
  have "uint r0 div 9223372036854775808 = (if 9223372036854775808 \<le> uint r0 then 1 else 0)"
    using uint_lt2p [of r0] int_div_pos_eq [of "uint r0" 9223372036854775808 1 "uint r0 - 9223372036854775808"] by simp
  then have n: "ucast (drop_bit 63 r0) = (if 2 ^ 63 \<le> uint r0 then 1 else 0 :: u32)"
    by (simp add: word_uint_eq_iff uint_ucast_mod uint_shr)
  have neg: "(v XOR - 1) + 1 = - v" for v :: u32 by (simp add: not_eq_complement)
  let ?L = "LEAST k. 1 \<le> k \<and> gaussZ k \<le> uint r1 mod 2 ^ 63"
  show ?thesis
  proof (cases "uint r0 mod 2 ^ 63 < gaussZ 0")
    case True
    then have "gauss_scan ?s (ucast (drop_bit 63 (?r - gauss_1024_12289 ! 0))) = 0" unfolding f using gauss_scan_eq(2) [OF b(2)] by simp
    then show ?thesis unfolding gauss_value_def Let_def n gauss_ref_def using True by simp
  next
    case False
    then have "gauss_scan ?s (ucast (drop_bit 63 (?r - gauss_1024_12289 ! 0))) = of_nat ?L"
      unfolding f using gauss_scan_eq(1) [OF b(2)] unfolding clear_top by simp
    then show ?thesis unfolding gauss_value_def Let_def n gauss_ref_def using False neg by simp
  qed
qed

primrec rng_words :: "('r \<Rightarrow> 'r \<times> u64) \<Rightarrow> nat \<Rightarrow> 'r \<Rightarrow> 'r \<times> u64 list" where
  "rng_words nxt 0 rng = (rng, [])"
| "rng_words nxt (Suc n) rng = (let (rng, ws) = rng_words nxt n rng; (rng, w) = nxt rng in (rng, ws @ [w]))"

definition gauss_sum :: "u64 list \<Rightarrow> nat \<Rightarrow> int" where
  "gauss_sum ws n = (\<Sum>i<n. gauss_ref (uint (ws ! (2 * i))) (uint (ws ! (2 * i + 1))))"

lemma length_rng_words: "length (snd (rng_words nxt n rng)) = n"
  by (induction n) (simp_all add: split_beta Let_def)

lemma mkgauss_sum: "mkgauss nxt rng logn = (fst (rng_words nxt (2 * 2 ^ (10 - logn)) rng), word_of_int (gauss_sum (snd (rng_words nxt (2 * 2 ^ (10 - logn)) rng)) (2 ^ (10 - logn))))"
proof -
  have "fold (\<lambda>u (rng, val).
           let (rng, r0) = nxt rng;
               (rng, r1) = nxt rng;
               v = gauss_value r0 r1
           in (rng, val + v)) [0..<n] (rng, 0) = (fst (rng_words nxt (2 * n) rng), word_of_int (gauss_sum (snd (rng_words nxt (2 * n) rng)) n))" for n
  proof (induction n)
    case 0
    then show ?case by (simp add: gauss_sum_def)
  next
    case (Suc n)
    obtain g ws where w: "rng_words nxt (2 * n) rng = (g, ws)" by fastforce
    obtain g1 a g2 b where d: "nxt g = (g1, a)" "nxt g1 = (g2, b)" by (metis prod.exhaust)
    have l: "length ws = 2 * n" using length_rng_words [of nxt "2 * n" rng] w by simp
    have s: "rng_words nxt (2 * Suc n) rng = (g2, ws @ [a, b])" using w d by simp
    have "gauss_sum (ws @ [a, b]) n = gauss_sum ws n" unfolding gauss_sum_def using l by (intro sum.cong) (auto simp: nth_append)
    then have "gauss_sum (ws @ [a, b]) (Suc n) = gauss_sum ws n + gauss_ref (uint a) (uint b)"
      using l by (simp add: gauss_sum_def nth_append)
    then show ?case using Suc unfolding w s by (simp add: d gauss_value_eq)
  qed
  then show ?thesis by (simp add: mkgauss_def Let_def)
qed

lemma gauss_sum_bound: "\<bar>gauss_sum ws n\<bar> \<le> 26 * int n"
proof -
  have "\<bar>gauss_sum ws n\<bar> \<le> (\<Sum>i<n. \<bar>gauss_ref (uint (ws ! (2 * i))) (uint (ws ! (2 * i + 1)))\<bar>)" unfolding gauss_sum_def by (rule sum_abs)
  also have "\<dots> \<le> (\<Sum>i<n. 26)" by (intro sum_mono gauss_ref_bound)
  finally show ?thesis by simp
qed

lemma sint32_small: "\<bar>v\<bar> \<le> 26624 \<Longrightarrow> sint (word_of_int v :: u32) = v"
  by (simp add: sint_sbintrunc' signed_take_bit_int_eq_self)

lemma mkgauss_exact: "sint (snd (mkgauss nxt rng logn)) = gauss_sum (snd (rng_words nxt (2 * 2 ^ (10 - logn)) rng)) (2 ^ (10 - logn))"
proof -
  have "(2 :: int) ^ (10 - logn) \<le> 2 ^ 10" by (intro power_increasing) simp_all
  then have "\<bar>gauss_sum ws (2 ^ (10 - logn))\<bar> \<le> 26624" for ws
    using gauss_sum_bound [of ws "2 ^ (10 - logn)"] by simp
  then show ?thesis unfolding mkgauss_sum by (simp add: sint32_small)
qed

lemma mkgauss_bound: "\<bar>sint (snd (mkgauss nxt rng logn))\<bar> \<le> 26 * 2 ^ (10 - logn)"
  unfolding mkgauss_exact using gauss_sum_bound [of _ "2 ^ (10 - logn)"] by simp

section \<open>The rejection loop\<close>

definition coeff_ok :: "bool \<Rightarrow> u32 \<Rightarrow> u32 \<Rightarrow> bool" where
  "coeff_ok final mod2 s \<longleftrightarrow> \<bar>sint s\<bar> \<le> 127 \<and> (final \<longrightarrow> mod2 XOR (s AND 1) \<noteq> 0)"

lemma mkgauss_attempt_eq:
  "mkgauss_attempt nxt logn final mod2 rng =
    Some (fst (mkgauss nxt rng logn), if coeff_ok final mod2 (snd (mkgauss nxt rng logn)) then Some (snd (mkgauss nxt rng logn)) else None)"
  by (auto simp: mkgauss_attempt_def coeff_ok_def split_beta Let_def abs_le_iff)

lemma mkgauss_coeff_ok: "mkgauss_coeff nxt logn final mod2 rng = Some (rng', s) \<Longrightarrow> coeff_ok final mod2 s"
  unfolding mkgauss_coeff_def by (erule retry_result) (auto simp: mkgauss_attempt_eq split: if_splits)

lemma mkgauss_coeff_now: "8 \<le> logn \<Longrightarrow> mkgauss_coeff nxt logn False mod2 rng = Some (mkgauss nxt rng logn)"
proof -
  assume "8 \<le> logn"
  then have "(2 :: int) ^ (10 - logn) \<le> 2 ^ 2" by (intro power_increasing) simp_all
  then have "\<bar>sint (snd (mkgauss nxt rng logn))\<bar> \<le> 127" using mkgauss_bound [of nxt rng logn] by simp
  then show ?thesis unfolding mkgauss_coeff_def
    by (subst retry_now [of _ _ "fst (mkgauss nxt rng logn)" "snd (mkgauss nxt rng logn)"]) (simp_all add: mkgauss_attempt_eq coeff_ok_def)
qed

lemma low_bit: "s AND 1 = of_bool (odd (sint s))" for s :: u32
proof -
  have "s AND 1 = of_bool (odd s)" by (simp add: and_one_eq odd_iff_mod_2_eq_one mod2_eq_if)
  moreover have "even s \<longleftrightarrow> even (sint s)" using bit_sint_iff [of s 0] by (simp add: bit_0)
  ultimately show ?thesis by simp
qed

lemma sint_narrow: "\<bar>sint s\<bar> \<le> 127 \<Longrightarrow> sint (ucast s :: u8) = sint s" for s :: u32
proof -
  assume h: "\<bar>sint s\<bar> \<le> 127"
  have "(ucast s :: u8) = word_of_int (sint s)" by (rule bit_word_eqI) (auto simp: bit_simps)
  moreover have "sint (word_of_int v :: u8) = v" if "\<bar>v\<bar> \<le> 127" for v using that by (simp add: sint_sbintrunc' signed_take_bit_int_eq_self)
  ultimately show ?thesis using h by (simp only:)
qed

definition parity :: "u8 list \<Rightarrow> nat \<Rightarrow> u32" where
  "parity f m = of_bool (odd (\<Sum>i<m. sint (f ! i)))"

lemma mkgauss_loop_ok:
  assumes "mkgauss_loop nxt [m..<2 ^ logn] logn rng f (parity f m) = Some (rng', f')" "m < 2 ^ logn"
    and "length f = 2 ^ logn" "\<And>i. i < m \<Longrightarrow> \<bar>sint (f ! i)\<bar> \<le> 127"
  shows "length f' = 2 ^ logn \<and> (\<forall>i<2 ^ logn. \<bar>sint (f' ! i)\<bar> \<le> 127) \<and> odd (\<Sum>i<2 ^ logn. sint (f' ! i))"
  using assms
proof (induction "2 ^ logn - m" arbitrary: m rng f)
  case 0
  then show ?case by simp
next
  case (Suc d)
  let ?last = "m = 2 ^ logn - 1"
  have us: "[m..<2 ^ logn] = m # [Suc m..<2 ^ logn]" using Suc.prems(2) by (simp add: upt_conv_Cons)
  obtain rng1 s where c: "mkgauss_coeff nxt logn ?last (parity f m) rng = Some (rng1, s)"
    and l: "mkgauss_loop nxt [Suc m..<2 ^ logn] logn rng1 (f[m := ucast s]) (if ?last then parity f m else parity f m XOR (s AND 1)) = Some (rng', f')"
    using Suc.prems(1) unfolding us by (auto simp: Let_def split: option.splits)
  have ok: "\<bar>sint s\<bar> \<le> 127" "?last \<Longrightarrow> parity f m XOR (s AND 1) \<noteq> 0" using mkgauss_coeff_ok [OF c] by (simp_all add: coeff_ok_def)
  let ?f = "f[m := ucast s]"
  have sm: "sint (?f ! m) = sint s" using sint_narrow [OF ok(1)] Suc.prems(2,3) by simp
  have "(\<Sum>i<m. sint (?f ! i)) = (\<Sum>i<m. sint (f ! i))" by (intro sum.cong) auto
  then have sum: "(\<Sum>i<Suc m. sint (?f ! i)) = (\<Sum>i<m. sint (f ! i)) + sint s" using sm by simp
  have par: "parity ?f (Suc m) = parity f m XOR (s AND 1)" unfolding parity_def sum low_bit by (simp add: odd_add)
  have len: "length ?f = 2 ^ logn" and small: "\<bar>sint (?f ! i)\<bar> \<le> 127" if "i < Suc m" for i
    using Suc.prems(3,4) that sm ok(1) by (cases "i = m"; simp)+
  show ?case
  proof (cases ?last)
    case True
    then have "f' = ?f" using l by simp
    moreover have "2 ^ logn = Suc m" using True Suc.prems(2) by simp
    moreover have "parity ?f (Suc m) \<noteq> 0" using ok(2) [OF True] unfolding par .
    then have "odd (\<Sum>i<Suc m. sint (?f ! i))" by (simp only: parity_def of_bool_eq_0_iff simp_thms)
    ultimately show ?thesis using Suc.prems(3) small by simp
  next
    case False
    have "mkgauss_loop nxt [Suc m..<2 ^ logn] logn rng1 ?f (parity ?f (Suc m)) = Some (rng', f')" using l False par by simp
    then show ?thesis using Suc.hyps(1) [of "Suc m" rng1 ?f] Suc.hyps(2) Suc.prems(2,3) False small by auto
  qed
qed

lemma poly_small_mkgauss_ok:
  assumes "poly_small_mkgauss nxt rng f logn = Some (rng', f')" "length f = 2 ^ logn"
  shows "length f' = 2 ^ logn" "i < 2 ^ logn \<Longrightarrow> \<bar>sint (f' ! i)\<bar> \<le> 127" "odd (\<Sum>i<2 ^ logn. sint (f' ! i))"
  using mkgauss_loop_ok [of nxt 0 logn rng f rng' f'] assms by (simp_all add: poly_small_mkgauss_def parity_def)

text \<open>
  (C24) mkgauss draws \<open>2 \<cdot> 2^(10 - logn)\<close> words and returns, as an exact signed integer, the sum of \<open>2^(10 - logn)\<close>
  samples of the reference inversion \<open>gauss_ref\<close> of the table: no 32-bit addition overflows, and the constant-time
  scan finds the first entry of the table that is not above the drawn value.
\<close>

theorem mkgauss_correct:
  "fst (mkgauss nxt rng logn) = fst (rng_words nxt (2 * 2 ^ (10 - logn)) rng)
    \<and> sint (snd (mkgauss nxt rng logn)) = gauss_sum (snd (rng_words nxt (2 * 2 ^ (10 - logn)) rng)) (2 ^ (10 - logn))
    \<and> \<bar>sint (snd (mkgauss nxt rng logn))\<bar> \<le> 26 * 2 ^ (10 - logn)"
  by (intro conjI mkgauss_exact mkgauss_bound) (simp add: mkgauss_sum)

section \<open>Termination of the sampler\<close>

text \<open>The generator after \<open>i\<close> draws of a coefficient, and the value of draw \<open>i\<close>.\<close>

definition draws :: "('r \<Rightarrow> 'r \<times> u64) \<Rightarrow> nat \<Rightarrow> nat \<Rightarrow> 'r \<Rightarrow> 'r" where
  "draws nxt logn i rng = ((\<lambda>r. fst (mkgauss nxt r logn)) ^^ i) rng"

definition drawn :: "('r \<Rightarrow> 'r \<times> u64) \<Rightarrow> nat \<Rightarrow> 'r \<Rightarrow> nat \<Rightarrow> int" where
  "drawn nxt logn rng i = sint (snd (mkgauss nxt (draws nxt logn i rng) logn))"

lemma draws_Suc: "fst (mkgauss nxt (draws nxt logn i rng) logn) = draws nxt logn (Suc i) rng"
  by (simp add: draws_def)

lemma drawn_bound: "8 \<le> logn \<Longrightarrow> \<bar>drawn nxt logn rng i\<bar> \<le> 127"
proof -
  assume "8 \<le> logn"
  then have "(2 :: int) ^ (10 - logn) \<le> 2 ^ 2" by (intro power_increasing) simp_all
  then show ?thesis using mkgauss_bound [of nxt "draws nxt logn i rng" logn] by (simp add: drawn_def)
qed

lemma final_coeff_returns:
  assumes "8 \<le> logn"
  shows "(\<exists>p. mkgauss_coeff nxt logn True (of_bool (odd S)) (draws nxt logn m rng) = Some p)
    \<longleftrightarrow> (\<exists>j\<ge>m. odd (S + drawn nxt logn rng j))"
proof -
  let ?nx = "\<lambda>r. fst (mkgauss nxt r logn)" and ?m = "of_bool (odd S) :: u32"
  let ?res = "\<lambda>r. if coeff_ok True ?m (snd (mkgauss nxt r logn)) then Some (snd (mkgauss nxt r logn)) else None"
  have it: "(?nx ^^ k) (draws nxt logn m rng) = draws nxt logn (k + m) rng" for k by (simp add: draws_def funpow_add)
  have "coeff_ok True ?m (snd (mkgauss nxt (draws nxt logn j rng) logn)) \<longleftrightarrow> odd (S + drawn nxt logn rng j)" for j
    using drawn_bound [OF assms, of nxt rng j] unfolding drawn_def by (auto simp: coeff_ok_def low_bit)
  then have "(\<exists>k. ?res ((?nx ^^ k) (draws nxt logn m rng)) \<noteq> None) \<longleftrightarrow> (\<exists>k. odd (S + drawn nxt logn rng (k + m)))"
    unfolding it by simp
  also have "\<dots> \<longleftrightarrow> (\<exists>j\<ge>m. odd (S + drawn nxt logn rng j))" by (metis le_add2 le_add_diff_inverse2)
  finally show ?thesis unfolding mkgauss_coeff_def using retry_returns_iff [of _ ?nx ?res, OF mkgauss_attempt_eq] by simp
qed

lemma mkgauss_loop_returns:
  assumes "8 \<le> logn" "m \<le> 2 ^ logn - 1"
  shows "(\<exists>p. mkgauss_loop nxt [m..<2 ^ logn] logn (draws nxt logn m rng) f (of_bool (odd (\<Sum>i<m. drawn nxt logn rng i))) = Some p)
    \<longleftrightarrow> (\<exists>j\<ge>2 ^ logn - 1. odd ((\<Sum>i<2 ^ logn - 1. drawn nxt logn rng i) + drawn nxt logn rng j))"
  using assms(2)
proof (induction "2 ^ logn - 1 - m" arbitrary: m f)
  case 0
  then have m: "m = 2 ^ logn - 1" by simp
  have "[2 ^ logn - 1..<2 ^ logn] = [2 ^ logn - 1 :: nat]" by (simp add: upt_rec)
  then show ?case unfolding m final_coeff_returns [OF assms(1), symmetric] by (auto split: option.splits)
next
  case (Suc k)
  then have m: "m < 2 ^ logn - 1" by simp
  let ?s = "\<Sum>i<m. drawn nxt logn rng i" and ?w = "snd (mkgauss nxt (draws nxt logn m rng) logn)"
  have u: "[m..<2 ^ logn] = m # [Suc m..<2 ^ logn]" using m by (intro upt_conv_Cons) linarith
  have c: "mkgauss_coeff nxt logn False (of_bool (odd ?s)) (draws nxt logn m rng) = Some (draws nxt logn (Suc m) rng, ?w)"
    unfolding mkgauss_coeff_now [OF assms(1)] draws_Suc [symmetric] by simp
  have x: "of_bool (odd ?s) XOR (?w AND 1) = (of_bool (odd (\<Sum>i<Suc m. drawn nxt logn rng i)) :: u32)"
    unfolding low_bit drawn_def [symmetric] by (auto simp: drawn_def)
  show ?case using Suc.hyps(1) [of "Suc m" "f[m := ucast ?w]"] Suc.hyps(2) m unfolding u by (simp add: c x)
qed

text \<open>
  (C23) In degrees 256, 512 and 1024 poly_small_mkgauss returns exactly when, after the first \<open>n - 1\<close> coefficients, some
  later draw makes the sum of the coefficients odd: no other coefficient is ever drawn again, and a source that keeps
  giving even sums keeps the loop running for ever.
\<close>

theorem poly_small_mkgauss_returns:
  assumes "8 \<le> logn"
  shows "(\<exists>p. poly_small_mkgauss nxt rng f logn = Some p)
    \<longleftrightarrow> (\<exists>j\<ge>2 ^ logn - 1. odd ((\<Sum>i<2 ^ logn - 1. drawn nxt logn rng i) + drawn nxt logn rng j))"
  using mkgauss_loop_returns [OF assms, of 0 nxt rng f] by (simp add: poly_small_mkgauss_def draws_def)

lemma zero_draws: "drawn (\<lambda>s :: nat. (s, 0)) logn r i = 0"
proof -
  have "gauss_value 0 0 = 0" unfolding gauss_value_eq by (simp add: gauss_ref_def gauss_1024_12289_def)
  moreover have "fold (\<lambda>u (r, v :: u32). (r, v)) us p = p" for us :: "nat list" and p :: "nat \<times> u32"
    by (induction us arbitrary: p) (simp_all add: split_beta)
  ultimately have "mkgauss (\<lambda>s :: nat. (s, 0)) r logn = (r, 0)" for r by (simp add: mkgauss_def)
  then show ?thesis by (simp add: drawn_def)
qed

theorem poly_small_mkgauss_returns_witness: "poly_small_mkgauss (\<lambda>s :: nat. (s, 0)) 0 (replicate 512 0) 9 = None"
  using poly_small_mkgauss_returns [of 9 "\<lambda>s :: nat. (s, 0)" 0 "replicate 512 0"] by (simp add: zero_draws not_Some_eq [symmetric] del: not_Some_eq)

section \<open>Squared norms\<close>

lemma sint8_bound: "\<bar>sint (x :: u8)\<bar> \<le> 128"
  using sint_greater_eq [of x] sint_less [of x] by simp

lemma poly_small_sqnorm_value:
  assumes "length f = 2 ^ logn" "logn \<le> 10"
  shows "uint (poly_small_sqnorm f logn) = (\<Sum>z\<leftarrow>f. sint z * sint z)" "uint (poly_small_sqnorm f logn) \<le> 16777216"
proof -
  have "(\<lambda>(s, ng). let z = scast (f ! u) :: u32; s = s + z * z in (s, ng OR s)) = acc_add (sint (f ! u))" for u
    by (rule ext) (simp add: acc_add_def split_beta Let_def)
  then have "fold (\<lambda>u (s, ng). let z = scast (f ! u) :: u32; s = s + z * z in (s, ng OR s)) us st = fold acc_add (map (\<lambda>u. sint (f ! u)) us) st" for us st
    by (simp only: fold_map comp_def)
  moreover have "map (\<lambda>u. sint (f ! u)) [0..<2 ^ logn] = map sint f" using assms(1) by (intro nth_equalityI) simp_all
  ultimately have f: "fold (\<lambda>u (s, ng). let z = scast (f ! u) :: u32; s = s + z * z in (s, ng OR s)) [0..<2 ^ logn] (0, 0) = fold acc_add (map sint f) (0, 0)" by simp
  obtain s ng where r: "fold acc_add (map sint f) (0, 0) = (s, ng)" by fastforce
  let ?v = "\<Sum>z\<leftarrow>f. sint z * sint z"
  have "acc_ok (fold acc_add (map sint f) (0, 0)) (0 + (\<Sum>z\<leftarrow>map sint f. z * z))"
  proof (rule acc_fold_ok)
    show "\<bar>z\<bar> \<le> 32768" if z: "z \<in> set (map sint f)" for z
    proof -
      obtain x :: u8 where "z = sint x" using z by auto
      then show ?thesis using sint8_bound [of x] by simp
    qed
  qed (simp_all add: acc_ok_def)
  then have ok: "acc_ok (s, ng) ?v" unfolding r by (simp add: comp_def)
  have sq: "sint z * sint z \<le> 16384" for z :: u8 using sint8_bound [of z] mult_mono [of "\<bar>sint z\<bar>" 128 "\<bar>sint z\<bar>" 128] by simp
  have "?v \<le> (\<Sum>z\<leftarrow>f. 16384)" by (intro sum_list_mono sq)
  also have "\<dots> = 16384 * int (length f)" by (simp add: sum_list_triv)
  also have "\<dots> \<le> 16384 * 1024" using assms power_increasing [of logn 10 "2 :: int"] by simp
  finally have b: "?v \<le> 16777216" by simp
  then have "\<not> bit ng 31" "uint s = ?v" using ok by (auto simp: acc_ok_def split: if_splits)
  then have "poly_small_sqnorm f logn = s" unfolding poly_small_sqnorm_def f r using top_bit [of ng] by (simp add: word_uint_eq_iff uint_shr sign_shift)
  then show "uint (poly_small_sqnorm f logn) = ?v" "uint (poly_small_sqnorm f logn) \<le> 16777216" using \<open>uint s = ?v\<close> b by simp_all
qed

end
