(* ===== verification/Modp_Ntt.thy ===== *)
theory Modp_Ntt
  imports Modp Negacyclic
begin

text \<open>
  The number-theoretic transforms of keygen.c modulo a small prime: the tables of roots in bit-reversed order,
  the transform and its inverse on arrays with a stride of one, and the step of the resultant recursion.
\<close>

section \<open>Model\<close>

definition REV10 :: "u16 list" where
  "REV10 =
     [0, 512, 256, 768, 128, 640, 384, 896, 64, 576, 320, 832, 192, 704, 448, 960, 32, 544, 288, 800, 160, 672, 416,
      928, 96, 608, 352, 864, 224, 736, 480, 992, 16, 528, 272, 784, 144, 656, 400, 912, 80, 592, 336, 848, 208, 720,
      464, 976, 48, 560, 304, 816, 176, 688, 432, 944, 112, 624, 368, 880, 240, 752, 496, 1008, 8, 520, 264, 776,
      136, 648, 392, 904, 72, 584, 328, 840, 200, 712, 456, 968, 40, 552, 296, 808, 168, 680, 424, 936, 104, 616,
      360, 872, 232, 744, 488, 1000, 24, 536, 280, 792, 152, 664, 408, 920, 88, 600, 344, 856, 216, 728, 472, 984,
      56, 568, 312, 824, 184, 696, 440, 952, 120, 632, 376, 888, 248, 760, 504, 1016, 4, 516, 260, 772, 132, 644,
      388, 900, 68, 580, 324, 836, 196, 708, 452, 964, 36, 548, 292, 804, 164, 676, 420, 932, 100, 612, 356, 868,
      228, 740, 484, 996, 20, 532, 276, 788, 148, 660, 404, 916, 84, 596, 340, 852, 212, 724, 468, 980, 52, 564, 308,
      820, 180, 692, 436, 948, 116, 628, 372, 884, 244, 756, 500, 1012, 12, 524, 268, 780, 140, 652, 396, 908, 76,
      588, 332, 844, 204, 716, 460, 972, 44, 556, 300, 812, 172, 684, 428, 940, 108, 620, 364, 876, 236, 748, 492,
      1004, 28, 540, 284, 796, 156, 668, 412, 924, 92, 604, 348, 860, 220, 732, 476, 988, 60, 572, 316, 828, 188,
      700, 444, 956, 124, 636, 380, 892, 252, 764, 508, 1020, 2, 514, 258, 770, 130, 642, 386, 898, 66, 578, 322,
      834, 194, 706, 450, 962, 34, 546, 290, 802, 162, 674, 418, 930, 98, 610, 354, 866, 226, 738, 482, 994, 18, 530,
      274, 786, 146, 658, 402, 914, 82, 594, 338, 850, 210, 722, 466, 978, 50, 562, 306, 818, 178, 690, 434, 946,
      114, 626, 370, 882, 242, 754, 498, 1010, 10, 522, 266, 778, 138, 650, 394, 906, 74, 586, 330, 842, 202, 714,
      458, 970, 42, 554, 298, 810, 170, 682, 426, 938, 106, 618, 362, 874, 234, 746, 490, 1002, 26, 538, 282, 794,
      154, 666, 410, 922, 90, 602, 346, 858, 218, 730, 474, 986, 58, 570, 314, 826, 186, 698, 442, 954, 122, 634,
      378, 890, 250, 762, 506, 1018, 6, 518, 262, 774, 134, 646, 390, 902, 70, 582, 326, 838, 198, 710, 454, 966, 38,
      550, 294, 806, 166, 678, 422, 934, 102, 614, 358, 870, 230, 742, 486, 998, 22, 534, 278, 790, 150, 662, 406,
      918, 86, 598, 342, 854, 214, 726, 470, 982, 54, 566, 310, 822, 182, 694, 438, 950, 118, 630, 374, 886, 246,
      758, 502, 1014, 14, 526, 270, 782, 142, 654, 398, 910, 78, 590, 334, 846, 206, 718, 462, 974, 46, 558, 302,
      814, 174, 686, 430, 942, 110, 622, 366, 878, 238, 750, 494, 1006, 30, 542, 286, 798, 158, 670, 414, 926, 94,
      606, 350, 862, 222, 734, 478, 990, 62, 574, 318, 830, 190, 702, 446, 958, 126, 638, 382, 894, 254, 766, 510,
      1022, 1, 513, 257, 769, 129, 641, 385, 897, 65, 577, 321, 833, 193, 705, 449, 961, 33, 545, 289, 801, 161, 673,
      417, 929, 97, 609, 353, 865, 225, 737, 481, 993, 17, 529, 273, 785, 145, 657, 401, 913, 81, 593, 337, 849, 209,
      721, 465, 977, 49, 561, 305, 817, 177, 689, 433, 945, 113, 625, 369, 881, 241, 753, 497, 1009, 9, 521, 265,
      777, 137, 649, 393, 905, 73, 585, 329, 841, 201, 713, 457, 969, 41, 553, 297, 809, 169, 681, 425, 937, 105,
      617, 361, 873, 233, 745, 489, 1001, 25, 537, 281, 793, 153, 665, 409, 921, 89, 601, 345, 857, 217, 729, 473,
      985, 57, 569, 313, 825, 185, 697, 441, 953, 121, 633, 377, 889, 249, 761, 505, 1017, 5, 517, 261, 773, 133,
      645, 389, 901, 69, 581, 325, 837, 197, 709, 453, 965, 37, 549, 293, 805, 165, 677, 421, 933, 101, 613, 357,
      869, 229, 741, 485, 997, 21, 533, 277, 789, 149, 661, 405, 917, 85, 597, 341, 853, 213, 725, 469, 981, 53, 565,
      309, 821, 181, 693, 437, 949, 117, 629, 373, 885, 245, 757, 501, 1013, 13, 525, 269, 781, 141, 653, 397, 909,
      77, 589, 333, 845, 205, 717, 461, 973, 45, 557, 301, 813, 173, 685, 429, 941, 109, 621, 365, 877, 237, 749,
      493, 1005, 29, 541, 285, 797, 157, 669, 413, 925, 93, 605, 349, 861, 221, 733, 477, 989, 61, 573, 317, 829,
      189, 701, 445, 957, 125, 637, 381, 893, 253, 765, 509, 1021, 3, 515, 259, 771, 131, 643, 387, 899, 67, 579,
      323, 835, 195, 707, 451, 963, 35, 547, 291, 803, 163, 675, 419, 931, 99, 611, 355, 867, 227, 739, 483, 995, 19,
      531, 275, 787, 147, 659, 403, 915, 83, 595, 339, 851, 211, 723, 467, 979, 51, 563, 307, 819, 179, 691, 435,
      947, 115, 627, 371, 883, 243, 755, 499, 1011, 11, 523, 267, 779, 139, 651, 395, 907, 75, 587, 331, 843, 203,
      715, 459, 971, 43, 555, 299, 811, 171, 683, 427, 939, 107, 619, 363, 875, 235, 747, 491, 1003, 27, 539, 283,
      795, 155, 667, 411, 923, 91, 603, 347, 859, 219, 731, 475, 987, 59, 571, 315, 827, 187, 699, 443, 955, 123,
      635, 379, 891, 251, 763, 507, 1019, 7, 519, 263, 775, 135, 647, 391, 903, 71, 583, 327, 839, 199, 711, 455,
      967, 39, 551, 295, 807, 167, 679, 423, 935, 103, 615, 359, 871, 231, 743, 487, 999, 23, 535, 279, 791, 151,
      663, 407, 919, 87, 599, 343, 855, 215, 727, 471, 983, 55, 567, 311, 823, 183, 695, 439, 951, 119, 631, 375,
      887, 247, 759, 503, 1015, 15, 527, 271, 783, 143, 655, 399, 911, 79, 591, 335, 847, 207, 719, 463, 975, 47,
      559, 303, 815, 175, 687, 431, 943, 111, 623, 367, 879, 239, 751, 495, 1007, 31, 543, 287, 799, 159, 671, 415,
      927, 95, 607, 351, 863, 223, 735, 479, 991, 63, 575, 319, 831, 191, 703, 447, 959, 127, 639, 383, 895, 255,
      767, 511, 1023]"

definition modp_mkgm2 :: "u32 list \<Rightarrow> u32 list \<Rightarrow> nat \<Rightarrow> u32 \<Rightarrow> u32 \<Rightarrow> u32 \<Rightarrow> u32 list \<times> u32 list" where
  "modp_mkgm2 gm igm logn g p p0i =
     (let n = 2 ^ logn;
          R2 = modp_R2 p p0i;
          g = modp_montymul g R2 p p0i;
          g = ((\<lambda>g. modp_montymul g g p p0i) ^^ (10 - logn)) g;
          ig = modp_div R2 g p p0i (modp_R p);
          k = 10 - logn;
          x1 = modp_R p;
          x2 = modp_R p;
          (gm, igm, x1, x2) = fold (\<lambda>u (gm, igm, x1, x2).
            let v = unat (REV10 ! (u * 2 ^ k))
            in (gm[v := x1], igm[v := x2], modp_montymul x1 g p p0i, modp_montymul x2 ig p p0i)) [0..<n] (gm, igm, x1, x2)
      in (gm, igm))"

definition ntt2_butterfly :: "nat \<Rightarrow> u32 \<Rightarrow> u32 \<Rightarrow> u32 \<Rightarrow> nat \<Rightarrow> nat \<Rightarrow> u32 list \<Rightarrow> u32 list" where
  "ntt2_butterfly stride p p0i s ht j a =
     (let r1 = j * stride;
          r2 = (j + ht) * stride;
          x = a ! r1;
          y = modp_montymul (a ! r2) s p p0i
      in a[r1 := modp_add x y p, r2 := modp_sub x y p])"

definition ntt2_level :: "nat \<Rightarrow> u32 list \<Rightarrow> u32 \<Rightarrow> u32 \<Rightarrow> nat \<Rightarrow> nat \<Rightarrow> u32 list \<Rightarrow> u32 list" where
  "ntt2_level stride gm p p0i m t a =
     (let ht = t div 2
      in fold (\<lambda>u a. let v1 = u * t; s = gm ! (m + u) in fold (ntt2_butterfly stride p p0i s ht) [v1..<v1 + ht] a) [0..<m] a)"

definition modp_NTT2_ext :: "u32 list \<Rightarrow> nat \<Rightarrow> u32 list \<Rightarrow> nat \<Rightarrow> u32 \<Rightarrow> u32 \<Rightarrow> u32 list" where
  "modp_NTT2_ext a stride gm logn p p0i =
     (if logn = 0 then a
      else
        let n = 2 ^ logn;
            (t, m, a) = ((\<lambda>(t, m, a). (t div 2, 2 * m, ntt2_level stride gm p p0i m t a)) ^^ logn) (n, 1, a)
        in a)"

definition intt2_butterfly :: "nat \<Rightarrow> u32 \<Rightarrow> u32 \<Rightarrow> u32 \<Rightarrow> nat \<Rightarrow> nat \<Rightarrow> u32 list \<Rightarrow> u32 list" where
  "intt2_butterfly stride p p0i s t j a =
     (let r1 = j * stride;
          r2 = (j + t) * stride;
          x = a ! r1;
          y = a ! r2
      in a[r1 := modp_add x y p, r2 := modp_montymul (modp_sub x y p) s p p0i])"

definition intt2_level :: "nat \<Rightarrow> u32 list \<Rightarrow> u32 \<Rightarrow> u32 \<Rightarrow> nat \<Rightarrow> nat \<Rightarrow> u32 list \<Rightarrow> u32 list" where
  "intt2_level stride igm p p0i m t a =
     (let hm = m div 2;
          dt = 2 * t
      in fold (\<lambda>u a. let v1 = u * dt; s = igm ! (hm + u) in fold (intt2_butterfly stride p p0i s t) [v1..<v1 + t] a) [0..<hm] a)"

definition modp_iNTT2_ext :: "u32 list \<Rightarrow> nat \<Rightarrow> u32 list \<Rightarrow> nat \<Rightarrow> u32 \<Rightarrow> u32 \<Rightarrow> u32 list" where
  "modp_iNTT2_ext a stride igm logn p p0i =
     (if logn = 0 then a
      else
        let n = 2 ^ logn;
            (t, m, a) = ((\<lambda>(t, m, a). (2 * t, m div 2, intt2_level stride igm p p0i m t a)) ^^ logn) (1, n, a);
            ni = push_bit (31 - logn) 1
        in fold (\<lambda>k a. a[k * stride := modp_montymul (a ! (k * stride)) ni p p0i]) [0..<n] a)"

definition modp_NTT2 :: "u32 list \<Rightarrow> u32 list \<Rightarrow> nat \<Rightarrow> u32 \<Rightarrow> u32 \<Rightarrow> u32 list" where
  "modp_NTT2 a gm logn p p0i = modp_NTT2_ext a 1 gm logn p p0i"

definition modp_iNTT2 :: "u32 list \<Rightarrow> u32 list \<Rightarrow> nat \<Rightarrow> u32 \<Rightarrow> u32 \<Rightarrow> u32 list" where
  "modp_iNTT2 a igm logn p p0i = modp_iNTT2_ext a 1 igm logn p p0i"

definition modp_poly_rec_res :: "u32 list \<Rightarrow> nat \<Rightarrow> u32 \<Rightarrow> u32 \<Rightarrow> u32 \<Rightarrow> u32 list" where
  "modp_poly_rec_res f logn p p0i R2 =
     fold (\<lambda>u f.
       let w0 = f ! (2 * u + 0);
           w1 = f ! (2 * u + 1)
       in f[u := modp_montymul (modp_montymul w0 w1 p p0i) R2 p p0i]) [0..<2 ^ (logn - 1)] f"

section \<open>Bit reversal\<close>

primrec brev :: "nat \<Rightarrow> nat \<Rightarrow> nat" where
  "brev 0 i = 0"
| "brev (Suc k) i = brev k (i div 2) + 2 ^ k * (i mod 2)"

lemma brev_less: "brev k i < 2 ^ k"
proof (induction k arbitrary: i)
  case (Suc k)
  have "2 ^ k * (i mod 2) \<le> 2 ^ k * (1 :: nat)" by (intro mult_le_mono2) auto
  then show ?case using Suc [of "i div 2"] unfolding brev.simps power_Suc by linarith
qed simp

lemma brev_zero [simp]: "brev k 0 = 0"
  by (induction k) simp_all

lemma brev_half: "i < 2 ^ k \<Longrightarrow> brev (Suc k) i = 2 * brev k i"
proof (induction k arbitrary: i)
  case (Suc k)
  then have "brev (Suc k) (i div 2) = 2 * brev k (i div 2)" by simp
  then show ?case by (subst brev.simps(2)) simp
qed simp

lemma brev_scale: "brev (k + j) (i * 2 ^ j) = brev k i"
proof (induction j)
  case (Suc j)
  have "brev (k + Suc j) (i * 2 ^ Suc j) = brev (Suc (k + j)) (2 * (i * 2 ^ j))" by (simp add: ac_simps)
  then show ?case using Suc by simp
qed simp

lemma brev_odd: "i < 2 ^ k \<Longrightarrow> brev (Suc k) (i + 2 ^ k) = 2 * brev k i + 1"
proof (induction k arbitrary: i)
  case (Suc k)
  have d: "(i + 2 ^ Suc k) div 2 = i div 2 + 2 ^ k" "(i + 2 ^ Suc k) mod 2 = i mod 2" by simp_all
  have "brev (Suc k) (i div 2 + 2 ^ k) = 2 * brev k (i div 2) + 1" using Suc by simp
  then show ?case by (subst brev.simps(2)) (simp only: d, simp)
qed simp

lemma brev_involutive: "i < 2 ^ k \<Longrightarrow> brev k (brev k i) = i"
proof (induction k arbitrary: i)
  case (Suc k)
  have b: "brev k (i div 2) < 2 ^ k" by (rule brev_less)
  have IH: "brev k (brev k (i div 2)) = i div 2" using Suc by simp
  show ?case
  proof (cases "even i")
    case True
    then have "brev (Suc k) i = brev k (i div 2)" by simp
    then show ?thesis using brev_half [OF b] IH True by simp
  next
    case False
    then have "brev (Suc k) i = brev k (i div 2) + 2 ^ k" by (simp add: odd_iff_mod_2_eq_one)
    then show ?thesis using brev_odd [OF b] IH False by simp
  qed
qed simp

primrec brev_list :: "nat \<Rightarrow> int list" where
  "brev_list 0 = [0]"
| "brev_list (Suc k) = concat (map (\<lambda>x. [x, x + 2 ^ k]) (brev_list k))"

lemma nth_pairs: "i < 2 * length xs \<Longrightarrow> concat (map (\<lambda>x. [x, f x]) xs) ! i = (if even i then xs ! (i div 2) else f (xs ! (i div 2)))"
proof (induction xs arbitrary: i)
  case (Cons x xs)
  show ?case
  proof (cases "i < 2")
    case True
    then show ?thesis by (cases i) auto
  next
    case False
    then obtain j where j: "i = Suc (Suc j)" by (metis One_nat_def Suc_1 less_2_cases_iff not0_implies_Suc)
    then show ?thesis using Cons by simp
  qed
qed simp

lemma brev_list: "length (brev_list k) = 2 ^ k \<and> (\<forall>i<2 ^ k. brev_list k ! i = int (brev k i))"
proof (induction k)
  case (Suc k)
  have "length (concat (map (\<lambda>x. [x, f x]) xs)) = 2 * length xs" for f and xs :: "int list" by (induction xs) simp_all
  moreover have "brev_list (Suc k) ! i = int (brev (Suc k) i)" if "i < 2 ^ Suc k" for i
    using that Suc by (simp add: nth_pairs odd_iff_mod_2_eq_one)
  ultimately show ?case using Suc by simp
qed simp

lemma brev_list_steps:
  "brev_list 10 = concat (map (\<lambda>x. [x, x + 512]) (brev_list 9))" "brev_list 9 = concat (map (\<lambda>x. [x, x + 256]) (brev_list 8))"
  "brev_list 8 = concat (map (\<lambda>x. [x, x + 128]) (brev_list 7))" "brev_list 7 = concat (map (\<lambda>x. [x, x + 64]) (brev_list 6))"
  "brev_list 6 = concat (map (\<lambda>x. [x, x + 32]) (brev_list 5))" "brev_list 5 = concat (map (\<lambda>x. [x, x + 16]) (brev_list 4))"
  "brev_list 4 = [0, 8, 4, 12, 2, 10, 6, 14, 1, 9, 5, 13, 3, 11, 7, 15]"
  by (simp_all add: numeral_eq_Suc)

lemma REV10_table: "map uint REV10 = brev_list 10"
  by (simp add: REV10_def brev_list_steps)

lemma REV10_brev: "i < 1024 \<Longrightarrow> unat (REV10 ! i) = brev 10 i"
proof -
  assume i: "i < 1024"
  have "length (map uint REV10) = 1024" unfolding REV10_table using brev_list [of 10] by simp
  then have "uint (REV10 ! i) = map uint REV10 ! i" using i by simp
  also have "\<dots> = int (brev 10 i)" unfolding REV10_table using brev_list [of 10] i by simp
  finally have "nat (uint (REV10 ! i)) = brev 10 i" by (simp only: nat_int)
  then show ?thesis by (simp only: unat_eq_nat_uint)
qed

section \<open>Tables of roots\<close>

lemma fold_pair_split: "fold (\<lambda>u (a, b, x, y). (A u a x, B u b y, f x, h y)) us (a, b, x, y) =
   (fst (fold (\<lambda>u (a, x). (A u a x, f x)) us (a, x)), fst (fold (\<lambda>u (b, y). (B u b y, h y)) us (b, y)),
    snd (fold (\<lambda>u (a, x). (A u a x, f x)) us (a, x)), snd (fold (\<lambda>u (b, y). (B u b y, h y)) us (b, y)))"
  by (induction us arbitrary: a b x y) simp_all

definition root_fold :: "u32 \<Rightarrow> u32 \<Rightarrow> nat \<Rightarrow> u32 \<Rightarrow> u32 list \<Rightarrow> nat \<Rightarrow> u32 list \<times> u32" where
  "root_fold p p0i logn g a n = fold (\<lambda>u (a, x). (a[unat (REV10 ! (u * 2 ^ (10 - logn))) := x], modp_montymul x g p p0i)) [0..<n] (a, modp_R p)"

lemma modp_mkgm2_fold:
  "modp_mkgm2 gm igm logn g p p0i =
    (let gs = ((\<lambda>g. modp_montymul g g p p0i) ^^ (10 - logn)) (modp_montymul g (modp_R2 p p0i) p p0i)
     in (fst (root_fold p p0i logn gs gm (2 ^ logn)),
         fst (root_fold p p0i logn (modp_div (modp_R2 p p0i) gs p p0i (modp_R p)) igm (2 ^ logn))))"
  unfolding modp_mkgm2_def Let_def fold_pair_split root_fold_def by simp

locale ntt_modulus = small_modulus +
  fixes g :: u32
  assumes g_range: "uint g < P" and g_root: "uint g ^ 1024 mod P = P - 1"
begin

definition omega :: "nat \<Rightarrow> int" where
  "omega logn = uint g ^ 2 ^ (10 - logn)"

lemma omega_power: "logn \<le> 10 \<Longrightarrow> omega logn ^ 2 ^ logn mod P = P - 1"
  using g_root by (simp add: omega_def flip: power_mult power_add)

lemma mont_squarings: "mont a x \<Longrightarrow> mont (((\<lambda>g. modp_montymul g g p p0i) ^^ k) a) (x ^ 2 ^ k)"
proof (induction k)
  case (Suc k)
  have "x ^ 2 ^ Suc k = x ^ 2 ^ k * x ^ 2 ^ k" by (simp add: mult_2 flip: power_add)
  then show ?case using mont_mont_mult [OF Suc.IH [OF Suc.prems] Suc.IH [OF Suc.prems]] by simp
qed simp

lemma mont_power: "mont a x \<Longrightarrow> mont z (x ^ u) \<Longrightarrow> mont (modp_montymul z a p p0i) (x ^ Suc u)"
  using mont_mont_mult [of z "x ^ u" a x] by (simp add: mult.commute)

lemma root_fold:
  assumes "logn \<le> 10" "2 ^ logn \<le> length a" "mont gs x" "n \<le> 2 ^ logn"
  shows "mont (snd (root_fold p p0i logn gs a n)) (x ^ n) \<and> length (fst (root_fold p p0i logn gs a n)) = length a
    \<and> (\<forall>w<n. mont (fst (root_fold p p0i logn gs a n) ! brev logn w) (x ^ w))"
  using assms(4)
proof (induction n)
  case 0
  then show ?case using mont_R by (simp add: root_fold_def)
next
  case (Suc n)
  obtain b z where r: "root_fold p p0i logn gs a n = (b, z)" by (cases "root_fold p p0i logn gs a n")
  have IH: "mont z (x ^ n)" "length b = length a" "\<And>w. w < n \<Longrightarrow> mont (b ! brev logn w) (x ^ w)" using Suc r by simp_all
  have "n * 2 ^ (10 - logn) < 2 ^ logn * 2 ^ (10 - logn)" using Suc.prems by simp
  then have i: "n * 2 ^ (10 - logn) < 1024" using assms(1) by (simp flip: power_add)
  have "unat (REV10 ! (n * 2 ^ (10 - logn))) = brev logn n"
    using REV10_brev [OF i] brev_scale [of logn "10 - logn" n] assms(1) by simp
  then have st: "root_fold p p0i logn gs a (Suc n) = (b[brev logn n := z], modp_montymul z gs p p0i)"
    using r by (simp add: root_fold_def)
  have "mont (b[brev logn n := z] ! brev logn w) (x ^ w)" if "w < Suc n" for w
  proof (cases "w = n")
    case True
    then show ?thesis using IH(1,2) brev_less [of logn n] assms(2) by simp
  next
    case False
    then have "brev logn n \<noteq> brev logn w" using that Suc.prems brev_involutive [of n logn] brev_involutive [of w logn] by auto
    then show ?thesis using IH(3) [of w] that False by simp
  qed
  then show ?case unfolding st using IH(2) mont_power [OF assms(3) IH(1)] by simp
qed

lemma root_table:
  assumes "logn \<le> 10" "2 ^ logn \<le> length a" "mont gs x" "v < 2 ^ logn"
  shows "mont (fst (root_fold p p0i logn gs a (2 ^ logn)) ! v) (x ^ brev logn v)"
proof -
  have "mont (fst (root_fold p p0i logn gs a (2 ^ logn)) ! brev logn (brev logn v)) (x ^ brev logn v)"
    using root_fold [OF assms(1-3), of "2 ^ logn"] brev_less [of logn v] by simp
  then show ?thesis using brev_involutive [OF assms(4)] by simp
qed

lemma mont_omega: "mont (((\<lambda>g. modp_montymul g g p p0i) ^^ (10 - logn)) (modp_montymul g (modp_R2 p p0i) p p0i)) (omega logn)"
  unfolding omega_def by (rule mont_squarings [OF mont_of [OF g_range]])

lemma mkgm2_gm:
  assumes "logn \<le> 10" "2 ^ logn \<le> length gm" "v < 2 ^ logn"
  shows "mont (fst (modp_mkgm2 gm igm logn g p p0i) ! v) (omega logn ^ brev logn v)"
  unfolding modp_mkgm2_fold Let_def fst_conv by (rule root_table [OF assms(1,2) mont_omega assms(3)])

lemma mkgm2_length: "logn \<le> 10 \<Longrightarrow> 2 ^ logn \<le> length gm \<Longrightarrow> length (fst (modp_mkgm2 gm igm logn g p p0i)) = length gm"
  unfolding modp_mkgm2_fold Let_def fst_conv using root_fold [OF _ _ mont_omega, of logn gm "2 ^ logn"] by simp

section \<open>The transform evaluates the polynomial\<close>

definition reduced :: "nat \<Rightarrow> u32 list \<Rightarrow> bool" where
  "reduced n a \<longleftrightarrow> length a = n \<and> (\<forall>x \<in> set a. uint x < P)"

lemma reducedI: "length a = n \<Longrightarrow> (\<And>i. i < n \<Longrightarrow> uint (a ! i) < P) \<Longrightarrow> reduced n a"
  unfolding reduced_def by (metis in_set_conv_nth)

lemma reduced_nth: "reduced n a \<Longrightarrow> i < n \<Longrightarrow> uint (a ! i) < P"
  by (simp add: reduced_def)

definition zeta :: "nat \<Rightarrow> nat \<Rightarrow> int" where
  "zeta logn v = omega logn ^ brev logn v"

definition table :: "nat \<Rightarrow> u32 list \<Rightarrow> bool" where
  "table logn gm \<longleftrightarrow> (\<forall>v<2 ^ logn. mont (gm ! v) (zeta logn v))"

lemma table_mkgm2: "logn \<le> 10 \<Longrightarrow> 2 ^ logn \<le> length gm \<Longrightarrow> table logn (fst (modp_mkgm2 gm igm logn g p p0i))"
  unfolding table_def zeta_def using mkgm2_gm by simp

lemma ntt2_level_map:
  assumes "0 < h" "length a = m * (2 * h)"
  shows "ntt2_level 1 gm p p0i m (2 * h) a = map (\<lambda>i.
      if i mod (2 * h) < h
      then modp_add (a ! i) (modp_montymul (a ! (i + h)) (gm ! (m + i div (2 * h))) p p0i) p
      else modp_sub (a ! (i - h)) (modp_montymul (a ! i) (gm ! (m + i div (2 * h))) p p0i) p) [0..<length a]"
  unfolding ntt2_level_def ntt2_butterfly_def [abs_def] Let_def
  using fold_blocks [OF assms, of "\<lambda>i x y. modp_add x (modp_montymul y (gm ! (m + i)) p p0i) p"
      "\<lambda>i x y. modp_sub x (modp_montymul y (gm ! (m + i)) p p0i) p"] by simp

lemma ntt2_level_mod:
  assumes h: "0 < h" and a: "reduced (m * (2 * h)) a" and gm: "\<And>v. v < 2 * m \<Longrightarrow> mont (gm ! v) (Z v)"
  shows "reduced (m * (2 * h)) (ntt2_level 1 gm p p0i m (2 * h) a)"
    and "i < m * (2 * h) \<Longrightarrow> uint (ntt2_level 1 gm p p0i m (2 * h) a ! i) =
      (if i mod (2 * h) < h then uint (a ! i) + uint (a ! (i + h)) * Z (m + i div (2 * h))
       else uint (a ! (i - h)) - uint (a ! i) * Z (m + i div (2 * h))) mod P"
proof -
  have len: "length a = m * (2 * h)" using a by (simp add: reduced_def)
  have e: "uint (ntt2_level 1 gm p p0i m (2 * h) a ! i) < P \<and> uint (ntt2_level 1 gm p p0i m (2 * h) a ! i) =
      (if i mod (2 * h) < h then uint (a ! i) + uint (a ! (i + h)) * Z (m + i div (2 * h))
       else uint (a ! (i - h)) - uint (a ! i) * Z (m + i div (2 * h))) mod P" if i: "i < m * (2 * h)" for i
  proof -
    let ?s = "gm ! (m + i div (2 * h))" and ?z = "Z (m + i div (2 * h))"
    have s: "mont ?s ?z" using block_in(1) [OF h i] by (intro gm) simp
    have mul: "uint (modp_montymul x ?s p p0i) = uint x * ?z mod P \<and> uint (modp_montymul x ?s p p0i) < P" if "uint x < P" for x
      using mont_mult [OF s that] size unfolding montymul_commute [of x] by (simp add: mult.commute)
    have r: "uint (a ! i) < P" "uint (a ! (i - h)) < P" "i mod (2 * h) < h \<Longrightarrow> uint (a ! (i + h)) < P"
      using reduced_nth [OF a] i block_in(2) [OF h i] by auto
    show ?thesis
    proof (cases "i mod (2 * h) < h")
      case True
      have "ntt2_level 1 gm p p0i m (2 * h) a ! i = modp_add (a ! i) (modp_montymul (a ! (i + h)) ?s p p0i) p"
        using True i by (simp add: ntt2_level_map [OF h len, unfolded One_nat_def] len)
      then show ?thesis using True uint_add [OF r(1), of "modp_montymul (a ! (i + h)) ?s p p0i"] mul [OF r(3) [OF True]] size
        by (simp add: mod_add_right_eq)
    next
      case False
      have "ntt2_level 1 gm p p0i m (2 * h) a ! i = modp_sub (a ! (i - h)) (modp_montymul (a ! i) ?s p p0i) p"
        using False i by (simp add: ntt2_level_map [OF h len, unfolded One_nat_def] len)
      then show ?thesis using False uint_sub [OF r(2), of "modp_montymul (a ! i) ?s p p0i"] mul [OF r(1)] size
        by (simp add: mod_diff_right_eq)
    qed
  qed
  then show "i < m * (2 * h) \<Longrightarrow> uint (ntt2_level 1 gm p p0i m (2 * h) a ! i) =
      (if i mod (2 * h) < h then uint (a ! i) + uint (a ! (i + h)) * Z (m + i div (2 * h))
       else uint (a ! (i - h)) - uint (a ! i) * Z (m + i div (2 * h))) mod P" by blast
  show "reduced (m * (2 * h)) (ntt2_level 1 gm p p0i m (2 * h) a)"
    using conjunct1 [OF e] by (intro reducedI) (simp add: ntt2_level_map [OF h len, unfolded One_nat_def] len)
qed

text \<open>The point at which block \<open>i\<close> of level \<open>k\<close> evaluates.\<close>

definition zpt :: "nat \<Rightarrow> nat \<Rightarrow> nat \<Rightarrow> int" where
  "zpt logn k i = (if k = 0 then - 1 else if even i then zeta logn (2 ^ (k - 1) + i div 2) else - zeta logn (2 ^ (k - 1) + i div 2))"

lemma zpt_parent: "zpt logn (Suc k) i * zpt logn (Suc k) i = zeta logn (2 ^ k + i div 2) * zeta logn (2 ^ k + i div 2)"
  by (simp add: zpt_def)

lemma minus_one_mod: "(P - 1) * x mod P = - x mod P"
proof -
  have "(P - 1) * x = - x + P * x" by (simp add: algebra_simps)
  then show ?thesis by (simp only: mod_mult_self2)
qed

lemma root_children:
  assumes "Suc k \<le> 10" "v < 2 ^ k"
  shows "zeta (Suc k) (2 * v) * zeta (Suc k) (2 * v) = zeta (Suc k) v"
    "zeta (Suc k) (2 * v + 1) * zeta (Suc k) (2 * v + 1) mod P = - zeta (Suc k) v mod P"
proof -
  let ?w = "omega (Suc k)"
  have b: "brev (Suc k) v = brev k v + brev k v" using brev_half [OF assms(2)] by simp
  show "zeta (Suc k) (2 * v) * zeta (Suc k) (2 * v) = zeta (Suc k) v"
    unfolding zeta_def b by (simp add: power_add)
  have "brev (Suc k) (2 * v + 1) = brev k v + 2 ^ k" by simp
  then have "zeta (Suc k) (2 * v + 1) * zeta (Suc k) (2 * v + 1) = ?w ^ 2 ^ Suc k * zeta (Suc k) v"
    unfolding zeta_def b by (simp only: mult_2 power_Suc flip: power_add) (simp only: ac_simps)
  then show "zeta (Suc k) (2 * v + 1) * zeta (Suc k) (2 * v + 1) mod P = - zeta (Suc k) v mod P"
    using omega_power [OF assms(1)] minus_one_mod by (metis mod_mult_left_eq)
qed

lemma root_square:
  assumes "k < logn" "logn \<le> 10" "i < 2 ^ k"
  shows "zeta logn (2 ^ k + i) * zeta logn (2 ^ k + i) mod P = zpt logn k i mod P"
proof -
  obtain n where n: "logn = Suc n" using assms(1) by (cases logn) auto
  show ?thesis
  proof (cases k)
    case 0
    have "brev (Suc n) 1 = 2 ^ n" using brev_odd [of 0 0] by (simp add: brev_zero)
    then have "zeta logn 1 * zeta logn 1 = omega logn ^ 2 ^ logn" unfolding zeta_def n by (simp add: mult_2 flip: power_add)
    moreover have "- 1 mod P = P - 1" using mod_neg_once [of "- 1" P] size by simp
    ultimately show ?thesis using omega_power [OF assms(2)] 0 assms(3) by (simp add: zpt_def)
  next
    case (Suc l)
    have "2 ^ l + i div 2 < 2 ^ k" using assms(3) Suc by auto
    moreover have "(2 :: nat) ^ k \<le> 2 ^ n" using assms(1) n by (intro power_increasing) simp_all
    ultimately have v: "2 ^ l + i div 2 < 2 ^ n" by (rule order.strict_trans2)
    note c = root_children [OF assms(2) [unfolded n] v]
    show ?thesis
    proof (cases "even i")
      case True
      then have "2 ^ k + i = 2 * (2 ^ l + i div 2)" by (simp add: Suc)
      then show ?thesis using c(1) True Suc n by (simp add: zpt_def)
    next
      case False
      then have e: "2 ^ k + i = 2 * (2 ^ l + i div 2) + 1" by (simp add: Suc)
      show ?thesis using c(2) False Suc n unfolding e by (simp add: zpt_def)
    qed
  qed
qed

lemma zpt_square:
  assumes "Suc k \<le> logn" "logn \<le> 10" "i < 2 ^ Suc k"
  shows "zpt logn (Suc k) i * zpt logn (Suc k) i mod P = zpt logn k (i div 2) mod P"
  unfolding zpt_parent using assms by (intro root_square) auto

lemma point_power: "k \<le> logn \<Longrightarrow> logn \<le> 10 \<Longrightarrow> i < 2 ^ k \<Longrightarrow> zpt logn k i ^ (2 ^ k) mod P = - 1 mod P"
proof (induction k arbitrary: i)
  case (Suc k)
  have "zpt logn (Suc k) i ^ (2 ^ Suc k) mod P = (zpt logn (Suc k) i * zpt logn (Suc k) i mod P) ^ 2 ^ k mod P"
    by (simp add: power_mod power_mult power2_eq_square)
  also have "\<dots> = zpt logn k (i div 2) ^ 2 ^ k mod P" unfolding zpt_square [OF Suc.prems] by (rule power_mod)
  also have "\<dots> = - 1 mod P" using Suc by auto
  finally show ?case .
qed (simp add: zpt_def)

definition peval :: "nat \<Rightarrow> (nat \<Rightarrow> int) \<Rightarrow> int \<Rightarrow> int" where
  "peval n f x = (\<Sum>l<n. f l * x ^ l) mod P"

lemma peval_cong: "(\<And>l. l < n \<Longrightarrow> f l mod P = f' l mod P) \<Longrightarrow> x mod P = x' mod P \<Longrightarrow> peval n f x = peval n f' x'"
proof -
  assume h: "\<And>l. l < n \<Longrightarrow> f l mod P = f' l mod P" "x mod P = x' mod P"
  have "x ^ l mod P = x' ^ l mod P" for l using h(2) by (metis power_mod)
  then have "f l * x ^ l mod P = f' l * x' ^ l mod P" if "l < n" for l using h(1) [OF that] by (intro mod_mult_cong) simp_all
  then have "(\<Sum>l<n. f l * x ^ l mod P) = (\<Sum>l<n. f' l * x' ^ l mod P)" by (intro sum.cong) simp_all
  then show ?thesis unfolding peval_def using mod_sum_eq [of "\<lambda>l. f l * x ^ l" P "{..<n}"] mod_sum_eq [of "\<lambda>l. f' l * x' ^ l" P "{..<n}"] by simp
qed

lemma peval_split:
  "peval (2 * m) (\<lambda>l. f (j + l * h)) r
    = (peval m (\<lambda>l. f (j + l * (2 * h))) (r * r) + peval m (\<lambda>l. f (j + h + l * (2 * h))) (r * r) * r) mod P"
  unfolding peval_def eval_split [of f j h r m] by (intro mod_add_cong mod_mult_cong) simp_all

primrec ntt2_upto :: "u32 list \<Rightarrow> nat \<Rightarrow> nat \<Rightarrow> u32 list \<Rightarrow> u32 list" where
  "ntt2_upto gm logn 0 a = a"
| "ntt2_upto gm logn (Suc k) a = ntt2_level 1 gm p p0i (2 ^ k) (2 ^ (logn - k)) (ntt2_upto gm logn k a)"

lemma NTT2_upto: "modp_NTT2 a gm logn p p0i = ntt2_upto gm logn logn a"
proof -
  have "k \<le> logn \<Longrightarrow> ((\<lambda>(t, m, a). (t div 2, 2 * m, ntt2_level 1 gm p p0i m t a)) ^^ k) (2 ^ logn, 1, a)
      = (2 ^ (logn - k), 2 ^ k, ntt2_upto gm logn k a)" for k
  proof (induction k)
    case (Suc k)
    have "(2 :: nat) ^ (logn - k) div 2 = 2 ^ (logn - Suc k)"
      using Suc.prems by (metis Suc_diff_Suc Suc_le_lessD nonzero_mult_div_cancel_left power_Suc zero_neq_numeral)
    then show ?case using Suc by simp
  qed simp
  from this [of logn] show ?thesis unfolding modp_NTT2_def modp_NTT2_ext_def Let_def by (cases "logn = 0") simp_all
qed

lemma table_prefix: "Suc k \<le> logn \<Longrightarrow> table logn gm \<Longrightarrow> v < 2 * 2 ^ k \<Longrightarrow> mont (gm ! v) (zeta logn v)"
proof -
  assume h: "Suc k \<le> logn" "table logn gm" "v < 2 * 2 ^ k"
  have "(2 :: nat) ^ Suc k \<le> 2 ^ logn" using h(1) by (intro power_increasing) simp_all
  then show ?thesis using h by (simp add: table_def)
qed

lemma reduced_upto:
  "k \<le> logn \<Longrightarrow> logn \<le> 10 \<Longrightarrow> table logn gm \<Longrightarrow> reduced (2 ^ logn) a \<Longrightarrow> reduced (2 ^ logn) (ntt2_upto gm logn k a)"
proof (induction k)
  case (Suc k)
  note l = level_split [OF Suc.prems(1,2)]
  have "reduced (2 ^ k * (2 * 2 ^ (logn - Suc k))) (ntt2_upto gm logn k a)" unfolding l(2) using Suc by simp
  then have "reduced (2 ^ k * (2 * 2 ^ (logn - Suc k))) (ntt2_level 1 gm p p0i (2 ^ k) (2 * 2 ^ (logn - Suc k)) (ntt2_upto gm logn k a))"
    by (rule ntt2_level_mod(1) [where Z = "zeta logn", rotated]) (use table_prefix [OF Suc.prems(1,3)] in simp_all)
  then show ?case unfolding ntt2_upto.simps l(1) l(2) .
qed simp

lemma ntt2_upto_eval:
  assumes "logn \<le> 10" "table logn gm" "reduced (2 ^ logn) a"
  shows "k \<le> logn \<Longrightarrow> i < 2 ^ k \<Longrightarrow> j < 2 ^ (logn - k) \<Longrightarrow>
    uint (ntt2_upto gm logn k a ! (i * 2 ^ (logn - k) + j)) = peval (2 ^ k) (\<lambda>l. uint (a ! (j + l * 2 ^ (logn - k)))) (zpt logn k i)"
proof (induction k arbitrary: i j)
  case 0
  then show ?case using reduced_nth [OF assms(3), of j] by (simp add: peval_def)
next
  case (Suc k)
  let ?h = "2 ^ (logn - Suc k) :: nat" and ?b = "ntt2_upto gm logn k a" and ?c = "i div 2"
  note l = level_split [OF Suc.prems(1) assms(1)]
  have b: "reduced (2 ^ k * (2 * ?h)) ?b" unfolding l(2) using Suc.prems assms by (intro reduced_upto) auto
  have c: "?c < 2 ^ k" using Suc.prems(2) by auto
  let ?z = "zeta logn (2 ^ k + ?c)" and ?w = "zpt logn (Suc k) i"
  have sq: "?w * ?w mod P = zpt logn k ?c mod P" using Suc.prems assms(1) by (intro zpt_square) auto
  have IH: "uint (?b ! (?c * (2 * ?h) + j')) = peval (2 ^ k) (\<lambda>l. uint (a ! (j' + l * (2 * ?h)))) (zpt logn k ?c)" if "j' < 2 * ?h" for j'
    using Suc.IH [of ?c j'] Suc.prems c that l(1) by simp
  have IH': "uint (?b ! (?c * (2 * ?h) + j')) = peval (2 ^ k) (\<lambda>l. uint (a ! (j' + l * (2 * ?h)))) (?w * ?w)" if "j' < 2 * ?h" for j'
    unfolding IH [OF that] by (rule peval_cong) (simp_all add: sq)
  have ev: "peval (2 ^ Suc k) (\<lambda>l. uint (a ! (j + l * ?h))) ?w
      = (uint (?b ! (?c * (2 * ?h) + j)) + uint (?b ! (?c * (2 * ?h) + (j + ?h))) * ?w) mod P"
    using peval_split [of "2 ^ k" "\<lambda>i. uint (a ! i)" j ?h ?w] IH' [of j] IH' [of "j + ?h"] Suc.prems by simp
  have lev: "uint (ntt2_upto gm logn (Suc k) a ! q) =
      (if q mod (2 * ?h) < ?h then uint (?b ! q) + uint (?b ! (q + ?h)) * zeta logn (2 ^ k + q div (2 * ?h))
       else uint (?b ! (q - ?h)) - uint (?b ! q) * zeta logn (2 ^ k + q div (2 * ?h))) mod P" if "q < 2 ^ k * (2 * ?h)" for q
    unfolding ntt2_upto.simps l(1)
    by (rule ntt2_level_mod(2) [OF _ b _ that]) (use table_prefix [OF Suc.prems(1) assms(2)] in simp_all)
  have cb: "?c * (2 * ?h) + (2 * ?h) \<le> 2 ^ k * (2 * ?h)"
    using mult_le_mono1 [of "Suc ?c" "2 ^ k" "2 * ?h"] c by simp
  show ?case
  proof (cases "even i")
    case True
    have q: "i * ?h + j = ?c * (2 * ?h) + j" using True by auto
    have "(?c * (2 * ?h) + j) mod (2 * ?h) = j" "(?c * (2 * ?h) + j) div (2 * ?h) = ?c" using Suc.prems(3) by simp_all
    moreover have "?c * (2 * ?h) + j < 2 ^ k * (2 * ?h)" using cb Suc.prems(3) by linarith
    ultimately show ?thesis
      unfolding q ev using lev [of "?c * (2 * ?h) + j"] Suc.prems(3) True by (simp add: add.assoc zpt_def)
  next
    case False
    have q: "i * ?h + j = ?c * (2 * ?h) + (j + ?h)" using False by (auto elim: oddE simp: algebra_simps)
    have "(?c * (2 * ?h) + (j + ?h)) mod (2 * ?h) = j + ?h" "(?c * (2 * ?h) + (j + ?h)) div (2 * ?h) = ?c" using Suc.prems(3) by simp_all
    moreover have "?c * (2 * ?h) + (j + ?h) < 2 ^ k * (2 * ?h)" using cb Suc.prems(3) by linarith
    moreover have "?c * (2 * ?h) + (j + ?h) - ?h = ?c * (2 * ?h) + j" by simp
    ultimately show ?thesis
      unfolding q ev using lev [of "?c * (2 * ?h) + (j + ?h)"] Suc.prems(3) False by (simp add: zpt_def)
  qed
qed

lemma NTT2_eval:
  assumes "logn \<le> 10" "table logn gm" "reduced (2 ^ logn) a"
  shows "reduced (2 ^ logn) (modp_NTT2 a gm logn p p0i)"
    "i < 2 ^ logn \<Longrightarrow> uint (modp_NTT2 a gm logn p p0i ! i) = peval (2 ^ logn) (\<lambda>l. uint (a ! l)) (zpt logn logn i)"
  using reduced_upto [OF order.refl assms] ntt2_upto_eval [OF assms order.refl, of i 0] by (simp_all add: NTT2_upto)

section \<open>A polynomial is determined by its values\<close>

lemma cancel_root:
  assumes "k \<le> logn" "logn \<le> 10" "i < 2 ^ k" "zpt logn k i * x mod P = 0"
  shows "x mod P = 0"
proof -
  obtain e where e: "(2 :: nat) ^ k = Suc e" by (metis not0_implies_Suc power_not_zero zero_neq_numeral)
  have "- x mod P = (zpt logn k i ^ 2 ^ k) * x mod P"
    using point_power [OF assms(1-3)] by (metis mod_mult_left_eq mult_minus1)
  also have "\<dots> = zpt logn k i ^ e * (zpt logn k i * x) mod P" unfolding e by (simp add: ac_simps)
  also have "\<dots> = 0" using assms(4) by (simp add: mod_eq_0_iff_dvd)
  finally show ?thesis by (simp add: mod_eq_0_iff_dvd)
qed

lemma halves:
  assumes "(e + o' * w) mod P = 0" "(e + o' * - w) mod P = 0"
  shows "e mod P = 0" "w * o' mod P = 0"
proof -
  note d = assms [unfolded mod_eq_0_iff_dvd]
  have "2 * e = (e + o' * w) + (e + o' * - w)" "2 * (w * o') = (e + o' * w) - (e + o' * - w)" by (simp_all add: algebra_simps)
  then have "P dvd 2 * e" "P dvd 2 * (w * o')" using dvd_add [OF d] dvd_diff [OF d] by (simp_all only:)
  then show "e mod P = 0" "w * o' mod P = 0" using cancel_2 [of e 0] cancel_2 [of "w * o'" 0] by (simp_all add: mod_eq_0_iff_dvd)
qed

lemma eval_zero:
  assumes "logn \<le> 10"
  shows "k \<le> logn \<Longrightarrow> (\<And>i. i < 2 ^ k \<Longrightarrow> peval (2 ^ k) f (zpt logn k i) = 0) \<Longrightarrow> l < 2 ^ k \<Longrightarrow> f l mod P = 0"
proof (induction k arbitrary: f l)
  case 0
  then show ?case by (simp add: peval_def)
next
  case (Suc k)
  let ?E = "\<lambda>l. f (2 * l)" and ?O = "\<lambda>l. f (1 + 2 * l)"
  have z: "peval (2 ^ k) ?E (zpt logn k i) = 0 \<and> peval (2 ^ k) ?O (zpt logn k i) = 0" if i: "i < 2 ^ k" for i
  proof -
    let ?w = "zeta logn (2 ^ k + i)" and ?e = "peval (2 ^ k) ?E (zpt logn k i)" and ?o = "peval (2 ^ k) ?O (zpt logn k i)"
    have w: "zpt logn (Suc k) (2 * i) = ?w" "zpt logn (Suc k) (2 * i + 1) = - ?w" by (simp_all add: zpt_def)
    have sq: "?w * ?w mod P = zpt logn k i mod P" "- ?w * - ?w mod P = zpt logn k i mod P"
      using root_square [of k logn i] Suc.prems(1) assms i by simp_all
    have s: "peval (2 ^ Suc k) f v = (?e + ?o * v) mod P" if "v * v mod P = zpt logn k i mod P" for v
      using peval_split [of "2 ^ k" f 0 1 v] peval_cong [of "2 ^ k" _ _ "v * v" "zpt logn k i"] that by (simp add: mult.commute)
    have pm: "(?e + ?o * ?w) mod P = 0" "(?e + ?o * - ?w) mod P = 0"
      using s [OF sq(1)] s [OF sq(2)] Suc.prems(2) [of "2 * i"] Suc.prems(2) [of "2 * i + 1"] i unfolding w by simp_all
    note h = halves [OF pm]
    have "?e mod P = 0" "?o mod P = 0"
      using h cancel_root [of "Suc k" logn "2 * i" ?o] Suc.prems(1) assms i unfolding w by simp_all
    then show ?thesis by (simp add: peval_def)
  qed
  have "?E m mod P = 0" "?O m mod P = 0" if "m < 2 ^ k" for m
    using Suc.IH [of ?E m] Suc.IH [of ?O m] z Suc.prems(1) that by simp_all
  moreover have "l = 2 * (l div 2) \<or> l = 1 + 2 * (l div 2)" by presburger
  moreover have "l div 2 < 2 ^ k" using Suc.prems(3) by auto
  ultimately show ?case by metis
qed

section \<open>Checking an equation between products\<close>

lemma peval_negacyclic:
  assumes "logn \<le> 10" "i < 2 ^ logn"
  shows "peval (2 ^ logn) (negacyclic (2 ^ logn) a b) (zpt logn logn i) =
    peval (2 ^ logn) a (zpt logn logn i) * peval (2 ^ logn) b (zpt logn logn i) mod P"
  unfolding peval_def negacyclic_eval_mod [OF point_power [OF order.refl assms]] by (simp add: mod_mult_eq)

lemma peval_const: "0 < n \<Longrightarrow> peval n (\<lambda>k. if k = 0 then c else 0) x = c mod P"
  using sum.delta [of "{..<n}" 0 "\<lambda>l. c * x ^ l"] by (simp add: peval_def if_distrib [of "\<lambda>y. y * _"] cong: if_cong)

lemma peval_diff: "peval n (\<lambda>k. a k - b k) x = (peval n a x - peval n b x) mod P"
  by (simp add: peval_def left_diff_distrib sum_subtractf mod_simps)

lemma cancel_RI: "x * RI mod P = 0 \<longleftrightarrow> x mod P = 0"
proof
  assume "x * RI mod P = 0"
  then have "P dvd x * RI" by (simp only: mod_eq_0_iff_dvd)
  then have "P dvd x * RI * 2147483648" by (rule dvd_mult2)
  then have "x * 2147483648 * RI mod P = 0" by (simp add: mod_eq_0_iff_dvd ac_simps)
  then show "x mod P = 0" unfolding mult_R_RI .
qed (simp add: mod_eq_0_iff_dvd)

lemma product_value:
  assumes "uint x < P" "uint y < P"
  shows "uint (modp_montymul x y p p0i) = uint x * uint y * RI mod P" "uint (modp_montymul x y p p0i) < P"
  by (rule montymul_range [OF assms(1)], use assms(2) size in simp)+

lemma product_check:
  assumes "uint x < P" "uint y < P" "uint v < P" "uint w < P" "0 \<le> c" "c < P"
  shows "modp_sub (modp_montymul x y p p0i) (modp_montymul v w p p0i) p = modp_montymul (word_of_int c) 1 p p0i
    \<longleftrightarrow> (uint x * uint y - uint v * uint w - c) mod P = 0"
proof -
  have c: "uint (word_of_int c :: u32) = c" using assms(5,6) size by (simp add: uint_word_of_int)
  note A = product_value [OF assms(1,2)] and B = product_value [OF assms(3,4)]
  have C: "uint (modp_montymul (word_of_int c) 1 p p0i) = c * RI mod P" using product_value [of "word_of_int c" 1] c assms(6) size by simp
  have "uint (modp_sub (modp_montymul x y p p0i) (modp_montymul v w p p0i) p) = (uint x * uint y * RI mod P - uint v * uint w * RI mod P) mod P"
    using uint_sub [OF A(2), of "modp_montymul v w p p0i"] A(1) B by simp
  also have "\<dots> = (uint x * uint y * RI - uint v * uint w * RI) mod P" by (rule mod_diff_eq)
  finally have "modp_sub (modp_montymul x y p p0i) (modp_montymul v w p p0i) p = modp_montymul (word_of_int c) 1 p p0i
    \<longleftrightarrow> (uint x * uint y * RI - uint v * uint w * RI) mod P = c * RI mod P" unfolding word_uint_eq_iff C by simp
  also have "\<dots> \<longleftrightarrow> (uint x * uint y - uint v * uint w - c) * RI mod P = 0"
    unfolding mod_eq_dvd_iff mod_eq_0_iff_dvd by (simp only: left_diff_distrib)
  finally show ?thesis unfolding cancel_RI .
qed

lemma NTT2_of:
  assumes "logn \<le> 10" "table logn gm" "length A = 2 ^ logn" "\<And>l. l < 2 ^ logn \<Longrightarrow> uint (A ! l) = a l mod P" "i < 2 ^ logn"
  shows "uint (modp_NTT2 A gm logn p p0i ! i) = peval (2 ^ logn) a (zpt logn logn i)" "uint (modp_NTT2 A gm logn p p0i ! i) < P"
proof -
  have r: "reduced (2 ^ logn) A" using assms(3,4) size by (intro reducedI) simp_all
  show "uint (modp_NTT2 A gm logn p p0i ! i) = peval (2 ^ logn) a (zpt logn logn i)"
    unfolding NTT2_eval(2) [OF assms(1,2) r assms(5)] using assms(4) by (intro peval_cong) simp_all
  show "uint (modp_NTT2 A gm logn p p0i ! i) < P" by (rule reduced_nth [OF NTT2_eval(1) [OF assms(1,2) r] assms(5)])
qed

lemma equation_check:
  assumes "logn \<le> 10" "table logn gm" "0 \<le> e" "e < P"
    and "length A = 2 ^ logn" "length B = 2 ^ logn" "length C = 2 ^ logn" "length D = 2 ^ logn"
    and "\<And>l. l < 2 ^ logn \<Longrightarrow> uint (A ! l) = a l mod P \<and> uint (B ! l) = b l mod P \<and> uint (C ! l) = c l mod P \<and> uint (D ! l) = d l mod P"
  shows "(\<forall>u<2 ^ logn. modp_sub (modp_montymul (modp_NTT2 A gm logn p p0i ! u) (modp_NTT2 B gm logn p p0i ! u) p p0i)
        (modp_montymul (modp_NTT2 C gm logn p p0i ! u) (modp_NTT2 D gm logn p p0i ! u) p p0i) p = modp_montymul (word_of_int e) 1 p p0i)
    \<longleftrightarrow> (\<forall>k<2 ^ logn. (negacyclic (2 ^ logn) a b k - negacyclic (2 ^ logn) c d k - (if k = 0 then e else 0)) mod P = 0)"
proof -
  let ?n = "2 ^ logn :: nat"
  define E where "E k = negacyclic ?n a b k - negacyclic ?n c d k - (if k = 0 then e else 0)" for k
  let ?ev = "\<lambda>f u. peval ?n f (zpt logn logn u)"
  have ev: "?ev E u = (?ev a u * ?ev b u - ?ev c u * ?ev d u - e) mod P" if "u < ?n" for u
    unfolding E_def peval_diff peval_negacyclic [OF assms(1) that] peval_const [OF zero_less_power [OF zero_less_numeral]]
    by (simp add: mod_simps)
  have ch: "modp_sub (modp_montymul (modp_NTT2 A gm logn p p0i ! u) (modp_NTT2 B gm logn p p0i ! u) p p0i)
        (modp_montymul (modp_NTT2 C gm logn p p0i ! u) (modp_NTT2 D gm logn p p0i ! u) p p0i) p = modp_montymul (word_of_int e) 1 p p0i
      \<longleftrightarrow> ?ev E u = 0" if u: "u < ?n" for u
  proof -
    note n = NTT2_of [OF assms(1,2) assms(5) _ u, of a] NTT2_of [OF assms(1,2) assms(6) _ u, of b]
      NTT2_of [OF assms(1,2) assms(7) _ u, of c] NTT2_of [OF assms(1,2) assms(8) _ u, of d]
    show ?thesis unfolding ev [OF u] using product_check [OF n(2,4,6,8) assms(3,4)] n(1,3,5,7) assms(9) by simp
  qed
  have "(\<forall>u<?n. ?ev E u = 0) \<longleftrightarrow> (\<forall>k<?n. E k mod P = 0)"
  proof (intro iffI allI impI)
    fix k assume "\<forall>u<?n. ?ev E u = 0" "k < ?n"
    then show "E k mod P = 0" using eval_zero [OF assms(1) order.refl, of E k] by simp
  next
    fix u assume "\<forall>k<?n. E k mod P = 0" "u < ?n"
    then have "?ev E u = ?ev (\<lambda>_. 0) u" by (intro peval_cong) simp_all
    then show "?ev E u = 0" by (simp add: peval_def)
  qed
  then show ?thesis using ch by (simp add: E_def)
qed

end

end
