(* ===== verification/Small_Primes.thy ===== *)
theory Small_Primes
  imports Modp_Ntt
begin

text \<open>
  The table of small primes of keygen.c, each with a root of \<open>X^1024 + 1\<close> and the coefficient of the Chinese
  remainder reconstruction.
\<close>

section \<open>Model\<close>

text \<open>An entry \<open>(p, g, s)\<close> is a structure \<^verbatim>\<open>small_prime\<close>; the last entry ends the table.\<close>

type_synonym small_prime = "u32 \<times> u32 \<times> u32"

definition PRIMES :: "small_prime list" where
  "PRIMES =
     [(2147473409, 383167813, 10239), (2147389441, 211808905, 471403745), (2147387393, 37672282, 1329335065),
      (2147377153, 1977035326, 968223422), (2147358721, 1067163706, 132460015), (2147352577, 1606082042, 598693809),
      (2147346433, 2033915641, 1056257184), (2147338241, 1653770625, 421286710), (2147309569, 631200819, 1111201074),
      (2147297281, 2038364663, 1042003613), (2147295233, 1962540515, 19440033), (2147239937, 2100082663, 353296760),
      (2147235841, 1991153006, 1703918027), (2147217409, 516405114, 1258919613), (2147205121, 409347988, 1089726929),
      (2147196929, 927788991, 1946238668), (2147178497, 1136922411, 1347028164), (2147100673, 868626236, 701164723),
      (2147082241, 1897279176, 617820870), (2147074049, 1888819123, 158382189), (2147051521, 25006327, 522758543),
      (2147043329, 327546255, 37227845), (2147039233, 766324424, 1133356428), (2146988033, 1862817362, 73861329),
      (2146963457, 404622040, 653019435), (2146959361, 1936581214, 995143093), (2146938881, 1559770096, 634921513),
      (2146908161, 422623708, 1985060172), (2146885633, 1751189170, 298238186), (2146871297, 578919515, 291810829),
      (2146846721, 1114060353, 915902322), (2146834433, 2069565474, 47859524), (2146818049, 1552824584, 646281055),
      (2146775041, 1906267847, 1597832891), (2146756609, 1847414714, 1228090888),
      (2146744321, 1818792070, 1176377637), (2146738177, 1118066398, 1054971214), (2146736129, 52057278, 933422153),
      (2146713601, 592259376, 1406621510), (2146695169, 263161877, 1514178701), (2146656257, 685363115, 384505091),
      (2146650113, 927727032, 537575289), (2146646017, 52575506, 1799464037), (2146643969, 1276803876, 1348954416),
      (2146603009, 814028633, 1521547704), (2146572289, 1846678872, 1310832121), (2146547713, 919368090, 1019041349),
      (2146508801, 671847612, 38582496), (2146492417, 283911680, 532424562), (2146490369, 1780044827, 896447978),
      (2146459649, 327980850, 1327906900), (2146447361, 1310561493, 958645253), (2146441217, 412148926, 287271128),
      (2146437121, 293186449, 2009822534), (2146430977, 179034356, 1359155584), (2146418689, 1517345488, 1790248672),
      (2146406401, 1615820390, 1584833571), (2146404353, 826651445, 607120498), (2146379777, 3816988, 1897049071),
      (2146363393, 1221409784, 1986921567), (2146355201, 1388081168, 849968120),
      (2146336769, 1803473237, 1655544036), (2146312193, 1023484977, 273671831), (2146293761, 1074591448, 467406983),
      (2146283521, 831604668, 1523950494), (2146203649, 712865423, 1170834574), (2146154497, 1764991362, 1064856763),
      (2146142209, 627386213, 1406840151), (2146127873, 1638674429, 2088393537), (2146099201, 1516001018, 690673370),
      (2146093057, 1294931393, 315136610), (2146091009, 1942399533, 973539425), (2146078721, 1843461814, 2132275436),
      (2146060289, 1098740778, 360423481), (2146048001, 1617213232, 1951981294),
      (2146041857, 1805783169, 2075683489), (2146019329, 272027909, 1753219918),
      (2145986561, 1206530344, 2034028118), (2145976321, 1243769360, 1173377644),
      (2145964033, 887200839, 1281344586), (2145906689, 1651026455, 906178216), (2145875969, 1673238256, 1043521212),
      (2145871873, 1226591210, 1399796492), (2145841153, 1465353397, 1324527802),
      (2145832961, 1150638905, 554084759), (2145816577, 221601706, 427340863), (2145785857, 608896761, 316590738),
      (2145755137, 1712054942, 1684294304), (2145742849, 1302302867, 724873116), (2145728513, 516717693, 431671476),
      (2145699841, 524575579, 1619722537), (2145691649, 1925625239, 982974435), (2145687553, 463795662, 1293154300),
      (2145673217, 771716636, 881778029), (2145630209, 1509556977, 837364988), (2145595393, 229091856, 851648427),
      (2145587201, 1796903241, 635342424), (2145525761, 715310882, 1677228081), (2145495041, 1040930522, 200685896),
      (2145466369, 949804237, 1809146322), (2145445889, 1673903706, 95316881), (2145390593, 806941852, 1428671135),
      (2145372161, 1402525292, 159350694), (2145361921, 2124760298, 1589134749),
      (2145359873, 1217503067, 1561543010), (2145355777, 338341402, 83865711), (2145343489, 1381532164, 641430002),
      (2145325057, 1883895478, 1528469895), (2145318913, 1335370424, 65809740), (2145312769, 2000008042, 1919775760),
      (2145300481, 961450962, 1229540578), (2145282049, 910466767, 1964062701), (2145232897, 816527501, 450152063),
      (2145218561, 1435128058, 1794509700), (2145187841, 33505311, 1272467582), (2145181697, 269767433, 1380363849),
      (2145175553, 56386299, 1316870546), (2145079297, 2106880293, 1391797340), (2145021953, 1347906152, 720510798),
      (2145015809, 206769262, 1651459955), (2145003521, 1885513236, 1393381284), (2144960513, 1810381315, 31937275),
      (2144944129, 1306487838, 2019419520), (2144935937, 37304730, 1841489054), (2144894977, 1601434616, 157985831),
      (2144888833, 98749330, 2128592228), (2144880641, 1772327002, 2076128344), (2144864257, 1404514762, 2029969964),
      (2144827393, 801236594, 406627220), (2144806913, 349217443, 1501080290), (2144796673, 1542656776, 2084736519),
      (2144778241, 1210734884, 1746416203), (2144759809, 1146598851, 716464489), (2144757761, 286328400, 1823728177),
      (2144729089, 1347555695, 1836644881), (2144727041, 1795703790, 520296412), (2144696321, 1302475157, 852964281),
      (2144667649, 1075877614, 504992927), (2144573441, 198765808, 1617144982), (2144555009, 321528767, 155821259),
      (2144550913, 814139516, 1819937644), (2144536577, 571143206, 962942255), (2144524289, 1746733766, 2471321),
      (2144512001, 1821415077, 124190939), (2144468993, 917871546, 1260072806), (2144458753, 378417981, 1569240563),
      (2144421889, 175229668, 1825620763), (2144409601, 1699216963, 351648117), (2144370689, 1071885991, 958186029),
      (2144348161, 1763151227, 540353574), (2144335873, 1060214804, 919598847), (2144329729, 663515846, 1448552668),
      (2144327681, 1057776305, 590222840), (2144309249, 1705149168, 1459294624), (2144296961, 325823721, 1649016934),
      (2144290817, 738775789, 447427206), (2144243713, 962347618, 893050215), (2144237569, 1655257077, 900860862),
      (2144161793, 242206694, 1567868672), (2144155649, 769415308, 1247993134), (2144137217, 320492023, 515841070),
      (2144120833, 1639388522, 770877302), (2144071681, 1761785233, 964296120), (2144065537, 419817825, 204564472),
      (2144028673, 666050597, 2091019760), (2144010241, 1413657615, 1518702610), (2143952897, 1238327946, 475672271),
      (2143940609, 307063413, 1176750846), (2143918081, 2062905559, 786785803), (2143899649, 1338112849, 1562292083),
      (2143891457, 68149545, 87166451), (2143885313, 921750778, 394460854), (2143854593, 719766593, 133877196),
      (2143836161, 1149399850, 1861591875), (2143762433, 1848739366, 1335934145),
      (2143756289, 1326674710, 102999236), (2143713281, 808061791, 1156900308), (2143690753, 388399459, 1926468019),
      (2143670273, 1427891374, 1756689401), (2143666177, 1912173949, 986629565), (2143645697, 2041160111, 371842865),
      (2143641601, 1279906897, 2023974350), (2143635457, 720473174, 1389027526),
      (2143621121, 1298309455, 1732632006), (2143598593, 1548762216, 1825417506),
      (2143567873, 620475784, 1073787233), (2143561729, 1932954575, 949167309), (2143553537, 354315656, 1652037534),
      (2143541249, 577424288, 1097027618), (2143531009, 357862822, 478640055), (2143522817, 2017706025, 1550531668),
      (2143506433, 2078127419, 1824320165), (2143488001, 613475285, 1604011510), (2143469569, 1466594987, 502095196),
      (2143426561, 1115430331, 1044637111), (2143383553, 9778045, 1902463734), (2143377409, 1557401276, 2056861771),
      (2143363073, 652036455, 1965915971), (2143260673, 1464581171, 1523257541), (2143246337, 1876119649, 764541916),
      (2143209473, 1614992673, 1920672844), (2143203329, 981052047, 2049774209), (2143160321, 1847355533, 728535665),
      (2143129601, 965558457, 603052992), (2143123457, 2140817191, 8348679), (2143100929, 1547263683, 694209023),
      (2143092737, 643459066, 1979934533), (2143082497, 188603778, 2026175670), (2143062017, 1657329695, 377451099),
      (2143051777, 114967950, 979255473), (2143025153, 1698431342, 1449196896), (2143006721, 1862741675, 1739650365),
      (2142996481, 756660457, 996160050), (2142976001, 927864010, 1166847574), (2142965761, 905070557, 661974566),
      (2142916609, 40932754, 1787161127), (2142892033, 1987985648, 675335382), (2142885889, 797497211, 1323096997),
      (2142871553, 2068025830, 1411877159), (2142861313, 1217177090, 1438410687),
      (2142830593, 409906375, 1767860634), (2142803969, 1197788993, 359782919), (2142785537, 643817365, 513932862),
      (2142779393, 1717046338, 218943121), (2142724097, 89336830, 416687049), (2142707713, 5944581, 1356813523),
      (2142658561, 887942135, 2074011722), (2142638081, 151851972, 1647339939), (2142564353, 1691505537, 1483107336),
      (2142533633, 1989920200, 1135938817), (2142529537, 959263126, 1531961857), (2142527489, 453251129, 1725566162),
      (2142502913, 1536028102, 182053257), (2142498817, 570138730, 701443447), (2142416897, 326965800, 411931819),
      (2142363649, 1675665410, 1517191733), (2142351361, 968529566, 1575712703),
      (2142330881, 1384953238, 1769087884), (2142314497, 1977173242, 1833745524), (2142289921, 95082313, 1714775493),
      (2142283777, 109377615, 1070584533), (2142277633, 16960510, 702157145), (2142263297, 553850819, 431364395),
      (2142208001, 241466367, 2053967982), (2142164993, 1795661326, 1031836848), (2142097409, 1212530046, 712772031),
      (2142087169, 1763869720, 822276067), (2142078977, 644065713, 1765268066), (2142074881, 112671944, 643204925),
      (2142044161, 1387785471, 1297890174), (2142025729, 783885537, 1000425730), (2142011393, 905662232, 1679401033),
      (2141974529, 799788433, 468119557), (2141943809, 1932544124, 449305555), (2141933569, 1527403256, 841867925),
      (2141931521, 1247076451, 743823916), (2141902849, 1199660531, 401687910), (2141890561, 150132350, 1720336972),
      (2141857793, 1287438162, 663880489), (2141833217, 618017731, 1819208266), (2141820929, 999578638, 1403090096),
      (2141786113, 81834325, 1523542501), (2141771777, 120001928, 463556492), (2141759489, 122455485, 2124928282),
      (2141749249, 141986041, 940339153), (2141685761, 889088734, 477141499), (2141673473, 324212681, 1122558298),
      (2141669377, 1175806187, 1373818177), (2141655041, 1113654822, 296887082), (2141587457, 991103258, 1585913875),
      (2141583361, 1401451409, 1802457360), (2141575169, 1571977166, 712760980),
      (2141546497, 1107849376, 1250270109), (2141515777, 196544219, 356001130), (2141495297, 1733571506, 1060744866),
      (2141483009, 321552363, 1168297026), (2141458433, 505818251, 733225819), (2141360129, 1026840098, 948342276),
      (2141325313, 945133744, 2129965998), (2141317121, 1871100260, 1843844634),
      (2141286401, 1790639498, 1750465696), (2141267969, 1376858592, 186160720),
      (2141255681, 2129698296, 1876677959), (2141243393, 2138900688, 1340009628),
      (2141214721, 1933049835, 1087819477), (2141212673, 1898664939, 1786328049), (2141202433, 990234828, 940682169),
      (2141175809, 1406392421, 993089586), (2141165569, 1263518371, 289019479), (2141073409, 1485624211, 507864514),
      (2141052929, 1885134788, 311252465), (2141040641, 1285021247, 280941862), (2141028353, 1527610374, 375035110),
      (2141011969, 1400626168, 164696620), (2140999681, 632959608, 966175067), (2140997633, 2045628978, 1290889438),
      (2140993537, 1412755491, 375366253), (2140942337, 719477232, 785367828), (2140925953, 45224252, 836552317),
      (2140917761, 1157376588, 1001839569), (2140887041, 278480752, 2098732796), (2140837889, 1663139953, 924094810),
      (2140788737, 802501511, 2045368990), (2140766209, 1820083885, 1800295504),
      (2140764161, 1169561905, 2106792035), (2140696577, 127781498, 1885987531), (2140684289, 16014477, 1098116827),
      (2140653569, 665960598, 1796728247), (2140594177, 1043085491, 377310938), (2140579841, 1732838211, 1504505945),
      (2140569601, 302071939, 358291016), (2140567553, 192393733, 1909137143), (2140557313, 406595731, 1175330270),
      (2140549121, 1748850918, 525007007), (2140477441, 499436566, 1031159814), (2140469249, 1886004401, 1029951320),
      (2140426241, 1483168100, 1676273461), (2140420097, 1779917297, 846024476), (2140413953, 522948893, 1816354149),
      (2140383233, 1931364473, 1296921241), (2140366849, 1917356555, 147196204), (2140354561, 16466177, 1349052107),
      (2140348417, 1875366972, 1860485634), (2140323841, 456498717, 1790256483), (2140321793, 1629493973, 150031888),
      (2140315649, 1904063898, 395510935), (2140280833, 1784104328, 831417909), (2140250113, 256087139, 697349101),
      (2140229633, 388553070, 243875754), (2140223489, 747459608, 1396270850), (2140200961, 507423743, 1895572209),
      (2140162049, 580106016, 2045297469), (2140149761, 712426444, 785217995), (2140137473, 1441607584, 536866543),
      (2140119041, 346538902, 1740434653), (2140090369, 282642885, 21051094), (2140076033, 1407456228, 319910029),
      (2140047361, 1619330500, 1488632070), (2140041217, 2089408064, 2012026134),
      (2140008449, 1705524800, 1613440760), (2139924481, 1846208233, 1280649481),
      (2139906049, 989438755, 1185646076), (2139867137, 1522314850, 372783595), (2139842561, 1681587377, 216848235),
      (2139826177, 2066284988, 1784999464), (2139824129, 480888214, 1513323027), (2139789313, 847937200, 858192859),
      (2139783169, 1642000434, 1583261448), (2139770881, 940699589, 179702100), (2139768833, 315623242, 964612676),
      (2139666433, 331649203, 764666914), (2139641857, 2118730799, 1313764644), (2139635713, 519149027, 519212449),
      (2139598849, 1526413634, 1769667104), (2139574273, 551148610, 820739925), (2139568129, 1386800242, 472447405),
      (2139549697, 813760130, 1412328531), (2139537409, 1615286260, 1609362979),
      (2139475969, 1352559299, 1696720421), (2139455489, 1048691649, 1584935400), (2139432961, 836025845, 950121150),
      (2139424769, 1558281165, 1635486858), (2139406337, 1728402143, 1674423301),
      (2139396097, 1727715782, 1483470544), (2139383809, 1092853491, 1741699084),
      (2139369473, 690776899, 1242798709), (2139351041, 1768782380, 2120712049),
      (2139334657, 1739968247, 1427249225), (2139332609, 1547189119, 623011170),
      (2139310081, 1346827917, 1605466350), (2139303937, 369317948, 828392831), (2139301889, 1560417239, 1788073219),
      (2139283457, 1303121623, 595079358), (2139248641, 1354555286, 573424177), (2139240449, 60974056, 885781403),
      (2139222017, 355573421, 1221054839), (2139215873, 566477826, 1724006500), (2139150337, 871437673, 1609133294),
      (2139144193, 1478130914, 1137491905), (2139117569, 1854880922, 964728507), (2139076609, 202405335, 756508944),
      (2139062273, 1399715741, 884826059), (2139045889, 1051045798, 1202295476), (2139033601, 1707715206, 632234634),
      (2139006977, 2035853139, 231626690), (2138951681, 183867876, 838350879), (2138945537, 1403254661, 404460202),
      (2138920961, 310865011, 1282911681), (2138910721, 1328496553, 103472415), (2138904577, 78831681, 993513549),
      (2138902529, 1319697451, 1055904361), (2138816513, 384338872, 1706202469), (2138810369, 1084868275, 405677177),
      (2138787841, 401181788, 1964773901), (2138775553, 1850532988, 1247087473), (2138767361, 874261901, 1576073565),
      (2138757121, 1187474742, 993541415), (2138748929, 1782458888, 1043206483), (2138744833, 1221500487, 800141243),
      (2138738689, 413465368, 1450660558), (2138695681, 739045140, 342611472), (2138658817, 1355845756, 672674190),
      (2138644481, 608379162, 1538874380), (2138632193, 1444914034, 686911254), (2138607617, 484707818, 1435142134),
      (2138591233, 539460669, 1290458549), (2138572801, 2093538990, 2011138646),
      (2138552321, 1149786988, 1076414907), (2138546177, 840688206, 2108985273), (2138533889, 209669619, 198172413),
      (2138523649, 1975879426, 1277003968), (2138490881, 1351891144, 1976858109),
      (2138460161, 1817321013, 1979278293), (2138429441, 1950077177, 203441928), (2138400769, 908970113, 628395069),
      (2138398721, 219890864, 758486760), (2138376193, 1306654379, 977554090), (2138351617, 298822498, 2004708503),
      (2138337281, 441457816, 1049002108), (2138320897, 1517731724, 1442269609),
      (2138290177, 1355911197, 1647139103), (2138234881, 531313247, 1746591962), (2138214401, 1899410930, 781416444),
      (2138202113, 1813477173, 1622508515), (2138191873, 1086458299, 1025408615),
      (2138183681, 1998800427, 827063290), (2138173441, 1921308898, 749670117), (2138103809, 1620902804, 2126787647),
      (2138099713, 828647069, 1892961817), (2138085377, 179405355, 1525506535), (2138060801, 615683235, 1259580138),
      (2138044417, 2030277840, 1731266562), (2138042369, 2087222316, 1627902259),
      (2138032129, 126388712, 1108640984), (2138011649, 715026550, 1017980050), (2137993217, 1693714349, 1351778704),
      (2137888769, 1289762259, 1053090405), (2137853953, 199991890, 1254192789), (2137833473, 941421685, 896995556),
      (2137817089, 750416446, 1251031181), (2137792513, 798075119, 368077456), (2137786369, 878543495, 1035375025),
      (2137767937, 9351178, 1156563902), (2137755649, 1382297614, 1686559583), (2137724929, 1345472850, 1681096331),
      (2137704449, 834666929, 630551727), (2137673729, 1646165729, 1892091571), (2137620481, 778943821, 48456461),
      (2137618433, 1730837875, 1713336725), (2137581569, 805610339, 1378891359), (2137538561, 204342388, 1950165220),
      (2137526273, 1947629754, 1500789441), (2137516033, 719902645, 1499525372), (2137491457, 230451261, 556382829),
      (2137440257, 979573541, 412760291), (2137374721, 927841248, 1954137185), (2137362433, 1243778559, 861024672),
      (2137313281, 1341338501, 980638386), (2137311233, 937415182, 1793212117), (2137255937, 795331324, 1410253405),
      (2137243649, 150756339, 1966999887), (2137182209, 163346914, 1939301431), (2137171969, 1952552395, 758913141),
      (2137159681, 570788721, 218668666), (2137147393, 1896656810, 2045670345), (2137141249, 358493842, 518199643),
      (2137139201, 1505023029, 674695848), (2137133057, 27911103, 830956306), (2137122817, 439771337, 1555268614),
      (2137116673, 790988579, 1871449599), (2137110529, 432109234, 811805080), (2137102337, 1357900653, 1184997641),
      (2137098241, 515119035, 1715693095), (2137090049, 408575203, 2085660657), (2137085953, 2097793407, 1349626963),
      (2137055233, 1556739954, 1449960883), (2137030657, 1545758650, 1369303716), (2136987649, 332602570, 103875114),
      (2136969217, 1499989506, 1662964115), (2136924161, 857040753, 4738842), (2136895489, 1948872712, 570436091),
      (2136893441, 58969960, 1568349634), (2136887297, 2127193379, 273612548), (2136850433, 111208983, 1181257116),
      (2136809473, 1627275942, 1680317971), (2136764417, 1574888217, 14011331), (2136741889, 14011055, 1129154251),
      (2136727553, 35862563, 1838555253), (2136721409, 310235666, 1363928244), (2136698881, 1612429202, 1560383828),
      (2136649729, 1138540131, 800014364), (2136606721, 602323503, 1433096652), (2136563713, 182209265, 1919611038),
      (2136555521, 324156477, 165591039), (2136549377, 195513113, 217165345), (2136526849, 1050768046, 939647887),
      (2136508417, 1886286237, 1619926572), (2136477697, 609647664, 35065157), (2136471553, 679352216, 1452259468),
      (2136457217, 128630031, 824816521), (2136422401, 19787464, 1526049830), (2136420353, 698316836, 1530623527),
      (2136371201, 1651862373, 1804812805), (2136334337, 326596005, 336977082), (2136322049, 63253370, 1904972151),
      (2136297473, 312176076, 172182411), (2136248321, 381261841, 369032670), (2136242177, 358688773, 1640007994),
      (2136229889, 512677188, 75585225), (2136219649, 2095003250, 1970086149), (2136207361, 1909650722, 537760675),
      (2136176641, 1334616195, 1533487619), (2136158209, 2096285632, 1793285210),
      (2136143873, 1897347517, 293843959), (2136133633, 923586222, 1022655978), (2136096769, 1464868191, 1515074410),
      (2136094721, 2020679520, 2061636104), (2136076289, 290798503, 1814726809), (2136041473, 156415894, 1250757633),
      (2135996417, 297459940, 1132158924), (2135955457, 538755304, 1688831340), (0, 0, 0)]"

section \<open>The first entries are moduli of the transform\<close>

definition prime_ints :: "nat \<Rightarrow> (int \<times> int \<times> int) list" where
  "prime_ints n = map (\<lambda>(p, g, s). (uint p, uint g, uint s)) (take n PRIMES)"

lemma prime_ints_8: "prime_ints 8 =
   [(2147473409, 383167813, 10239), (2147389441, 211808905, 471403745), (2147387393, 37672282, 1329335065),
    (2147377153, 1977035326, 968223422), (2147358721, 1067163706, 132460015), (2147352577, 1606082042, 598693809),
    (2147346433, 2033915641, 1056257184), (2147338241, 1653770625, 421286710)]"
  by (simp add: PRIMES_def prime_ints_def)

definition prime_entry :: "int \<times> int \<times> int \<Rightarrow> bool" where
  "prime_entry e = (case e of (p, g, s) \<Rightarrow> 1073741824 < p \<and> p < 2147483648 \<and> p mod 2048 = 1 \<and>
     g < p \<and> s < p \<and> sqr_iter 10 p g = p - 1)"

fun crt_entries :: "int list \<Rightarrow> (int \<times> int \<times> int) list \<Rightarrow> bool" where
  "crt_entries ps [] = True"
| "crt_entries ps ((p, g, s) # es) = (fold (\<lambda>q x. x * q mod p) ps s = 2147483648 - p \<and> crt_entries (p # ps) es)"

lemma PRIMES_entries: "list_all prime_entry (prime_ints 8)"
  unfolding prime_ints_8 by code_simp

lemma PRIMES_crt: "crt_entries [] (prime_ints 8)"
  unfolding prime_ints_8 by code_simp

lemma prime_ints_nth:
  "i < 8 \<Longrightarrow> prime_ints 8 ! i = (uint (fst (PRIMES ! i)), uint (fst (snd (PRIMES ! i))), uint (snd (snd (PRIMES ! i))))"
proof -
  have "length (prime_ints 8) = 8" unfolding prime_ints_8 by simp
  then have "8 \<le> length PRIMES" by (simp add: prime_ints_def)
  then show "i < 8 \<Longrightarrow> prime_ints 8 ! i = (uint (fst (PRIMES ! i)), uint (fst (snd (PRIMES ! i))), uint (snd (snd (PRIMES ! i))))"
    by (simp add: prime_ints_def split_beta)
qed

lemma PRIMES_modulus:
  assumes "i < 8"
  shows "ntt_modulus (fst (PRIMES ! i)) (modp_ninv31 (fst (PRIMES ! i))) (fst (snd (PRIMES ! i)))"
proof -
  let ?p = "uint (fst (PRIMES ! i))" and ?g = "uint (fst (snd (PRIMES ! i)))"
  have "length (prime_ints 8) = 8" unfolding prime_ints_8 by simp
  then have "prime_entry (prime_ints 8 ! i)" using PRIMES_entries assms by (simp add: list_all_length)
  then have e: "1073741824 < ?p" "?p < 2147483648" "?p mod 2048 = 1" "?g < ?p" "sqr_iter 10 ?p ?g = ?p - 1"
    unfolding prime_ints_nth [OF assms] by (simp_all add: prime_entry_def)
  have o: "odd ?p" using e(3) by presburger
  have "(?p - 1) mod ?p = ?p - 1" using e(1) by (intro mod_pos_pos_trivial) simp_all
  then have "?g ^ 1024 mod ?p = ?p - 1" using sqr_iter_power [of 10 ?p ?g] e(5) by simp
  then show ?thesis using e o by unfold_locales simp_all
qed

text \<open>All 521 entries are odd and of 31 bits, which is what the arithmetic on residues relies on.\<close>

lemma PRIMES_all: "list_all (\<lambda>(p, g, s). 1073741824 < p \<and> p < 2147483648 \<and> odd p) (take 521 PRIMES)" "length PRIMES = 522"
  unfolding PRIMES_def by simp_all

lemma PRIMES_small_modulus:
  assumes "i < 521"
  shows "small_modulus (fst (PRIMES ! i)) (modp_ninv31 (fst (PRIMES ! i)))"
proof -
  have "i < length (take 521 PRIMES)" unfolding length_take PRIMES_all(2) using assms by linarith
  from PRIMES_all(1) [unfolded list_all_length, rule_format, OF this] have "1073741824 < fst (PRIMES ! i)" "fst (PRIMES ! i) < 2147483648" "odd (fst (PRIMES ! i))" unfolding split_beta nth_take [OF assms] by blast+
  moreover from this(3) have "odd (uint (fst (PRIMES ! i)))" using bit_uint_iff [of "fst (PRIMES ! i)" 0] by (simp add: bit_0)
  ultimately show ?thesis by unfold_locales (simp_all add: word_less_def)
qed

text \<open>
  (C28) For every prime of the table, the residues modulo it are closed under the operations of keygen.c, which compute
  the sum, the difference and the Montgomery product of reduced operands; signed values between \<open>- p\<close> and \<open>p\<close> are
  reduced by modp_set, and modp_norm returns the signed representative of least absolute value.
\<close>

theorem modp_residues:
  assumes "i < 521" "p = fst (PRIMES ! i)" "uint a < uint p" "uint b < uint p"
  shows "uint (modp_add a b p) = (uint a + uint b) mod uint p
    \<and> uint (modp_sub a b p) = (uint a - uint b) mod uint p
    \<and> uint (modp_montymul a b p (modp_ninv31 p)) < uint p
    \<and> uint (modp_montymul a b p (modp_ninv31 p)) * 2 ^ 31 mod uint p = uint a * uint b mod uint p
    \<and> modp_set (modp_norm a p) p = a \<and> 2 * \<bar>sint (modp_norm a p)\<bar> < uint p"
  using small_modulus.residues [OF PRIMES_small_modulus [OF assms(1)], of a b] assms(2-4) by simp

theorem modp_residues_witness:
  "uint (modp_add 2147473408 5 2147473409) = 4 \<and> modp_set (modp_norm 2147473408 2147473409) 2147473409 = 2147473408"
proof -
  have "2147473409 = fst (PRIMES ! 0)" by (simp add: PRIMES_def)
  then show ?thesis using modp_residues [of 0 2147473409 2147473408 5] by simp
qed

text \<open>The first prime, with which \<^verbatim>\<open>solve_NTRU\<close> checks its result.\<close>

interpretation p0: ntt_modulus "fst (PRIMES ! 0)" "modp_ninv31 (fst (PRIMES ! 0))" "fst (snd (PRIMES ! 0))"
  by (rule PRIMES_modulus) simp

lemma p0_value: "uint (fst (PRIMES ! 0)) = 2147473409"
  by (simp add: PRIMES_def)

end
