(* ===== verification/Crt.thy ===== *)
theory Crt
  imports Zint Small_Primes
begin

text \<open>
  Chinese remaindering of keygen.c: integers given by their residues modulo the small primes are rebuilt as
  multi-word values, one prime at a time, and normalised around zero.
\<close>

section \<open>Model\<close>

text \<open>An integer \<^verbatim>\<open>x\<close> of \<^verbatim>\<open>len\<close> words inside an array, and its replacement.\<close>

definition zslice :: "nat \<Rightarrow> nat \<Rightarrow> 'a list \<Rightarrow> 'a list" where
  "zslice off len xs = take len (drop off xs)"

definition map_slice :: "nat \<Rightarrow> nat \<Rightarrow> ('a list \<Rightarrow> 'a list) \<Rightarrow> 'a list \<Rightarrow> 'a list" where
  "map_slice off len f xs = take off xs @ f (zslice off len xs) @ drop (off + len) xs"

definition rebuild_word :: "u32 list \<Rightarrow> nat \<Rightarrow> u32 \<Rightarrow> u32 \<Rightarrow> u32 list \<Rightarrow> u32 list" where
  "rebuild_word tmp u p s x =
     (let p0i = modp_ninv31 p;
          R2 = modp_R2 p p0i;
          xp = x ! u;
          xq = zint_mod_small_unsigned x u p p0i R2;
          xr = modp_montymul s (modp_sub xp xq p) p p0i
      in zint_add_mul_small x tmp u xr)"

definition rebuild_prime :: "nat \<Rightarrow> nat \<Rightarrow> nat \<Rightarrow> small_prime list \<Rightarrow> nat \<Rightarrow> u32 list \<times> u32 list \<Rightarrow> u32 list \<times> u32 list" where
  "rebuild_prime xlen xstride num primes u st =
     (let (xx, tmp) = st;
          (p, g, s) = primes ! u;
          xx = fold (\<lambda>v. map_slice (v * xstride) xlen (rebuild_word tmp u p s)) [0..<num] xx;
          (tmp, cc) = zint_mul_small tmp u p
      in (xx, tmp[u := cc]))"

definition zint_rebuild_CRT :: "u32 list \<Rightarrow> nat \<Rightarrow> nat \<Rightarrow> nat \<Rightarrow> small_prime list \<Rightarrow> bool \<Rightarrow> u32 list \<Rightarrow> u32 list \<times> u32 list" where
  "zint_rebuild_CRT xx xlen xstride num primes normalize_signed tmp =
     (let tmp = tmp[0 := fst (primes ! 0)];
          (xx, tmp) = fold (rebuild_prime xlen xstride num primes) [1..<xlen] (xx, tmp);
          xx = (if normalize_signed then fold (\<lambda>u. map_slice (u * xstride) xlen (\<lambda>x. zint_norm_zero x tmp xlen)) [0..<num] xx else xx)
      in (xx, tmp))"

section \<open>Integers inside an array\<close>

lemma length_slice: "off + len \<le> length xs \<Longrightarrow> length (zslice off len xs) = len"
  by (simp add: zslice_def)

lemma nth_slice: "i < len \<Longrightarrow> off + len \<le> length xs \<Longrightarrow> zslice off len xs ! i = xs ! (off + i)"
  by (simp add: zslice_def)

lemma length_map_slice:
  "off + len \<le> length xs \<Longrightarrow> length (f (zslice off len xs)) = len \<Longrightarrow> length (map_slice off len f xs) = length xs"
  by (simp add: map_slice_def)

lemma slice_map_slice_same:
  "off + len \<le> length xs \<Longrightarrow> length (f (zslice off len xs)) = len \<Longrightarrow> zslice off len (map_slice off len f xs) = f (zslice off len xs)"
  by (simp add: zslice_def map_slice_def)

lemma slice_map_slice_other:
  assumes "off + len \<le> length xs" "off' + len \<le> length xs" "length (f (zslice off len xs)) = len" "off + len \<le> off' \<or> off' + len \<le> off"
  shows "zslice off' len (map_slice off len f xs) = zslice off' len xs"
proof (rule nth_equalityI)
  have l: "length (map_slice off len f xs) = length xs" using assms by (simp add: length_map_slice)
  show "length (zslice off' len (map_slice off len f xs)) = length (zslice off' len xs)" using assms l by (simp add: length_slice)
  fix i assume "i < length (zslice off' len (map_slice off len f xs))"
  then have i: "i < len" using assms l by (simp add: length_slice)
  have "map_slice off len f xs ! (off' + i) = xs ! (off' + i)"
  proof (cases "off + len \<le> off'")
    case True
    then have "\<not> off' + i - off < len" by linarith
    then show ?thesis using True assms i by (simp add: map_slice_def nth_append)
  next
    case False
    then show ?thesis using assms i by (simp add: map_slice_def nth_append)
  qed
  then show "zslice off' len (map_slice off len f xs) ! i = zslice off' len xs ! i" using assms l i by (simp add: nth_slice)
qed

lemma fold_map_slice:
  assumes "len \<le> stride" "\<And>v. v < num \<Longrightarrow> v * stride + len \<le> length xs" "\<And>x. length x = len \<Longrightarrow> length (f x) = len"
  shows "length (fold (\<lambda>v. map_slice (v * stride) len f) [0..<num] xs) = length xs"
    "w < num \<Longrightarrow> zslice (w * stride) len (fold (\<lambda>v. map_slice (v * stride) len f) [0..<num] xs) = f (zslice (w * stride) len xs)"
proof -
  let ?F = "\<lambda>n. fold (\<lambda>v. map_slice (v * stride) len f) [0..<n] xs"
  have sep: "v * stride + len \<le> w * stride \<or> w * stride + len \<le> v * stride" if "v \<noteq> w" for v w
  proof (cases "v < w")
    case True
    then show ?thesis using mult_le_mono1 [of "Suc v" w stride] assms(1) by simp
  next
    case False
    then show ?thesis using mult_le_mono1 [of "Suc w" v stride] assms(1) that by simp
  qed
  have main: "length (?F n) = length xs \<and> (\<forall>w<num. zslice (w * stride) len (?F n) = (if w < n then f (zslice (w * stride) len xs) else zslice (w * stride) len xs))"
    if "n \<le> num" for n
    using that
  proof (induction n)
    case (Suc n)
    then have IH: "length (?F n) = length xs" "\<And>w. w < num \<Longrightarrow> zslice (w * stride) len (?F n) = (if w < n then f (zslice (w * stride) len xs) else zslice (w * stride) len xs)"
      by simp_all
    have n: "n * stride + len \<le> length (?F n)" using assms(2) [of n] Suc.prems IH(1) by simp
    have fl: "length (f (zslice (n * stride) len (?F n))) = len" using n by (intro assms(3) length_slice)
    have st: "?F (Suc n) = map_slice (n * stride) len f (?F n)" by simp
    have "zslice (w * stride) len (map_slice (n * stride) len f (?F n)) = (if w < Suc n then f (zslice (w * stride) len xs) else zslice (w * stride) len xs)"
      if "w < num" for w
    proof (cases "w = n")
      case True
      then show ?thesis using slice_map_slice_same [where f = f, OF n fl] IH(2) [OF that] by simp
    next
      case False
      then have "zslice (w * stride) len (map_slice (n * stride) len f (?F n)) = zslice (w * stride) len (?F n)"
        using slice_map_slice_other [where f = f and off' = "w * stride", OF n _ fl] sep [of n w] assms(2) [OF that] IH(1) by simp
      then show ?thesis using IH(2) [OF that] False by simp
    qed
    then show ?case unfolding st using length_map_slice [where f = f, OF n fl] IH(1) by simp
  qed simp
  show "length (?F num) = length xs" using main [of num] by simp
  show "w < num \<Longrightarrow> zslice (w * stride) len (?F num) = f (zslice (w * stride) len xs)" using main [of num] by simp
qed

section \<open>One step of the reconstruction\<close>

definition crt_product :: "small_prime list \<Rightarrow> nat \<Rightarrow> int" where
  "crt_product ps n = (\<Prod>i<n. uint (fst (ps ! i)))"

definition crt_primes :: "small_prime list \<Rightarrow> nat \<Rightarrow> bool" where
  "crt_primes ps n \<longleftrightarrow> (\<forall>i<n. let (p, g, s) = ps ! i in 1073741824 < uint p \<and> uint p < 2147483648 \<and> odd (uint p) \<and>
     uint s < uint p \<and> uint s * crt_product ps i mod uint p = 2147483648 mod uint p)"

lemma crt_unique:
  fixes P M V :: int
  assumes "coprime P M" "0 \<le> V" "V < M * P" "M dvd X - V" "P dvd X - V"
  shows "V = X mod (M * P)"
proof -
  have "M * P dvd X - V" using assms by (intro divides_mult) (simp_all add: coprime_commute)
  then have "X mod (M * P) = V mod (M * P)" by (simp only: mod_eq_dvd_iff)
  then show ?thesis using assms(2,3) by simp
qed

context small_modulus
begin

lemma crt_digit:
  assumes "uint s < P" "uint s * M mod P = 2147483648 mod P" "uint xp = X mod P" "uint xq = X mod M mod P" "0 < M"
  defines "k \<equiv> uint (modp_montymul s (modp_sub xp xq p) p p0i)"
  shows "X mod M + k * M = X mod (M * P)" "k < P"
proof -
  have "uint xp < P" "uint xq < P" using assms(3,4) size by simp_all
  note e = uint_sub [OF this(1) less_imp_le [OF this(2)], unfolded assms(3,4) mod_diff_eq]
  then have d: "uint (modp_sub xp xq p) = (X - X mod M) mod P" "uint (modp_sub xp xq p) < P" using size by simp_all
  then have k: "k = uint s * ((X - X mod M) mod P) * RI mod P" "k < P"
    unfolding k_def using montymul_range [OF assms(1) order.strict_trans [OF d(2) size(2)]] unfolding d(1) by blast+
  show "k < P" by (rule k(2))
  define D where "D = (X - X mod M) mod P"
  have "k * M mod P = uint s * D * RI * M mod P" unfolding k(1) D_def by (rule mod_mult_left_eq)
  also have "uint s * D * RI * M = (D * RI) * (uint s * M)" by (simp only: ac_simps)
  also have "\<dots> mod P = (D * RI) * (2147483648 mod P) mod P" unfolding assms(2) [symmetric] by (rule mod_mult_right_eq [symmetric])
  also have "\<dots> = D * RI * 2147483648 mod P" by (rule mod_mult_right_eq)
  also have "D * RI * 2147483648 = D * 2147483648 * RI" by (simp only: ac_simps)
  also have "\<dots> mod P = (X - X mod M) mod P" unfolding mult_R_RI D_def by simp
  finally have "k * M mod P = (X - X mod M) mod P" .
  then have "P dvd k * M - (X - X mod M)" by (simp only: mod_eq_dvd_iff)
  moreover have "k * M - (X - X mod M) = - (X - (X mod M + k * M))" by simp
  ultimately have pd: "P dvd X - (X mod M + k * M)" by (simp only: dvd_minus_iff)
  have "M dvd (X - X mod M) - k * M" by (rule dvd_diff [OF dvd_minus_mod]) simp
  then have md: "M dvd X - (X mod M + k * M)" by (simp only: diff_diff_eq)
  have "coprime P M"
  proof (rule coprimeI)
    fix d assume d: "d dvd P" "d dvd M"
    have "P dvd uint s * M - 2147483648" using assms(2) by (simp only: mod_eq_dvd_iff)
    then have "d dvd uint s * M - (uint s * M - 2147483648)" using d by (intro dvd_diff [OF _ dvd_trans [OF d(1)]]) simp_all
    moreover have "uint s * M - (uint s * M - 2147483648) = 2 ^ 31" by simp
    ultimately have "d dvd 2 ^ 31" by (simp only:)
    moreover have "odd d" using d(1) odd_p dvd_trans by blast
    then have "coprime d (2 ^ 31)" by (simp add: coprime_power_right_iff coprime_right_2_iff_odd del: power_numeral)
    ultimately show "is_unit d" by (metis coprime_absorb_left)
  qed
  moreover have k0: "0 \<le> k" unfolding k_def by simp
  have "k * M \<le> (P - 1) * M" using k(2) assms(5) by (intro mult_right_mono) simp_all
  then have "X mod M + k * M < M * P" using pos_mod_bound [OF assms(5), of X] by (simp add: algebra_simps)
  moreover have "0 \<le> X mod M + k * M" using k0 assms(5) by simp
  ultimately show "X mod M + k * M = X mod (M * P)" using md pd by (intro crt_unique)
qed

lemma rebuild_word_correct:
  assumes "u < length x" "u \<le> length tmp" "zwords (take u x)" "zwords (take u tmp)" "0 < zval (take u tmp)"
    and "uint s < P" "uint s * zval (take u tmp) mod P = 2147483648 mod P"
    and "zval (take u x) = X mod zval (take u tmp)" "uint (x ! u) = X mod P"
  shows "zval (take (Suc u) (rebuild_word tmp u p s x)) = X mod (zval (take u tmp) * P)" "zwords (take (Suc u) (rebuild_word tmp u p s x))"
    "length (rebuild_word tmp u p s x) = length x" "drop (Suc u) (rebuild_word tmp u p s x) = drop (Suc u) x"
proof -
  let ?q = "zint_mod_small_unsigned x u p p0i (modp_R2 p p0i)"
  define xr where "xr = modp_montymul s (modp_sub (x ! u) ?q p) p p0i"
  have q: "uint ?q = X mod zval (take u tmp) mod P" using mod_small_unsigned [of u x] assms(1,3,8) by simp
  note k = crt_digit [OF assms(6,7,9) q assms(5), folded xr_def]
  have e: "rebuild_word tmp u p s x = zint_add_mul_small x tmp u xr" by (simp add: rebuild_word_def xr_def Let_def p0i)
  have "uint xr < B" using k(2) size by simp
  note a = zint_add_mul_small_correct [OF assms(3,4,1,2) this]
  show "zval (take (Suc u) (rebuild_word tmp u p s x)) = X mod (zval (take u tmp) * P)" unfolding e a(1) using k(1) assms(8) by simp
  show "zwords (take (Suc u) (rebuild_word tmp u p s x))" "length (rebuild_word tmp u p s x) = length x"
    "drop (Suc u) (rebuild_word tmp u p s x) = drop (Suc u) x" unfolding e by (rule a)+
qed

end

section \<open>The whole reconstruction\<close>

text \<open>The product of the first primes, as the loop computes it in \<^verbatim>\<open>tmp\<close>.\<close>

definition crt_tmp :: "small_prime list \<Rightarrow> u32 list \<Rightarrow> nat \<Rightarrow> u32 list" where
  "crt_tmp ps tmp n = fold (\<lambda>u tmp. let (tmp, cc) = zint_mul_small tmp u (fst (ps ! u)) in tmp[u := cc]) [1..<n] (tmp[0 := fst (ps ! 0)])"

definition rebuild_one :: "small_prime list \<Rightarrow> u32 list \<Rightarrow> nat \<Rightarrow> u32 list \<Rightarrow> u32 list" where
  "rebuild_one ps tmp n = fold (\<lambda>u. rebuild_word (crt_tmp ps tmp u) u (fst (ps ! u)) (snd (snd (ps ! u)))) [1..<n]"

lemma crt_product_Suc: "crt_product ps (Suc n) = crt_product ps n * uint (fst (ps ! n))"
  by (simp add: crt_product_def)

lemma crt_prime:
  assumes "crt_primes ps n" "i < n"
  shows "small_modulus (fst (ps ! i)) (modp_ninv31 (fst (ps ! i)))" "uint (snd (snd (ps ! i))) < uint (fst (ps ! i))"
    "uint (snd (snd (ps ! i))) * crt_product ps i mod uint (fst (ps ! i)) = 2147483648 mod uint (fst (ps ! i))"
    "uint (fst (ps ! i)) < B" "odd (uint (fst (ps ! i)))" "0 < uint (fst (ps ! i))"
  using assms by (auto simp: crt_primes_def split_beta Let_def small_modulus_def)

lemma crt_product_pos: "crt_primes ps n \<Longrightarrow> m \<le> n \<Longrightarrow> 0 < crt_product ps m"
  unfolding crt_product_def using crt_prime(6) by (intro prod_pos ballI) (simp add: order.strict_trans2)

lemma crt_tmp:
  assumes "crt_primes ps n" "n \<le> length tmp" "1 \<le> m" "m \<le> n"
  shows "zval (take m (crt_tmp ps tmp m)) = crt_product ps m \<and> zwords (take m (crt_tmp ps tmp m)) \<and> length (crt_tmp ps tmp m) = length tmp"
  using assms(3,4)
proof (induction m rule: dec_induct)
  case base
  have "take 1 (tmp[0 := fst (ps ! 0)]) = [fst (ps ! 0)]" using assms(2,4) base by (cases tmp) auto
  then show ?case using crt_prime(4) [OF assms(1), of 0] base by (simp add: crt_tmp_def crt_product_def)
next
  case (step m)
  let ?t = "crt_tmp ps tmp m"
  have IH: "zval (take m ?t) = crt_product ps m" "zwords (take m ?t)" "length ?t = length tmp" using step by simp_all
  obtain t' cc where z: "zint_mul_small ?t m (fst (ps ! m)) = (t', cc)" by fastforce
  have e: "crt_tmp ps tmp (Suc m) = t'[m := cc]" using step.hyps(1) z by (simp add: crt_tmp_def)
  have m: "m \<le> length ?t" "m < length ?t" "uint (fst (ps ! m)) < B" using step.prems assms(2) IH(3) crt_prime(4) [OF assms(1), of m] by simp_all
  note r = zint_mul_small_correct [OF IH(2) m(1,3) z]
  have "take (Suc m) (t'[m := cc]) = take m t' @ [cc]" using m r(4) by (simp add: take_Suc_conv_app_nth)
  then show ?case unfolding e using r IH m by (simp add: crt_product_Suc)
qed

lemma rebuild_one:
  assumes "crt_primes ps n" "n \<le> length tmp" "length x = n" "\<And>i. i < n \<Longrightarrow> uint (x ! i) = X mod uint (fst (ps ! i))" "1 \<le> m" "m \<le> n"
  shows "zval (take m (rebuild_one ps tmp m x)) = X mod crt_product ps m \<and> zwords (take m (rebuild_one ps tmp m x))
    \<and> length (rebuild_one ps tmp m x) = n \<and> drop m (rebuild_one ps tmp m x) = drop m x"
  using assms(5,6)
proof (induction m rule: dec_induct)
  case base
  then obtain w ws where x: "x = w # ws" using assms(3) by (cases x) auto
  have p: "X mod uint (fst (ps ! 0)) < uint (fst (ps ! 0))" "uint (fst (ps ! 0)) < B"
    using crt_prime(4,6) [OF assms(1), of 0] base by simp_all
  show ?case using x assms(3) assms(4) [of 0] order.strict_trans [OF p] by (simp add: rebuild_one_def crt_product_def)
next
  case (step m)
  let ?x = "rebuild_one ps tmp m x" and ?t = "crt_tmp ps tmp m" and ?p = "fst (ps ! m)" and ?s = "snd (snd (ps ! m))"
  have IH: "zval (take m ?x) = X mod crt_product ps m" "zwords (take m ?x)" "length ?x = n" "drop m ?x = drop m x" using step by simp_all
  have t: "zval (take m ?t) = crt_product ps m" "zwords (take m ?t)" "length ?t = length tmp" using crt_tmp [OF assms(1,2) step.hyps(1)] step.prems by simp_all
  have m: "m < n" using step.prems by simp
  then have "?x ! m = x ! m" using arg_cong [OF IH(4), of hd] IH(3) assms(3) by (simp add: hd_drop_conv_nth)
  then have xm: "uint (?x ! m) = X mod uint ?p" using assms(4) [OF m] by simp
  note c = crt_prime [OF assms(1) m]
  have e: "rebuild_one ps tmp (Suc m) x = rebuild_word ?t m ?p ?s ?x" using step.hyps(1) by (simp add: rebuild_one_def)
  note r = small_modulus.rebuild_word_correct [OF c(1), where u = m and x = ?x and tmp = ?t and s = ?s and X = X]
  have "zval (take (Suc m) (rebuild_word ?t m ?p ?s ?x)) = X mod (zval (take m ?t) * uint ?p) \<and> zwords (take (Suc m) (rebuild_word ?t m ?p ?s ?x)) \<and>
    length (rebuild_word ?t m ?p ?s ?x) = length ?x \<and> drop (Suc m) (rebuild_word ?t m ?p ?s ?x) = drop (Suc m) ?x"
    by (intro conjI; rule r) (use IH t m c(2,3) xm assms(2) crt_product_pos [OF assms(1), of m] in simp_all)
  moreover have "drop (Suc m) ?x = drop (Suc m) x" using arg_cong [OF IH(4), of tl] by (simp add: tl_drop flip: drop_Suc)
  ultimately show ?case unfolding e crt_product_Suc using IH(3) t(1) by simp
qed

lemma length_rebuild_word: "length (rebuild_word tmp u p s x) = length x"
proof -
  have "length (fst (fold (\<lambda>u (x, cc). (x[u := f x u cc], h x u cc)) us (x, c))) = length x" for f h us and x :: "u32 list" and c :: u32
    by (induction us arbitrary: x c) simp_all
  note l = this
  show ?thesis unfolding rebuild_word_def zint_add_mul_small_def Let_def by (simp add: split_beta l)
qed

lemma rebuild_loop:
  fixes ps :: "small_prime list"
  assumes "xlen \<le> xstride" "\<And>v. v < num \<Longrightarrow> v * xstride + xlen \<le> length xx" "1 \<le> n"
  shows "\<exists>xx'. fold (rebuild_prime xlen xstride num ps) [1..<n] (xx, tmp[0 := fst (ps ! 0)]) = (xx', crt_tmp ps tmp n) \<and> length xx' = length xx \<and>
    (\<forall>v<num. zslice (v * xstride) xlen xx' = rebuild_one ps tmp n (zslice (v * xstride) xlen xx))"
  using assms(3)
proof (induction n rule: dec_induct)
  case base
  then show ?case by (simp add: crt_tmp_def rebuild_one_def)
next
  case (step n)
  then obtain xx' where x: "fold (rebuild_prime xlen xstride num ps) [1..<n] (xx, tmp[0 := fst (ps ! 0)]) = (xx', crt_tmp ps tmp n)" "length xx' = length xx"
    "\<And>v. v < num \<Longrightarrow> zslice (v * xstride) xlen xx' = rebuild_one ps tmp n (zslice (v * xstride) xlen xx)" by auto
  let ?f = "rebuild_word (crt_tmp ps tmp n) n (fst (ps ! n)) (snd (snd (ps ! n)))"
  let ?x = "fold (\<lambda>v. map_slice (v * xstride) xlen ?f) [0..<num] xx'"
  note f = fold_map_slice [where f = ?f and num = num and xs = xx', OF assms(1)]
  have "length ?x = length xx" using f(1) assms(2) x(2) by (simp add: length_rebuild_word)
  moreover have "zslice (v * xstride) xlen ?x = rebuild_one ps tmp (Suc n) (zslice (v * xstride) xlen xx)" if "v < num" for v
    using f(2) [of v] assms(2) x(2,3) that step.hyps(1) by (simp add: length_rebuild_word rebuild_one_def)
  moreover have "fold (rebuild_prime xlen xstride num ps) [1..<Suc n] (xx, tmp[0 := fst (ps ! 0)]) = (?x, crt_tmp ps tmp (Suc n))"
    using x(1) step.hyps(1) by (simp add: rebuild_prime_def split_beta Let_def crt_tmp_def)
  ultimately show ?case by blast
qed

text \<open>
  (C8) Chinese remaindering: integers stored as their residues modulo the first primes of a valid table are
  replaced by their values in multi-word form, for every number of integers and every stride; with the
  normalisation the signed values are the representatives around zero.
\<close>

theorem zint_rebuild_CRT_correct:
  assumes "crt_primes ps xlen" "1 \<le> xlen" "xlen \<le> xstride" "length tmp = xlen" "\<And>v. v < num \<Longrightarrow> v * xstride + xlen \<le> length xx"
    and "\<And>v. v < num \<Longrightarrow> 0 \<le> X v \<and> X v < crt_product ps xlen"
    and "\<And>v i. v < num \<Longrightarrow> i < xlen \<Longrightarrow> uint (xx ! (v * xstride + i)) = X v mod uint (fst (ps ! i))"
    and "v < num"
  defines "x' \<equiv> \<lambda>signed. zslice (v * xstride) xlen (fst (zint_rebuild_CRT xx xlen xstride num ps signed tmp))"
  shows "zval (x' False) = X v \<and> zwords (x' False) \<and>
    zsval (x' True) = (if 2 * X v < crt_product ps xlen then X v else X v - crt_product ps xlen) \<and> zwords (x' True)"
proof -
  obtain xx' where x: "fold (rebuild_prime xlen xstride num ps) [1..<xlen] (xx, tmp[0 := fst (ps ! 0)]) = (xx', crt_tmp ps tmp xlen)" "length xx' = length xx"
    "\<And>v. v < num \<Longrightarrow> zslice (v * xstride) xlen xx' = rebuild_one ps tmp xlen (zslice (v * xstride) xlen xx)"
    using rebuild_loop [OF assms(3,5,2), where ps = ps and tmp = tmp] by blast
  let ?t = "crt_tmp ps tmp xlen" and ?z = "rebuild_one ps tmp xlen (zslice (v * xstride) xlen xx)"
  have t: "zval ?t = crt_product ps xlen" "zwords ?t" "length ?t = xlen" using crt_tmp [OF assms(1) _ assms(2), of tmp] assms(4) by auto
  have l: "length (zslice (v * xstride) xlen xx) = xlen" using assms(5,8) by (intro length_slice) simp
  have "uint (zslice (v * xstride) xlen xx ! i) = X v mod uint (fst (ps ! i))" if "i < xlen" for i
    using nth_slice [OF that assms(5) [OF assms(8)]] assms(7) [OF assms(8) that] by (simp only:)
  then have "zval (take xlen ?z) = X v mod crt_product ps xlen" "zwords (take xlen ?z)" "length ?z = xlen"
    using rebuild_one [OF assms(1) _ l _ assms(2) order.refl, of tmp "X v"] assms(4) by auto
  then have z: "zval ?z = X v" "zwords ?z" "length ?z = xlen" using assms(6,8) by simp_all
  have F: "x' False = ?z" unfolding x'_def zint_rebuild_CRT_def Let_def x(1) using x(3) [OF assms(8)] by simp
  have "odd (crt_product ps xlen)" unfolding crt_product_def using crt_prime(5) [OF assms(1)]
    by (simp add: even_prod_iff)
  then have o: "odd (zval ?t)" "zval ?z < zval ?t" using t z assms(6,8) by simp_all
  note n = zint_norm_zero_correct [OF z(2) t(2) _ o(2,1), unfolded z(3) t(3)]
  have nl: "length (zint_norm_zero x ?t xlen) = length x" for x
  proof -
    have "length (fst (fold (\<lambda>u (a, cc). (a[u := f a u cc], h a u cc)) us (a, c))) = length a" for f h us and a :: "u32 list" and c :: u32
      by (induction us arbitrary: a c) simp_all
    note l = this
    show ?thesis unfolding zint_norm_zero_def zint_sub_def Let_def by (simp add: split_beta l)
  qed
  have "x' True = zint_norm_zero ?z ?t xlen"
    unfolding x'_def zint_rebuild_CRT_def Let_def x(1)
    using fold_map_slice(2) [where f = "\<lambda>x. zint_norm_zero x ?t xlen" and num = num and xs = xx' and w = v, OF assms(3)] x(2,3) assms(5,8) nl by simp
  then show ?thesis using F z n t by simp
qed

section \<open>The table of keygen.c\<close>

lemma fold_mod_product: "fold (\<lambda>q x. x * q mod m) qs x mod m = x * prod_list qs mod (m :: int)"
proof (induction qs arbitrary: x)
  case (Cons q qs)
  have "fold (\<lambda>q x. x * q mod m) (q # qs) x mod m = (x * q mod m) * prod_list qs mod m" using Cons by simp
  also have "\<dots> = x * q * prod_list qs mod m" by (rule mod_mult_left_eq)
  finally show ?case by (simp add: mult.assoc)
qed simp

lemma crt_entries_nth:
  "crt_entries qs es \<Longrightarrow> i < length es \<Longrightarrow>
   snd (snd (es ! i)) * (prod_list qs * (\<Prod>j<i. fst (es ! j))) mod fst (es ! i) = 2147483648 mod fst (es ! i)"
proof (induction qs es arbitrary: i rule: crt_entries.induct)
  case (2 qs p g s es)
  show ?case
  proof (cases i)
    case 0
    have "s * prod_list qs mod p = (2147483648 - p) mod p" using 2 fold_mod_product [of p qs s] by simp
    then show ?thesis using 0 by simp
  next
    case (Suc j)
    have "(\<Prod>k<Suc j. fst (((p, g, s) # es) ! k)) = p * (\<Prod>k<j. fst (es ! k))" by (subst prod.lessThan_Suc_shift) simp
    moreover have "snd (snd (es ! j)) * (prod_list (p # qs) * (\<Prod>k<j. fst (es ! k))) mod fst (es ! j) = 2147483648 mod fst (es ! j)"
      using 2 Suc by auto
    ultimately show ?thesis using Suc by (simp add: ac_simps)
  qed
qed simp

lemma crt_PRIMES: "crt_primes PRIMES 8"
proof -
  have len: "length (prime_ints 8) = 8" unfolding prime_ints_8 by simp
  note n = prime_ints_nth
  have "prime_entry (prime_ints 8 ! i)" if "i < 8" for i using PRIMES_entries len that by (simp add: list_all_length)
  moreover have "odd x" if "x mod 2048 = 1" for x :: int using that by presburger
  moreover have "uint (snd (snd (PRIMES ! i))) * crt_product PRIMES i mod uint (fst (PRIMES ! i)) = 2147483648 mod uint (fst (PRIMES ! i))" if "i < 8" for i
  proof -
    have "(\<Prod>j<i. fst (prime_ints 8 ! j)) = crt_product PRIMES i" unfolding crt_product_def using n that by (intro prod.cong) simp_all
    then show ?thesis using crt_entries_nth [OF PRIMES_crt, of i] len n [OF that] that by simp
  qed
  ultimately show ?thesis using n by (auto simp: crt_primes_def prime_entry_def split_beta Let_def)
qed

theorem zint_rebuild_CRT_correct_witness:
  "crt_primes PRIMES 2 \<and> zval (zslice 0 2 (fst (zint_rebuild_CRT [705053182, 705221118] 2 2 1 PRIMES False [0, 0]))) = 5000000000"
proof -
  have c: "crt_primes PRIMES 2" using crt_PRIMES by (simp add: crt_primes_def)
  have p: "fst (PRIMES ! 0) = 2147473409" "fst (PRIMES ! 1) = 2147389441" by (simp_all add: PRIMES_def)
  have "crt_product PRIMES 2 = crt_product PRIMES (Suc (Suc 0))" by (simp only: numeral_2_eq_2)
  then have "crt_product PRIMES 2 = 2147473409 * 2147389441" unfolding crt_product_Suc using p by (simp add: crt_product_def)
  moreover have "uint ([705053182, 705221118 :: u32] ! i) = 5000000000 mod uint (fst (PRIMES ! i))" if "i < 2" for i
    using that p by (auto simp: less_2_cases_iff)
  ultimately show ?thesis
    using zint_rebuild_CRT_correct [OF c, of 2 "[0, 0]" 1 "[705053182, 705221118]" "\<lambda>_. 5000000000" 0] c by simp
qed

end
