(* ===== verification/Keygen.thy ===== *)
theory Keygen
  imports Keygen_Sampling Crt Vrfy Codec
begin

text \<open>
  Key generation (keygen.c): the check at the end of the NTRU solver, and the outer loop that draws private
  polynomials until all its tests pass. The parts of keygen.c in floating point are arguments of the model: the
  steps of the solver that compute a candidate for F and G, and the test on the orthogonalised vector.
\<close>

section \<open>Model\<close>

definition poly_big_to_small :: "u32 list \<Rightarrow> int \<Rightarrow> nat \<Rightarrow> u8 list option" where
  "poly_big_to_small s lim logn =
     (if list_all (\<lambda>u. let z = zint_one_to_plain (drop u s) in \<not> (sint z < - lim \<or> sint z > lim)) [0..<2 ^ logn]
      then Some (map (\<lambda>u. ucast (zint_one_to_plain (drop u s))) [0..<2 ^ logn])
      else None)"

text \<open>
  The steps of the solver work on the array \<^verbatim>\<open>tmp\<close>, whose first \<open>2 n\<close> words hold F and G at the end; each
  returns \<open>None\<close> for failure.
\<close>

record ntru_solver =
  solve_NTRU_deepest :: "nat \<Rightarrow> u8 list \<Rightarrow> u8 list \<Rightarrow> u32 list option"
  solve_NTRU_intermediate :: "nat \<Rightarrow> u8 list \<Rightarrow> u8 list \<Rightarrow> nat \<Rightarrow> u32 list \<Rightarrow> u32 list option"
  solve_NTRU_binary_depth1 :: "nat \<Rightarrow> u8 list \<Rightarrow> u8 list \<Rightarrow> u32 list \<Rightarrow> u32 list option"
  solve_NTRU_binary_depth0 :: "nat \<Rightarrow> u8 list \<Rightarrow> u8 list \<Rightarrow> u32 list \<Rightarrow> u32 list option"

definition solve_depths :: "ntru_solver \<Rightarrow> nat \<Rightarrow> u8 list \<Rightarrow> u8 list \<Rightarrow> nat list \<Rightarrow> u32 list option \<Rightarrow> u32 list option" where
  "solve_depths slv logn f g ds tmp = fold (\<lambda>depth tmp. Option.bind tmp (solve_NTRU_intermediate slv logn f g depth)) ds tmp"

definition ntru_verify :: "nat \<Rightarrow> u8 list \<Rightarrow> u8 list \<Rightarrow> u8 list \<Rightarrow> u8 list \<Rightarrow> bool" where
  "ntru_verify logn f g F G =
     (let n = 2 ^ logn;
          (p, g0, s0) = PRIMES ! 0;
          p0i = modp_ninv31 p;
          (gm, igm) = modp_mkgm2 (replicate n 0) (replicate n 0) logn g0 p p0i;
          Gt = map (\<lambda>u. modp_set (scast (G ! u)) p) [0..<n];
          ft = map (\<lambda>u. modp_set (scast (f ! u)) p) [0..<n];
          gt = map (\<lambda>u. modp_set (scast (g ! u)) p) [0..<n];
          Ft = map (\<lambda>u. modp_set (scast (F ! u)) p) [0..<n];
          ft = modp_NTT2 ft gm logn p p0i;
          gt = modp_NTT2 gt gm logn p p0i;
          Ft = modp_NTT2 Ft gm logn p p0i;
          Gt = modp_NTT2 Gt gm logn p p0i;
          r = modp_montymul 12289 1 p p0i
      in list_all (\<lambda>u. modp_sub (modp_montymul (ft ! u) (Gt ! u) p p0i) (modp_montymul (gt ! u) (Ft ! u) p p0i) p = r) [0..<n])"

definition solve_NTRU :: "ntru_solver \<Rightarrow> nat \<Rightarrow> u8 list \<Rightarrow> u8 list \<Rightarrow> int \<Rightarrow> (u8 list \<times> u8 list) option" where
  "solve_NTRU slv logn f g lim =
     (let n = 2 ^ logn;
          tmp = solve_NTRU_deepest slv logn f g;
          tmp = (if logn \<le> 2 then solve_depths slv logn f g (rev [0..<logn]) tmp
                 else
                   let tmp = solve_depths slv logn f g (rev [2..<logn]) tmp;
                       tmp = Option.bind tmp (solve_NTRU_binary_depth1 slv logn f g)
                   in Option.bind tmp (solve_NTRU_binary_depth0 slv logn f g))
      in case tmp of
           None \<Rightarrow> None
         | Some tmp \<Rightarrow>
             (case poly_big_to_small tmp lim logn of
                None \<Rightarrow> None
              | Some F \<Rightarrow>
                  (case poly_big_to_small (drop n tmp) lim logn of
                     None \<Rightarrow> None
                   | Some G \<Rightarrow> if ntru_verify logn f g F G then Some (F, G) else None)))"

type_synonym ntru_key = "u8 list \<times> u8 list \<times> u8 list \<times> u8 list \<times> u16 list"

definition keygen_attempt ::
  "('r \<Rightarrow> 'r \<times> u64) \<Rightarrow> ntru_solver \<Rightarrow> (u8 list \<Rightarrow> u8 list \<Rightarrow> bool) \<Rightarrow> nat \<Rightarrow> 'r \<Rightarrow> ('r \<times> ntru_key option) option" where
  "keygen_attempt nxt slv ortho logn rng =
     (let n = 2 ^ logn
      in case poly_small_mkgauss nxt rng (replicate n 0) logn of
           None \<Rightarrow> None
         | Some (rng, f) \<Rightarrow>
             (case poly_small_mkgauss nxt rng (replicate n 0) logn of
                None \<Rightarrow> None
              | Some (rng, g) \<Rightarrow>
                  let lim = 2 ^ (unat (max_fg_bits ! logn) - 1)
                  in if list_ex (\<lambda>u. sint (f ! u) \<ge> lim \<or> sint (f ! u) \<le> - lim \<or> sint (g ! u) \<ge> lim \<or> sint (g ! u) \<le> - lim) [0..<n]
                     then Some (rng, None)
                     else
                       let normf = poly_small_sqnorm f logn;
                           normg = poly_small_sqnorm g logn;
                           norm = (normf + normg) OR - drop_bit 31 (normf OR normg)
                       in if norm \<ge> 16823 then Some (rng, None)
                          else if \<not> ortho f g then Some (rng, None)
                          else
                            let (r, h) = compute_public f g logn
                            in if r = 0 then Some (rng, None)
                               else
                                 let lim = 2 ^ (unat (max_FG_bits ! logn) - 1) - 1
                                 in case solve_NTRU slv logn f g lim of
                                      None \<Rightarrow> Some (rng, None)
                                    | Some (F, G) \<Rightarrow> Some (rng, Some (f, g, F, G, h))))"

definition keygen_from ::
  "('r \<Rightarrow> 'r \<times> u64) \<Rightarrow> ntru_solver \<Rightarrow> (u8 list \<Rightarrow> u8 list \<Rightarrow> bool) \<Rightarrow> nat \<Rightarrow> 'r \<Rightarrow> ('r \<times> ntru_key) option" where
  "keygen_from nxt slv ortho logn rng = retry (keygen_attempt nxt slv ortho logn) rng"

definition keygen :: "ntru_solver \<Rightarrow> (u8 list \<Rightarrow> u8 list \<Rightarrow> bool) \<Rightarrow> nat \<Rightarrow> u64 list \<Rightarrow> (u64 list \<times> ntru_key) option" where
  "keygen = keygen_from get_rng_u64"

section \<open>The check of the equation\<close>

text \<open>The coefficients of a polynomial as integers.\<close>

abbreviation cf :: "u8 list \<Rightarrow> nat \<Rightarrow> int" where
  "cf f \<equiv> \<lambda>i. sint (f ! i)"

definition ntru_equation :: "nat \<Rightarrow> u8 list \<Rightarrow> u8 list \<Rightarrow> u8 list \<Rightarrow> u8 list \<Rightarrow> bool" where
  "ntru_equation n f g F G \<longleftrightarrow> (\<forall>k<n. negacyclic n (cf f) (cf G) k - negacyclic n (cf g) (cf F) k = (if k = 0 then 12289 else 0))"

definition coeffs_within :: "nat \<Rightarrow> int \<Rightarrow> u8 list \<Rightarrow> bool" where
  "coeffs_within n b f \<longleftrightarrow> length f = n \<and> (\<forall>i<n. \<bar>sint (f ! i)\<bar> \<le> b)"

lemma negacyclic_bound:
  assumes "\<And>i. i < n \<Longrightarrow> \<bar>a i :: int\<bar> \<le> A" "\<And>i. i < n \<Longrightarrow> \<bar>b i\<bar> \<le> B'" "k < n"
  shows "\<bar>negacyclic n a b k\<bar> \<le> int n * (A * B')"
proof -
  have "\<bar>negacyclic n a b k\<bar> \<le> (\<Sum>i<n. \<bar>a i * (if i \<le> k then b (k - i) else - b (n + k - i))\<bar>)" unfolding negacyclic_def by (rule sum_abs)
  also have "\<dots> \<le> (\<Sum>i<n. A * B')"
  proof (rule sum_mono)
    fix i assume "i \<in> {..<n}"
    then have i: "i < n" by simp
    have "\<bar>if i \<le> k then b (k - i) else - b (n + k - i)\<bar> \<le> B'" using assms(2) [of "k - i"] assms(2) [of "n + k - i"] assms(3) i by simp
    moreover have "0 \<le> A" using assms(1) [OF i] by linarith
    ultimately show "\<bar>a i * (if i \<le> k then b (k - i) else - b (n + k - i))\<bar> \<le> A * B'"
      unfolding abs_mult using assms(1) [OF i] by (intro mult_mono) simp_all
  qed
  finally show ?thesis by simp
qed

lemma small_multiple: "x mod m = 0 \<Longrightarrow> \<bar>x\<bar> < m \<Longrightarrow> x = 0" for x m :: int
  using zdvd_imp_le [of m "\<bar>x\<bar>"] by (cases "x = 0") auto

lemma uint_set8: "uint (modp_set (scast (x :: u8)) (fst (PRIMES ! 0))) = sint x mod uint (fst (PRIMES ! 0))"
proof -
  have s: "sint (scast x :: u32) = sint x" by (rule sint_up_scast) (simp add: is_up)
  have "\<bar>sint x\<bar> \<le> 128" by (rule sint8_bound)
  then show ?thesis using p0.uint_set [of "scast x"] unfolding s p0_value by simp
qed

lemma ntru_verify_iff:
  assumes "logn \<le> 10" "length f = 2 ^ logn" "length g = 2 ^ logn" "length F = 2 ^ logn" "length G = 2 ^ logn"
  shows "ntru_verify logn f g F G \<longleftrightarrow> ntru_equation (2 ^ logn) f g F G"
proof -
  let ?n = "2 ^ logn :: nat" and ?p = "fst (PRIMES ! 0)"
  let ?gm = "fst (modp_mkgm2 (replicate ?n 0) (replicate ?n 0) logn (fst (snd (PRIMES ! 0))) ?p (modp_ninv31 ?p))"
  let ?m = "\<lambda>a. map (\<lambda>u. modp_set (scast (a ! u)) ?p) [0..<?n] :: u32 list"
  have t: "p0.table logn ?gm" using assms(1) by (intro p0.table_mkgm2) simp_all
  have v: "ntru_verify logn f g F G \<longleftrightarrow> (\<forall>k<?n. (negacyclic ?n (cf f) (cf G) k - negacyclic ?n (cf g) (cf F) k - (if k = 0 then 12289 else 0)) mod uint ?p = 0)"
  proof -
    have "ntru_verify logn f g F G \<longleftrightarrow> (\<forall>u<?n. modp_sub (modp_montymul (modp_NTT2 (?m f) ?gm logn ?p (modp_ninv31 ?p) ! u) (modp_NTT2 (?m G) ?gm logn ?p (modp_ninv31 ?p) ! u) ?p (modp_ninv31 ?p))
        (modp_montymul (modp_NTT2 (?m g) ?gm logn ?p (modp_ninv31 ?p) ! u) (modp_NTT2 (?m F) ?gm logn ?p (modp_ninv31 ?p) ! u) ?p (modp_ninv31 ?p)) ?p
      = modp_montymul (word_of_int 12289) 1 ?p (modp_ninv31 ?p))"
      unfolding ntru_verify_def Let_def split_beta list_all_iff by (simp only: set_upt atLeastLessThan_iff Ball_def le0 simp_thms of_int_numeral)
    also have "\<dots> \<longleftrightarrow> (\<forall>k<?n. (negacyclic ?n (cf f) (cf G) k - negacyclic ?n (cf g) (cf F) k - (if k = 0 then 12289 else 0)) mod uint ?p = 0)"
      by (rule p0.equation_check [OF assms(1) t]) (simp_all add: p0_value uint_set8 [unfolded p0_value])
    finally show ?thesis .
  qed
  have "(negacyclic ?n (cf f) (cf G) k - negacyclic ?n (cf g) (cf F) k - (if k = 0 then 12289 else 0)) mod uint ?p = 0
      \<longleftrightarrow> negacyclic ?n (cf f) (cf G) k - negacyclic ?n (cf g) (cf F) k = (if k = 0 then 12289 else 0)" (is "?d mod _ = 0 \<longleftrightarrow> ?e") if "k < ?n" for k
  proof
    assume h: "?d mod uint ?p = 0"
    have "int ?n \<le> 1024" using assms(1) power_increasing [of logn 10 "2 :: int"] by simp
    moreover have "\<bar>negacyclic ?n (cf f) (cf G) k\<bar> \<le> int ?n * (128 * 128)" "\<bar>negacyclic ?n (cf g) (cf F) k\<bar> \<le> int ?n * (128 * 128)"
      using that sint8_bound by (intro negacyclic_bound; simp)+
    ultimately have "\<bar>negacyclic ?n (cf f) (cf G) k\<bar> \<le> 16777216" "\<bar>negacyclic ?n (cf g) (cf F) k\<bar> \<le> 16777216" by linarith+
    then have "\<bar>?d\<bar> < 2147473409" by (auto simp: abs_le_iff abs_less_iff)
    then show ?e using small_multiple [OF h] unfolding p0_value by simp
  qed simp
  then show ?thesis unfolding v ntru_equation_def by blast
qed

section \<open>One attempt\<close>

lemma poly_big_to_small_within:
  assumes "poly_big_to_small s lim logn = Some d" "lim \<le> 127"
  shows "coeffs_within (2 ^ logn) lim d"
proof -
  have d: "d = map (\<lambda>u. ucast (zint_one_to_plain (drop u s))) [0..<2 ^ logn]"
    and z: "\<forall>u<2 ^ logn. - lim \<le> sint (zint_one_to_plain (drop u s)) \<and> sint (zint_one_to_plain (drop u s)) \<le> lim"
    using assms(1) by (auto simp: poly_big_to_small_def list_all_iff Let_def not_less split: if_splits)
  have "\<bar>sint (ucast (zint_one_to_plain (drop u s)) :: u8)\<bar> \<le> lim" if "u < 2 ^ logn" for u
  proof -
    have "\<bar>sint (zint_one_to_plain (drop u s))\<bar> \<le> lim" using z [rule_format, OF that] by (simp add: abs_le_iff)
    then show ?thesis using sint_narrow [of "zint_one_to_plain (drop u s)"] assms(2) by simp
  qed
  then show ?thesis by (simp add: coeffs_within_def d)
qed

lemma solve_NTRU_sound:
  assumes "solve_NTRU slv logn f g lim = Some (F, G)" "lim \<le> 127" "logn \<le> 10" "length f = 2 ^ logn" "length g = 2 ^ logn"
  shows "coeffs_within (2 ^ logn) lim F" "coeffs_within (2 ^ logn) lim G" "ntru_equation (2 ^ logn) f g F G"
proof -
  obtain tmp where t: "poly_big_to_small tmp lim logn = Some F" "poly_big_to_small (drop (2 ^ logn) tmp) lim logn = Some G" "ntru_verify logn f g F G"
    using assms(1) by (auto simp: solve_NTRU_def Let_def split: option.splits if_splits)
  show w: "coeffs_within (2 ^ logn) lim F" "coeffs_within (2 ^ logn) lim G"
    using poly_big_to_small_within [OF t(1) assms(2)] poly_big_to_small_within [OF t(2) assms(2)] .
  show "ntru_equation (2 ^ logn) f g F G"
    using t(3) ntru_verify_iff [OF assms(3-5)] w by (simp add: coeffs_within_def)
qed

lemma norm_test:
  assumes "logn \<le> 10" "length f = 2 ^ logn" "length g = 2 ^ logn"
  defines "nf \<equiv> poly_small_sqnorm f logn" and "ng \<equiv> poly_small_sqnorm g logn"
  shows "16823 \<le> (nf + ng) OR - drop_bit 31 (nf OR ng) \<longleftrightarrow> 16823 \<le> (\<Sum>z\<leftarrow>f. sint z * sint z) + (\<Sum>z\<leftarrow>g. sint z * sint z)"
proof -
  note f = poly_small_sqnorm_value [OF assms(2,1), folded nf_def] and g = poly_small_sqnorm_value [OF assms(3,1), folded ng_def]
  have "drop_bit 31 nf = 0" "drop_bit 31 ng = 0" using f(2) g(2) by (simp_all add: sign_shift)
  then have "(nf + ng) OR - drop_bit 31 (nf OR ng) = nf + ng" by (simp add: drop_bit_or)
  moreover have "uint (nf + ng) = uint nf + uint ng" using f(2) g(2) by (simp add: uint_word_ariths)
  ultimately show ?thesis using f(1) g(1) by (simp add: word_le_def)
qed

text \<open>What a generated key is.\<close>

definition ntru_key :: "nat \<Rightarrow> ntru_key \<Rightarrow> bool" where
  "ntru_key logn key \<longleftrightarrow> (case key of (f, g, F, G, h) \<Rightarrow>
     coeffs_within (2 ^ logn) (2 ^ (unat (max_fg_bits ! logn) - 1) - 1) f \<and> coeffs_within (2 ^ logn) (2 ^ (unat (max_fg_bits ! logn) - 1) - 1) g \<and>
     coeffs_within (2 ^ logn) 127 F \<and> coeffs_within (2 ^ logn) 127 G \<and>
     ntru_equation (2 ^ logn) f g F G \<and>
     odd (\<Sum>i<2 ^ logn. sint (f ! i)) \<and> odd (\<Sum>i<2 ^ logn. sint (g ! i)) \<and>
     (\<Sum>z\<leftarrow>f. sint z * sint z) + (\<Sum>z\<leftarrow>g. sint z * sint z) < 16823 \<and>
     canon (2 ^ logn) h \<and> invertible (2 ^ logn) (sz f) \<and> (\<forall>k<2 ^ logn. negacyclic (2 ^ logn) (\<lambda>i. zq (h ! i)) (sz f) k = sz g k))"

lemma FG_limit: "1 \<le> logn \<Longrightarrow> logn \<le> 10 \<Longrightarrow> (2 :: int) ^ (unat (max_FG_bits ! logn) - 1) - 1 = 127"
proof -
  have "list_all (\<lambda>b. unat b = 8) (tl max_FG_bits)" "length max_FG_bits = 11" by (simp_all add: max_FG_bits_def)
  then have "1 \<le> logn \<Longrightarrow> logn \<le> 10 \<Longrightarrow> unat (max_FG_bits ! logn) = 8"
    by (cases logn) (auto simp: list_all_length nth_tl)
  then show "1 \<le> logn \<Longrightarrow> logn \<le> 10 \<Longrightarrow> (2 :: int) ^ (unat (max_FG_bits ! logn) - 1) - 1 = 127" by simp
qed

lemma keygen_attempt_sound:
  assumes "keygen_attempt nxt slv ortho logn rng = Some (rng', Some key)" "1 \<le> logn" "logn \<le> 10"
  shows "ntru_key logn key" "ortho (fst key) (fst (snd key))"
proof -
  let ?n = "2 ^ logn :: nat"
  obtain rng1 f where mf: "poly_small_mkgauss nxt rng (replicate ?n 0) logn = Some (rng1, f)"
    using assms(1) by (auto simp: keygen_attempt_def Let_def split: option.splits)
  obtain rng2 g where mg: "poly_small_mkgauss nxt rng1 (replicate ?n 0) logn = Some (rng2, g)"
    using assms(1) mf by (auto simp: keygen_attempt_def Let_def split: option.splits)
  note f = poly_small_mkgauss_ok [OF mf] and g = poly_small_mkgauss_ok [OF mg]
  have lf: "length f = ?n" "length g = ?n" using f(1) g(1) by simp_all
  obtain r h where h: "compute_public f g logn = (r, h)" by fastforce
  let ?lim = "2 ^ (unat (max_fg_bits ! logn) - 1) :: int"
  let ?nf = "poly_small_sqnorm f logn" and ?ng = "poly_small_sqnorm g logn"
  have a: "\<not> list_ex (\<lambda>u. sint (f ! u) \<ge> ?lim \<or> sint (f ! u) \<le> - ?lim \<or> sint (g ! u) \<ge> ?lim \<or> sint (g ! u) \<le> - ?lim) [0..<?n]"
    "\<not> 16823 \<le> (?nf + ?ng) OR - drop_bit 31 (?nf OR ?ng)" "ortho f g" "r \<noteq> 0"
    "\<exists>F G. solve_NTRU slv logn f g 127 = Some (F, G) \<and> key = (f, g, F, G, h)"
    using assms(1) unfolding keygen_attempt_def Let_def mf mg option.case prod.case h FG_limit [OF assms(2,3)]
    by (auto split: if_splits option.splits prod.splits)
  from a(5) obtain F G where k: "solve_NTRU slv logn f g 127 = Some (F, G)" "key = (f, g, F, G, h)" by blast
  have within: "\<bar>x\<bar> \<le> L - 1" if "x < L" "- L < x" for x L :: int using that by linarith
  have w: "coeffs_within ?n (?lim - 1) f" "coeffs_within ?n (?lim - 1) g"
  proof -
    have "sint (f ! i) < ?lim \<and> - ?lim < sint (f ! i) \<and> sint (g ! i) < ?lim \<and> - ?lim < sint (g ! i)" if "i < ?n" for i
      using a(1) that by (auto simp: list_ex_iff not_le)
    then show "coeffs_within ?n (?lim - 1) f" "coeffs_within ?n (?lim - 1) g" using lf within unfolding coeffs_within_def by blast+
  qed
  have c: "r = 1" using compute_public_exact(1) [OF assms(3) lf h] a(4) by (simp split: if_splits)
  note P = compute_public_exact [OF assms(3) lf h]
  show "ntru_key logn key"
    using w solve_NTRU_sound [OF k(1) _ assms(3) lf] f(3) g(3) a(2) norm_test [OF assms(3) lf] P c k(2) lf
    by (auto simp: ntru_key_def split: if_splits)
  show "ortho (fst key) (fst (snd key))" using a(3) k(2) by simp
qed

section \<open>A concrete run\<close>

text \<open>
  A source of words and a solver with which key generation of degree 2 returns the key f = 97, g = 15, F = 2,
  G = 127: of the samples that are added up to a coefficient, 97, respectively 15, are 1 and the others 0.
\<close>

definition demo_word :: "nat \<Rightarrow> u64" where
  "demo_word s = (if odd s then 9223372036854775807 else if s div 2 < 97 \<or> (1024 \<le> s div 2 \<and> s div 2 < 1039) then 4611686018427387904 else 0)"

definition demo_next :: "nat \<Rightarrow> nat \<times> u64" where
  "demo_next s = (Suc s, demo_word s)"

definition demo_solver :: ntru_solver where
  "demo_solver = \<lparr>solve_NTRU_deepest = \<lambda>_ _ _. Some [2, 0, 127, 0], solve_NTRU_intermediate = \<lambda>_ _ _ _. Some,
     solve_NTRU_binary_depth1 = \<lambda>_ _ _. Some, solve_NTRU_binary_depth0 = \<lambda>_ _ _. Some\<rparr>"

lemma demo_words: "rng_words demo_next n s = (s + n, map demo_word [s..<s + n])"
  by (induction n) (simp_all add: demo_next_def)

lemma gauss_ref_demo: "gauss_ref 4611686018427387904 9223372036854775807 = 1" "gauss_ref 0 r = 0"
proof -
  have "(LEAST k. 1 \<le> k \<and> gaussZ k \<le> 9223372036854775807) = 1"
    by (rule Least_equality) (simp_all add: gauss_1024_12289_def)
  then show "gauss_ref 4611686018427387904 9223372036854775807 = 1" by (simp add: gauss_ref_def gauss_1024_12289_def)
  show "gauss_ref 0 r = 0" by (simp add: gauss_ref_def gauss_1024_12289_def)
qed

lemma demo_mkgauss:
  assumes "s = 2 * m"
  shows "mkgauss demo_next s 1 = (s + 1024, word_of_int (\<Sum>i<512. if m + i < 97 \<or> (1024 \<le> m + i \<and> m + i < 1039) then 1 else 0))"
proof -
  have "map demo_word [s..<s + 1024] ! (2 * i) = demo_word (2 * (m + i))" "map demo_word [s..<s + 1024] ! (2 * i + 1) = demo_word (2 * (m + i) + 1)" if "i < 512" for i
    using that assms by (simp_all add: distrib_left)
  note n = this
  have g: "gauss_ref (uint (demo_word (2 * j))) (uint (demo_word (2 * j + 1))) = (if j < 97 \<or> (1024 \<le> j \<and> j < 1039) then 1 else 0)" for j
    by (simp add: demo_word_def gauss_ref_demo)
  have "gauss_sum (map demo_word [s..<s + 1024]) 512 = (\<Sum>i<512. if m + i < 97 \<or> (1024 \<le> m + i \<and> m + i < 1039) then 1 else 0)"
    unfolding gauss_sum_def by (rule sum.cong [OF refl]) (simp only: lessThan_iff n g)
  then show ?thesis unfolding mkgauss_sum demo_words by simp
qed

lemma sum_indicator: "(\<Sum>i<n. if P i then 1 else 0 :: int) = int (card {i. i < n \<and> P i})" for n :: nat
proof -
  have "(\<Sum>i<n. if P i then 1 else 0 :: int) = (\<Sum>i\<in>{i \<in> {..<n}. P i}. 1)" by (rule sum.inter_filter [symmetric]) simp
  then show ?thesis by simp
qed

lemma demo_samples:
  "mkgauss demo_next 0 1 = (1024, 97)" "mkgauss demo_next 1024 1 = (2048, 0)"
  "mkgauss demo_next 2048 1 = (3072, 15)" "mkgauss demo_next 3072 1 = (4096, 0)"
proof -
  have c: "{i. i < 512 \<and> (0 + i < 97 \<or> (1024 \<le> 0 + i \<and> 0 + i < 1039))} = {..<97 :: nat}" "{i. i < 512 \<and> (512 + i < 97 \<or> (1024 \<le> 512 + i \<and> 512 + i < 1039))} = ({} :: nat set)"
    "{i. i < 512 \<and> (1024 + i < 97 \<or> (1024 \<le> 1024 + i \<and> 1024 + i < 1039))} = {..<15 :: nat}" "{i. i < 512 \<and> (1536 + i < 97 \<or> (1024 \<le> 1536 + i \<and> 1536 + i < 1039))} = ({} :: nat set)"
    by auto
  show "mkgauss demo_next 0 1 = (1024, 97)" using demo_mkgauss [of 0 0] unfolding sum_indicator c by simp
  show "mkgauss demo_next 1024 1 = (2048, 0)" using demo_mkgauss [of 1024 512] unfolding sum_indicator c by simp
  show "mkgauss demo_next 2048 1 = (3072, 15)" using demo_mkgauss [of 2048 1024] unfolding sum_indicator c by simp
  show "mkgauss demo_next 3072 1 = (4096, 0)" using demo_mkgauss [of 3072 1536] unfolding sum_indicator c by simp
qed

lemma mkgauss_coeff_first: "mkgauss nxt rng logn = (rng', s) \<Longrightarrow> coeff_ok final mod2 s \<Longrightarrow> mkgauss_coeff nxt logn final mod2 rng = Some (rng', s)"
  unfolding mkgauss_coeff_def by (rule retry_now) (simp add: mkgauss_attempt_eq)

lemma demo_polys:
  "poly_small_mkgauss demo_next 0 [0, 0] 1 = Some (2048, [97, 0])" "poly_small_mkgauss demo_next 2048 [0, 0] 1 = Some (4096, [15, 0])"
proof -
  have u: "[0..<2 ^ 1] = [0, 1 :: nat]" by (simp add: upt_rec)
  have c: "mkgauss_coeff demo_next 1 False 0 0 = Some (1024, 97)" "mkgauss_coeff demo_next 1 True 1 1024 = Some (2048, 0)"
    "mkgauss_coeff demo_next 1 False 0 2048 = Some (3072, 15)" "mkgauss_coeff demo_next 1 True 1 3072 = Some (4096, 0)"
    by (rule mkgauss_coeff_first [OF demo_samples(1)] mkgauss_coeff_first [OF demo_samples(2)] mkgauss_coeff_first [OF demo_samples(3)]
        mkgauss_coeff_first [OF demo_samples(4)], simp add: coeff_ok_def)+
  show "poly_small_mkgauss demo_next 0 [0, 0] 1 = Some (2048, [97, 0])" "poly_small_mkgauss demo_next 2048 [0, 0] 1 = Some (4096, [15, 0])"
    unfolding poly_small_mkgauss_def u using c by simp_all
qed

lemma demo_solve: "solve_NTRU demo_solver 1 [97, 0] [15, 0] 127 = Some ([2, 0], [127, 0])"
proof -
  have "ntru_equation 2 [97, 0] [15, 0] [2, 0] [127, 0]"
    by (auto simp: ntru_equation_def negacyclic_def numeral_2_eq_2 less_Suc_eq lessThan_Suc)
  then have v: "ntru_verify 1 [97, 0] [15, 0] [2, 0] [127, 0]" using ntru_verify_iff [of 1 "[97, 0]" "[15, 0]" "[2, 0]" "[127, 0]"] by simp
  have b: "poly_big_to_small [2, 0, 127, 0] 127 1 = Some [2, 0]" "poly_big_to_small [127, 0] 127 1 = Some [127, 0]"
    by (simp_all add: poly_big_to_small_def upt_rec zint_one_to_plain_def)
  show ?thesis using v b by (simp add: solve_NTRU_def demo_solver_def solve_depths_def)
qed

lemma demo_attempt:
  "\<exists>h. keygen_attempt demo_next demo_solver (\<lambda>_ _. True) 1 0 = Some (4096, Some ([97, 0], [15, 0], [2, 0], [127, 0], h))"
proof -
  have r: "replicate (2 ^ 1) 0 = [0, 0 :: u8]" by (simp add: numeral_2_eq_2)
  have q: "poly_small_sqnorm [97, 0] 1 = 9409" "poly_small_sqnorm [15, 0] 1 = 225" by (simp_all add: poly_small_sqnorm_def upt_rec)
  obtain h where h: "compute_public [97, 0] [15, 0] 1 = (1, h)"
  proof
    show "compute_public [97, 0] [15, 0] 1 = (1, snd (compute_public [97, 0] [15, 0] 1))" by code_simp
  qed
  show ?thesis
    unfolding keygen_attempt_def Let_def r demo_polys option.case prod.case q h
    using demo_solve by (simp add: max_fg_bits_def max_FG_bits_def upt_rec)
qed

section \<open>Properties\<close>

text \<open>
  (C18) The check at the end of solve_NTRU, made modulo one 31-bit prime, is exact: for all polynomials of 8-bit
  coefficients of the same degree up to 1024 it passes exactly when f G - g F = q holds over the integers.
\<close>

theorem ntru_check_exact:
  assumes "logn \<le> 10" "length f = 2 ^ logn" "length g = 2 ^ logn" "length F = 2 ^ logn" "length G = 2 ^ logn"
  shows "ntru_verify logn f g F G \<longleftrightarrow> ntru_equation (2 ^ logn) f g F G"
  using assms by (rule ntru_verify_iff)

theorem ntru_check_exact_witness: "ntru_verify 1 [97, 0] [15, 0] [2, 0] [127, 0] \<and> \<not> ntru_verify 1 [97, 0] [15, 0] [2, 0] [126, 0]"
proof -
  have "ntru_equation 2 [97, 0] [15, 0] [2, 0] [127, 0]" "\<not> ntru_equation 2 [97, 0] [15, 0] [2, 0] [126, 0]"
    by (auto simp: ntru_equation_def negacyclic_def numeral_2_eq_2 less_Suc_eq lessThan_Suc)
  then show ?thesis using ntru_check_exact [of 1 "[97, 0]" "[15, 0]" "[2, 0]" "[127, 0]"] ntru_check_exact [of 1 "[97, 0]" "[15, 0]" "[2, 0]" "[126, 0]"] by simp
qed

text \<open>
  (C4) Generated keys: whatever the source of randomness, the solver of the NTRU equation and the test of the
  orthogonalised vector do, a key that key generation returns has coefficients of f and g within the bounds of
  the encoding and those of F and G in -127..127, satisfies f G - g F = q over the integers modulo X^n + 1, has
  odd sums of coefficients and a squared norm of (f, g) below 16823, f is invertible modulo q, and the public
  key h has coefficients below q and satisfies h f = g.
\<close>

theorem keygen_sound:
  assumes "keygen_from nxt slv ortho logn rng = Some (rng', key)" "1 \<le> logn" "logn \<le> 10"
  shows "ntru_key logn key"
  using assms(1) unfolding keygen_from_def by (rule retry_result) (rule keygen_attempt_sound(1) [OF _ assms(2,3)])

theorem keygen_sound_witness:
  "\<exists>h. keygen_from demo_next demo_solver (\<lambda>_ _. True) 1 0 = Some (4096, [97, 0], [15, 0], [2, 0], [127, 0], h) \<and>
    ntru_key 1 ([97, 0], [15, 0], [2, 0], [127, 0], h)"
proof -
  obtain h where "keygen_attempt demo_next demo_solver (\<lambda>_ _. True) 1 0 = Some (4096, Some ([97, 0], [15, 0], [2, 0], [127, 0], h))"
    using demo_attempt by blast
  then have "keygen_from demo_next demo_solver (\<lambda>_ _. True) 1 0 = Some (4096, [97, 0], [15, 0], [2, 0], [127, 0], h)"
    unfolding keygen_from_def by (rule retry_now)
  then show ?thesis using keygen_sound [of demo_next demo_solver "\<lambda>_ _. True" 1 0 4096 "([97, 0], [15, 0], [2, 0], [127, 0], h)"] by auto
qed

end
