(* ===== verification/Rpo_Field.thy ===== *)
theory Rpo_Field
  imports Prelude
begin

text \<open>
  The arithmetic of rpo.c modulo \<open>P = 2^64 - 2^32 + 1\<close>, on 64-bit words whose intermediate results wrap
  around: additions, subtractions, the reduction of a word, and products of two words through their
  128-bit product. Each operation is shown to be the operation modulo P.
\<close>

definition RPO_P :: u64 where
  "RPO_P = 0xFFFFFFFF00000001"

definition add_mod_p :: "u64 \<Rightarrow> u64 \<Rightarrow> u64" where
  "add_mod_p a b =
     (let a = RPO_P - a;
          res = b - a
      in if b < a then res + RPO_P else res)"

definition sub_mod_p :: "u64 \<Rightarrow> u64 \<Rightarrow> u64" where
  "sub_mod_p a b =
     (let r = a - b
      in if a < b then r + RPO_P else r)"

definition reduce_mod_p :: "u64 \<Rightarrow> u64 \<Rightarrow> u64" where
  "reduce_mod_p b a =
     (let d = (ucast (drop_bit 32 b) :: u32);
          c = (ucast b :: u32);
          a = (if RPO_P \<le> a then a - RPO_P else a);
          a = sub_mod_p a (ucast c);
          a = sub_mod_p a (ucast d);
          a = add_mod_p a (push_bit 32 (ucast c))
      in a)"

definition mult_mod_p :: "u64 \<Rightarrow> u64 \<Rightarrow> u64" where
  "mult_mod_p x y =
     (let a = (ucast x :: u32);
          b = (ucast (drop_bit 32 x) :: u32);
          c = (ucast y :: u32);
          d = (ucast (drop_bit 32 y) :: u32);
          x = ucast b * ucast c;
          y = ucast a * ucast d;
          e = ucast a * ucast c;
          f = ucast b * ucast d;
          x = x + y;
          f = (if x < y then f + push_bit 32 1 else f);
          t = push_bit 32 x;
          e = e + t;
          f = (if e < t then f + 1 else f);
          t = drop_bit 32 x;
          f = f + t
      in reduce_mod_p f e)"

abbreviation (input) pP :: int where
  "pP \<equiv> 18446744069414584321"

lemma uint_RPO_P [simp]: "uint RPO_P = pP"
  by (simp add: RPO_P_def)

lemmas word64_simps =
  uint_plus_if' uint_sub_if' word_less_def word_le_def

lemma uint_add_mod_p:
  assumes "uint a < pP" "uint b < pP"
  shows "uint (add_mod_p a b) = (uint a + uint b) mod pP"
  using assms uint64_lt [of a] uint64_lt [of b]
  by (cases "uint a + uint b < pP")
    (simp_all add: add_mod_p_def Let_def word64_simps mod_once)

lemma uint_sub_mod_p:
  assumes "uint a < pP" "uint b < pP"
  shows "uint (sub_mod_p a b) = (uint a - uint b) mod pP"
proof (cases "uint a < uint b")
  case True
  then have "(uint a - uint b) mod pP = uint a - uint b + pP"
    using assms uint_ge_0 [of a] by (intro mod_neg_once) linarith+
  moreover have "uint (sub_mod_p a b) = uint a - uint b + pP"
    using True assms by (simp add: sub_mod_p_def Let_def word64_simps)
      (use uint_ge_0 [of a] in linarith)
  ultimately show ?thesis by simp
next
  case False
  then have "(uint a - uint b) mod pP = uint a - uint b"
    using assms uint_ge_0 [of b] by (intro mod_pos_pos_trivial) linarith+
  with False show ?thesis by (simp add: sub_mod_p_def Let_def word64_simps)
qed

lemma uint_lo32: "uint (ucast (ucast (b :: u64) :: u32) :: u64) = uint b mod 4294967296"
  by (simp add: uint_ucast_mod mod_mod_cancel)

lemma uint_hi32: "uint (ucast (ucast (drop_bit 32 (b :: u64)) :: u32) :: u64) = uint b div 4294967296"
  using div_range [of "uint b" 4294967296 4294967296] uint64_lt [of b]
  by (simp add: uint_ucast_mod uint_shr)

lemma uint_shl32: "uint (push_bit 32 x :: u64) = (uint x mod 4294967296) * 4294967296"
  by (simp add: uint_shl shl_mod_int)

lemma uint_shr32: "uint (drop_bit 32 x :: u64) = uint x div 4294967296"
  by (simp add: uint_shr)

lemma reduce_identity:
  "(b * 18446744073709551616 + a) mod pP
     = (a - b mod 4294967296 - b div 4294967296 + (b mod 4294967296) * 4294967296) mod pP"
proof -
  define c d where "c = b mod 4294967296" and "d = b div 4294967296"
  have b: "b = d * 4294967296 + c" by (simp add: c_def d_def)
  have "(b * 18446744073709551616 + a) - (a - c - d + c * 4294967296) = (c + d * 4294967297) * pP"
    by (simp add: b)
  then show ?thesis unfolding c_def [symmetric] d_def [symmetric]
    by (simp add: mod_eq_dvd_iff)
qed

lemma uint_reduce_mod_p:
  "uint (reduce_mod_p b a) = (uint b * 18446744073709551616 + uint a) mod pP"
proof -
  define c d where "c = uint b mod 4294967296" and "d = uint b div 4294967296"
  have cd: "0 \<le> c" "c < 4294967296" "0 \<le> d" "d < 4294967296"
    using uint64_lt [of b] by (auto simp: c_def d_def pos_imp_zdiv_nonneg_iff)
  define a0 where "a0 = (if RPO_P \<le> a then a - RPO_P else a)"
  have a0: "uint a0 = uint a mod pP" 
    using uint64_lt [of a] by (simp add: a0_def word64_simps mod_once)
  have a0p: "uint a0 < pP" unfolding a0 by simp
  define a1 where "a1 = sub_mod_p a0 (ucast (ucast b :: u32))"
  have a1: "uint a1 = (uint a0 - c) mod pP"
    unfolding a1_def using a0p cd by (subst uint_sub_mod_p) (auto simp: uint_lo32 c_def)
  define a2 where "a2 = sub_mod_p a1 (ucast (ucast (drop_bit 32 b) :: u32))"
  have a2: "uint a2 = (uint a1 - d) mod pP"
    unfolding a2_def using a1 cd by (subst uint_sub_mod_p) (auto simp: uint_hi32 d_def)
  have "uint (reduce_mod_p b a) = uint (add_mod_p a2 (push_bit 32 (ucast (ucast b :: u32))))"
    by (simp add: reduce_mod_p_def Let_def a0_def a1_def a2_def)
  also have "\<dots> = (uint a2 + c * 4294967296) mod pP"
    using a2 cd by (subst uint_add_mod_p) (auto simp: uint_shl32 uint_lo32 c_def)
  also have "\<dots> = (uint a - c - d + c * 4294967296) mod pP"
    unfolding a2 a1 a0 by (simp add: mod_simps)
  finally show ?thesis unfolding c_def d_def by (simp only: reduce_identity)
qed

lemma mul_128:
  fixes a b c d :: int
  assumes "0 \<le> a" "a < 4294967296" "0 \<le> b" "b < 4294967296"
    and "0 \<le> c" "c < 4294967296" "0 \<le> d" "d < 4294967296"
  shows "b * d * 18446744073709551616 + (b * c + a * d) * 4294967296 + a * c
     = (a + b * 4294967296) * (c + d * 4294967296)"
  by (simp add: algebra_simps)

lemma mul_lt32:
  fixes a b :: int
  assumes "0 \<le> a" "a < 4294967296" "0 \<le> b" "b < 4294967296"
  shows "0 \<le> a * b" "a * b \<le> 18446744065119617025"
  using assms mult_mono [of a 4294967295 b 4294967295] by auto

lemma carry_bound: "f * m + e = r \<Longrightarrow> 0 \<le> e \<Longrightarrow> r < m * m \<Longrightarrow> 0 < m \<Longrightarrow> f < m"
  for f m e r :: int
  by (metis add_increasing2 mult_less_cancel_right_pos not_less order_refl)

lemma mult_mod_p_carries:
  fixes ac ad bc bd f e :: u64
  assumes b: "uint ac \<le> 18446744065119617025" "uint ad \<le> 18446744065119617025"
      "uint bc \<le> 18446744065119617025" "uint bd \<le> 18446744065119617025"
    and fit: "uint bd * 18446744073709551616 + (uint bc + uint ad) * 4294967296 + uint ac < 18446744073709551616 * 18446744073709551616"
    and x: "x = bc + ad"
    and f1: "f1 = (if x < ad then bd + push_bit 32 1 else bd)"
    and t: "t = push_bit 32 x"
    and e: "e = ac + t"
    and f2: "f2 = (if e < t then f1 + 1 else f1)"
    and f: "f = f2 + drop_bit 32 x"
  shows "uint f * 18446744073709551616 + uint e
     = uint bd * 18446744073709551616 + (uint bc + uint ad) * 4294967296 + uint ac"
proof -
  note lt = uint64_lt [of ac] uint64_lt [of ad] uint64_lt [of bc] uint64_lt [of bd] uint64_lt [of x]
  define k1 :: int where "k1 = (if x < ad then 1 else 0)"
  define k2 :: int where "k2 = (if e < t then 1 else 0)"
  have x': "uint x + k1 * 18446744073709551616 = uint bc + uint ad"
    using lt by (auto simp: x k1_def word_less_def uint_plus_if' split: if_splits)
  have t': "uint t = (uint x mod 4294967296) * 4294967296" by (simp add: t uint_shl32)
  have e': "uint e + k2 * 18446744073709551616 = uint ac + uint t"
    using lt uint64_lt [of t] by (auto simp: e k2_def word_less_def uint_plus_if' split: if_splits)
  have f1': "uint f1 = uint bd + k1 * 4294967296"
    using b by (auto simp: f1 k1_def uint_plus_if' uint_shl)
  have f2': "uint f2 = uint f1 + k2"
    using b by (auto simp: f2 k2_def f1' uint_plus_if' k1_def)
  have ident: "(uint f1 + k2 + uint x div 4294967296) * 18446744073709551616 + uint e
     = uint bd * 18446744073709551616 + (uint bc + uint ad) * 4294967296 + uint ac"
  proof -
    define xd xm where "xd = uint x div 4294967296" and "xm = uint x mod 4294967296"
    have "uint bc + uint ad = xd * 4294967296 + xm + k1 * 18446744073709551616"
      using x' by (simp add: xd_def xm_def)
    moreover have "uint e = uint ac + xm * 4294967296 - k2 * 18446744073709551616"
      using e' by (simp add: t' xm_def)
    ultimately show ?thesis unfolding xd_def [symmetric] f1' by (simp add: algebra_simps)
  qed
  then have "uint f1 + k2 + uint x div 4294967296 < 18446744073709551616"
    by (rule carry_bound) (use fit in simp_all)
  then have "uint f = uint f1 + k2 + uint x div 4294967296"
    by (auto simp: f uint_plus_if' uint_shr f2')
  then show ?thesis using ident by simp
qed

lemma uint_mult_mod_p: "uint (mult_mod_p x y) = uint x * uint y mod pP"
proof -
  define a b c d where "a = uint x mod 4294967296" and "b = uint x div 4294967296"
    and "c = uint y mod 4294967296" and "d = uint y div 4294967296"
  have r: "0 \<le> a" "a < 4294967296" "0 \<le> b" "b < 4294967296"
     "0 \<le> c" "c < 4294967296" "0 \<le> d" "d < 4294967296"
    using uint64_lt [of x] uint64_lt [of y]
    by (auto simp: a_def b_def c_def d_def pos_imp_zdiv_nonneg_iff)
  define wa wb wc wd :: u64 where "wa = ucast (ucast x :: u32)"
    and "wb = ucast (ucast (drop_bit 32 x) :: u32)"
    and "wc = ucast (ucast y :: u32)"
    and "wd = ucast (ucast (drop_bit 32 y) :: u32)"
  have w: "uint wa = a" "uint wb = b" "uint wc = c" "uint wd = d"
    by (simp_all only: wa_def wb_def wc_def wd_def uint_lo32 [of x] uint_lo32 [of y] uint_hi32 a_def b_def c_def d_def)
  have small: "v mod 18446744073709551616 = v" if "0 \<le> v" "v \<le> 18446744065119617025" for v :: int
    using that by simp
  have prods: "uint (wa * wc) = a * c" "uint (wa * wd) = a * d"
     "uint (wb * wc) = b * c" "uint (wb * wd) = b * d"
    using mul_lt32 r by (simp_all add: uint_mult_mod w small)
  have xy: "uint x = a + b * 4294967296" "uint y = c + d * 4294967296"
    by (simp_all add: a_def b_def c_def d_def)
  have "uint x * uint y < 18446744073709551616 * 18446744073709551616"
    using uint64_lt [of x] uint64_lt [of y] by (intro mult_strict_mono) auto
  then have fit: "b * d * 18446744073709551616 + (b * c + a * d) * 4294967296 + a * c
      < 18446744073709551616 * 18446744073709551616"
    using mul_128 [OF r] xy by simp
  obtain f e where fe: "mult_mod_p x y = reduce_mod_p f e"
    "uint f * 18446744073709551616 + uint e = b * d * 18446744073709551616 + (b * c + a * d) * 4294967296 + a * c"
  proof
    show "mult_mod_p x y = reduce_mod_p 
       ((if wa * wc + push_bit 32 (wb * wc + wa * wd) < push_bit 32 (wb * wc + wa * wd)
        then (if wb * wc + wa * wd < wa * wd then wb * wd + push_bit 32 1 else wb * wd) + 1
        else (if wb * wc + wa * wd < wa * wd then wb * wd + push_bit 32 1 else wb * wd)) 
         + drop_bit 32 (wb * wc + wa * wd)) (wa * wc + push_bit 32 (wb * wc + wa * wd))"
      by (simp only: mult_mod_p_def Let_def wa_def wb_def wc_def wd_def)
  qed (rule mult_mod_p_carries [where ac="wa * wc" and ad = "wa * wd" and bc = "wb * wc" and bd="wb * wd", unfolded prods, OF _ _ _ _ fit refl refl refl refl refl refl]; 
      use mul_lt32 r in auto)
  then show ?thesis by (simp only: uint_reduce_mod_p mul_128 [OF r] xy)
qed

section \<open>Properties\<close>

text \<open>
  (C29) The 64-by-64-bit product with folded reduction: for all 64-bit operands, reduced or not,
  \<open>mult_mod_p\<close> returns the canonical representative of the product modulo P.
\<close>

theorem mult_mod_p_correct: "uint (mult_mod_p x y) = uint x * uint y mod uint RPO_P"
  by (simp add: uint_mult_mod_p)

text \<open>
  On canonical operands the branching addition and subtraction are addition and
  subtraction modulo P, although both intermediate results may wrap around 2^64.
\<close>

lemma add_sub_mod_p_correct:
  assumes "a < RPO_P" "b < RPO_P"
  shows "uint (add_mod_p a b) = (uint a + uint b) mod uint RPO_P \<and>
         uint (sub_mod_p a b) = (uint a - uint b) mod uint RPO_P"
  using assms by (simp add: word_less_def uint_add_mod_p uint_sub_mod_p)

end
