(* ===== verification/Rpo_Permutation.thy ===== *)
theory Rpo_Permutation
  imports Rpo_Field Modular
begin

text \<open>
  The permutation of rpo.c on twelve field elements: the tables, the two power maps, the matrix product
  and the seven rounds. The power maps are shown to be inverse to each other, the matrix to be
  invertible, and the permutation to be a bijection of the canonical states.
\<close>

abbreviation (input) STATE_WIDTH :: nat where
  "STATE_WIDTH \<equiv> 12"

abbreviation (input) NUM_ROUNDS :: nat where
  "NUM_ROUNDS \<equiv> 7"

definition MDS :: "u64 list list" where
  "MDS =
     [[7, 23, 8, 26, 13, 10, 9, 7, 6, 22, 21, 8],
      [8, 7, 23, 8, 26, 13, 10, 9, 7, 6, 22, 21],
      [21, 8, 7, 23, 8, 26, 13, 10, 9, 7, 6, 22],
      [22, 21, 8, 7, 23, 8, 26, 13, 10, 9, 7, 6],
      [6, 22, 21, 8, 7, 23, 8, 26, 13, 10, 9, 7],
      [7, 6, 22, 21, 8, 7, 23, 8, 26, 13, 10, 9],
      [9, 7, 6, 22, 21, 8, 7, 23, 8, 26, 13, 10],
      [10, 9, 7, 6, 22, 21, 8, 7, 23, 8, 26, 13],
      [13, 10, 9, 7, 6, 22, 21, 8, 7, 23, 8, 26],
      [26, 13, 10, 9, 7, 6, 22, 21, 8, 7, 23, 8],
      [8, 26, 13, 10, 9, 7, 6, 22, 21, 8, 7, 23],
      [23, 8, 26, 13, 10, 9, 7, 6, 22, 21, 8, 7]]"

definition ARK1 :: "u64 list list" where
  "ARK1 =
     [[5789762306288267392, 6522564764413701783, 17809893479458208203,
       107145243989736508, 6388978042437517382, 15844067734406016715,
       9975000513555218239, 3344984123768313364, 9959189626657347191,
       12960773468763563665, 9602914297752488475, 16657542370200465908],
      [12987190162843096997, 653957632802705281, 4441654670647621225,
       4038207883745915761, 5613464648874830118, 13222989726778338773,
       3037761201230264149, 16683759727265180203, 8337364536491240715,
       3227397518293416448, 8110510111539674682, 2872078294163232137],
      [18072785500942327487, 6200974112677013481, 17682092219085884187,
       10599526828986756440, 975003873302957338, 8264241093196931281,
       10065763900435475170, 2181131744534710197, 6317303992309418647,
       1401440938888741532, 8884468225181997494, 13066900325715521532],
      [5674685213610121970, 5759084860419474071, 13943282657648897737,
       1352748651966375394, 17110913224029905221, 1003883795902368422,
       4141870621881018291, 8121410972417424656, 14300518605864919529,
       13712227150607670181, 17021852944633065291, 6252096473787587650],
      [4887609836208846458, 3027115137917284492, 9595098600469470675,
       10528569829048484079, 7864689113198939815, 17533723827845969040,
       5781638039037710951, 17024078752430719006, 109659393484013511,
       7158933660534805869, 2955076958026921730, 7433723648458773977],
      [16308865189192447297, 11977192855656444890, 12532242556065780287,
       14594890931430968898, 7291784239689209784, 5514718540551361949,
       10025733853830934803, 7293794580341021693, 6728552937464861756,
       6332385040983343262, 13277683694236792804, 2600778905124452676],
      [7123075680859040534, 1034205548717903090, 7717824418247931797,
       3019070937878604058, 11403792746066867460, 10280580802233112374,
       337153209462421218, 13333398568519923717, 3596153696935337464,
       8104208463525993784, 14345062289456085693, 17036731477169661256]]"

definition ARK2 :: "u64 list list" where
  "ARK2 =
     [[6077062762357204287, 15277620170502011191, 5358738125714196705,
       14233283787297595718, 13792579614346651365, 11614812331536767105,
       14871063686742261166, 10148237148793043499, 4457428952329675767,
       15590786458219172475, 10063319113072092615, 14200078843431360086],
      [6202948458916099932, 17690140365333231091, 3595001575307484651,
       373995945117666487, 1235734395091296013, 14172757457833931602,
       707573103686350224, 15453217512188187135, 219777875004506018,
       17876696346199469008, 17731621626449383378, 2897136237748376248],
      [8023374565629191455, 15013690343205953430, 4485500052507912973,
       12489737547229155153, 9500452585969030576, 2054001340201038870,
       12420704059284934186, 355990932618543755, 9071225051243523860,
       12766199826003448536, 9045979173463556963, 12934431667190679898],
      [18389244934624494276, 16731736864863925227, 4440209734760478192,
       17208448209698888938, 8739495587021565984, 17000774922218161967,
       13533282547195532087, 525402848358706231, 16987541523062161972,
       5466806524462797102, 14512769585918244983, 10973956031244051118],
      [6982293561042362913, 14065426295947720331, 16451845770444974180,
       7139138592091306727, 9012006439959783127, 14619614108529063361,
       1394813199588124371, 4635111139507788575, 16217473952264203365,
       10782018226466330683, 6844229992533662050, 7446486531695178711],
      [3736792340494631448, 577852220195055341, 6689998335515779805,
       13886063479078013492, 14358505101923202168, 7744142531772274164,
       16135070735728404443, 12290902521256031137, 12059913662657709804,
       16456018495793751911, 4571485474751953524, 17200392109565783176],
      [17130398059294018733, 519782857322261988, 9625384390925085478,
       1664893052631119222, 7629576092524553570, 3485239601103661425,
       9755891797164033838, 15218148195153269027, 16460604813734957368,
       9643968136937729763, 3611348709641382851, 18256379591337759196]]"

definition apply_sbox :: "u64 list \<Rightarrow> u64 list" where
  "apply_sbox state =
     fold (\<lambda>i state.
       (let t2 = mult_mod_p (state ! i) (state ! i);
            t4 = mult_mod_p t2 t2
        in state[i := mult_mod_p (state ! i) (mult_mod_p t2 t4)])) [0..<STATE_WIDTH] state"

definition apply_mds :: "u64 list \<Rightarrow> u64 list" where
  "apply_mds state =
     (let res = fold (\<lambda>i res. res[i := 0]) [0..<STATE_WIDTH] (replicate STATE_WIDTH 0);
          res = fold (\<lambda>i res.
                  fold (\<lambda>j res. res[i := add_mod_p (res ! i) (mult_mod_p (MDS ! i ! j) (state ! j))])
                    [0..<STATE_WIDTH] res) [0..<STATE_WIDTH] res
      in fold (\<lambda>i state. state[i := res ! i]) [0..<STATE_WIDTH] state)"

definition apply_constants :: "u64 list \<Rightarrow> u64 list \<Rightarrow> u64 list" where
  "apply_constants state ark =
     fold (\<lambda>i state. state[i := add_mod_p (state ! i) (ark ! i)]) [0..<STATE_WIDTH] state"

definition exp_acc :: "nat \<Rightarrow> u64 list \<Rightarrow> u64 list \<Rightarrow> u64 list \<Rightarrow> u64 list" where
  "exp_acc m base tail res =
     (let res = fold (\<lambda>i res.
            fold (\<lambda>j res.
              if i = 0 then res[j := mult_mod_p (base ! j) (base ! j)]
              else res[j := mult_mod_p (res ! j) (res ! j)]) [0..<STATE_WIDTH] res) [0..<m] res
      in fold (\<lambda>i res. res[i := mult_mod_p (res ! i) (tail ! i)]) [0..<STATE_WIDTH] res)"

definition apply_inv_sbox :: "u64 list \<Rightarrow> u64 list" where
  "apply_inv_sbox state =
     (let zeros = fold (\<lambda>i t. t[i := 0]) [0..<STATE_WIDTH] (replicate STATE_WIDTH 0);
          t1 = fold (\<lambda>i t1. t1[i := mult_mod_p (state ! i) (state ! i)]) [0..<STATE_WIDTH] zeros;
          t2 = fold (\<lambda>i t2. t2[i := mult_mod_p (t1 ! i) (t1 ! i)]) [0..<STATE_WIDTH] zeros;
          t3 = exp_acc 3 t2 t2 zeros;
          t4 = exp_acc 6 t3 t3 zeros;
          tmp = exp_acc 12 t4 t4 zeros;
          t5 = exp_acc 6 tmp t3 zeros;
          t6 = exp_acc 31 t5 t5 zeros
      in fold (\<lambda>i state.
           (let a = mult_mod_p (mult_mod_p (t6 ! i) (t6 ! i)) (t5 ! i);
                a = mult_mod_p a a;
                a = mult_mod_p a a;
                b = mult_mod_p (mult_mod_p (t1 ! i) (t2 ! i)) (state ! i)
            in state[i := mult_mod_p a b])) [0..<STATE_WIDTH] state)"

definition apply_round :: "u64 list \<Rightarrow> nat \<Rightarrow> u64 list" where
  "apply_round state round =
     (let state = apply_mds state;
          state = apply_constants state (ARK1 ! round);
          state = apply_sbox state;
          state = apply_mds state;
          state = apply_constants state (ARK2 ! round);
          state = apply_inv_sbox state
      in state)"

definition apply_permutation :: "u64 list \<Rightarrow> u64 list" where
  "apply_permutation state = fold (\<lambda>i state. apply_round state i) [0..<NUM_ROUNDS] state"

section \<open>Closed forms of the array loops\<close>

lemma drop_ge: "length s = n \<Longrightarrow> drop n s = []" by simp

lemma apply_sbox_map:
  "length s = STATE_WIDTH \<Longrightarrow>
   apply_sbox s = map (\<lambda>i. mult_mod_p (s ! i) (mult_mod_p (mult_mod_p (s ! i) (s ! i))
        (mult_mod_p (mult_mod_p (s ! i) (s ! i)) (mult_mod_p (s ! i) (s ! i))))) [0..<STATE_WIDTH]"
  unfolding apply_sbox_def Let_def
  by (subst fold_update_self [where g = "\<lambda>i x. mult_mod_p x (mult_mod_p (mult_mod_p x x)
        (mult_mod_p (mult_mod_p x x) (mult_mod_p x x)))"]) simp_all

lemma apply_constants_map:
  "length s = STATE_WIDTH \<Longrightarrow>
   apply_constants s ark = map (\<lambda>i. add_mod_p (s ! i) (ark ! i)) [0..<STATE_WIDTH]"
  unfolding apply_constants_def
  by (subst fold_update_self [where g = "\<lambda>i x. add_mod_p x (ark ! i)"]) simp_all

definition mds_row :: "nat \<Rightarrow> u64 list \<Rightarrow> u64" where
  "mds_row i s = fold (\<lambda>j acc. add_mod_p acc (mult_mod_p (MDS ! i ! j) (s ! j))) [0..<STATE_WIDTH] 0"

lemma fold_rows:
  "n \<le> length res \<Longrightarrow>
   fold (\<lambda>i res. fold (\<lambda>j res. res[i := add_mod_p (res ! i) (mult_mod_p (MDS ! i ! j) (s ! j))])
        [0..<STATE_WIDTH] res) [0..<n] res
   = map (\<lambda>i. fold (\<lambda>j acc. add_mod_p acc (mult_mod_p (MDS ! i ! j) (s ! j))) [0..<STATE_WIDTH] (res ! i)) [0..<n] @ drop n res"
proof (induction n)
  case (Suc n)
  let ?f = "\<lambda>i x. fold (\<lambda>j acc. add_mod_p acc (mult_mod_p (MDS ! i ! j) (s ! j))) [0..<STATE_WIDTH] x"
  let ?r = "map (\<lambda>i. ?f i (res ! i)) [0..<n] @ drop n res"
  have len: "n < length ?r" using Suc.prems by simp
  have "?r[n := ?f n (?r ! n)] = map (\<lambda>i. ?f i (res ! i)) [0..<Suc n] @ drop (Suc n) res"
  proof -
    have "drop n res = res ! n # drop (Suc n) res" using Suc.prems by (simp add: Cons_nth_drop_Suc)
    then show ?thesis by (simp add: list_update_append nth_append)
  qed
  then show ?case using Suc fold_update_fixed [OF len, of "\<lambda>j acc. add_mod_p acc (mult_mod_p (MDS ! n ! j) (s ! j))"]
    by simp
qed simp

lemma apply_mds_map:
  "length s = STATE_WIDTH \<Longrightarrow> apply_mds s = map (\<lambda>i. mds_row i s) [0..<STATE_WIDTH]"
  unfolding apply_mds_def Let_def
  by (simp add: fold_update_const fold_rows mds_row_def del: upt_conv_Cons upt.simps cong: map_cong)

lemma length_apply_sbox [c_length, simp]: "length (apply_sbox s) = length s"
  by (simp add: apply_sbox_def Let_def fold_length_inv)

lemma length_apply_mds [c_length, simp]: "length (apply_mds s) = length s"
  by (simp add: apply_mds_def Let_def fold_length_inv)

lemma length_apply_constants [c_length, simp]: "length (apply_constants s ark) = length s"
  by (simp add: apply_constants_def fold_length_inv)

lemma length_apply_inv_sbox [c_length, simp]: "length (apply_inv_sbox s) = length s"
  by (simp add: apply_inv_sbox_def Let_def fold_length_inv)

lemma length_apply_permutation [c_length, simp]: "length (apply_permutation s) = length s"
  unfolding apply_permutation_def
  by (rule fold_length_inv) (simp add: apply_round_def Let_def)

primrec exp_sq :: "nat \<Rightarrow> u64 \<Rightarrow> u64" where
  "exp_sq 0 x = x"
| "exp_sq (Suc m) x = mult_mod_p (exp_sq m x) (exp_sq m x)"

lemma exp_acc_inner:
  "length res = STATE_WIDTH \<Longrightarrow>
   fold (\<lambda>j res.
       if i = (0::nat) then res[j := mult_mod_p (base ! j) (base ! j)]
       else res[j := mult_mod_p (res ! j) (res ! j)]) [0..<STATE_WIDTH] res
   = map (\<lambda>j. let x = (if i = 0 then base else res) ! j in mult_mod_p x x) [0..<STATE_WIDTH]"
  by (cases "i = (0::nat)")
    (simp_all add: fold_update_const fold_update_self [where g = "\<lambda>i x. mult_mod_p x x"] Let_def del: upt.simps)

lemma exp_acc_loop:
  "length res = STATE_WIDTH \<Longrightarrow>
   fold (\<lambda>i res.
     fold (\<lambda>j res.
       if i = (0::nat) then res[j := mult_mod_p (base ! j) (base ! j)]
       else res[j := mult_mod_p (res ! j) (res ! j)]) [0..<STATE_WIDTH] res) [0..<Suc m] res
   = map (\<lambda>j. exp_sq (Suc m) (base ! j)) [0..<STATE_WIDTH]"
proof (induction m)
  case 0
  then show ?case using exp_acc_inner [of res 0] by (simp add: Let_def del: upt.simps add: upt_Suc_append)
next
  case (Suc m)
  have "fold (\<lambda>i res.
     fold (\<lambda>j res.
       if i = (0::nat) then res[j := mult_mod_p (base ! j) (base ! j)]
       else res[j := mult_mod_p (res ! j) (res ! j)]) [0..<STATE_WIDTH] res) [0..<Suc (Suc m)] res
     = map (\<lambda>j. let x = map (\<lambda>j. exp_sq (Suc m) (base ! j)) [0..<STATE_WIDTH] ! j in mult_mod_p x x) [0..<STATE_WIDTH]"
    using exp_acc_inner [of "map (\<lambda>j. exp_sq (Suc m) (base ! j)) [0..<STATE_WIDTH]" "Suc m"] Suc
    by (simp del: upt.simps add: upt_Suc_append)
  then show ?case by (simp add: Let_def del: upt.simps cong: map_cong)
qed

lemma exp_acc_map:
  "length res = STATE_WIDTH \<Longrightarrow> 0 < m \<Longrightarrow>
   exp_acc m base tail res = map (\<lambda>j. mult_mod_p (exp_sq m (base ! j)) (tail ! j)) [0..<STATE_WIDTH]"
  by (cases m) (simp_all add: exp_acc_def exp_acc_loop
      fold_update_self [where g = "\<lambda>i x. mult_mod_p x (tail ! i)"] del: upt.simps cong: map_cong)

lemma uint_mult_pow:
  "uint u = x ^ a mod pP \<Longrightarrow> uint v = x ^ b mod pP \<Longrightarrow> uint (mult_mod_p u v) = x ^ (a + b) mod pP"
  by (simp add: uint_mult_mod_p power_add mod_simps)

lemma uint_exp_sq: "uint u = x ^ a mod pP \<Longrightarrow> uint (exp_sq m u) = x ^ (a * 2 ^ m) mod pP"
proof (induction m)
  case (Suc m)
  then have "uint (exp_sq (Suc m) u) = x ^ (a * 2 ^ m + a * 2 ^ m) mod pP"
    by (simp only: exp_sq.simps uint_mult_pow)
  then show ?case by (simp add: mult_2 distrib_left)
qed simp

section \<open>The S-boxes\<close>

abbreviation (input) INV_ALPHA :: nat where
  "INV_ALPHA \<equiv> 10540996611094048183"

lemma pow_refl: "uint (x :: u64) < pP \<Longrightarrow> uint x = uint x ^ 1 mod pP"
  by simp

lemma uint_apply_sbox:
  assumes "length s = STATE_WIDTH" "i < STATE_WIDTH"
  shows "uint (apply_sbox s ! i) = uint (s ! i) ^ 7 mod pP"
proof -
  have "uint (apply_sbox s ! i) = uint (s ! i) * (uint (s ! i) * uint (s ! i) * ((uint (s ! i) * uint (s ! i)) * (uint (s ! i) * uint (s ! i)))) mod pP"
    using assms by (simp add: apply_sbox_map uint_mult_mod_p mod_simps del: upt.simps upt_conv_Cons)
  also have "\<dots> = uint (s ! i) ^ 7 mod pP" by (simp add: eval_nat_numeral mult.assoc)
  finally show ?thesis .
qed

lemma uint_apply_inv_sbox:
  assumes len: "length s = STATE_WIDTH" and i: "i < STATE_WIDTH" and c: "uint (s ! i) < pP"
  shows "uint (apply_inv_sbox s ! i) = uint (s ! i) ^ INV_ALPHA mod pP"
proof -
  define x where "x = uint (s ! i)"
  define z :: "u64 list" where "z = map (\<lambda>_. 0) [0..<STATE_WIDTH]"
  have z: "fold (\<lambda>i t. t[i := 0]) [0..<STATE_WIDTH] (replicate STATE_WIDTH 0) = z" "length z = STATE_WIDTH"
    by (simp_all add: fold_update_const z_def del: upt.simps)
  define t1 t2 where "t1 = map (\<lambda>i. mult_mod_p (s ! i) (s ! i)) [0..<STATE_WIDTH]"
    and "t2 = map (\<lambda>i. mult_mod_p (t1 ! i) (t1 ! i)) [0..<STATE_WIDTH]"
  define t3 where "t3 = exp_acc 3 t2 t2 z"
  define t4 where "t4 = exp_acc 6 t3 t3 z"
  define tmp where "tmp = exp_acc 12 t4 t4 z"
  define t5 where "t5 = exp_acc 6 tmp t3 z"
  define t6 where "t6 = exp_acc 31 t5 t5 z"
  define a where "a = mult_mod_p (mult_mod_p (t6 ! i) (t6 ! i)) (t5 ! i)"
  define a2 where "a2 = mult_mod_p a a"
  have res: "apply_inv_sbox s ! i = mult_mod_p (mult_mod_p a2 a2) (mult_mod_p (mult_mod_p (t1 ! i) (t2 ! i)) (s ! i))"
    unfolding apply_inv_sbox_def Let_def z(1)
    using len i z(2)
    by (simp add: fold_update_const t1_def [symmetric] t2_def [symmetric] t3_def [symmetric]
        t4_def [symmetric] tmp_def [symmetric] t5_def [symmetric] t6_def [symmetric]
        fold_update_self [where g = "\<lambda>i x. mult_mod_p
          (mult_mod_p (mult_mod_p (mult_mod_p (mult_mod_p (t6 ! i) (t6 ! i)) (t5 ! i))
                 (mult_mod_p (mult_mod_p (t6 ! i) (t6 ! i)) (t5 ! i)))
            (mult_mod_p (mult_mod_p (mult_mod_p (t6 ! i) (t6 ! i)) (t5 ! i))
                 (mult_mod_p (mult_mod_p (t6 ! i) (t6 ! i)) (t5 ! i))))
          (mult_mod_p (mult_mod_p (t1 ! i) (t2 ! i)) x)"] a_def a2_def del: upt.simps)
  have x1: "uint (s ! i) = x ^ 1 mod pP" using c by (simp add: x_def)
  note P = uint_mult_pow [where x = x] and E = uint_exp_sq [where x = x]
  have u1: "uint (t1 ! i) = x ^ 2 mod pP"
    using P [OF x1 x1] i by (simp add: t1_def power2_eq_square del: upt.simps)
  have u2: "uint (t2 ! i) = x ^ 4 mod pP"
    using P [OF u1 u1] i by (simp add: t2_def del: upt.simps)
  have u3: "uint (t3 ! i) = x ^ 36 mod pP"
    using P [OF E [OF u2, of 3] u2] i z(2) by (simp add: t3_def exp_acc_map del: upt.simps)
  have u4: "uint (t4 ! i) = x ^ 2340 mod pP"
    using P [OF E [OF u3, of 6] u3] i z(2) by (simp add: t4_def exp_acc_map del: upt.simps)
  have um: "uint (tmp ! i) = x ^ 9586980 mod pP"
    using P [OF E [OF u4, of 12] u4] i z(2) by (simp add: tmp_def exp_acc_map del: upt.simps)
  have u5: "uint (t5 ! i) = x ^ 613566756 mod pP"
    using P [OF E [OF um, of 6] u3] i z(2) by (simp add: t5_def exp_acc_map del: upt.simps)
  have u6: "uint (t6 ! i) = x ^ (613566756 * 2 ^ 31 + 613566756) mod pP"
    using P [OF E [OF u5, of 31] u5] i z(2) by (simp only: t6_def exp_acc_map) (simp del: upt.simps)
  have ua: "uint a = x ^ (2 * (613566756 * 2 ^ 31 + 613566756) + 613566756) mod pP"
    unfolding a_def using P [OF P [OF u6 u6] u5] by (simp only: mult_2)
  have ua2: "uint a2 = x ^ (2 * (2 * (613566756 * 2 ^ 31 + 613566756) + 613566756)) mod pP"
    unfolding a2_def using P [OF ua ua] by (simp only: mult_2)
  show ?thesis unfolding res x_def [symmetric]
    using P [OF P [OF ua2 ua2] P [OF P [OF u1 u2] x1]] by simp
qed

section \<open>Canonical states\<close>

text \<open>A state is canonical when its twelve limbs are reduced modulo the field prime.\<close>

definition canonical :: "u64 list \<Rightarrow> bool" where
  "canonical s \<longleftrightarrow> length s = STATE_WIDTH \<and> (\<forall>x \<in> set s. x < RPO_P)"

lemma canonical_length [simp]: "canonical s \<Longrightarrow> length s = STATE_WIDTH"
  by (simp add: canonical_def)

lemma canonical_nth: "canonical s \<Longrightarrow> i < STATE_WIDTH \<Longrightarrow> uint (s ! i) < pP"
  by (simp add: canonical_def word_less_def)

lemma canonicalI:
  "length s = STATE_WIDTH \<Longrightarrow> (\<And>i. i < STATE_WIDTH \<Longrightarrow> uint (s ! i) < pP) \<Longrightarrow> canonical s"
  unfolding canonical_def word_less_def uint_RPO_P by (metis in_set_conv_nth)

lemma state_eqI:
  assumes "length s = STATE_WIDTH" "length t = STATE_WIDTH"
    and "\<And>i. i < STATE_WIDTH \<Longrightarrow> uint (s ! i) = uint (t ! i)"
  shows "s = t"
  using assms by (intro nth_equalityI) (auto simp: word_uint_eq_iff)

lemma canonical_sbox: "length s = STATE_WIDTH \<Longrightarrow> canonical (apply_sbox s)"
  by (rule canonicalI) (simp_all add: uint_apply_sbox)

lemma canonical_inv_sbox: "canonical s \<Longrightarrow> canonical (apply_inv_sbox s)"
  by (rule canonicalI, simp, subst uint_apply_inv_sbox) (simp_all only: canonical_nth canonical_length pos_mod_bound zero_less_numeral)

lemma alpha_inverse: "x ^ (7 * INV_ALPHA) mod pP = x mod pP" for x :: int
proof -
  have "7 * INV_ALPHA = Suc (4 * (18446744069414584321 - 1))" by simp
  then show ?thesis using fermat_exponent [OF prime_P, of x 4] by (simp only: of_nat_numeral)
qed

lemma inv_sbox_sbox: "canonical s \<Longrightarrow> apply_inv_sbox (apply_sbox s) = s"
proof (rule state_eqI)
  fix i assume s: "canonical s" and i: "i < STATE_WIDTH"
  have "uint (apply_inv_sbox (apply_sbox s) ! i) = (uint (s ! i) ^ 7 mod pP) ^ INV_ALPHA mod pP"
    using s i canonical_nth [OF canonical_sbox i] by (simp only: uint_apply_inv_sbox uint_apply_sbox length_apply_sbox canonical_length)
  also have "\<dots> = uint (s ! i) ^ (7 * INV_ALPHA) mod pP" by (simp only: power_mod power_mult)
  also have "\<dots> = uint (s ! i)" using canonical_nth [OF s i] by (simp only: alpha_inverse) simp
  finally show "uint (apply_inv_sbox (apply_sbox s) ! i) = uint (s ! i)" .
qed simp_all

lemma sbox_inv_sbox: "canonical s \<Longrightarrow> apply_sbox (apply_inv_sbox s) = s"
proof (rule state_eqI)
  fix i assume s: "canonical s" and i: "i < STATE_WIDTH"
  have "uint (apply_sbox (apply_inv_sbox s) ! i) = (uint (s ! i) ^ INV_ALPHA mod pP) ^ 7 mod pP"
    using s i canonical_nth [OF s i] by (simp only: uint_apply_inv_sbox uint_apply_sbox length_apply_inv_sbox canonical_length)
  also have "\<dots> = uint (s ! i) ^ (INV_ALPHA * 7) mod pP" by (simp only: power_mod power_mult)
  also have "\<dots> = uint (s ! i)" using canonical_nth [OF s i] by (simp only: mult.commute [of INV_ALPHA] alpha_inverse) simp
  finally show "uint (apply_sbox (apply_inv_sbox s) ! i) = uint (s ! i)" .
qed simp_all

section \<open>The linear layer\<close>

lemma uint_mds_fold:
  "uint acc < pP \<Longrightarrow>
   uint (fold (\<lambda>j acc. add_mod_p acc (mult_mod_p (m j) (v j))) js acc)
     = (uint acc + (\<Sum>j\<leftarrow>js. uint (m j) * uint (v j))) mod pP"
proof (induction js arbitrary: acc)
  case (Cons j js)
  have "uint (add_mod_p acc (mult_mod_p (m j) (v j))) = (uint acc + uint (m j) * uint (v j)) mod pP"
    using Cons.prems by (subst uint_add_mod_p) (simp_all add: uint_mult_mod_p mod_simps)
  with Cons.IH [of "add_mod_p acc (mult_mod_p (m j) (v j))"]
  show ?case by (simp add: mod_simps add.assoc)
qed simp

definition mds_spec :: "int list \<Rightarrow> nat \<Rightarrow> int" where
  "mds_spec v i = (\<Sum>j<STATE_WIDTH. uint (MDS ! i ! j) * v ! j) mod pP"

lemma uint_apply_mds:
  assumes "length s = STATE_WIDTH" "i < STATE_WIDTH"
  shows "uint (apply_mds s ! i) = mds_spec (map uint s) i"
proof -
  have "uint (apply_mds s ! i) = (\<Sum>j\<leftarrow>[0..<STATE_WIDTH]. uint (MDS ! i ! j) * uint (s ! j)) mod pP"
    using assms by (simp add: apply_mds_map mds_row_def uint_mds_fold del: upt.simps upt_conv_Cons)
  also have "\<dots> = mds_spec (map uint s) i"
    unfolding mds_spec_def using assms(1)
    by (simp add: interv_sum_list_conv_sum_set_nat atLeast0LessThan del: upt.simps upt_conv_Cons)
  finally show ?thesis .
qed

lemma canonical_mds: "length s = STATE_WIDTH \<Longrightarrow> canonical (apply_mds s)"
  by (rule canonicalI) (simp_all add: uint_apply_mds mds_spec_def)

text \<open>The matrix is circulant, and so is its inverse; the first row of the inverse is enough.\<close>

definition mds_inv_row :: "int list" where
  "mds_inv_row =
     [14868391535953158196, 13278298489594233127, 389999932707070822, 9782021734907796003,
      4829905704463175582, 7567822018949214430, 14205019324568680367, 15489674211196160593,
      17636013826542227504, 16254215311946436093, 3641486184877122796, 11069068059762973582]"

definition mds_inv :: "nat \<Rightarrow> nat \<Rightarrow> int" where
  "mds_inv k i = mds_inv_row ! ((i + STATE_WIDTH - k) mod STATE_WIDTH)"

lemma mds_inv_check:
  "list_all (\<lambda>k. list_all (\<lambda>j.
      (\<Sum>i\<leftarrow>[0..<STATE_WIDTH]. mds_inv k i * uint (MDS ! i ! j)) mod pP = (if k = j then 1 else 0))
        [0..<STATE_WIDTH]) [0..<STATE_WIDTH]"
  by code_simp

lemma mds_inv_mult:
  assumes "k < STATE_WIDTH" "j < STATE_WIDTH"
  shows "(\<Sum>i<STATE_WIDTH. mds_inv k i * uint (MDS ! i ! j)) mod pP = (if k = j then 1 else 0)"
  using mds_inv_check assms
  by (simp add: list_all_iff interv_sum_list_conv_sum_set_nat atLeast0LessThan del: upt.simps upt_conv_Cons)

lemma mds_spec_inverse:
  assumes "k < STATE_WIDTH"
  shows "(\<Sum>i<STATE_WIDTH. mds_inv k i * mds_spec v i) mod pP = v ! k mod pP"
proof -
  have "(\<Sum>i<STATE_WIDTH. mds_inv k i * mds_spec v i) mod pP
      = (\<Sum>i<STATE_WIDTH. mds_inv k i * (\<Sum>j<STATE_WIDTH. uint (MDS ! i ! j) * v ! j)) mod pP"
    unfolding mds_spec_def by (subst mod_sum_eq [symmetric], subst (2) mod_sum_eq [symmetric]) (simp only: mod_mult_right_eq)
  also have "(\<Sum>i<STATE_WIDTH. mds_inv k i * (\<Sum>j<STATE_WIDTH. uint (MDS ! i ! j) * v ! j))
      = (\<Sum>j<STATE_WIDTH. (\<Sum>i<STATE_WIDTH. mds_inv k i * uint (MDS ! i ! j)) * v ! j)"
    unfolding sum_distrib_left sum_distrib_right by (subst sum.swap) (simp only: mult.assoc)
  also have "\<dots> mod pP = (\<Sum>j<STATE_WIDTH. ((\<Sum>i<STATE_WIDTH. mds_inv k i * uint (MDS ! i ! j)) mod pP) * v ! j) mod pP"
    by (subst mod_sum_eq [symmetric], subst (2) mod_sum_eq [symmetric]) (simp only: mod_mult_left_eq)
  also have "\<dots> = (\<Sum>j<STATE_WIDTH. (if k = j then v ! j else 0)) mod pP"
    using mds_inv_mult [OF assms] by (intro arg_cong [where f = "\<lambda>x. x mod pP"] sum.cong refl) simp
  also have "\<dots> = v ! k mod pP" using assms by simp
  finally show ?thesis .
qed

lemma inj_apply_mds: "inj_on apply_mds {s. canonical s}"
proof (rule inj_onI, rule state_eqI)
  fix s t k
  assume st: "s \<in> {s. canonical s}" "t \<in> {s. canonical s}" "apply_mds s = apply_mds t"
    and k: "k < STATE_WIDTH"
  have eq: "mds_spec (map uint s) i = mds_spec (map uint t) i" if "i < STATE_WIDTH" for i
    using st that uint_apply_mds [of s i] uint_apply_mds [of t i] by simp
  have "(map uint s ! k) mod pP = (map uint t ! k) mod pP"
    unfolding mds_spec_inverse [OF k, symmetric]
    by (intro arg_cong [where f = "\<lambda>x. x mod pP"] sum.cong refl) (simp only: eq lessThan_iff)
  then show "uint (s ! k) = uint (t ! k)"
    using st k canonical_nth [of s k] canonical_nth [of t k] by simp
qed simp_all

section \<open>Round constants and the permutation\<close>

lemma ark_canonical: "list_all canonical ARK1" "list_all canonical ARK2"
  by (code_simp, code_simp)

lemma canonical_ark: "r < NUM_ROUNDS \<Longrightarrow> canonical (ARK1 ! r)" "r < NUM_ROUNDS \<Longrightarrow> canonical (ARK2 ! r)"
proof -
  have "length ARK1 = NUM_ROUNDS" "length ARK2 = NUM_ROUNDS" by (simp_all add: ARK1_def ARK2_def)
  then show "r < NUM_ROUNDS \<Longrightarrow> canonical (ARK1 ! r)" "r < NUM_ROUNDS \<Longrightarrow> canonical (ARK2 ! r)"
    using ark_canonical by (metis list_all_length)+
qed

lemma uint_apply_constants:
  assumes "canonical s" "canonical k" "i < STATE_WIDTH"
  shows "uint (apply_constants s k ! i) = (uint (s ! i) + uint (k ! i)) mod pP"
  using assms canonical_nth [of s i] canonical_nth [of k i]
  by (simp add: apply_constants_map uint_add_mod_p del: upt.simps upt_conv_Cons)

lemma canonical_constants: "canonical s \<Longrightarrow> canonical k \<Longrightarrow> canonical (apply_constants s k)"
  by (rule canonicalI) (simp_all add: uint_apply_constants)

lemma add_mod_cancel:
  "(a + c) mod p = (b + c) mod p \<Longrightarrow> 0 \<le> a \<Longrightarrow> a < p \<Longrightarrow> 0 \<le> b \<Longrightarrow> b < p \<Longrightarrow> a = b" for a b c p :: int
  by (metis add_diff_cancel_right' mod_diff_left_eq mod_pos_pos_trivial)

lemma inj_apply_constants: "canonical k \<Longrightarrow> inj_on (\<lambda>s. apply_constants s k) {s. canonical s}"
proof (rule inj_onI, rule state_eqI)
  fix s t i
  assume k: "canonical k" and st: "s \<in> {s. canonical s}" "t \<in> {s. canonical s}"
    "apply_constants s k = apply_constants t k" and i: "i < STATE_WIDTH"
  then have "(uint (s ! i) + uint (k ! i)) mod pP = (uint (t ! i) + uint (k ! i)) mod pP"
    using uint_apply_constants [of s k i] uint_apply_constants [of t k i] by simp
  then show "uint (s ! i) = uint (t ! i)"
    by (rule add_mod_cancel) (use st i canonical_nth in auto)
qed simp_all

lemma inj_apply_sbox: "inj_on apply_sbox {s. canonical s}"
  by (metis inj_onI inv_sbox_sbox mem_Collect_eq)

lemma inj_apply_inv_sbox: "inj_on apply_inv_sbox {s. canonical s}"
  by (metis inj_onI sbox_inv_sbox mem_Collect_eq)

lemma canonical_round_any:
  "length s = STATE_WIDTH \<Longrightarrow> r < NUM_ROUNDS \<Longrightarrow> canonical (apply_round s r)"
  unfolding apply_round_def Let_def
  by (intro canonical_inv_sbox canonical_constants canonical_mds canonical_ark) simp_all

lemma inj_apply_round:
  assumes "r < NUM_ROUNDS"
  shows "inj_on (\<lambda>s. apply_round s r) {s. canonical s}"
proof (rule inj_onI)
  fix s t assume "s \<in> {s. canonical s}" "t \<in> {s. canonical s}" and eq: "apply_round s r = apply_round t r"
  then have st: "canonical s" "canonical t" by simp_all
  note c = canonical_mds canonical_constants canonical_sbox canonical_ark [OF assms]
  from eq have "apply_constants (apply_mds (apply_sbox (apply_constants (apply_mds s) (ARK1 ! r)))) (ARK2 ! r)
     = apply_constants (apply_mds (apply_sbox (apply_constants (apply_mds t) (ARK1 ! r)))) (ARK2 ! r)"
    unfolding apply_round_def Let_def
    by (rule inj_onD [OF inj_apply_inv_sbox]) (simp_all add: c st)
  then have "apply_mds (apply_sbox (apply_constants (apply_mds s) (ARK1 ! r))) = apply_mds (apply_sbox (apply_constants (apply_mds t) (ARK1 ! r)))"
    by (rule inj_onD [OF inj_apply_constants [OF c(5)]]) (simp_all add: c st)
  then have "apply_sbox (apply_constants (apply_mds s) (ARK1 ! r)) = apply_sbox (apply_constants (apply_mds t) (ARK1 ! r))"
    by (rule inj_onD [OF inj_apply_mds]) (simp_all add: c st)
  then have "apply_constants (apply_mds s) (ARK1 ! r) = apply_constants (apply_mds t) (ARK1 ! r)"
    by (rule inj_onD [OF inj_apply_sbox]) (simp_all add: c st)
  then have "apply_mds s = apply_mds t"
    by (rule inj_onD [OF inj_apply_constants [OF c(4)]]) (simp_all add: c st)
  then show "s = t" by (rule inj_onD [OF inj_apply_mds]) (simp_all add: st)
qed

lemma permutation_prefix:
  "n \<le> NUM_ROUNDS \<Longrightarrow>
   inj_on (\<lambda>s. fold (\<lambda>i s. apply_round s i) [0..<n] s) {s. canonical s}
   \<and> (\<forall>s. canonical s \<longrightarrow> canonical (fold (\<lambda>i s. apply_round s i) [0..<n] s))"
proof (induction n)
  case (Suc n)
  let ?F = "\<lambda>s. fold (\<lambda>i s. apply_round s i) [0..<n] s"
  have IH: "inj_on ?F {s. canonical s}" "\<And>s. canonical s \<Longrightarrow> canonical (?F s)"
    using Suc by auto
  have "inj_on (\<lambda>s. apply_round (?F s) n) {s. canonical s}"
    using inj_apply_round [of n] IH Suc.prems
    by (intro inj_onI) (metis Suc_le_lessD inj_onD mem_Collect_eq)
  moreover have "canonical (apply_round (?F s) n)" if "canonical s" for s
    using IH(2) [OF that] Suc.prems by (intro canonical_round_any) simp_all
  ultimately show ?case by simp
qed simp

lemma finite_canonical: "finite {s. canonical s}"
  by (rule finite_subset [OF _ finite_lists_length_eq [of UNIV STATE_WIDTH]]) auto

lemma bij_apply_permutation: "bij_betw apply_permutation {s. canonical s} {s. canonical s}"
proof -
  have inj: "inj_on apply_permutation {s. canonical s}"
    and can: "apply_permutation ` {s. canonical s} \<subseteq> {s. canonical s}"
    using permutation_prefix [of NUM_ROUNDS] unfolding apply_permutation_def by auto
  show ?thesis unfolding bij_betw_def
    using inj endo_inj_surj [OF finite_canonical can inj] by simp
qed

lemma canonical_apply_permutation: "length s = STATE_WIDTH \<Longrightarrow> canonical (apply_permutation s)"
  unfolding apply_permutation_def
proof -
  assume len: "length s = STATE_WIDTH"
  have "[0..<NUM_ROUNDS] = 0 # [1..<NUM_ROUNDS]" by (simp add: upt_conv_Cons)
  moreover have "canonical t \<Longrightarrow> set rs \<subseteq> {..<NUM_ROUNDS} \<Longrightarrow> canonical (fold (\<lambda>i s. apply_round s i) rs t)" for t rs
    by (induction rs arbitrary: t) (simp_all add: canonical_round_any)
  ultimately show "canonical (fold (\<lambda>i s. apply_round s i) [0..<NUM_ROUNDS] s)"
    using canonical_round_any [OF len, of 0] by (simp del: upt.simps add: subset_eq)
qed

section \<open>Properties\<close>

text \<open>
  (C30) The RPO permutation is a permutation of the states with canonical limbs: MDS
  multiplication, constant additions and both power maps are bijective there.
\<close>

theorem permutation_bijective: "bij_betw apply_permutation {s. canonical s} {s. canonical s}"
  by (rule bij_apply_permutation)

end
