(* ===== verification/Rpo_Sponge.thy ===== *)
theory Rpo_Sponge
  imports Rpo_Permutation Xof
begin

text \<open>
  The sponge of rpo.c over the RPO permutation, and its hash-to-point routine. The context keeps the
  96 bytes of the state and the number of bytes absorbed into the rate; the code reads the same bytes
  as twelve little-endian words through a union (\<open>st_A\<close>, \<open>st_dbuf\<close>). The sponge interprets the
  locale \<open>xof\<close>, from which its chunking properties follow.
\<close>

record rpo128_context =
  dbuf :: "u8 list"
  dptr :: u64

definition st_A :: "u8 list \<Rightarrow> u64 list" where
  "st_A b = map (\<lambda>i. le_word64 (take 8 (drop (8 * i) b))) [0..<STATE_WIDTH]"

definition st_dbuf :: "u64 list \<Rightarrow> u8 list" where
  "st_dbuf a = concat (map le_bytes64 a)"

definition permute_dbuf :: "u8 list \<Rightarrow> u8 list" where
  "permute_dbuf b = st_dbuf (apply_permutation (st_A b))"

definition rpo128_init :: rpo128_context where
  "rpo128_init = \<lparr> dbuf = replicate 96 0, dptr = 32 \<rparr>"

lemma room_pos: "d \<noteq> 96 \<Longrightarrow> 0 < unat (96 - d :: u64)"
  by (simp add: unat_gt_0)

function rpo128_absorb_loop :: "u8 list \<Rightarrow> u64 \<Rightarrow> u8 list \<Rightarrow> u8 list \<times> u64" where
  "rpo128_absorb_loop buf d inp =
     (if inp = [] then (buf, d)
      else
        let clen = unat (96 - d);
            clen = (if clen > length inp then length inp else clen);
            buf = fold (\<lambda>u buf. buf[unat d + u := inp ! u]) [0..<clen] buf;
            d = d + of_nat clen;
            inp = drop clen inp
        in if d = 96 then rpo128_absorb_loop (permute_dbuf buf) 32 inp
           else rpo128_absorb_loop buf d inp)"
  by pat_completeness auto
termination
proof (relation "measures [\<lambda>(buf, d, inp). length inp, \<lambda>(buf, d, inp). if d = 96 then 1 else 0]", simp)
qed (auto simp: Let_def intro!: diff_less room_pos split: if_splits)

definition rpo128_absorb :: "rpo128_context \<Rightarrow> u8 list \<Rightarrow> rpo128_context" where
  "rpo128_absorb rc inp =
     (let (buf, d) = rpo128_absorb_loop (dbuf rc) (dptr rc) inp
      in rc\<lparr>dbuf := buf, dptr := d\<rparr>)"

definition rpo128_finalize :: "rpo128_context \<Rightarrow> rpo128_context" where
  "rpo128_finalize rc = rc\<lparr>dptr := 96\<rparr>"

function rpo128_squeeze_loop :: "u8 list \<Rightarrow> u64 \<Rightarrow> nat \<Rightarrow> u8 list \<Rightarrow> u8 list \<times> u64 \<times> u8 list" where
  "rpo128_squeeze_loop buf d len out =
     (if len = 0 then (buf, d, out)
      else
        let (buf, d) = (if d = 96 then (permute_dbuf buf, 32) else (buf, d));
            clen = unat (96 - d);
            clen = (if clen > len then len else clen);
            len = len - clen;
            out = out @ take clen (drop (unat d) buf);
            d = d + of_nat clen
        in rpo128_squeeze_loop buf d len out)"
  by pat_completeness auto
termination
  by (relation "measure (\<lambda>(buf, d, len, out). len)")
    (auto simp: Let_def intro!: diff_less room_pos split: if_splits)

declare rpo128_absorb_loop.simps [simp del] rpo128_squeeze_loop.simps [simp del]

definition rpo128_squeeze :: "rpo128_context \<Rightarrow> nat \<Rightarrow> rpo128_context \<times> u8 list" where
  "rpo128_squeeze rc len =
     (let (buf, d, out) = rpo128_squeeze_loop (dbuf rc) (dptr rc) len []
      in (rc\<lparr>dbuf := buf, dptr := d\<rparr>, out))"

definition rpo128_release :: "rpo128_context \<Rightarrow> rpo128_context" where
  "rpo128_release rc = rc\<lparr>dbuf := replicate 96 0, dptr := 32\<rparr>"

definition M_rpo :: u64 where
  "M_rpo = 12289"

fun hash_to_point_loop :: "rpo128_context \<Rightarrow> nat \<Rightarrow> u16 list \<Rightarrow> rpo128_context \<times> u16 list" where
  "hash_to_point_loop rc 0 x = (rc, x)"
| "hash_to_point_loop rc (Suc n) x =
     (let (rc, buf) = rpo128_squeeze rc 8;
          w = push_bit 56 (ucast (buf ! 7)) OR push_bit 48 (ucast (buf ! 6))
              OR push_bit 40 (ucast (buf ! 5)) OR push_bit 32 (ucast (buf ! 4))
              OR push_bit 24 (ucast (buf ! 3)) OR push_bit 16 (ucast (buf ! 2))
              OR push_bit 8 (ucast (buf ! 1)) OR ucast (buf ! 0);
          w = w mod M_rpo
      in hash_to_point_loop rc n (x @ [ucast w]))"

definition hash_to_point_rpo :: "rpo128_context \<Rightarrow> nat \<Rightarrow> rpo128_context \<times> u16 list" where
  "hash_to_point_rpo rc logn = hash_to_point_loop rc (2 ^ logn) []"


section \<open>The absorb loop, one byte at a time\<close>

fun absorb_byte :: "u8 \<Rightarrow> u8 list \<times> nat \<Rightarrow> u8 list \<times> nat" where
  "absorb_byte b (buf, d) =
     (if Suc d = 96 then (permute_dbuf (buf[d := b]), 32) else (buf[d := b], Suc d))"

lemma absorb_chunk:
  "d < 96 \<Longrightarrow> c \<le> length inp \<Longrightarrow> d + c \<le> 96 \<Longrightarrow>
   fold absorb_byte (take c inp) (buf, d) =
     (let buf = fold (\<lambda>u buf. buf[d + u := inp ! u]) [0..<c] buf
      in if d + c = 96 then (permute_dbuf buf, 32) else (buf, d + c))"
proof (induction c)
  case (Suc c)
  then have "fold absorb_byte (take (Suc c) inp) (buf, d) = absorb_byte (inp ! c)
      (fold (\<lambda>u buf. buf[d + u := inp ! u]) [0..<c] buf, d + c)"
    by (simp add: take_Suc_conv_app_nth Let_def)
  then show ?case by (simp add: Let_def)
qed (simp add: Let_def)

lemma absorb_loop_eq:
  "unat d < 96 \<Longrightarrow>
   rpo128_absorb_loop buf d inp = (let (b, n) = fold absorb_byte inp (buf, unat d) in (b, of_nat n))"
proof (induction buf d inp rule: rpo128_absorb_loop.induct)
  case (1 buf d inp)
  show ?case
  proof (cases "inp = []")
    case True
    then show ?thesis by (subst rpo128_absorb_loop.simps) simp
  next
    case False
    define c where "c = (if unat (96 - d) > length inp then length inp else unat (96 - d))"
    define buf' where "buf' = fold (\<lambda>u buf. buf[unat d + u := inp ! u]) [0..<c] buf"
    have room: "unat (96 - d) = 96 - unat d" using 1(3) by (simp add: unat_sub_if')
    have c: "c \<le> length inp" "unat d + c \<le> 96" "0 < c" using False 1(3) by (auto simp: c_def room)
    have ud: "unat (d + of_nat c) = unat d + c"
      using c by (subst unat_add_lem [THEN iffD1]) (auto simp: unat_of_nat)
    have full: "d + of_nat c = 96 \<longleftrightarrow> unat d + c = 96"
      by (subst word_unat_eq_iff) (simp only: ud, simp)
    have split: "fold absorb_byte inp (buf, unat d) = fold absorb_byte (drop c inp)
        (if unat d + c = 96 then (permute_dbuf buf', 32) else (buf', unat d + c))"
      using absorb_chunk [OF 1(3) c(1,2), of buf] append_take_drop_id [of c inp]
      by (metis (no_types, lifting) buf'_def comp_apply fold_append)
    show ?thesis
    proof (cases "unat d + c = 96")
      case True
      then show ?thesis
        using 1(1) [OF False refl c_def buf'_def refl refl] full split False
        by (subst rpo128_absorb_loop.simps) (simp add: Let_def c_def [symmetric] buf'_def [symmetric])
    next
      case notfull: False
      then show ?thesis
        using 1(2) [OF False refl c_def buf'_def refl refl] full split False ud c
        by (subst rpo128_absorb_loop.simps) (simp add: Let_def c_def [symmetric] buf'_def [symmetric])
    qed
  qed
qed

section \<open>The squeeze loop, one byte at a time\<close>

fun squeeze_byte :: "u8 list \<times> nat \<Rightarrow> u8 \<times> u8 list \<times> nat" where
  "squeeze_byte (buf, d) =
     (if d = 96 then (let buf = permute_dbuf buf in (buf ! 32, buf, 33)) else (buf ! d, buf, Suc d))"

fun squeeze_bytes :: "nat \<Rightarrow> u8 list \<times> nat \<Rightarrow> u8 list \<times> u8 list \<times> nat" where
  "squeeze_bytes 0 s = ([], s)"
| "squeeze_bytes (Suc n) s =
     (let (b, s) = squeeze_byte s; (bs, s) = squeeze_bytes n s in (b # bs, s))"

lemma squeeze_bytes_add:
  "squeeze_bytes (m + n) s =
     (let (xs, s) = squeeze_bytes m s; (ys, s) = squeeze_bytes n s in (xs @ ys, s))"
  by (induction m arbitrary: s) (simp_all add: split_beta Let_def)

lemma length_squeeze_bytes: "length (fst (squeeze_bytes n s)) = n"
  by (induction n arbitrary: s) (simp_all add: split_beta Let_def)

lemma length_st_A [simp]: "length (st_A b) = STATE_WIDTH"
  by (simp add: st_A_def)

lemma length_st_dbuf [simp]: "length (st_dbuf a) = 8 * length a"
  by (induction a) (simp_all add: st_dbuf_def)

lemma length_permute_dbuf [simp]: "length (permute_dbuf b) = 96"
  by (simp add: permute_dbuf_def)

lemma squeeze_chunk:
  "c = 0 \<or> d < 96 \<Longrightarrow> d + c \<le> 96 \<Longrightarrow> length buf = 96 \<Longrightarrow>
   squeeze_bytes c (buf, d) = (take c (drop d buf), buf, d + c)"
proof (induction c arbitrary: d)
  case (Suc c)
  have "squeeze_bytes c (buf, Suc d) = (take c (drop (Suc d) buf), buf, Suc d + c)"
    using Suc.prems by (intro Suc.IH) auto
  moreover have "drop d buf = buf ! d # drop (Suc d) buf" using Suc.prems by (simp add: Cons_nth_drop_Suc)
  ultimately show ?case using Suc.prems by simp
qed simp

lemma squeeze_loop_eq:
  "length buf = 96 \<Longrightarrow> unat d \<le> 96 \<Longrightarrow>
   rpo128_squeeze_loop buf d len out =
     (let (bs, b, n) = squeeze_bytes len (buf, unat d) in (b, of_nat n, out @ bs))"
proof (induction buf d len out rule: rpo128_squeeze_loop.induct)
  case (1 buf d len out)
  show ?case
  proof (cases "len = 0")
    case True
    then show ?thesis by (subst rpo128_squeeze_loop.simps) simp
  next
    case False
    obtain buf' d' where bd: "(buf', d') = (if d = 96 then (permute_dbuf buf, 32) else (buf, d))"
      by (cases "(if d = 96 then (permute_dbuf buf, 32) else (buf, d))") auto
    define c where "c = (if unat (96 - d') > len then len else unat (96 - d'))"
    have lb: "length buf' = 96" using bd 1(2) by (auto split: if_splits)
    have d96: "unat d = 96 \<longleftrightarrow> d = 96" by (simp add: word_unat_eq_iff)
    have d': "unat d' < 96" using bd 1(3) d96 by (auto split: if_splits)
    have room: "unat (96 - d') = 96 - unat d'" using d' by (simp add: unat_sub_if')
    have c: "c \<le> len" "unat d' + c \<le> 96" "0 < c" using False d' by (auto simp: c_def room)
    have ud: "unat (d' + of_nat c) = unat d' + c"
      using c by (subst unat_add_lem [THEN iffD1]) (auto simp: unat_of_nat)
    have start: "squeeze_bytes len (buf, unat d) = squeeze_bytes len (buf', unat d')"
    proof (cases "d = 96")
      case True
      then have "squeeze_byte (buf, unat d) = squeeze_byte (buf', unat d')" using bd by (simp add: Let_def)
      then show ?thesis using False by (cases len) simp_all
    qed (use bd in simp)
    have "squeeze_bytes len (buf', unat d') = (let (ys, s) = squeeze_bytes (len - c) (buf', unat d' + c)
        in (take c (drop (unat d') buf') @ ys, s))"
      using squeeze_bytes_add [of c "len - c" "(buf', unat d')"] squeeze_chunk [of c "unat d'" buf'] c lb d'
      by (simp add: split_beta Let_def)
    moreover have "rpo128_squeeze_loop buf d len out = rpo128_squeeze_loop buf' (d' + of_nat c) (len - c)
         (out @ take c (drop (unat d') buf'))"
      using False by (subst rpo128_squeeze_loop.simps) (simp add: bd [symmetric] Let_def c_def)
    moreover have "rpo128_squeeze_loop buf' (d' + of_nat c) (len - c) (out @ take c (drop (unat d') buf'))
       = (let (bs, b, n) = squeeze_bytes (len - c) (buf', unat d' + c) in (b, of_nat n, (out @ take c (drop (unat d') buf')) @ bs))"
      using 1(1) [OF False refl bd refl c_def refl refl refl] lb ud c by simp
    ultimately show ?thesis using start by (simp add: split_beta Let_def)
  qed
qed

section \<open>Context invariant and the sponge contract\<close>

definition rpo_absorbing :: "rpo128_context \<Rightarrow> bool" where
  "rpo_absorbing rc \<longleftrightarrow> length (dbuf rc) = 96 \<and> 32 \<le> unat (dptr rc) \<and> unat (dptr rc) < 96"

definition rpo_squeezing :: "rpo128_context \<Rightarrow> bool" where
  "rpo_squeezing rc \<longleftrightarrow> length (dbuf rc) = 96 \<and> 32 \<le> unat (dptr rc) \<and> unat (dptr rc) \<le> 96"

definition ctx_of :: "u8 list \<times> nat \<Rightarrow> rpo128_context" where
  "ctx_of s = \<lparr>dbuf = fst s, dptr = of_nat (snd s)\<rparr>"

definition of_ctx :: "rpo128_context \<Rightarrow> u8 list \<times> nat" where
  "of_ctx rc = (dbuf rc, unat (dptr rc))"

lemma ctx_of_ctx [simp]: "ctx_of (of_ctx rc) = rc"
  by (simp add: ctx_of_def of_ctx_def)

lemma of_ctx_of [simp]: "snd s \<le> 96 \<Longrightarrow> of_ctx (ctx_of s) = s"
  by (cases s) (simp add: ctx_of_def of_ctx_def unat_of_nat)

lemma rpo128_absorb_eq:
  "rpo_absorbing rc \<Longrightarrow> rpo128_absorb rc inp = ctx_of (fold absorb_byte inp (of_ctx rc))"
  by (simp add: rpo128_absorb_def rpo_absorbing_def absorb_loop_eq ctx_of_def of_ctx_def split_beta Let_def)

lemma absorb_bytes_inv:
  "length (fst s) = 96 \<Longrightarrow> 32 \<le> snd s \<Longrightarrow> snd s < 96 \<Longrightarrow>
   length (fst (fold absorb_byte inp s)) = 96 \<and> 32 \<le> snd (fold absorb_byte inp s)
     \<and> snd (fold absorb_byte inp s) < 96"
proof (induction inp arbitrary: s)
  case (Cons b inp)
  obtain buf d where s: "s = (buf, d)" by (cases s)
  show ?case using Cons.prems by (simp add: s) (intro impI conjI Cons.IH; simp)
qed simp

lemma rpo_absorbing_iff:
  "rpo_absorbing rc \<longleftrightarrow> length (fst (of_ctx rc)) = 96 \<and> 32 \<le> snd (of_ctx rc) \<and> snd (of_ctx rc) < 96"
  by (simp add: rpo_absorbing_def of_ctx_def)

lemma rpo_squeezing_iff:
  "rpo_squeezing rc \<longleftrightarrow> length (fst (of_ctx rc)) = 96 \<and> 32 \<le> snd (of_ctx rc) \<and> snd (of_ctx rc) \<le> 96"
  by (simp add: rpo_squeezing_def of_ctx_def)

lemma of_ctx_absorb:
  assumes "rpo_absorbing rc"
  shows "of_ctx (rpo128_absorb rc inp) = fold absorb_byte inp (of_ctx rc)"
  using absorb_bytes_inv [of "of_ctx rc" inp] assms
  by (simp add: rpo128_absorb_eq rpo_absorbing_iff less_imp_le)

lemma rpo128_squeeze_eq:
  "rpo_squeezing rc \<Longrightarrow> rpo128_squeeze rc n =
     (ctx_of (snd (squeeze_bytes n (of_ctx rc))), fst (squeeze_bytes n (of_ctx rc)))"
  by (simp add: rpo128_squeeze_def rpo_squeezing_def squeeze_loop_eq ctx_of_def of_ctx_def split_beta Let_def)

lemma squeeze_bytes_inv:
  "length (fst s) = 96 \<Longrightarrow> 32 \<le> snd s \<Longrightarrow> snd s \<le> 96 \<Longrightarrow>
   length (fst (snd (squeeze_bytes n s))) = 96 \<and> 32 \<le> snd (snd (squeeze_bytes n s))
     \<and> snd (snd (squeeze_bytes n s)) \<le> 96"
proof (induction n arbitrary: s)
  case (Suc n)
  obtain buf d where s: "s = (buf, d)" by (cases s)
  show ?case using Suc.prems by (simp add: s split_beta Let_def) (intro impI conjI Suc.IH; simp)
qed simp

lemma of_ctx_squeeze:
  assumes "rpo_squeezing rc"
  shows "of_ctx (fst (rpo128_squeeze rc n)) = snd (squeeze_bytes n (of_ctx rc))"
  using squeeze_bytes_inv [of "of_ctx rc" n] assms
  by (simp add: rpo128_squeeze_eq rpo_squeezing_iff)

interpretation rpo: xof rpo128_absorb rpo128_finalize rpo128_squeeze rpo_absorbing rpo_squeezing
proof
  fix c xs ys m n
  show "rpo_absorbing c \<Longrightarrow> rpo_absorbing (rpo128_absorb c xs)"
    using absorb_bytes_inv [of "of_ctx c" xs] by (simp add: rpo_absorbing_iff of_ctx_absorb)
  then show "rpo_absorbing c \<Longrightarrow> rpo128_absorb (rpo128_absorb c xs) ys = rpo128_absorb c (xs @ ys)"
    using of_ctx_absorb [of c xs] by (simp add: rpo128_absorb_eq)
  show "rpo_absorbing c \<Longrightarrow> rpo128_absorb c [] = c" by (simp add: rpo128_absorb_eq)
  show "rpo_absorbing c \<Longrightarrow> rpo_squeezing (rpo128_finalize c)"
    by (simp add: rpo_absorbing_def rpo_squeezing_def rpo128_finalize_def)
  show sq: "rpo_squeezing c \<Longrightarrow> rpo_squeezing (fst (rpo128_squeeze c n))" for n
    using squeeze_bytes_inv [of "of_ctx c" n] by (simp add: rpo_squeezing_iff of_ctx_squeeze)
  show "rpo_squeezing c \<Longrightarrow> rpo128_squeeze c 0 = (c, [])" by (simp add: rpo128_squeeze_eq)
  show "rpo_squeezing c \<Longrightarrow> length (snd (rpo128_squeeze c n)) = n"
    by (simp add: rpo128_squeeze_eq length_squeeze_bytes)
  show "rpo_squeezing c \<Longrightarrow> rpo128_squeeze c (m + n) =
      (let (c1, xs) = rpo128_squeeze c m; (c2, ys) = rpo128_squeeze c1 n in (c2, xs @ ys))"
    using sq [of m] of_ctx_squeeze [of c m]
    by (simp add: rpo128_squeeze_eq squeeze_bytes_add split_beta Let_def)
qed

section \<open>Hash to point\<close>

lemma le_word64_explicit:
  "push_bit 56 (ucast (buf ! 7)) OR push_bit 48 (ucast (buf ! 6))
   OR push_bit 40 (ucast (buf ! 5)) OR push_bit 32 (ucast (buf ! 4))
   OR push_bit 24 (ucast (buf ! 3)) OR push_bit 16 (ucast (buf ! 2))
   OR push_bit 8 (ucast (buf ! 1)) OR ucast (buf ! 0) = le_word64 buf"
proof -
  have "[0..<8] = [0, 1, 2, 3, 4, 5, 6, 7::nat]" by code_simp
  then show ?thesis by (simp add: le_word64_def ac_simps)
qed

lemma hash_to_point_blocks:
  "hash_to_point_loop rc n x =
     (fst (rpo.squeeze_blocks rc 8 n), x @ map (\<lambda>b. ucast (le_word64 b mod 12289)) (snd (rpo.squeeze_blocks rc 8 n)))"
proof (induction n arbitrary: rc x)
  case (Suc n)
  then show ?case unfolding hash_to_point_loop.simps le_word64_explicit M_rpo_def
    by (simp add: split_beta Let_def)
qed simp

lemma st_A_st_dbuf: "length a = STATE_WIDTH \<Longrightarrow> st_A (st_dbuf a) = a"
  unfolding st_A_def st_dbuf_def
  by (rule nth_equalityI) (simp_all add: take_drop_concat del: upt.simps upt_conv_Cons)

lemma concat_chunks:
  "length b = k * n \<Longrightarrow> concat (map (\<lambda>i. take k (drop (k * i) b)) [0..<n]) = b"
proof (induction n arbitrary: b)
  case (Suc n)
  have "concat (map (\<lambda>i. take k (drop (k * i) (drop k b))) [0..<n]) = drop k b"
    using Suc.prems by (intro Suc.IH) simp
  then show ?case
    unfolding map_upt_Suc by (simp add: drop_drop add.commute [of k] mult_Suc_right del: upt.simps)
qed simp

lemma st_dbuf_st_A:
  assumes "length b = 96"
  shows "st_dbuf (st_A b) = b"
proof -
  have "st_dbuf (st_A b) = concat (map (\<lambda>i. take 8 (drop (8 * i) b)) [0..<STATE_WIDTH])"
    unfolding st_dbuf_def st_A_def map_map comp_def using assms
    by (intro arg_cong [where f = concat] map_cong refl) (simp add: le_bytes64_word)
  then show ?thesis using concat_chunks [of b 8 STATE_WIDTH] assms by simp
qed

lemma squeeze_word:
  assumes "length a = STATE_WIDTH" "r < 8"
  shows "squeeze_bytes 8 (st_dbuf a, 32 + 8 * r) = (le_bytes64 (a ! (4 + r)), st_dbuf a, 32 + 8 * Suc r)"
proof -
  have "take 8 (drop (8 * (4 + r)) (st_dbuf a)) = le_bytes64 (a ! (4 + r))"
    unfolding st_dbuf_def using assms by (intro take_drop_concat) simp_all
  then show ?thesis using squeeze_chunk [of 8 "32 + 8 * r" "st_dbuf a"] assms
    by (simp add: distrib_left)
qed

lemma squeeze_word_permute:
  assumes "length a = STATE_WIDTH"
  shows "squeeze_bytes 8 (st_dbuf a, 96) = squeeze_bytes 8 (st_dbuf (apply_permutation a), 32)"
proof -
  have "squeeze_byte (st_dbuf a, 96) = squeeze_byte (st_dbuf (apply_permutation a), 32)"
    using assms by (simp add: permute_dbuf_def st_A_st_dbuf Let_def)
  then have "squeeze_bytes (Suc 7) (st_dbuf a, 96) = squeeze_bytes (Suc 7) (st_dbuf (apply_permutation a), 32)"
    by (simp only: squeeze_bytes.simps)
  then show ?thesis by simp
qed

lemma squeeze_blocks_words:
  "length a = STATE_WIDTH \<Longrightarrow> r \<le> 8 \<Longrightarrow>
   snd (rpo.squeeze_blocks (ctx_of (st_dbuf a, 32 + 8 * r)) 8 n)
     = map (\<lambda>i. le_bytes64 ((apply_permutation ^^ ((r + i) div 8)) a ! (4 + (r + i) mod 8))) [0..<n]"
proof (induction n arbitrary: a r)
  case (Suc n)
  have ok: "rpo_squeezing (ctx_of (st_dbuf a, 32 + 8 * r))"
    using Suc.prems by (simp add: rpo_squeezing_iff)
  define a' r' where "a' = (if r = 8 then apply_permutation a else a)" and "r' = (if r = 8 then 0 else r)"
  have a': "length a' = STATE_WIDTH" and r': "r' < 8" using Suc.prems by (auto simp: a'_def r'_def)
  have sq: "squeeze_bytes 8 (st_dbuf a, 32 + 8 * r) = (le_bytes64 (a' ! (4 + r')), st_dbuf a', 32 + 8 * Suc r')"
    using squeeze_word [OF a' r'] squeeze_word_permute [OF Suc.prems(1)] by (auto simp: a'_def r'_def)
  have "rpo128_squeeze (ctx_of (st_dbuf a, 32 + 8 * r)) 8
      = (ctx_of (st_dbuf a', 32 + 8 * Suc r'), le_bytes64 (a' ! (4 + r')))"
    using rpo128_squeeze_eq [OF ok] Suc.prems sq by simp
  then have "snd (rpo.squeeze_blocks (ctx_of (st_dbuf a, 32 + 8 * r)) 8 (Suc n))
      = le_bytes64 (a' ! (4 + r')) # map (\<lambda>i. le_bytes64 ((apply_permutation ^^ ((Suc r' + i) div 8)) a' ! (4 + (Suc r' + i) mod 8))) [0..<n]"
    using Suc.IH [OF a', of "Suc r'"] r' by (simp add: split_beta Let_def del: mult_Suc_right)
  also have "\<dots> = map (\<lambda>i. le_bytes64 ((apply_permutation ^^ ((r' + i) div 8)) a' ! (4 + (r' + i) mod 8))) [0..<Suc n]"
    unfolding map_upt_Suc using r' by simp
  also have "\<dots> = map (\<lambda>i. le_bytes64 ((apply_permutation ^^ ((r + i) div 8)) a ! (4 + (r + i) mod 8))) [0..<Suc n]"
    by (cases "r = 8") (simp_all add: a'_def r'_def div_add_self1 funpow_swap1 del: upt.simps)
  finally show ?case .
qed simp

lemma hash_to_point_rpo_words:
  assumes "length (dbuf rc) = 96"
  shows "snd (hash_to_point_rpo (rpo128_finalize rc) logn) =
    map (\<lambda>i. ucast ((apply_permutation ^^ Suc (i div 8)) (st_A (dbuf rc)) ! (4 + i mod 8) mod 12289)) [0..<2 ^ logn]"
proof -
  have fin: "rpo128_finalize rc = ctx_of (st_dbuf (st_A (dbuf rc)), 32 + 8 * 8)"
    using assms by (simp add: rpo128_finalize_def ctx_of_def st_dbuf_st_A)
  show ?thesis unfolding fin hash_to_point_rpo_def hash_to_point_blocks
    by (simp only: squeeze_blocks_words length_st_A) (simp add: div_add_self1)
qed

lemma hash_to_point_rpo_range:
  "\<forall>x \<in> set (snd (hash_to_point_rpo rc logn)). x < 12289"
  "length (snd (hash_to_point_rpo rc logn)) = 2 ^ logn"
proof -
  have "ucast (w mod 12289 :: u64) < (12289 :: u16)" for w :: u64
  proof -
    have "uint (w mod 12289) < 12289" by (simp add: uint_mod)
    then show ?thesis by (simp add: word_less_def uint_ucast_mod)
  qed
  then show "\<forall>x \<in> set (snd (hash_to_point_rpo rc logn)). x < 12289"
    by (auto simp: hash_to_point_rpo_def hash_to_point_blocks)
  have "length (snd (rpo.squeeze_blocks rc 8 n)) = n" for n rc
    by (induction n arbitrary: rc) (simp_all add: split_beta Let_def)
  then show "length (snd (hash_to_point_rpo rc logn)) = 2 ^ logn"
    by (simp add: hash_to_point_rpo_def hash_to_point_blocks)
qed

section \<open>Properties\<close>

lemma rpo_absorbing_init: "rpo_absorbing rpo128_init"
  by (simp add: rpo_absorbing_def rpo128_init_def)

text \<open>
  Absorbing is streaming: splitting a message over several \<open>rpo128_absorb\<close> calls, at
  any byte, gives the context of one call on the whole message.
\<close>

lemma rpo_absorb_streaming:
  assumes "rpo_absorbing rc"
  shows "foldl rpo128_absorb rc chunks = rpo128_absorb rc (concat chunks)"
  using assms by (rule rpo.absorb_chunks)

text \<open>
  Squeezing is streaming: n bytes after m bytes are bytes m to m + n of one long squeeze,
  and a squeeze of n bytes writes exactly n bytes.
\<close>

lemma rpo_squeeze_streaming:
  assumes "rpo_squeezing rc"
  shows "snd (rpo128_squeeze (fst (rpo128_squeeze rc m)) n) = drop m (snd (rpo128_squeeze rc (m + n)))
    \<and> snd (rpo128_squeeze rc m) = take m (snd (rpo128_squeeze rc (m + n)))
    \<and> length (snd (rpo128_squeeze rc n)) = n"
  using assms rpo.squeeze_prefix [OF assms, of m "m + n"] by (simp add: rpo.squeeze_after rpo.squeeze_length)

text \<open>
  Hash-to-point in closed form: coefficient i is the i-th rate word of the squeezed
  states, that is word 4 + i mod 8 of the state after 1 + i div 8 permutations, modulo 12289.
\<close>

lemma hash_to_point_rpo_closed:
  assumes "rpo_absorbing rc"
  shows "snd (hash_to_point_rpo (rpo128_finalize rc) logn) =
    map (\<lambda>i. ucast ((apply_permutation ^^ Suc (i div 8)) (st_A (dbuf rc)) ! (4 + i mod 8) mod 12289)) [0..<2 ^ logn]"
  using assms by (simp add: rpo_absorbing_def hash_to_point_rpo_words)

text \<open>
  Every coefficient hash-to-point writes is below q = 12289, and it writes 2^logn of them.
\<close>

lemma hash_to_point_rpo_bounds:
  "list_all (\<lambda>x. x < 12289) (snd (hash_to_point_rpo rc logn)) \<and> length (snd (hash_to_point_rpo rc logn)) = 2 ^ logn"
  using hash_to_point_rpo_range [of rc logn] by (simp add: list_all_iff)

end
