(* ===== verification/Falcon_Rpo.thy ===== *)
theory Falcon_Rpo
  imports Falcon_Keys Rpo_Sponge
begin

text \<open>
  The signature scheme of falcon.c: Falcon-512 with the RPO hash. The model has one definition per
  function of the file. \<^verbatim>\<open>randombytes\<close> reads from a tape of random bytes, and contexts are
  allocated successfully.
\<close>

section \<open>Model\<close>

text \<open>
  \<^verbatim>\<open>sizeof seed\<close> of the parameter \<^verbatim>\<open>unsigned char *seed\<close> is the size of a pointer, eight bytes.
\<close>

definition crypto_sign_keypair_from_seed_rpo ::
  "(u64 list \<Rightarrow> u8 list \<times> u8 list \<times> u8 list \<times> u16 list) \<Rightarrow> u8 list \<Rightarrow> (u8 list \<times> u8 list) option" where
  "crypto_sign_keypair_from_seed_rpo keygen seed =
     (let rng = seeded_rng (take 8 seed);
          (f, g, F, h) = keygen rng
      in encode_keypair (f, g, F, h))"

definition crypto_sign_keypair_rpo ::
  "(u64 list \<Rightarrow> u8 list \<times> u8 list \<times> u8 list \<times> u16 list) \<Rightarrow> u8 list \<Rightarrow> (u8 list \<times> u8 list) option \<times> u8 list" where
  "crypto_sign_keypair_rpo keygen tape =
     (let (seed, tape) = randombytes 48 tape
      in (crypto_sign_keypair_from_seed_rpo keygen seed, tape))"

definition nonce_buffer :: "u8 list \<Rightarrow> u8 list" where
  "nonce_buffer nonce = fold (\<lambda>i buffer.
     let buffer = buffer[8 * i := nonce ! (5 * i)];
         buffer = buffer[8 * i + 1 := nonce ! (5 * i + 1)];
         buffer = buffer[8 * i + 2 := nonce ! (5 * i + 2)];
         buffer = buffer[8 * i + 3 := nonce ! (5 * i + 3)]
     in buffer[8 * i + 4 := nonce ! (5 * i + 4)]) [0..<8] (replicate 64 0)"

definition hash_message_rpo :: "u8 list \<Rightarrow> u8 list \<Rightarrow> u16 list" where
  "hash_message_rpo nonce m =
     (let buffer = nonce_buffer nonce;
          rc = rpo128_init;
          rc = rpo128_absorb rc (take (NONCELEN + 24) buffer);
          rc = rpo128_absorb rc m;
          rc = rpo128_finalize rc;
          (rc, hm) = hash_to_point_rpo rc 9
      in hm)"

definition do_sign_rpo ::
  "sign_dyn_fun \<Rightarrow> nat \<Rightarrow> u8 list \<Rightarrow> u8 list \<Rightarrow> u8 list \<Rightarrow> ((u8 list \<times> u8 list) option \<times> u8 list) option" where
  "do_sign_rpo sign_dyn sigbuflen m sk tape =
     (case decode_private sk of
        None \<Rightarrow> None
      | Some None \<Rightarrow> Some (None, tape)
      | Some (Some key) \<Rightarrow>
          let (nonce, tape) = randombytes NONCELEN tape;
              hm = hash_message_rpo nonce m;
              (seed, tape) = randombytes 48 tape;
              sc = seeded_rng seed
          in (case sign_loop sign_dyn sigbuflen key hm sc of
                None \<Rightarrow> None
              | Some sigbuf \<Rightarrow> Some (Some (nonce, sigbuf), tape)))"

definition do_verify_rpo :: "u8 list \<Rightarrow> u8 list \<Rightarrow> u8 list \<Rightarrow> u8 list \<Rightarrow> int option" where
  "do_verify_rpo nonce sigbuf m pk =
     (if pk ! 0 \<noteq> 0x00 + 9 then Some (- 1)
      else
        case modq_decode 9 (take (PUBLICKEYBYTES - 1) (drop 1 pk)) of
          None \<Rightarrow> None
        | Some (v, h) \<Rightarrow>
          if v \<noteq> PUBLICKEYBYTES - 1 then Some (- 1)
          else
            let h = to_ntt_monty h 9
            in if length sigbuf = 0 then Some (- 1)
               else
                 let (v, sig) = comp_decode 9 sigbuf
                 in if v \<noteq> length sigbuf then Some (- 1)
                    else
                      let hm = hash_message_rpo nonce m
                      in if verify_raw hm sig h 9 = 0 then Some (- 1) else Some 0)"

definition crypto_sign_signature_rpo ::
  "sign_dyn_fun \<Rightarrow> u8 list \<Rightarrow> u8 list \<Rightarrow> u8 list \<Rightarrow> (u8 list option \<times> u8 list) option" where
  "crypto_sign_signature_rpo sign_dyn m sk tape =
     (let vlen = CRYPTO_BYTES - NONCELEN - 3
      in case do_sign_rpo sign_dyn vlen m sk tape of
           None \<Rightarrow> None
         | Some (None, tape) \<Rightarrow> Some (None, tape)
         | Some (Some (nonce, sigbuf), tape) \<Rightarrow> Some (Some ((0x30 + 9) # nonce @ sigbuf), tape))"

definition crypto_sign_verify_rpo :: "u8 list \<Rightarrow> u8 list \<Rightarrow> u8 list \<Rightarrow> int option" where
  "crypto_sign_verify_rpo sig m pk =
     (if length sig < 1 + NONCELEN then Some (- 1)
      else if sig ! 0 \<noteq> 0x30 + 9 then Some (- 1)
      else do_verify_rpo (take NONCELEN (drop 1 sig)) (drop (1 + NONCELEN) sig) m pk)"

section \<open>The scheme\<close>

lemma length_nonce_buffer [simp]: "length (nonce_buffer nonce) = 64"
  unfolding nonce_buffer_def by (subst fold_length_inv) (simp_all add: Let_def)

lemma hash_message_canon: "canon 512 (hash_message_rpo nonce m)"
  using hash_to_point_rpo_range [of "rpo128_finalize (rpo128_absorb (rpo128_absorb rpo128_init (nonce_buffer nonce)) m)" 9]
  unfolding canon_def hash_message_rpo_def Let_def by (simp add: NONCELEN_def split_beta word_less_def)

interpretation rpo_scheme: falcon_scheme hash_message_rpo "\<lambda>_ _. True" do_sign_rpo do_verify_rpo
proof
  show "canon 512 (hash_message_rpo nonce m)" for nonce m by (rule hash_message_canon)
  show "do_sign_rpo sign_dyn sigbuflen m sk tape = sign_core hash_message_rpo sign_dyn sigbuflen m sk tape"
    for sign_dyn sigbuflen m sk tape
    by (simp add: do_sign_rpo_def sign_core_def randombytes_def NONCELEN_def split: option.splits)
  show "do_verify_rpo nonce sigbuf m pk = verify_core (hash_message_rpo nonce m) sigbuf pk" for nonce sigbuf m pk
    unfolding do_verify_rpo_def verify_core_def Let_def by (rule refl)
qed

lemma verify_rpo_decides:
  assumes "length pk = 897"
  shows "crypto_sign_verify_rpo sig m pk = Some (if \<exists>nonce sigbuf. sig = 0x39 # nonce @ sigbuf \<and> length nonce = 40
    \<and> falcon_accepts (hash_message_rpo nonce m) sigbuf pk then 0 else - 1)"
proof (cases "41 \<le> length sig \<and> sig ! 0 = 0x39")
  case True
  let ?n = "take 40 (drop 1 sig)" and ?s = "drop 41 sig"
  have sig: "sig = 0x39 # ?n @ ?s" using True append_take_drop_id [of 40 "drop 1 sig"] by (cases sig) simp_all
  then have "(\<exists>nonce sigbuf. sig = 0x39 # nonce @ sigbuf \<and> length nonce = 40
    \<and> falcon_accepts (hash_message_rpo nonce m) sigbuf pk) \<longleftrightarrow> falcon_accepts (hash_message_rpo ?n m) ?s pk"
  proof (intro iffI, elim exE conjE)
    fix nonce sigbuf
    assume s: "sig = 0x39 # nonce @ sigbuf" "length nonce = 40" and a: "falcon_accepts (hash_message_rpo nonce m) sigbuf pk"
    have "?n = nonce" "?s = sigbuf" using s by simp_all
    with a show "falcon_accepts (hash_message_rpo ?n m) ?s pk" by (simp only:)
  next
    assume "falcon_accepts (hash_message_rpo ?n m) ?s pk"
    moreover have "40 \<le> length sig - 1" using True by linarith
    then have "length ?n = 40" by simp
    ultimately show "\<exists>nonce sigbuf. sig = 0x39 # nonce @ sigbuf \<and> length nonce = 40
      \<and> falcon_accepts (hash_message_rpo nonce m) sigbuf pk" using sig by blast
  qed
  then show ?thesis using True rpo_scheme.verify_decides [OF TrueI assms]
    by (simp add: crypto_sign_verify_rpo_def NONCELEN_def)
next
  case False
  then have "\<not> (\<exists>nonce sigbuf. sig = 0x39 # nonce @ sigbuf \<and> length nonce = 40 \<and> falcon_accepts (hash_message_rpo nonce m) sigbuf pk)"
    by auto
  then show ?thesis using False by (auto simp: crypto_sign_verify_rpo_def NONCELEN_def)
qed

section \<open>Message extension\<close>

lemma absorb_position:
  "32 \<le> d \<Longrightarrow> d < 96 \<Longrightarrow> snd (fold absorb_byte inp (buf, d)) = 32 + (d - 32 + length inp) mod 64"
proof (induction inp arbitrary: buf d)
  case (Cons b inp)
  show ?case
  proof (cases "Suc d = 96")
    case True
    then have "d = 95" by simp
    then show ?thesis using Cons.IH [of 32] by simp
  next
    case False
    moreover have "Suc d - 32 + length inp = d - 32 + length (b # inp)" using Cons.prems by simp
    ultimately show ?thesis using Cons.IH [of "Suc d"] Cons.prems by simp
  qed
qed simp

lemma absorb_same_byte:
  assumes "rpo_absorbing rc" "dptr rc \<noteq> 95"
  shows "rpo128_finalize (rpo128_absorb rc [dbuf rc ! unat (dptr rc)]) = rpo128_finalize rc"
proof -
  have "unat (dptr rc) \<noteq> 95" using assms(2) by (simp add: word_unat_eq_iff)
  then show ?thesis using rpo128_absorb_eq [OF assms(1)]
    by (simp add: rpo128_finalize_def of_ctx_def ctx_of_def)
qed

lemma hash_message_extends:
  assumes "length m mod 64 \<noteq> 63"
  shows "\<exists>b. hash_message_rpo nonce (m @ [b]) = hash_message_rpo nonce m"
proof -
  let ?start = "rpo128_absorb rpo128_init (nonce_buffer nonce)"
  let ?rc = "rpo128_absorb ?start m"
  have a0: "rpo_absorbing ?start" by (intro rpo.absorb_absorbing rpo_absorbing_init)
  then have a: "rpo_absorbing ?rc" by (rule rpo.absorb_absorbing)
  have eq: "?rc = rpo128_absorb rpo128_init (nonce_buffer nonce @ m)" using rpo.absorb_append [OF rpo_absorbing_init] by simp
  have "snd (of_ctx ?rc) = 32 + (64 + length m) mod 64"
    unfolding eq using absorb_position [of 32 "nonce_buffer nonce @ m" "replicate 96 0"] of_ctx_absorb [OF rpo_absorbing_init]
    by (simp add: of_ctx_def rpo128_init_def)
  then have "dptr ?rc \<noteq> 95" using assms by (auto simp: of_ctx_def)
  from absorb_same_byte [OF a this] obtain b where "rpo128_finalize (rpo128_absorb ?rc [b]) = rpo128_finalize ?rc" by blast
  then have "rpo128_finalize (rpo128_absorb ?start (m @ [b])) = rpo128_finalize ?rc"
    using rpo.absorb_append [OF a0, of m "[b]"] by simp
  then show ?thesis by (intro exI [of _ b]) (simp add: hash_message_rpo_def Let_def NONCELEN_def)
qed

section \<open>Properties\<close>

text \<open>
  (C1) Verification decides the signature relation of Falcon over RPO, for all byte strings: the function
  returns 0 exactly when the signature is the header, a 40-byte nonce and the canonical compressed encoding of
  some \<open>s2\<close>, the public key is the canonical encoding of some \<open>h\<close>, and a vector \<open>s1\<close> with
  \<open>s1 + s2 h = RPO(nonce, m)\<close> makes \<open>(s1, s2)\<close> short; it returns -1 otherwise and never reads outside its buffers.
\<close>

theorem crypto_sign_verify_rpo_correct:
  assumes "length pk = 897"
  shows "crypto_sign_verify_rpo sig m pk =
    (if \<exists>nonce sigbuf h s1 s2. sig = 0x39 # nonce @ sigbuf \<and> length nonce = 40
        \<and> encode_public h = Some pk \<and> length h = 512
        \<and> comp_encode False (length sigbuf) s2 9 = (length sigbuf, sigbuf) \<and> sigbuf \<noteq> [] \<and> length s2 = 512
        \<and> is_preimage 512 (hash_message_rpo nonce m) s1 s2 h
        \<and> (\<Sum>z\<leftarrow>s1. z * z) + (\<Sum>z\<leftarrow>s2. sint z * sint z) \<le> 34034726
     then Some 0 else Some (- 1))"
proof -
  have eq: "(\<exists>nonce sigbuf h s1 s2. sig = 0x39 # nonce @ sigbuf \<and> length nonce = 40
        \<and> encode_public h = Some pk \<and> length h = 512
        \<and> comp_encode False (length sigbuf) s2 9 = (length sigbuf, sigbuf) \<and> sigbuf \<noteq> [] \<and> length s2 = 512
        \<and> is_preimage 512 (hash_message_rpo nonce m) s1 s2 h
        \<and> (\<Sum>z\<leftarrow>s1. z * z) + (\<Sum>z\<leftarrow>s2. sint z * sint z) \<le> 34034726)
    \<longleftrightarrow> (\<exists>nonce sigbuf. sig = 0x39 # nonce @ sigbuf \<and> length nonce = 40 \<and> falcon_accepts (hash_message_rpo nonce m) sigbuf pk)"
    unfolding falcon_accepts_def by blast
  show ?thesis unfolding eq verify_rpo_decides [OF assms] by (rule if_distrib)
qed

theorem crypto_sign_verify_rpo_correct_witness: "crypto_sign_verify_rpo [0x39, 1, 2] [7] (replicate 897 9) = Some (- 1)"
  using crypto_sign_verify_rpo_correct [of "replicate 897 9" "[0x39, 1, 2]" "[7]"]
  by (auto dest!: arg_cong [where f = length] split: if_splits)

lemma rpo_signature_accepted:
  assumes "crypto_sign_signature_rpo sign_dyn m sk tape = Some (Some sig, tape')" "88 \<le> length tape"
    and "decode_private sk = Some (Some key)" "length h = 512" "encode_public h = Some pk"
    and "short_preimages sign_dyn key h (hash_message_rpo (take 40 tape) m)"
  shows "crypto_sign_verify_rpo sig m pk = Some 0 \<and> length sig \<le> 664"
proof -
  obtain nonce sigbuf where s: "do_sign_rpo sign_dyn 623 m sk tape = Some (Some (nonce, sigbuf), tape')" "sig = 0x39 # nonce @ sigbuf"
    using assms(1) by (auto simp: crypto_sign_signature_rpo_def CRYPTO_BYTES_def NONCELEN_def split: option.splits prod.splits)
  then have n: "nonce = take 40 tape"
    by (auto simp: do_sign_rpo_def randombytes_def NONCELEN_def split: option.splits)
  have sp: "short_preimages sign_dyn key h (hash_message_rpo nonce m)" unfolding n by (rule assms(6))
  have "do_verify_rpo nonce sigbuf m pk = Some 0" "length nonce = 40" "length sigbuf \<le> 623"
    by (rule rpo_scheme.signature_accepted [OF s(1) assms(3-5) TrueI sp], use assms(2) in simp)+
  then show ?thesis using s(2) by (simp add: crypto_sign_verify_rpo_def NONCELEN_def)
qed

text \<open>
  (C2) A signature made by \<open>crypto_sign_signature_rpo\<close> verifies: if the sampler returns short preimages of
  the hashed message under the private key that belongs to \<open>pk\<close>, every signature the function writes is accepted
  for its message, and it has at most 664 bytes.
\<close>

theorem rpo_signature_verifies:
  assumes "crypto_sign_signature_rpo sign_dyn m sk tape = Some (Some sig, tape')" "88 \<le> length tape"
    and "decode_private sk = Some (Some key)" "length h = 512" "encode_public h = Some pk"
    and "short_preimages sign_dyn key h (hash_message_rpo (take 40 tape) m)"
  shows "crypto_sign_verify_rpo sig m pk = Some 0 \<and> length sig \<le> 664"
  by (rule rpo_signature_accepted [OF assms])

theorem rpo_signature_verifies_witness:
  "\<exists>sign_dyn sk tape pk sig tape'. crypto_sign_signature_rpo sign_dyn [1, 2, 3] sk tape = Some (Some sig, tape')
    \<and> crypto_sign_verify_rpo sig [1, 2, 3] pk = Some 0 \<and> length sig \<le> 664"
proof -
  let ?tape = "replicate 88 5 :: u8 list"
  let ?h = "hash_message_rpo (take 40 ?tape) [1, 2, 3]"
  let ?sd = "\<lambda>sc key hm. (sc, one_poly) :: u64 list \<times> u16 list"
  obtain sk G where sk: "decode_private sk = Some (Some (one_poly, replicate 512 0, replicate 512 0, G))" by (rule one_key)
  obtain pk where pk: "encode_public ?h = Some pk" using canon_public [OF hash_message_canon] by blast
  have sp: "short_preimages ?sd (one_poly, replicate 512 0, replicate 512 0, G) ?h ?h"
    unfolding short_preimages_def Let_def snd_conv
  proof (intro allI conjI)
    show "length (one_poly :: u16 list) = 512" by (simp add: one_poly_def)
  qed (use one_signature [OF hash_message_canon] in blast)
  have "sign_loop ?sd 623 key hm sc = Some (snd (comp_encode False 623 one_poly 9))" for key hm sc
    by (rule one_sign_loop) simp
  then obtain sig where "crypto_sign_signature_rpo ?sd [1, 2, 3] sk ?tape = Some (Some sig, [])"
    by (simp add: crypto_sign_signature_rpo_def do_sign_rpo_def sk randombytes_def CRYPTO_BYTES_def NONCELEN_def)
  moreover from rpo_signature_verifies [OF this _ sk _ pk sp] hash_message_canon [of "take 40 ?tape"]
  have "crypto_sign_verify_rpo sig [1, 2, 3] pk = Some 0 \<and> length sig \<le> 664" by simp
  ultimately show ?thesis by blast
qed

text \<open>
  (C5) Key pairs: for whatever the generator returns, key generation succeeds exactly when the coefficients of
  f and g are in -31..31, those of F in -127..127 and those of h below q; the keys then have 897 and 1281 bytes,
  the private key decodes to f, g and F, and the public key to h.
\<close>

theorem keypair_rpo_roundtrip:
  assumes "keygen (seeded_rng (take 8 seed)) = (f, g, F, h)" "length f = 512" "length g = 512" "length F = 512" "length h = 512"
  shows "(crypto_sign_keypair_from_seed_rpo keygen seed \<noteq> None \<longleftrightarrow>
      (\<forall>x \<in> set f. \<bar>sint x\<bar> \<le> 31) \<and> (\<forall>x \<in> set g. \<bar>sint x\<bar> \<le> 31) \<and> (\<forall>x \<in> set F. \<bar>sint x\<bar> \<le> 127) \<and> (\<forall>x \<in> set h. x < 12289))
    \<and> (\<forall>pk sk. crypto_sign_keypair_from_seed_rpo keygen seed = Some (pk, sk) \<longrightarrow>
      length pk = 897 \<and> length sk = 1281 \<and> modq_decode 9 (drop 1 pk) = Some (896, h) \<and>
      decode_private sk = (let (r, G) = complete_private (replicate 512 0) f g F 9
        in if r = 0 then Some None else Some (Some (f, g, F, G))))"
proof -
  have v: "list_all (trim_valid 6) x \<longleftrightarrow> (\<forall>y \<in> set x. \<bar>sint y\<bar> \<le> 31)" "list_all (trim_valid 8) x \<longleftrightarrow> (\<forall>y \<in> set x. \<bar>sint y\<bar> \<le> 127)"
    for x :: "u8 list" by (auto simp: list_all_iff trim_valid_def abs_le_iff)
  have k: "crypto_sign_keypair_from_seed_rpo keygen seed =
      (case encode_private f g F of None \<Rightarrow> None | Some sk \<Rightarrow> (case encode_public h of None \<Rightarrow> None | Some pk \<Rightarrow> Some (pk, sk)))"
    by (simp add: crypto_sign_keypair_from_seed_rpo_def encode_keypair_def assms(1))
  have "crypto_sign_keypair_from_seed_rpo keygen seed \<noteq> None \<longleftrightarrow>
      (\<exists>sk. encode_private f g F = Some sk) \<and> (\<exists>pk. encode_public h = Some pk)"
    unfolding k by (auto split: option.splits)
  moreover have "length pk = 897 \<and> length sk = 1281 \<and> modq_decode 9 (drop 1 pk) = Some (896, h) \<and>
      decode_private sk = (let (r, G) = complete_private (replicate 512 0) f g F 9
        in if r = 0 then Some None else Some (Some (f, g, F, G)))"
    if "crypto_sign_keypair_from_seed_rpo keygen seed = Some (pk, sk)" for pk sk
  proof -
    have e: "encode_private f g F = Some sk" "encode_public h = Some pk" using that unfolding k by (auto split: option.splits)
    then have "key_bytes sk f g F" using assms(2-4) by (simp add: key_bytes_def)
    then show ?thesis using decode_private_encoded [of sk f g F] encode_public_canon [OF assms(5) e(2)] by blast
  qed
  ultimately show ?thesis
    unfolding encode_private_iff [OF assms(2-4)] encode_public_iff [OF assms(5)] v by (simp add: list_all_iff)
qed

theorem keypair_rpo_roundtrip_witness:
  "crypto_sign_keypair_from_seed_rpo (\<lambda>_. (replicate 512 32, replicate 512 0, replicate 512 0, replicate 512 0)) [] = None \<and>
    (\<exists>pk sk. crypto_sign_keypair_from_seed_rpo (\<lambda>_. (replicate 512 31, replicate 512 0, replicate 512 127, replicate 512 12288)) [] = Some (pk, sk) \<and>
      length pk = 897 \<and> length sk = 1281 \<and> modq_decode 9 (drop 1 pk) = Some (896, replicate 512 12288))"
proof -
  let ?bad = "\<lambda>_. (replicate 512 32, replicate 512 0, replicate 512 0, replicate 512 0)"
  let ?good = "\<lambda>_. (replicate 512 31, replicate 512 0, replicate 512 127, replicate 512 12288)"
  have "crypto_sign_keypair_from_seed_rpo ?bad [] = None"
    using keypair_rpo_roundtrip [of ?bad "[]" "replicate 512 32" "replicate 512 0" "replicate 512 0" "replicate 512 0"]
    by (cases "crypto_sign_keypair_from_seed_rpo ?bad []") auto
  moreover note r = keypair_rpo_roundtrip [of ?good "[]" "replicate 512 31" "replicate 512 0" "replicate 512 127" "replicate 512 12288"]
  have "crypto_sign_keypair_from_seed_rpo ?good [] \<noteq> None" using r by simp
  then obtain pk sk where "crypto_sign_keypair_from_seed_rpo ?good [] = Some (pk, sk)" by fast
  ultimately show ?thesis using r by auto
qed

text \<open>
  The seed of \<open>crypto_sign_keypair_from_seed_rpo\<close> enters with eight bytes only, whatever the key generator is.
\<close>

lemma keypair_seed_truncated:
  assumes "take 8 seed = take 8 seed'"
  shows "crypto_sign_keypair_from_seed_rpo keygen seed = crypto_sign_keypair_from_seed_rpo keygen seed'"
  using assms by (simp add: crypto_sign_keypair_from_seed_rpo_def)

text \<open>
  (C17) Messages are absorbed without padding: for every signature and every message whose length is not 63
  modulo 64 there is a byte by which the message can be extended without changing the outcome of
  verification under any key.
\<close>

theorem rpo_message_extension:
  assumes "length m mod 64 \<noteq> 63"
  shows "\<exists>b. \<forall>pk. crypto_sign_verify_rpo sig (m @ [b]) pk = crypto_sign_verify_rpo sig m pk"
proof -
  obtain b where "hash_message_rpo (take 40 (drop 1 sig)) (m @ [b]) = hash_message_rpo (take 40 (drop 1 sig)) m"
    using hash_message_extends [OF assms] by blast
  then show ?thesis
    by (intro exI [of _ b]) (simp add: crypto_sign_verify_rpo_def rpo_scheme.do_verify_core NONCELEN_def)
qed

theorem rpo_message_extension_witness:
  "\<exists>b. \<forall>pk. crypto_sign_verify_rpo (0x39 # replicate 600 0) ([1, 2, 3] @ [b]) pk = crypto_sign_verify_rpo (0x39 # replicate 600 0) [1, 2, 3] pk"
  by (rule rpo_message_extension) simp

end
