(* ===== verification/Generated_Keys.thy ===== *)
theory Generated_Keys
  imports Keygen Falcon_Rpo
begin

text \<open>
  Generated keys in the signature scheme: a key that satisfies what key generation guarantees is encoded, its
  encoding is decoded to the same key, the fourth polynomial included.
\<close>

section \<open>Generated keys in use\<close>

lemma negacyclic_of_int: "of_int (negacyclic n a b k) = negacyclic n (\<lambda>i. of_int (a i)) (\<lambda>i. of_int (b i)) k"
  unfolding negacyclic_def of_int_sum by (rule sum.cong) simp_all

lemma negacyclic_fq_commute:
  assumes "logn \<le> 10" "k < 2 ^ logn"
  shows "negacyclic (2 ^ logn) a b k = negacyclic (2 ^ logn) b (a :: nat \<Rightarrow> fq) k"
  by (rule ev_inj [OF assms(1) _ assms(2)]) (simp only: ev_negacyclic [OF assms(1)] mult.commute)

lemma sz_small_inj: "\<bar>sint (x :: u8)\<bar> \<le> 127 \<Longrightarrow> \<bar>sint (y :: u8)\<bar> \<le> 127 \<Longrightarrow> (of_int (sint x) :: fq) = of_int (sint y) \<Longrightarrow> x = y"
proof -
  assume h: "\<bar>sint x\<bar> \<le> 127" "\<bar>sint y\<bar> \<le> 127" "(of_int (sint x) :: fq) = of_int (sint y)"
  have "sint x mod 12289 = sint y mod 12289" using h(3) of_int_fq by blast
  then have "(sint x - sint y) mod 12289 = 0" by (simp add: mod_eq_dvd_iff mod_eq_0_iff_dvd)
  then have "sint x - sint y = 0" by (rule small_multiple) (use h(1,2) in linarith)
  then have "(word_of_int (sint x) :: u8) = word_of_int (sint y)" by simp
  then show "x = y" by simp
qed

lemma ntru_equation_mod_q:
  assumes "logn \<le> 10" "ntru_equation (2 ^ logn) f g F G" "k < 2 ^ logn"
  shows "negacyclic (2 ^ logn) (sz G) (sz f) k = negacyclic (2 ^ logn) (sz g) (sz F) k"
proof -
  have e: "negacyclic (2 ^ logn) (cf f) (cf G) k - negacyclic (2 ^ logn) (cf g) (cf F) k = (if k = 0 then 12289 else 0)"
    using assms(2,3) by (simp add: ntru_equation_def)
  have "(of_int (negacyclic (2 ^ logn) (cf f) (cf G) k - negacyclic (2 ^ logn) (cf g) (cf F) k) :: fq) = 0"
    unfolding e using of_int_fq [of 12289 0] by simp
  then have "negacyclic (2 ^ logn) (sz f) (sz G) k = negacyclic (2 ^ logn) (sz g) (sz F) k" by (simp add: negacyclic_of_int)
  then show ?thesis using negacyclic_fq_commute [OF assms(1,3), of "sz G" "sz f"] by simp
qed

lemma complete_private_recovers:
  assumes "ntru_key logn (f, g, F, G, h)" "logn \<le> 10" "length G0 = 2 ^ logn"
  shows "complete_private G0 f g F logn = (1, G)"
proof -
  let ?n = "2 ^ logn :: nat"
  have l: "length f = ?n" "length g = ?n" "length F = ?n" "length G = ?n" and small: "\<And>k. k < ?n \<Longrightarrow> \<bar>sint (G ! k)\<bar> \<le> 127"
    and eq: "ntru_equation ?n f g F G" and inv: "invertible ?n (sz f)" using assms(1) by (simp_all add: ntru_key_def coeffs_within_def)
  obtain r G' where c: "complete_private G0 f g F logn = (r, G')" by fastforce
  note C = complete_private_exact [OF assms(2) l(1-3) assms(3) inv c]
  have "\<exists>v. \<forall>k<?n. \<bar>v k\<bar> \<le> 127 \<and> negacyclic ?n (\<lambda>i. of_int (v i)) (sz f) k = negacyclic ?n (sz g) (sz F) k"
    using small ntru_equation_mod_q [OF assms(2) eq] by (intro exI [of _ "cf G"]) simp
  then have r: "r = 1" using C(1) by simp
  have "G' ! k = G ! k" if "k < ?n" for k
  proof (rule sz_small_inj)
    show "\<bar>sint (G' ! k)\<bar> \<le> 127" "\<bar>sint (G ! k)\<bar> \<le> 127" using C(3) [OF r that] small [OF that] by simp_all
    show "sz G' k = sz G k"
      by (rule quotient_unique [OF assms(2) inv that]) (use C(3) [OF r] ntru_equation_mod_q [OF assms(2) eq] in simp)
  qed
  then have "G' = G" using C(2) [OF r] l(4) by (intro nth_equalityI) simp_all
  then show ?thesis using c r by simp
qed

section \<open>A concrete key\<close>

text \<open>
  A key of degree 512 in the subring generated by \<open>X^256\<close>: f = 30 + 27 X^256, g = 26 + 25 X^256,
  F = -121 + 110 X^256 and G = 115 - 109 X^256.
\<close>

definition two_terms :: "u8 \<Rightarrow> u8 \<Rightarrow> u8 list" where
  "two_terms a b = a # replicate 255 0 @ b # replicate 255 0"

lemma two_terms_nth: "i < 512 \<Longrightarrow> two_terms a b ! i = (if i = 0 then a else if i = 256 then b else 0)"
  by (cases i) (auto simp: two_terms_def nth_append nth_Cons')

lemma length_two_terms [simp]: "length (two_terms a b) = 512"
  by (simp add: two_terms_def)

lemma negacyclic_two_left:
  assumes "\<And>i. i < 512 \<Longrightarrow> U i = (if i = 0 then a else if i = 256 then b else 0)" "k < 512"
  shows "negacyclic 512 U V k = a * V k + b * (if 256 \<le> k then V (k - 256) else - V (256 + k))"
proof -
  have "negacyclic 512 U V k = (\<Sum>i\<in>{0, 256}. U i * (if i \<le> k then V (k - i) else - V (512 + k - i)))"
    unfolding negacyclic_def by (rule sum.mono_neutral_right) (auto simp: assms(1))
  then show ?thesis using assms(1) [of 0] assms(1) [of 256] by simp
qed

lemma negacyclic_two_terms:
  assumes "\<And>i. i < 512 \<Longrightarrow> U i = (if i = 0 then a else if i = 256 then b else 0)"
    and "\<And>i. i < 512 \<Longrightarrow> V i = (if i = 0 then c else if i = 256 then d else 0)" "k < 512"
  shows "negacyclic 512 U V k = (if k = 0 then a * c - b * d else if k = 256 then a * d + b * c else 0)"
proof -
  have "negacyclic 512 U V k = a * V k + b * (if 256 \<le> k then V (k - 256) else - V (256 + k))" using assms(1,3) by (rule negacyclic_two_left)
  then show ?thesis using assms(2,3) by (auto simp: algebra_simps)
qed

definition sample_f :: "u8 list" where "sample_f = two_terms 30 27"
definition sample_g :: "u8 list" where "sample_g = two_terms 26 25"
definition sample_F :: "u8 list" where "sample_F = two_terms (- 121) 110"
definition sample_G :: "u8 list" where "sample_G = two_terms 115 (- 109)"

lemmas sample_defs = sample_f_def sample_g_def sample_F_def sample_G_def

lemma sample_equation: "ntru_equation 512 sample_f sample_g sample_F sample_G"
  unfolding ntru_equation_def
proof (intro allI impI)
  fix k :: nat assume k: "k < 512"
  have "negacyclic 512 (cf sample_f) (cf sample_G) k = (if k = 0 then 30 * 115 - 27 * - 109 else if k = 256 then 30 * - 109 + 27 * 115 else 0)"
    by (rule negacyclic_two_terms [OF _ _ k]) (simp_all add: sample_defs two_terms_nth)
  moreover have "negacyclic 512 (cf sample_g) (cf sample_F) k = (if k = 0 then 26 * - 121 - 25 * 110 else if k = 256 then 26 * 110 + 25 * - 121 else 0)"
    by (rule negacyclic_two_terms [OF _ _ k]) (simp_all add: sample_defs two_terms_nth)
  ultimately show "negacyclic 512 (cf sample_f) (cf sample_G) k - negacyclic 512 (cf sample_g) (cf sample_F) k = (if k = 0 then 12289 else 0)" by simp
qed

lemma sample_within:
  "coeffs_within 512 31 sample_f" "coeffs_within 512 31 sample_g" "coeffs_within 512 127 sample_F" "coeffs_within 512 127 sample_G"
  by (simp_all add: coeffs_within_def sample_defs two_terms_nth)

lemma sum_two_terms: "(\<Sum>i<512. sint (two_terms a b ! i)) = sint a + sint b"
proof -
  have "(\<Sum>i<512. sint (two_terms a b ! i)) = (\<Sum>i\<in>{0, 256}. sint (two_terms a b ! i))"
    by (rule sum.mono_neutral_right) (auto simp: two_terms_nth)
  then show ?thesis by (simp add: two_terms_nth)
qed

lemma norm_two_terms: "(\<Sum>z\<leftarrow>two_terms a b. sint z * sint z) = sint a * sint a + sint b * sint b"
  by (simp add: two_terms_def sum_list_replicate)

lemma sample_sums: "odd (\<Sum>i<512. sint (sample_f ! i))" "odd (\<Sum>i<512. sint (sample_g ! i))"
  "(\<Sum>z\<leftarrow>sample_f. sint z * sint z) + (\<Sum>z\<leftarrow>sample_g. sint z * sint z) < 16823"
  unfolding sample_defs sum_two_terms norm_two_terms by simp_all

lemma sample_invertible: "invertible 512 (sz sample_f)"
  unfolding invertible_def
proof (intro exI allI impI)
  fix k :: nat assume k: "k < 512"
  have "negacyclic 512 (\<lambda>i. if i = 0 then 30 * 3953 else if i = 256 then - 27 * 3953 else 0) (sz sample_f) k =
      (if k = 0 then 30 * 3953 * 30 - - 27 * 3953 * 27 else if k = 256 then 30 * 3953 * 27 + - 27 * 3953 * 30 else 0 :: fq)"
    by (rule negacyclic_two_terms [OF _ _ k]) (simp_all add: sample_defs two_terms_nth)
  also have "\<dots> = (if k = 0 then 1 else 0)" by simp
  finally show "negacyclic 512 (\<lambda>i. if i = 0 then 30 * 3953 else if i = 256 then - 27 * 3953 else 0) (sz sample_f) k = (if k = 0 then 1 else 0)" .
qed

lemma sample_key:
  obtains h where "ntru_key 9 (sample_f, sample_g, sample_F, sample_G, h)"
proof -
  obtain r h where c: "compute_public sample_f sample_g 9 = (r, h)" by fastforce
  have l: "length sample_f = 2 ^ 9" "length sample_g = 2 ^ 9" by (simp_all add: sample_defs)
  note P = compute_public_exact [OF _ l c]
  have "r = 1" using P(1) sample_invertible by simp
  then have "ntru_key 9 (sample_f, sample_g, sample_F, sample_G, h)"
    using P sample_equation sample_within sample_invertible
    sample_sums by (simp add: ntru_key_def bits9)
  then show thesis by (rule that)
qed

section \<open>Properties\<close>

lemma within_trim:
  "length f = 512 \<Longrightarrow> coeffs_within 512 31 f \<Longrightarrow> list_all (trim_valid 6) f" "length f = 512 \<Longrightarrow> coeffs_within 512 127 f \<Longrightarrow> list_all (trim_valid 8) f"
  by (auto simp: coeffs_within_def list_all_length trim_valid_def abs_le_iff)

lemma ntru_key_9:
  assumes "ntru_key 9 (f, g, F, G, h)"
  shows "coeffs_within 512 31 f" "coeffs_within 512 31 g" "coeffs_within 512 127 F" "length f = 512" "length g = 512" "length F = 512" "canon 512 h"
  using assms by (simp_all add: ntru_key_def bits9 coeffs_within_def)

text \<open>
  (C3) Generated keys survive storage: when key generation returns a key with the guarantees of \<open>keygen_sound\<close>,
  \<open>crypto_sign_keypair_from_seed_rpo\<close> succeeds and writes a public key of 897 and a private key of 1281 bytes; the
  public key decodes to h, and the private key to f, g, F and the very G of the generation: G is not stored, and
  \<open>complete_private\<close> recovers it because f is invertible modulo q and the coefficients of G are at most 127.
\<close>

theorem generated_keys_work:
  assumes "ntru_key 9 (f, g, F, G, h)" "kg (seeded_rng (take 8 seed)) = (f, g, F, h)"
  shows "\<exists>pk sk. crypto_sign_keypair_from_seed_rpo kg seed = Some (pk, sk) \<and> length pk = 897 \<and> length sk = 1281 \<and>
    modq_decode 9 (drop 1 pk) = Some (896, h) \<and> decode_private sk = Some (Some (f, g, F, G))"
proof -
  note k = ntru_key_9 [OF assms(1)]
  have h: "length h = 512" using k(7) by simp
  obtain sk where sk: "encode_private f g F = Some sk"
    using encode_private_iff [OF k(4-6)] within_trim(1) [OF k(4,1)] within_trim(1) [OF k(5,2)] within_trim(2) [OF k(6,3)] by blast
  obtain pk where pk: "encode_public h = Some pk" using canon_public [OF k(7)] by blast
  have "complete_private (replicate 512 0) f g F 9 = (1, G)" by (rule complete_private_recovers [OF assms(1)]) simp_all
  then have d: "decode_private sk = Some (Some (f, g, F, G))" "length sk = 1281"
    using decode_private_encoded [of sk f g F] sk k(4-6) by (simp_all add: key_bytes_def)
  moreover have "crypto_sign_keypair_from_seed_rpo kg seed = Some (pk, sk)"
    by (simp add: crypto_sign_keypair_from_seed_rpo_def encode_keypair_def assms(2) sk pk)
  ultimately show ?thesis using encode_public_canon(2,4) [OF h pk] by blast
qed

theorem generated_keys_work_witness:
  "\<exists>h pk sk. ntru_key 9 (sample_f, sample_g, sample_F, sample_G, h) \<and>
    crypto_sign_keypair_from_seed_rpo (\<lambda>_. (sample_f, sample_g, sample_F, h)) [1, 2, 3] = Some (pk, sk) \<and> length pk = 897 \<and> length sk = 1281 \<and>
    modq_decode 9 (drop 1 pk) = Some (896, h) \<and> decode_private sk = Some (Some (sample_f, sample_g, sample_F, sample_G))"
proof -
  obtain h where h: "ntru_key 9 (sample_f, sample_g, sample_F, sample_G, h)" by (rule sample_key)
  from generated_keys_work [OF h, of "\<lambda>_. (sample_f, sample_g, sample_F, h)" "[1, 2, 3]"] h show ?thesis by blast
qed

end
