(* ===== verification/Fpr.thy ===== *)
theory Fpr
  imports Prelude
begin

text \<open>
  The emulated floating point of fpr.h and fpr.c: IEEE-754 binary64 values in 64-bit words, without infinities,
  NaNs and subnormals, computed with integer operations and without branches. Variables of type \<^verbatim>\<open>int\<close> are
  32-bit words; a right shift of a signed value is \<open>signed_drop_bit\<close>.
\<close>

type_synonym fpr = u64

section \<open>Shifts and packing (fpr.h)\<close>

definition fpr_ursh :: "u64 \<Rightarrow> u32 \<Rightarrow> u64" where
  "fpr_ursh x n =
     (let x = x XOR ((x XOR drop_bit 32 x) AND - scast (signed_drop_bit 5 n))
      in drop_bit (unat (n AND 31)) x)"

definition fpr_irsh :: "u64 \<Rightarrow> u32 \<Rightarrow> u64" where
  "fpr_irsh x n =
     (let x = x XOR ((x XOR signed_drop_bit 32 x) AND - scast (signed_drop_bit 5 n))
      in signed_drop_bit (unat (n AND 31)) x)"

definition fpr_ulsh :: "u64 \<Rightarrow> u32 \<Rightarrow> u64" where
  "fpr_ulsh x n =
     (let x = x XOR ((x XOR push_bit 32 x) AND - scast (signed_drop_bit 5 n))
      in push_bit (unat (n AND 31)) x)"

definition FPR :: "u32 \<Rightarrow> u32 \<Rightarrow> u64 \<Rightarrow> fpr" where
  "FPR s e m =
     (let e = e + 1076;
          t = drop_bit 31 e;
          m = m AND (ucast t - 1);
          t = ucast (drop_bit 54 m);
          e = e AND - t;
          x = (push_bit 63 (scast s) OR drop_bit 2 m) + push_bit 52 (ucast e);
          f = ucast m AND 7 :: u32
      in x + ucast (drop_bit (unat f) (0xC8 :: u32) AND 1))"

section \<open>Conversions from integers (fpr.c, fpr.h)\<close>

definition norm64_step :: "nat \<Rightarrow> nat \<Rightarrow> u64 \<times> u32 \<Rightarrow> u64 \<times> u32" where
  "norm64_step sh lg st =
     (let (m, e) = st;
          nt = ucast (drop_bit (64 - sh) m) :: u32;
          nt = drop_bit 31 (nt OR - nt);
          m = m XOR ((m XOR push_bit sh m) AND (ucast nt - 1))
      in (m, e + push_bit lg nt))"

definition FPR_NORM64 :: "u64 \<Rightarrow> u32 \<Rightarrow> u64 \<times> u32" where
  "FPR_NORM64 m e =
     (let e = e - 63;
          (m, e) = norm64_step 32 5 (m, e);
          (m, e) = norm64_step 16 4 (m, e);
          (m, e) = norm64_step 8 3 (m, e);
          (m, e) = norm64_step 4 2 (m, e);
          (m, e) = norm64_step 2 1 (m, e);
          nt = ucast (drop_bit 63 m) :: u32;
          m = m XOR ((m XOR push_bit 1 m) AND (ucast nt - 1))
      in (m, e + nt))"

definition fpr_scaled :: "u64 \<Rightarrow> u32 \<Rightarrow> fpr" where
  "fpr_scaled i sc =
     (let s = ucast (drop_bit 63 i) :: u32;
          i = i XOR - scast s;
          i = i + scast s;
          m = i;
          e = 9 + sc;
          (m, e) = FPR_NORM64 m e;
          m = m OR ucast ((ucast m AND 0x1FF :: u32) + 0x1FF);
          m = drop_bit 9 m;
          t = ucast (drop_bit 63 (i OR - i)) :: u32;
          m = m AND - ucast t;
          e = e AND - t
      in FPR s e m)"

definition fpr_of :: "u64 \<Rightarrow> fpr" where
  "fpr_of i = fpr_scaled i 0"

section \<open>Conversions to integers (fpr.h)\<close>

definition fpr_rint :: "fpr \<Rightarrow> u64" where
  "fpr_rint x =
     (let m = (push_bit 10 x OR push_bit 62 1) AND (push_bit 63 1 - 1);
          e = 1085 - (ucast (drop_bit 52 x) AND 0x7FF) :: u32;
          m = m AND - ucast (drop_bit 31 (e - 64));
          e = e AND 63;
          d = fpr_ulsh m (63 - e);
          dd = ucast d OR (ucast (drop_bit 32 d) AND 0x1FFFFFFF) :: u32;
          f = ucast (drop_bit 61 d) OR drop_bit 31 (dd OR - dd);
          m = fpr_ursh m e + ucast (drop_bit (unat f) (0xC8 :: u32) AND 1);
          s = ucast (drop_bit 63 x) :: u32
      in (m XOR - ucast s) + ucast s)"

definition fpr_floor :: "fpr \<Rightarrow> u64" where
  "fpr_floor x =
     (let e = ucast (drop_bit 52 x) AND 0x7FF :: u32;
          t = drop_bit 63 x;
          xi = (push_bit 10 x OR push_bit 62 1) AND (push_bit 63 1 - 1);
          xi = (xi XOR - t) + t;
          cc = 1085 - e;
          xi = fpr_irsh xi (cc AND 63)
      in xi XOR ((xi XOR - t) AND - ucast (drop_bit 31 (63 - cc))))"

definition fpr_trunc :: "fpr \<Rightarrow> u64" where
  "fpr_trunc x =
     (let e = ucast (drop_bit 52 x) AND 0x7FF :: u32;
          xu = (push_bit 10 x OR push_bit 62 1) AND (push_bit 63 1 - 1);
          cc = 1085 - e;
          xu = fpr_ursh xu (cc AND 63);
          xu = xu AND - ucast (drop_bit 31 (cc - 64));
          t = drop_bit 63 x
      in (xu XOR - t) + t)"

section \<open>Arithmetic (fpr.c, fpr.h)\<close>

definition fpr_add :: "fpr \<Rightarrow> fpr \<Rightarrow> fpr" where
  "fpr_add x y =
     (let m = push_bit 63 1 - 1;
          za = (x AND m) - (y AND m);
          cs = ucast (drop_bit 63 za) OR ((1 - ucast (drop_bit 63 (- za))) AND ucast (drop_bit 63 x)) :: u32;
          m = (x XOR y) AND - ucast cs;
          x = x XOR m;
          y = y XOR m;
          ex = ucast (drop_bit 52 x) :: u32;
          sx = signed_drop_bit 11 ex;
          ex = ex AND 0x7FF;
          m = push_bit 52 (ucast (signed_drop_bit 11 (ex + 0x7FF)));
          xu = push_bit 3 ((x AND (push_bit 52 1 - 1)) OR m);
          ex = ex - 1078;
          ey = ucast (drop_bit 52 y) :: u32;
          sy = signed_drop_bit 11 ey;
          ey = ey AND 0x7FF;
          m = push_bit 52 (ucast (signed_drop_bit 11 (ey + 0x7FF)));
          yu = push_bit 3 ((y AND (push_bit 52 1 - 1)) OR m);
          ey = ey - 1078;
          cc = ex - ey;
          yu = yu AND - ucast (drop_bit 31 (cc - 60));
          cc = cc AND 63;
          m = fpr_ulsh 1 cc - 1;
          yu = yu OR ((yu AND m) + m);
          yu = fpr_ursh yu cc;
          xu = xu + (yu - (push_bit 1 yu AND - scast (sx XOR sy)));
          (xu, ex) = FPR_NORM64 xu ex;
          xu = xu OR ucast ((ucast xu AND 0x1FF :: u32) + 0x1FF);
          xu = drop_bit 9 xu;
          ex = ex + 9
      in FPR sx ex xu)"

definition fpr_sub :: "fpr \<Rightarrow> fpr \<Rightarrow> fpr" where
  "fpr_sub x y = fpr_add x (y XOR push_bit 63 1)"

definition fpr_neg :: "fpr \<Rightarrow> fpr" where
  "fpr_neg x = x XOR push_bit 63 1"

definition fpr_half :: "fpr \<Rightarrow> fpr" where
  "fpr_half x =
     (let x = x - push_bit 52 1;
          t = drop_bit 11 ((ucast (drop_bit 52 x) AND 0x7FF) + 1) :: u32
      in x AND (ucast t - 1))"

definition fpr_double :: "fpr \<Rightarrow> fpr" where
  "fpr_double x = x + push_bit 52 (ucast (drop_bit 11 ((ucast (drop_bit 52 x) AND 0x7FF) + 0x7FF :: u32)))"

definition fpr_mul :: "fpr \<Rightarrow> fpr \<Rightarrow> fpr" where
  "fpr_mul x y =
     (let xu = (x AND (push_bit 52 1 - 1)) OR push_bit 52 1;
          yu = (y AND (push_bit 52 1 - 1)) OR push_bit 52 1;
          x0 = ucast xu AND 0x01FFFFFF :: u32;
          x1 = ucast (drop_bit 25 xu) :: u32;
          y0 = ucast yu AND 0x01FFFFFF :: u32;
          y1 = ucast (drop_bit 25 yu) :: u32;
          w = ucast x0 * ucast y0 :: u64;
          z0 = ucast w AND 0x01FFFFFF :: u32;
          z1 = ucast (drop_bit 25 w) :: u32;
          w = ucast x0 * ucast y1 :: u64;
          z1 = z1 + (ucast w AND 0x01FFFFFF);
          z2 = ucast (drop_bit 25 w) :: u32;
          w = ucast x1 * ucast y0 :: u64;
          z1 = z1 + (ucast w AND 0x01FFFFFF);
          z2 = z2 + ucast (drop_bit 25 w);
          zu = ucast x1 * ucast y1 :: u64;
          z2 = z2 + drop_bit 25 z1;
          z1 = z1 AND 0x01FFFFFF;
          zu = zu + ucast z2;
          zu = zu OR ucast (drop_bit 25 ((z0 OR z1) + 0x01FFFFFF));
          zv = drop_bit 1 zu OR (zu AND 1);
          w = drop_bit 55 zu;
          zu = zu XOR ((zu XOR zv) AND - w);
          ex = ucast (drop_bit 52 x AND 0x7FF) :: u32;
          ey = ucast (drop_bit 52 y AND 0x7FF) :: u32;
          e = ex + ey - 2100 + ucast w;
          s = ucast (drop_bit 63 (x XOR y));
          d = signed_drop_bit 11 ((ex + 0x7FF) AND (ey + 0x7FF));
          zu = zu AND - scast d
      in FPR s e zu)"

definition fpr_sqr :: "fpr \<Rightarrow> fpr" where
  "fpr_sqr x = fpr_mul x x"

definition div_step :: "u64 \<Rightarrow> u64 \<times> u64 \<Rightarrow> u64 \<times> u64" where
  "div_step yu st =
     (let (xu, q) = st;
          b = drop_bit 63 (xu - yu) - 1;
          xu = xu - (b AND yu);
          q = q OR (b AND 1)
      in (push_bit 1 xu, push_bit 1 q))"

definition fpr_div :: "fpr \<Rightarrow> fpr \<Rightarrow> fpr" where
  "fpr_div x y =
     (let xu = (x AND (push_bit 52 1 - 1)) OR push_bit 52 1;
          yu = (y AND (push_bit 52 1 - 1)) OR push_bit 52 1;
          (xu, q) = (div_step yu ^^ 55) (xu, 0);
          q = q OR drop_bit 63 (xu OR - xu);
          q2 = drop_bit 1 q OR (q AND 1);
          w = drop_bit 55 q;
          q = q XOR ((q XOR q2) AND - w);
          ex = ucast (drop_bit 52 x AND 0x7FF) :: u32;
          ey = ucast (drop_bit 52 y AND 0x7FF) :: u32;
          e = ex - ey - 55 + ucast w;
          s = ucast (drop_bit 63 (x XOR y));
          d = signed_drop_bit 11 (ex + 0x7FF);
          s = s AND d;
          e = e AND - d;
          q = q AND - scast d
      in FPR s e q)"

definition fpr_inv :: "fpr \<Rightarrow> fpr" where
  "fpr_inv x = fpr_div 4607182418800017408 x"

definition sqrt_step :: "u64 \<times> u64 \<times> u64 \<times> u64 \<Rightarrow> u64 \<times> u64 \<times> u64 \<times> u64" where
  "sqrt_step st =
     (let (xu, q, s, r) = st;
          t = s + r;
          b = drop_bit 63 (xu - t) - 1;
          s = s + (push_bit 1 r AND b);
          xu = xu - (t AND b);
          q = q + (r AND b)
      in (push_bit 1 xu, q, s, drop_bit 1 r))"

definition fpr_sqrt :: "fpr \<Rightarrow> fpr" where
  "fpr_sqrt x =
     (let xu = (x AND (push_bit 52 1 - 1)) OR push_bit 52 1;
          ex = ucast (drop_bit 52 x AND 0x7FF) :: u32;
          e = ex - 1023;
          xu = xu + (xu AND - scast (e AND 1));
          e = signed_drop_bit 1 e;
          xu = push_bit 1 xu;
          (xu, q, s, r) = (sqrt_step ^^ 54) (xu, 0, 0, push_bit 53 1);
          q = push_bit 1 q;
          q = q OR drop_bit 63 (xu OR - xu);
          e = e - 54;
          q = q AND - scast (signed_drop_bit 11 (ex + 0x7FF))
      in FPR 0 e q)"

definition fpr_lt :: "fpr \<Rightarrow> fpr \<Rightarrow> u32" where
  "fpr_lt x y =
     (let sx = x;
          sy = y AND NOT (signed_drop_bit 63 (x XOR y));
          cc0 = ucast (signed_drop_bit 63 (sx - sy)) AND 1;
          cc1 = ucast (signed_drop_bit 63 (sy - sx)) AND 1
      in cc0 XOR ((cc0 XOR cc1) AND ucast (drop_bit 63 (x AND y))))"

section \<open>The exponential (fpr.c)\<close>

definition expm_coeffs :: "u64 list" where
  "expm_coeffs =
     [0x00000004741183A3, 0x00000036548CFC06, 0x0000024FDCBF140A, 0x0000171D939DE045, 0x0000D00CF58F6F84,
      0x000680681CF796E3, 0x002D82D8305B0FEA, 0x011111110E066FD0, 0x0555555555070F00, 0x155555555581FF00,
      0x400000000002B400, 0x7FFFFFFFFFFF4800, 0x8000000000000000]"

definition mul_high :: "u64 \<Rightarrow> u64 \<Rightarrow> u64" where
  "mul_high z y =
     (let z0 = ucast z :: u32;
          z1 = ucast (drop_bit 32 z) :: u32;
          y0 = ucast y :: u32;
          y1 = ucast (drop_bit 32 y) :: u32;
          a = ucast z0 * ucast y1 + drop_bit 32 (ucast z0 * ucast y0) :: u64;
          b = ucast z1 * ucast y0;
          c = drop_bit 32 a + drop_bit 32 b;
          c = c + drop_bit 32 (ucast (ucast a :: u32) + ucast (ucast b :: u32))
      in c + ucast z1 * ucast y1)"

definition fpr_ptwo63 :: fpr where "fpr_ptwo63 = 4890909195324358656"

definition fpr_expm_p63 :: "fpr \<Rightarrow> fpr \<Rightarrow> u64" where
  "fpr_expm_p63 x ccs =
     (let y = expm_coeffs ! 0;
          z = push_bit 1 (fpr_trunc (fpr_mul x fpr_ptwo63));
          y = fold (\<lambda>u y. expm_coeffs ! u - mul_high z y) [1..<13] y;
          z = push_bit 1 (fpr_trunc (fpr_mul ccs fpr_ptwo63))
      in mul_high z y)"

end
