(* ===== verification/Fpr_Round.thy ===== *)
theory Fpr_Round
  imports Fpr Complex_Main
begin

text \<open>
  What an encoded value stands for, correct rounding to 53 bits, and the packing routine of fpr.h. A result is
  computed as an integer of 55 bits whose lowest bit is sticky; packing it is shown to round to nearest, ties to
  even.
\<close>

section \<open>Values\<close>

definition fneg :: "fpr \<Rightarrow> bool" where
  "fneg x \<longleftrightarrow> 9223372036854775808 \<le> uint x"

definition fexp :: "fpr \<Rightarrow> int" where
  "fexp x = uint x div 4503599627370496 mod 2048"

definition fman :: "fpr \<Rightarrow> int" where
  "fman x = uint x mod 4503599627370496"

definition fsign :: "fpr \<Rightarrow> real" where
  "fsign x = (if fneg x then - 1 else 1)"

text \<open>The values in use are the zeros and the normal numbers; the exponent 0 stands for zero.\<close>

definition fnormal :: "fpr \<Rightarrow> bool" where
  "fnormal x \<longleftrightarrow> 0 < fexp x \<and> fexp x < 2047"

definition fzero :: "fpr \<Rightarrow> bool" where
  "fzero x \<longleftrightarrow> fexp x = 0 \<and> fman x = 0"

definition fvalid :: "fpr \<Rightarrow> bool" where
  "fvalid x \<longleftrightarrow> fnormal x \<or> fzero x"

definition fval :: "fpr \<Rightarrow> real" where
  "fval x = (if fexp x = 0 then 0 else fsign x * of_int (4503599627370496 + fman x) * 2 powi (fexp x - 1075))"

lemma fields: "uint x = (if fneg x then 9223372036854775808 else 0) + fexp x * 4503599627370496 + fman x"
proof -
  have "uint x div 9223372036854775808 = (if fneg x then 1 else 0)"
    using uint64_lt [of x] uint_nonnegative [of x] int_div_pos_eq [of "uint x" 9223372036854775808 1 "uint x - 9223372036854775808"]
    by (auto simp: fneg_def div_pos_pos_trivial)
  moreover have "uint x div 4503599627370496 div 2048 = uint x div 9223372036854775808" by (simp add: zdiv_zmult2_eq [symmetric])
  ultimately have "uint x div 4503599627370496 = (if fneg x then 2048 else 0) + fexp x"
    unfolding fexp_def using div_mult_mod_eq [of "uint x div 4503599627370496" 2048] by (simp split: if_splits)
  then show ?thesis using div_mult_mod_eq [of "uint x" 4503599627370496] unfolding fman_def by (simp split: if_splits)
qed

lemma field_range: "0 \<le> fexp x" "fexp x < 2048" "0 \<le> fman x" "fman x < 4503599627370496"
  by (simp_all add: fexp_def fman_def)

lemma fields_unique:
  assumes "uint x = (if s then 9223372036854775808 else 0) + E * 4503599627370496 + M" "0 \<le> E" "E < 2048" "0 \<le> M" "M < 4503599627370496"
  shows "fneg x \<longleftrightarrow> s" "fexp x = E" "fman x = M"
proof -
  have "E * 4503599627370496 + M < 9223372036854775808" using assms by simp
  then show n: "fneg x \<longleftrightarrow> s" unfolding fneg_def assms(1) using assms(2,4) by auto
  define K where "K = (if s then 2048 else 0) + E"
  have "uint x = K * 4503599627370496 + M" using assms(1) by (simp add: K_def)
  then have "uint x div 4503599627370496 = K" "uint x mod 4503599627370496 = M" using assms(4,5) by simp_all
  then show "fexp x = E" "fman x = M" using assms(2,3) by (simp_all add: fexp_def fman_def K_def)
qed

section \<open>Rounding to nearest, ties to even\<close>

definition rne :: "real \<Rightarrow> int" where
  "rne v = (let n = \<lfloor>v\<rfloor> in if v - of_int n < 1 / 2 then n else if v - of_int n > 1 / 2 then n + 1 else if even n then n else n + 1)"

definition nearest :: "real \<Rightarrow> int \<Rightarrow> bool" where
  "nearest v n \<longleftrightarrow> \<bar>v - of_int n\<bar> < 1 / 2 \<or> \<bar>v - of_int n\<bar> = 1 / 2 \<and> even n"

lemma nearest_rne: "nearest v (rne v)"
  using of_int_floor_le [of v] floor_correct [of v] unfolding nearest_def rne_def Let_def by auto

lemma nearest_unique: "nearest v m \<Longrightarrow> nearest v n \<Longrightarrow> m = n"
proof -
  have "m = n" if "nearest v m" "nearest v n" "m \<le> n" for m n
  proof (rule ccontr)
    assume "m \<noteq> n"
    then have "real_of_int m + 1 \<le> of_int n" using that(3) by linarith
    moreover have "\<bar>v - of_int m\<bar> \<le> 1 / 2" "\<bar>v - of_int n\<bar> \<le> 1 / 2" using that by (auto simp: nearest_def)
    ultimately have e: "real_of_int n = of_int m + 1" "v - of_int m = 1 / 2" "v - of_int n = - (1 / 2)" by linarith+
    then have "even m" "even n" using that by (auto simp: nearest_def)
    moreover have "n = m + 1" using e(1) by linarith
    ultimately show False by simp
  qed
  then show "nearest v m \<Longrightarrow> nearest v n \<Longrightarrow> m = n" by (metis linorder_le_cases)
qed

lemma rne_eqI: "nearest v n \<Longrightarrow> rne v = n"
  using nearest_rne nearest_unique by blast

lemma rne_minus: "rne (- v) = - rne v"
proof (rule rne_eqI)
  have "nearest v (rne v)" by (rule nearest_rne)
  then show "nearest (- v) (- rne v)" unfolding nearest_def by (simp add: abs_minus_commute add.commute)
qed

lemma rne_int [simp]: "rne (of_int n) = n"
  by (rule rne_eqI) (simp add: nearest_def)

text \<open>An integer with a sticky lowest bit represents a real number for the purpose of rounding.\<close>

definition sticky :: "int \<Rightarrow> real \<Rightarrow> bool" where
  "sticky m w \<longleftrightarrow> w = of_int m \<or> odd m \<and> \<bar>w - of_int m\<bar> < 1"

lemma sticky_exact [simp]: "sticky m (of_int m)"
  by (simp add: sticky_def)

lemma sticky_bounds:
  assumes "sticky m w"
  shows "m < 2 * b \<longleftrightarrow> w < of_int (2 * b)"
proof (cases "w = of_int m")
  case False
  then have o: "odd m" "\<bar>w - of_int m\<bar> < 1" using assms by (auto simp: sticky_def)
  show ?thesis
  proof (cases "m < 2 * b")
    case True
    then have "m + 1 \<le> 2 * b" using o(1) by presburger
    then have "real_of_int m + 1 \<le> of_int (2 * b)" by linarith
    then show ?thesis using True o(2) by linarith
  next
    case False
    then have "2 * b + 1 \<le> m" using o(1) by presburger
    then have "of_int (2 * b) + 1 \<le> real_of_int m" by linarith
    then show ?thesis using False o(2) by linarith
  qed
qed (simp only: of_int_less_iff)

text \<open>A right shift that collects the dropped bits in the lowest one.\<close>

definition sticky_shr :: "nat \<Rightarrow> int \<Rightarrow> int" where
  "sticky_shr j m = (let q = m div 2 ^ j in if m mod 2 ^ j = 0 \<or> odd q then q else q + 1)"

lemma sticky_shift:
  assumes "sticky m w" "0 < j"
  shows "sticky (sticky_shr j m) (w / 2 ^ j)"
proof (cases "m mod 2 ^ j = 0")
  case True
  then have d: "m = m div 2 ^ j * 2 ^ j" by (metis add.right_neutral div_mult_mod_eq)
  moreover have "even (m div 2 ^ j * 2 ^ j)" using assms(2) by simp
  ultimately have "w = of_int m" using assms(1) unfolding sticky_def by metis
  moreover have "real_of_int m = of_int (m div 2 ^ j) * 2 ^ j" using arg_cong [OF d, of real_of_int] by simp
  ultimately show ?thesis using True by (simp add: sticky_shr_def)
next
  case False
  define q where "q = m div 2 ^ j"
  define r where "r = m mod 2 ^ j"
  have "0 \<le> r" "r < 2 ^ j" "r \<noteq> 0" using False by (simp_all add: r_def)
  then have r: "1 \<le> r" "r \<le> 2 ^ j - 1" by linarith+
  have m: "real_of_int m = of_int q * 2 ^ j + of_int r"
    using arg_cong [OF div_mult_mod_eq [of m "2 ^ j"], of real_of_int] by (simp add: q_def r_def)
  have "real_of_int 1 \<le> real_of_int r" "real_of_int r \<le> real_of_int (2 ^ j - 1)" using r by (simp_all only: of_int_le_iff)
  then have r': "1 \<le> real_of_int r" "real_of_int r \<le> 2 ^ j - 1" by simp_all
  have "\<bar>w - of_int m\<bar> < 1" using assms(1) by (auto simp: sticky_def)
  then have "of_int q * 2 ^ j < w" "w < of_int q * 2 ^ j + 2 ^ j" using m r' by linarith+
  then have "of_int q < w / 2 ^ j" "w / 2 ^ j < of_int q + 1" by (simp_all add: field_simps)
  moreover have "sticky_shr j m = (if odd q then q else q + 1)" using False by (simp add: sticky_shr_def q_def)
  ultimately show ?thesis unfolding sticky_def by (auto simp: abs_less_iff)
qed

lemma rne_sticky:
  assumes "sticky m w"
  shows "rne (w / 4) = rne (of_int m / 4)"
proof (cases "w = of_int m")
  case False
  then have o: "odd m" "\<bar>w - of_int m\<bar> < 1" using assms by (auto simp: sticky_def)
  define N where "N = rne (of_int m / 4)"
  have "nearest (of_int m / 4) N" unfolding N_def by (rule nearest_rne)
  then have "\<bar>of_int m / 4 - real_of_int N\<bar> \<le> 1 / 2" by (auto simp: nearest_def)
  then have "- 2 \<le> real_of_int (m - 4 * N)" "real_of_int (m - 4 * N) \<le> 2" unfolding abs_le_iff by (simp_all add: field_simps)
  then have d: "- 2 \<le> m - 4 * N" "m - 4 * N \<le> 2" by linarith+
  moreover have "odd (m - 4 * N)" using o(1) by simp
  ultimately have "m - 4 * N = 1 \<or> m - 4 * N = - 1" by presburger
  then have "\<bar>w - 4 * real_of_int N\<bar> < 2" 
  proof
    assume "m - 4 * N = 1"
    then have "real_of_int m = 4 * real_of_int N + 1" by linarith
    then show ?thesis using o(2) by linarith
  next
    assume "m - 4 * N = - 1"
    then have "real_of_int m = 4 * real_of_int N - 1" by linarith
    then show ?thesis using o(2) by linarith
  qed
  then have "nearest (w / 4) N" unfolding nearest_def by (intro disjI1) (simp add: abs_less_iff field_simps)
  then show ?thesis unfolding N_def [symmetric] by (rule rne_eqI)
qed simp

lemma rne_quarter: "rne (of_int m / 4) = m div 4 + (if m mod 8 = 3 \<or> m mod 8 = 6 \<or> m mod 8 = 7 then 1 else 0)"
proof (rule rne_eqI)
  define a where "a = m div 8"
  define b where "b = m mod 8"
  have m: "m = 8 * a + b" "0 \<le> b" "b < 8" by (simp_all add: a_def b_def)
  have d: "(8 * a + b) div 4 = 2 * a + b div 4" by simp
  from m have "b = 0 \<or> b = 1 \<or> b = 2 \<or> b = 3 \<or> b = 4 \<or> b = 5 \<or> b = 6 \<or> b = 7" by linarith
  then show "nearest (of_int m / 4) (m div 4 + (if m mod 8 = 3 \<or> m mod 8 = 6 \<or> m mod 8 = 7 then 1 else 0))"
    unfolding b_def [symmetric] unfolding m(1) d nearest_def by (elim disjE) (simp_all add: field_simps)
qed

text \<open>Correct rounding of a nonzero real number to a mantissa of 53 bits.\<close>

definition fround :: "real \<Rightarrow> real" where
  "fround v = (let k = \<lfloor>log 2 \<bar>v\<bar>\<rfloor> - 52 in of_int (rne (v / 2 powi k)) * 2 powi k)"

lemma floor_log_scaled:
  assumes "2 ^ n \<le> w" "w < 2 ^ Suc n"
  shows "\<lfloor>log 2 \<bar>w * 2 powi e\<bar>\<rfloor> = int n + e"
proof -
  have w: "0 < w" using assms(1) by (rule less_le_trans [rotated]) simp
  have p: "(2 :: real) powi e = 2 powr of_int e" by (simp add: powr_real_of_int')
  have "log 2 (w * 2 powi e) = log 2 w + of_int e" unfolding p using w by (simp add: log_mult)
  moreover have "real n \<le> log 2 w" using assms(1) w by (simp add: le_log_iff powr_realpow)
  moreover have "log 2 w < real n + 1" using assms(2) w by (simp add: log_less_iff powr_add powr_realpow mult.commute)
  ultimately show ?thesis using w by (simp add: floor_eq_iff abs_mult)
qed

lemma fround_scaled:
  assumes "18014398509481984 \<le> w" "w < 36028797018963968"
  shows "fround (w * 2 powi e) = of_int (rne (w / 4)) * 2 powi (e + 2)"
proof -
  have l: "\<lfloor>log 2 \<bar>w * 2 powi e\<bar>\<rfloor> = 54 + e" using floor_log_scaled [of 54 w e] assms by simp
  have "w * 2 powi e / 2 powi (54 + e - 52) = w / 4"
    by (simp add: power_int_diff power_int_add)
  then show ?thesis unfolding fround_def l Let_def by (simp only:) (simp add: add.commute)
qed

lemma fround_minus: "fround (- v) = - fround v"
  by (simp add: fround_def Let_def rne_minus)

text \<open>
  The contract of the operations: a result of absolute value below \<open>2^-1022\<close> is flushed to zero, and any other
  result that does not overflow is rounded correctly to a normal number.
\<close>

definition fmin :: real where
  "fmin = 2 powi - 1022"

definition fmax :: real where
  "fmax = 2 powi 1024"

definition rounds_to :: "fpr \<Rightarrow> real \<Rightarrow> bool" where
  "rounds_to z v \<longleftrightarrow> (if \<bar>v\<bar> < fmin then fzero z else \<bar>fround v\<bar> < fmax \<longrightarrow> fnormal z \<and> fval z = fround v)"

section \<open>Packing\<close>

lemma word32_of_int:
  "0 \<le> k \<Longrightarrow> k < 4294967296 \<Longrightarrow> uint (word_of_int k :: u32) = k"
  "k < 0 \<Longrightarrow> - 4294967296 \<le> k \<Longrightarrow> uint (word_of_int k :: u32) = k + 4294967296"
  by (simp_all add: uint_word_of_int mod_neg_once)

lemma sign_bit32: "- 2147483648 \<le> k \<Longrightarrow> k < 2147483648 \<Longrightarrow> drop_bit 31 (word_of_int k :: u32) = (if k < 0 then 1 else 0)"
  by (cases "k < 0") (simp_all add: sign_shift word32_of_int)

lemma round_bit:
  "uint (ucast (drop_bit (unat (ucast m AND 7 :: u32)) (0xC8 :: u32) AND 1) :: u64) = (if uint m mod 8 = 3 \<or> uint m mod 8 = 6 \<or> uint m mod 8 = 7 then 1 else 0)"
  for m :: u64
proof -
  have "uint (ucast m AND 7 :: u32) = uint m mod 8" using uint_and_low [of "7 :: u32" 3 "ucast m"] by (simp add: uint_ucast_mod mod_mod_cancel)
  then have f: "unat (ucast m AND 7 :: u32) = nat (uint m mod 8)" by (simp flip: nat_uint_eq)
  define b where "b = uint m mod 8"
  have "0 \<le> b" "b < 8" by (simp_all add: b_def)
  then have "b = 0 \<or> b = 1 \<or> b = 2 \<or> b = 3 \<or> b = 4 \<or> b = 5 \<or> b = 6 \<or> b = 7" by linarith
  then show ?thesis unfolding f b_def [symmetric] by (elim disjE) simp_all
qed

lemma FPR_zero:
  assumes "s = 0 \<or> s = 1" "m = 0 \<or> k < - 1076" "- 100000 < k" "k < 100000"
  shows "FPR s (word_of_int k) m = (if s = 1 then push_bit 63 1 else 0)"
proof -
  have "drop_bit 31 (word_of_int k + 1076 :: u32) = (if k + 1076 < 0 then 1 else 0)"
    using sign_bit32 [of "k + 1076"] assms(3,4) by simp
  then have "m AND (ucast (drop_bit 31 (word_of_int k + 1076 :: u32)) - 1) = 0" using assms(2) by auto
  then show ?thesis using assms(1) unfolding FPR_def Let_def by auto
qed

lemma FPR_bits:
  assumes "s = 0 \<or> s = 1" "18014398509481984 \<le> uint m" "uint m < 36028797018963968" "- 1076 \<le> k" "k \<le> 969"
  shows "uint (FPR s (word_of_int k) m) = (if s = 1 then 9223372036854775808 else 0) + (k + 1076) * 4503599627370496 + rne (of_int (uint m) / 4)"
proof -
  let ?e = "word_of_int k + 1076 :: u32"
  have e: "?e = word_of_int (k + 1076)" "uint ?e = k + 1076" using word32_of_int(1) [of "k + 1076"] assms(4,5) by simp_all
  have t: "drop_bit 31 ?e = 0" unfolding e(1) using sign_bit32 [of "k + 1076"] assms(4,5) by simp
  have "uint m div 18014398509481984 = 1" using int_div_pos_eq [of "uint m" 18014398509481984 1 "uint m - 18014398509481984"] assms(2,3) by simp
  then have "drop_bit 54 m = 1" by (simp add: word_uint_eq_iff uint_shr)
  then have F: "FPR s (word_of_int k) m = (push_bit 63 (scast s) OR drop_bit 2 m) + push_bit 52 (ucast ?e)
      + ucast (drop_bit (unat (ucast m AND 7 :: u32)) (0xC8 :: u32) AND 1)"
    unfolding FPR_def Let_def t by simp
  have d: "uint (drop_bit 2 m) = uint m div 4" by (simp add: uint_shr)
  have md: "0 \<le> uint m div 4" "uint m div 4 < 9007199254740992" using assms(2,3) by linarith+
  have "push_bit 63 (scast s) OR drop_bit 2 m = drop_bit 2 m + push_bit 63 (scast s)"
    using or_shift [of "drop_bit 2 m" 63 "scast s"] d md by (simp add: or.commute)
  then have o: "uint (push_bit 63 (scast s) OR drop_bit 2 m) = (if s = 1 then 9223372036854775808 else 0) + uint m div 4"
    using assms(1) d md by (auto simp: uint_word_ariths uint_shl)
  have p: "uint (push_bit 52 (ucast ?e) :: u64) = (k + 1076) * 4503599627370496"
    unfolding uint_shl using e(2) assms(4,5) by (simp add: uint_ucast_mod)
  have r: "uint m div 4 + uint (ucast (drop_bit (unat (ucast m AND 7 :: u32)) (0xC8 :: u32) AND 1) :: u64) = rne (of_int (uint m) / 4)"
    unfolding round_bit rne_quarter by simp
  have "uint (FPR s (word_of_int k) m) = ((if s = 1 then 9223372036854775808 else 0) + (k + 1076) * 4503599627370496 + rne (of_int (uint m) / 4)) mod 18446744073709551616"
    unfolding F r [symmetric] unfolding uint_word_ariths o p len_of_numeral_defs by (simp add: mod_simps) (simp add: ac_simps)
  moreover have "rne (of_int (uint m) / 4) \<le> 9007199254740992" "0 \<le> rne (of_int (uint m) / 4)" unfolding rne_quarter using md by auto
  ultimately show ?thesis using assms(4,5) by (subst (asm) mod_pos_pos_trivial) auto
qed

definition sgn_of :: "u32 \<Rightarrow> real" where
  "sgn_of s = (if s = 1 then - 1 else 1)"

lemma FPR_value:
  assumes "s = 0 \<or> s = 1" "18014398509481984 \<le> uint m" "uint m < 36028797018963968" "- 1076 \<le> k"
    and small: "of_int (rne (of_int (uint m) / 4)) * 2 powi (k + 2) < fmax"
  shows "fnormal (FPR s (word_of_int k) m)" "fval (FPR s (word_of_int k) m) = sgn_of s * of_int (rne (of_int (uint m) / 4)) * 2 powi (k + 2)"
proof -
  define N where "N = rne (of_int (uint m) / 4)"
  let ?z = "FPR s (word_of_int k) m"
  have "uint m div 4 \<le> N" "N \<le> uint m div 4 + 1" unfolding N_def rne_quarter by auto
  then have N: "4503599627370496 \<le> N" "N \<le> 9007199254740992" using assms(2,3) by linarith+
  have lt: "a * 2 powi (k + 2) < fmax \<Longrightarrow> 2 powi j \<le> a \<Longrightarrow> j + k + 2 < 1024" for a :: real and j
  proof -
    assume h: "a * 2 powi (k + 2) < fmax" "2 powi j \<le> a"
    have "(2 :: real) powi (j + (k + 2)) = 2 powi j * 2 powi (k + 2)" by (rule power_int_add) simp
    also have "\<dots> \<le> a * 2 powi (k + 2)" using h(2) by (intro mult_right_mono) simp_all
    finally have "(2 :: real) powi (j + (k + 2)) < fmax" using h(1) by linarith
    moreover have "fmax \<le> 2 powi (j + (k + 2))" if "1024 \<le> j + (k + 2)" unfolding fmax_def using that by (intro power_int_increasing) simp_all
    ultimately show ?thesis by linarith
  qed
  have k: "k \<le> 969" using lt [of "of_int N" 52] small N unfolding N_def [symmetric] by simp
  have top: "N = 9007199254740992 \<Longrightarrow> k \<le> 968" using lt [of "of_int N" 53] small unfolding N_def [symmetric] by simp
  note u = FPR_bits [OF assms(1-4) k, folded N_def]
  have "fnormal ?z \<and> fval ?z = sgn_of s * of_int N * 2 powi (k + 2)"
  proof (cases "N = 9007199254740992")
    case False
    have f: "fneg ?z \<longleftrightarrow> s = 1" "fexp ?z = k + 1077" "fman ?z = N - 4503599627370496"
      by (rule fields_unique [of ?z "s = 1" "k + 1077" "N - 4503599627370496"]; use u N k False assms(4) in \<open>simp add: algebra_simps\<close>)+
    have "k + 1077 - 1075 = k + 2" by simp
    then show ?thesis unfolding fnormal_def fval_def fsign_def sgn_of_def f using k assms(4) by (simp add: algebra_simps)
  next
    case True
    have f: "fneg ?z \<longleftrightarrow> s = 1" "fexp ?z = k + 1078" "fman ?z = 0"
      by (rule fields_unique [of ?z "s = 1" "k + 1078" 0]; use u True top assms(4) in \<open>simp add: algebra_simps\<close>)+
    have "(2 :: real) powi (k + 1078 - 1075) = 2 * 2 powi (k + 2)" using power_int_add [of "2 :: real" 1 "k + 2"] by (simp add: add.commute)
    then show ?thesis unfolding fnormal_def fval_def fsign_def sgn_of_def f True using top True assms(4) by simp
  qed
  then show "fnormal ?z" "fval ?z = sgn_of s * of_int (rne (of_int (uint m) / 4)) * 2 powi (k + 2)" unfolding N_def by simp_all
qed

lemma fzero_packed: "fzero (if b then push_bit 63 1 else 0)"
  by (simp add: fzero_def fexp_def fman_def)

theorem FPR_rounds:
  assumes "s = 0 \<or> s = 1" "sticky (uint m) w" "18014398509481984 \<le> w" "w < 36028797018963968" "- 100000 < k" "k < 100000"
  shows "rounds_to (FPR s (word_of_int k) m) (sgn_of s * w * 2 powi k)"
proof -
  let ?v = "sgn_of s * w * 2 powi k"
  have av: "\<bar>?v\<bar> = w * 2 powi k" using assms(3) by (auto simp: sgn_of_def abs_mult)
  have m: "18014398509481984 \<le> uint m" "uint m < 36028797018963968"
    using sticky_bounds [OF assms(2), of 9007199254740992] sticky_bounds [OF assms(2), of 18014398509481984] assms(3,4) by simp_all
  show ?thesis
  proof (cases "k < - 1076")
    case True
    have "w * 2 powi k < 2 powi 55 * 2 powi k" using assms(4) by (intro mult_strict_right_mono) simp_all
    also have "(2 :: real) powi 55 * 2 powi k = 2 powi (55 + k)" by (rule power_int_add [symmetric]) simp
    also have "\<dots> \<le> fmin" unfolding fmin_def using True by (intro power_int_increasing) simp_all
    finally show ?thesis unfolding rounds_to_def av using FPR_zero [OF assms(1) _ assms(5,6)] True fzero_packed by simp
  next
    case False
    have "fmin = 2 powi 54 * 2 powi - 1076" unfolding fmin_def using power_int_add [of "2 :: real" 54 "- 1076"] by simp
    also have "\<dots> \<le> w * 2 powi k" using False assms(3) by (intro mult_mono power_int_increasing) simp_all
    finally have ge: "\<not> \<bar>?v\<bar> < fmin" unfolding av by simp
    have "fround (w * 2 powi k) = of_int (rne (w / 4)) * 2 powi (k + 2)" using assms(3,4) by (rule fround_scaled)
    then have f: "fround ?v = sgn_of s * of_int (rne (of_int (uint m) / 4)) * 2 powi (k + 2)"
      using fround_minus [of "w * 2 powi k"] rne_sticky [OF assms(2)] by (simp add: sgn_of_def)
    have "fnormal (FPR s (word_of_int k) m) \<and> fval (FPR s (word_of_int k) m) = fround ?v" if "\<bar>fround ?v\<bar> < fmax"
    proof -
      have "of_int (rne (of_int (uint m) / 4)) * 2 powi (k + 2) \<le> \<bar>fround ?v\<bar>" unfolding f by (simp add: sgn_of_def)
      then have "of_int (rne (of_int (uint m) / 4)) * 2 powi (k + 2) < fmax" using that by linarith
      then show ?thesis unfolding f using FPR_value [OF assms(1) m, of k] False by simp
    qed
    then show ?thesis unfolding rounds_to_def using ge by simp
  qed
qed

end
