(* ===== verification/Fpr_Bits.thy ===== *)
theory Fpr_Bits
  imports Fpr_Round
begin

text \<open>
  The bit manipulations the floating-point operations share: the fields of an encoded value, masks made from flags,
  and the sticky bit.
\<close>

section \<open>Fields of a word\<close>

lemma uint_low52: "uint (x AND (push_bit 52 1 - 1)) = fman x" for x :: u64
  using uint_and_low [of "push_bit 52 1 - 1 :: u64" 52 x] by (simp add: fman_def push_bit_eq_mult)

lemma mantissa: "uint ((x AND (push_bit 52 1 - 1)) OR push_bit 52 1 :: u64) = 4503599627370496 + fman x"
proof -
  have "(x AND (push_bit 52 1 - 1)) OR push_bit 52 1 = (x AND (push_bit 52 1 - 1)) + push_bit 52 1"
    by (rule or_shift) (use uint_low52 [of x] field_range(4) [of x] in simp)
  then show ?thesis using uint_low52 [of x] field_range [of x] by (simp add: uint_word_ariths)
qed

lemma uint_exponent: "uint (drop_bit 52 x AND 0x7FF) = fexp x" "uint (ucast (drop_bit 52 x) AND 0x7FF :: u32) = fexp x"
  "uint (ucast (drop_bit 52 x AND 0x7FF) :: u32) = fexp x" for x :: u64
proof -
  show e: "uint (drop_bit 52 x AND 0x7FF) = fexp x" using uint_and_low [of "0x7FF :: u64" 11 "drop_bit 52 x"] by (simp add: uint_shr fexp_def)
  show "uint (ucast (drop_bit 52 x) AND 0x7FF :: u32) = fexp x"
    using uint_and_low [of "0x7FF :: u32" 11 "ucast (drop_bit 52 x)"] by (simp add: uint_ucast_mod mod_mod_cancel uint_shr fexp_def)
  show "uint (ucast (drop_bit 52 x AND 0x7FF) :: u32) = fexp x" unfolding uint_ucast_mod e using field_range [of x] by simp
qed

lemma sign_bit64: "drop_bit 63 x = (if fneg x then 1 else 0)" for x :: u64
proof -
  have "uint x div 9223372036854775808 = (if fneg x then 1 else 0)"
    using uint64_lt [of x] uint_nonnegative [of x] int_div_pos_eq [of "uint x" 9223372036854775808 1 "uint x - 9223372036854775808"]
    by (auto simp: fneg_def div_pos_pos_trivial)
  then show ?thesis by (simp add: word_uint_eq_iff uint_shr)
qed

lemma sign_xor: "drop_bit 63 (x XOR y) = (if fneg x = fneg y then 0 else 1)" for x y :: u64
  unfolding drop_bit_xor sign_bit64 by simp

lemma signed_shift_small: "uint v < 2147483648 \<Longrightarrow> signed_drop_bit n v = drop_bit n v" for v :: u32
proof -
  assume "uint v < 2147483648"
  then have "\<not> bit v 31" using sign_shift [of v] by (simp add: bit_iff_odd_drop_bit)
  then show ?thesis by (intro bit_word_eqI) (auto simp: bit_signed_drop_bit_iff bit_drop_bit_eq not_le dest: bit_imp_le_length)
qed

lemma nonzero_exponent:
  fixes e :: u32
  assumes "uint e < 2048"
  shows "signed_drop_bit 11 (e + 0x7FF) = (if e = 0 then 0 else 1)"
proof -
  have u: "uint (e + 0x7FF) = uint e + 2047" using assms by (simp add: uint_word_ariths)
  then have "signed_drop_bit 11 (e + 0x7FF) = drop_bit 11 (e + 0x7FF)" using assms by (intro signed_shift_small) simp
  moreover have "(uint e + 2047) div 2048 = (if uint e = 0 then 0 else 1)"
  proof (cases "uint e = 0")
    case False
    then have "0 < uint e" using uint_nonnegative [of e] by linarith
    then have "(uint e + 2047) div 2048 = 1" using assms by (intro int_div_pos_eq [of _ _ _ "uint e - 1"]) linarith+
    then show ?thesis using False by simp
  qed simp
  ultimately show ?thesis by (simp add: word_uint_eq_iff uint_shr u)
qed

lemma flag_mask: "(a AND - (if c then 1 else 0)) = (if c then a else 0)" for a :: "'a::len word"
  by simp

lemma select_mask: "a XOR ((a XOR b) AND - (if c then 1 else 0)) = (if c then b else a)" for a b :: "'a::len word"
  by (auto simp: xor.assoc [symmetric])

lemma uint_set_low: "uint (z OR (if c then 1 else 0)) = (if c \<and> even (uint z) then uint z + 1 else uint z)" for z :: u64
proof -
  have e: "even z \<longleftrightarrow> even (uint z)" using bit_uint_iff [of z 0] by (simp add: bit_0)
  show ?thesis
  proof (cases "c \<and> even (uint z)")
    case True
    then have "uint z \<noteq> 18446744073709551615" by auto
    then have "uint (z + 1) = uint z + 1" using uint64_lt [of z] by (simp add: uint_word_ariths)
    moreover have "z OR 1 = z + 1" using True e by (intro disjunctive_add [symmetric]) (auto simp: bit_1_iff bit_0 intro: gr0I)
    ultimately show ?thesis using True by simp
  next
    case False
    moreover have "z OR 1 = z" if "odd (uint z)"
      using that e by (intro bit_word_eqI) (auto simp: bit_or_iff bit_1_iff bit_0)
    ultimately show ?thesis by auto
  qed
qed

lemma sticky_or:
  fixes z :: u64
  assumes "uint z = m div 2 ^ j" "c \<longleftrightarrow> m mod 2 ^ j \<noteq> 0"
  shows "uint (z OR (if c then 1 else 0)) = sticky_shr j m"
  unfolding uint_set_low sticky_shr_def Let_def assms by auto

lemma sticky_half: "uint (drop_bit 1 z OR (z AND 1)) = sticky_shr 1 (uint z)" for z :: u64
proof -
  have "z AND 1 = (if odd (uint z) then 1 else 0)"
    using uint_and_low [of "1 :: u64" 1 z] by (simp add: word_uint_eq_iff odd_iff_mod_2_eq_one)
  then show ?thesis using sticky_or [of "drop_bit 1 z" "uint z" 1] by (simp add: uint_shr odd_iff_mod_2_eq_one)
qed

end
