(* ===== verification/Fpr_Mul.thy ===== *)
theory Fpr_Mul
  imports Fpr_Bits
begin

text \<open>
  Multiplication in fpr.c is correctly rounded: the mantissas are multiplied in 25-bit halves, and the bits below
  the result are collected in its sticky bit.
\<close>

section \<open>Multiplication\<close>

lemma product_bits:
  fixes X Y :: int
  assumes "0 \<le> X" "X < 9007199254740992" "0 \<le> Y" "Y < 9007199254740992"
  defines "a \<equiv> X mod 33554432" and "b \<equiv> X div 33554432" and "c \<equiv> Y mod 33554432" and "d \<equiv> Y div 33554432"
  defines "t \<equiv> a * c div 33554432 + a * d mod 33554432 + b * c mod 33554432"
  defines "u \<equiv> b * d + (a * d div 33554432 + b * c div 33554432 + t div 33554432)"
  shows "X * Y div 1125899906842624 = u" "X * Y mod 1125899906842624 = (t mod 33554432) * 33554432 + a * c mod 33554432"
proof -
  have gen: "ac = q1 * 33554432 + r1 \<Longrightarrow> ad = q2 * 33554432 + r2 \<Longrightarrow> bc = q3 * 33554432 + r3 \<Longrightarrow> q1 + r2 + r3 = qt * 33554432 + rt \<Longrightarrow>
      bd * 1125899906842624 + (ad + bc) * 33554432 + ac = (bd + (q2 + q3 + qt)) * 1125899906842624 + (rt * 33554432 + r1)"
    for ac ad bc bd q1 q2 q3 r1 r2 r3 qt rt :: int by algebra
  have "X * Y = (b * 33554432 + a) * (d * 33554432 + c)" by (simp add: a_def b_def c_def d_def)
  also have "\<dots> = b * d * 1125899906842624 + (a * d + b * c) * 33554432 + a * c" by (simp add: algebra_simps)
  also have "\<dots> = u * 1125899906842624 + ((t mod 33554432) * 33554432 + a * c mod 33554432)"
    unfolding u_def by (rule gen) (rule div_mult_mod_eq [symmetric], rule div_mult_mod_eq [symmetric], rule div_mult_mod_eq [symmetric], simp only: t_def [symmetric] div_mult_mod_eq)
  finally have e: "X * Y = u * 1125899906842624 + ((t mod 33554432) * 33554432 + a * c mod 33554432)" .
  define r where "r = (t mod 33554432) * 33554432 + a * c mod 33554432"
  have "0 \<le> t mod 33554432" "t mod 33554432 < 33554432" "0 \<le> a * c mod 33554432" "a * c mod 33554432 < 33554432" by simp_all
  then have r: "0 \<le> r" "r < 1125899906842624" unfolding r_def by linarith+
  from e [folded r_def] r show "X * Y div 1125899906842624 = u" "X * Y mod 1125899906842624 = r" by simp_all
qed

lemma low25: "uint (w AND 0x01FFFFFF) = uint w mod 33554432" for w :: u32
  using uint_and_low [of "0x01FFFFFF :: u32" 25 w] by simp

lemma nonzero25:
  fixes z :: u32
  assumes "uint z < 33554432"
  shows "drop_bit 25 (z + 0x01FFFFFF) = (if z = 0 then 0 else 1)"
proof -
  have u: "uint (z + 0x01FFFFFF) = uint z + 33554431" using assms by (simp add: uint_word_ariths)
  have "(uint z + 33554431) div 33554432 = (if uint z = 0 then 0 else 1)"
  proof (cases "uint z = 0")
    case False
    then have "0 < uint z" using uint_nonnegative [of z] by linarith
    then have "(uint z + 33554431) div 33554432 = 1" using assms by (intro int_div_pos_eq [of _ _ _ "uint z - 1"]) linarith+
    then show ?thesis using False by simp
  qed simp
  then show ?thesis by (simp add: word_uint_eq_iff uint_shr u)
qed

lemma uint_low_or: "uint a < 33554432 \<Longrightarrow> uint b < 33554432 \<Longrightarrow> uint (a OR b) < 33554432" for a b :: u32
proof -
  assume "uint a < 33554432" "uint b < 33554432"
  then have "take_bit 25 a = a" "take_bit 25 b = b" by (simp_all only: word_uint_eq_iff unsigned_take_bit_eq) (simp_all add: take_bit_eq_mod)
  then have "take_bit 25 (a OR b) = a OR b" by (simp add: take_bit_or)
  then have "uint (a OR b) mod 33554432 = uint (a OR b)" using unsigned_take_bit_eq [of 25 "a OR b", where 'a = int] by (simp add: take_bit_eq_mod)
  then show ?thesis using pos_mod_bound [of 33554432 "uint (a OR b)"] by simp
qed

definition mul_mantissa :: "u64 \<Rightarrow> u64 \<Rightarrow> u64" where
  "mul_mantissa xu yu =
     (let x0 = ucast xu AND 0x01FFFFFF :: u32;
          x1 = ucast (drop_bit 25 xu) :: u32;
          y0 = ucast yu AND 0x01FFFFFF :: u32;
          y1 = ucast (drop_bit 25 yu) :: u32;
          w = ucast x0 * ucast y0 :: u64;
          z0 = ucast w AND 0x01FFFFFF :: u32;
          z1 = ucast (drop_bit 25 w) :: u32;
          w = ucast x0 * ucast y1 :: u64;
          z1 = z1 + (ucast w AND 0x01FFFFFF);
          z2 = ucast (drop_bit 25 w) :: u32;
          w = ucast x1 * ucast y0 :: u64;
          z1 = z1 + (ucast w AND 0x01FFFFFF);
          z2 = z2 + ucast (drop_bit 25 w);
          zu = ucast x1 * ucast y1 :: u64;
          z2 = z2 + drop_bit 25 z1;
          z1 = z1 AND 0x01FFFFFF;
          zu = zu + ucast z2
      in zu OR ucast (drop_bit 25 ((z0 OR z1) + 0x01FFFFFF)))"

lemma mul_mantissa:
  assumes "uint xu < 9007199254740992" "uint yu < 9007199254740992"
  shows "uint (mul_mantissa xu yu) = sticky_shr 50 (uint xu * uint yu)"
proof -
  define x0 where "x0 = (ucast xu AND 0x01FFFFFF :: u32)"
  define x1 where "x1 = (ucast (drop_bit 25 xu) :: u32)"
  define y0 where "y0 = (ucast yu AND 0x01FFFFFF :: u32)"
  define y1 where "y1 = (ucast (drop_bit 25 yu) :: u32)"
  have x0: "uint x0 = uint xu mod 33554432" and y0: "uint y0 = uint yu mod 33554432"
    unfolding x0_def y0_def low25 by (simp_all add: uint_ucast_mod mod_mod_cancel)
  have "0 \<le> uint xu div 33554432" "uint xu div 33554432 < 268435456" "0 \<le> uint yu div 33554432" "uint yu div 33554432 < 268435456"
    using assms uint_nonnegative [of xu] uint_nonnegative [of yu] by linarith+
  note b1 = this
  then have x1: "uint x1 = uint xu div 33554432" and y1: "uint y1 = uint yu div 33554432"
    unfolding x1_def y1_def by (simp_all add: uint_ucast_mod uint_shr)
  have b0: "uint x0 < 33554432" "uint y0 < 33554432" unfolding x0 y0 by simp_all
  have n: "0 \<le> uint x0" "0 \<le> uint x1" "0 \<le> uint y0" "0 \<le> uint y1" by simp_all
  have up: "uint (ucast a :: u64) = uint a" for a :: u32 unfolding uint_ucast_mod using uint32_lt [of a] by simp
  have pb: "0 \<le> uint a * uint c \<and> uint a * uint c < A * C" if "uint a < A" "uint c < C" for a c :: u32 and A C
    using that uint_nonnegative [of a] uint_nonnegative [of c] by (auto intro: mult_strict_mono')
  have p: "uint (ucast a * ucast c :: u64) = uint a * uint c" if "uint a * uint c < 18446744073709551616" for a c :: u32
    unfolding uint_mult_mod up using that by simp
  have low: "uint (ucast w AND 0x01FFFFFF :: u32) = uint w mod 33554432" for w :: u64
    unfolding low25 by (simp add: uint_ucast_mod mod_mod_cancel)
  have high: "uint (ucast (drop_bit 25 w) :: u32) = uint w div 33554432" if "uint w < 144115188075855872" for w :: u64
  proof -
    have "0 \<le> uint w div 33554432" "uint w div 33554432 < 4294967296" using that uint_nonnegative [of w] by linarith+
    then show ?thesis by (simp add: uint_ucast_mod uint_shr)
  qed
  define w0 where "w0 = (ucast x0 * ucast y0 :: u64)"
  define w1 where "w1 = (ucast x0 * ucast y1 :: u64)"
  define w2 where "w2 = (ucast x1 * ucast y0 :: u64)"
  define w3 where "w3 = (ucast x1 * ucast y1 :: u64)"
  have x1b: "uint x1 < 268435456" "uint y1 < 268435456" unfolding x1 y1 using b1 by simp_all
  have w: "uint w0 = uint x0 * uint y0" "uint w1 = uint x0 * uint y1" "uint w2 = uint x1 * uint y0" "uint w3 = uint x1 * uint y1"
    unfolding w0_def w1_def w2_def w3_def using pb [OF b0] pb [OF b0(1) x1b(2)] pb [OF x1b(1) b0(2)] pb [OF x1b] by (intro p; simp)+
  have wb: "uint w0 < 1125899906842624" "uint w1 < 9007199254740992" "uint w2 < 9007199254740992" "uint w3 < 72057594037927936"
    unfolding w using pb [OF b0] pb [OF b0(1) x1b(2)] pb [OF x1b(1) b0(2)] pb [OF x1b] by simp_all
  define z0 where "z0 = (ucast w0 AND 0x01FFFFFF :: u32)"
  define t where "t = (ucast (drop_bit 25 w0) + (ucast w1 AND 0x01FFFFFF) + (ucast w2 AND 0x01FFFFFF) :: u32)"
  define z2 where "z2 = (ucast (drop_bit 25 w1) + ucast (drop_bit 25 w2) + drop_bit 25 t :: u32)"
  define z1 where "z1 = t AND 0x01FFFFFF"
  let ?t = "uint w0 div 33554432 + uint w1 mod 33554432 + uint w2 mod 33554432"
  have q: "0 \<le> uint w0 div 33554432" "uint w0 div 33554432 < 33554432" "0 \<le> uint w1 div 33554432" "uint w1 div 33554432 < 268435456"
    "0 \<le> uint w2 div 33554432" "uint w2 div 33554432 < 268435456"
    using wb uint_nonnegative [of w0] uint_nonnegative [of w1] uint_nonnegative [of w2] by linarith+
  have m: "0 \<le> uint w1 mod 33554432" "uint w1 mod 33554432 < 33554432" "0 \<le> uint w2 mod 33554432" "uint w2 mod 33554432 < 33554432" by simp_all
  have tb: "0 \<le> ?t" "?t < 100663296" using q m by linarith+
  have h: "uint (ucast (drop_bit 25 w0) :: u32) = uint w0 div 33554432" "uint (ucast (drop_bit 25 w1) :: u32) = uint w1 div 33554432"
    "uint (ucast (drop_bit 25 w2) :: u32) = uint w2 div 33554432" using wb by (intro high; simp)+
  have t: "uint t = ?t" unfolding t_def uint_word_ariths low h using tb by (simp add: mod_simps)
  have td: "0 \<le> ?t div 33554432" "?t div 33554432 < 3" using tb by linarith+
  have z2: "uint z2 = uint w1 div 33554432 + uint w2 div 33554432 + ?t div 33554432"
    unfolding z2_def uint_word_ariths h uint_shr t using q td by (simp add: mod_simps)
  define zu where "zu = w3 + ucast z2"
  have zu: "uint zu = uint w3 + (uint w1 div 33554432 + uint w2 div 33554432 + ?t div 33554432)"
  proof -
    define Z where "Z = uint w1 div 33554432 + uint w2 div 33554432 + ?t div 33554432"
    have "0 \<le> uint w3 + Z" "uint w3 + Z < 18446744073709551616" unfolding Z_def using wb q td uint_nonnegative [of w3] by linarith+
    then show ?thesis unfolding zu_def uint_word_ariths up z2 Z_def [symmetric] by simp
  qed
  have z01: "uint z0 = uint w0 mod 33554432" "uint z1 = ?t mod 33554432" unfolding z0_def z1_def low by (rule refl, unfold low25 t, rule refl)
  note bits = product_bits [of "uint xu" "uint yu", OF uint_nonnegative assms(1) uint_nonnegative assms(2), folded x0 y0 x1 y1, folded w]
  have "z0 OR z1 = 0 \<longleftrightarrow> uint z0 = 0 \<and> uint z1 = 0" by (auto simp: or_eq_0_iff uint_0_iff)
  also have "\<dots> \<longleftrightarrow> uint xu * uint yu mod 1125899906842624 = 0"
  proof -
    have "0 \<le> uint z0" "0 \<le> uint z1" by simp_all
    then show ?thesis unfolding bits(2) [folded z01] by linarith
  qed
  finally have nz: "z0 OR z1 = 0 \<longleftrightarrow> uint xu * uint yu mod 1125899906842624 = 0" .
  have "uint z0 < 33554432" "uint z1 < 33554432" unfolding z01 by simp_all
  then have s: "ucast (drop_bit 25 ((z0 OR z1) + 0x01FFFFFF)) = (if z0 OR z1 \<noteq> 0 then 1 else 0 :: u64)"
    using nonzero25 [OF uint_low_or, of z0 z1] by simp
  have "mul_mantissa xu yu = zu OR ucast (drop_bit 25 ((z0 OR z1) + 0x01FFFFFF))"
    unfolding mul_mantissa_def Let_def x0_def [symmetric] x1_def [symmetric] y0_def [symmetric] y1_def [symmetric]
      w0_def [symmetric] w1_def [symmetric] w2_def [symmetric] w3_def [symmetric] z0_def [symmetric] t_def [symmetric] z1_def [symmetric] z2_def [symmetric] zu_def [symmetric]
    by (rule refl)
  moreover have "uint zu = uint xu * uint yu div 2 ^ 50" unfolding zu bits(1) [symmetric] by simp
  moreover have "z0 OR z1 \<noteq> 0 \<longleftrightarrow> uint xu * uint yu mod 2 ^ 50 \<noteq> 0" unfolding nz by simp
  ultimately show ?thesis unfolding s by (simp only: sticky_or)
qed


lemma pack_select:
  fixes z :: u64
  assumes "s = 0 \<or> s = 1" "sticky (uint z) W" "18014398509481984 \<le> W" "W < 72057594037927936" "- 90000 < k" "k < 90000"
  shows "rounds_to (FPR s (word_of_int k + ucast (drop_bit 55 z)) (z XOR ((z XOR (drop_bit 1 z OR (z AND 1))) AND - drop_bit 55 z)))
    (sgn_of s * W * 2 powi k)"
proof -
  have b: "uint z < 36028797018963968 \<longleftrightarrow> W < 36028797018963968" "uint z < 72057594037927936 \<longleftrightarrow> W < 72057594037927936"
    using sticky_bounds [OF assms(2), of 18014398509481984] sticky_bounds [OF assms(2), of 36028797018963968] by simp_all
  show ?thesis
  proof (cases "W < 36028797018963968")
    case True
    then have "drop_bit 55 z = 0" using b(1) by (simp add: word_uint_eq_iff uint_shr div_pos_pos_trivial)
    then show ?thesis using FPR_rounds [OF assms(1,2,3) True, of k] assms(5,6) by simp
  next
    case False
    then have "uint z div 36028797018963968 = 1" using b assms(4) by (intro int_div_pos_eq [of _ _ _ "uint z - 36028797018963968"]) simp_all
    then have d: "drop_bit 55 z = 1" by (simp add: word_uint_eq_iff uint_shr)
    have "sticky (uint (drop_bit 1 z OR (z AND 1))) (W / 2)" using sticky_shift [OF assms(2), of 1] unfolding sticky_half by simp
    note r = FPR_rounds [OF assms(1) this, of "k + 1"]
    have "(2 :: real) powi (k + 1) = 2 powi k * 2" by (simp add: power_int_add)
    then show ?thesis using r False assms(4,5,6) select_mask [of z _ True] unfolding d by (simp add: mult.assoc)
  qed
qed

lemma signed_shift_and: "signed_drop_bit n (a AND b) = signed_drop_bit n a AND signed_drop_bit n b" for a b :: "'a::len word"
  by (intro bit_word_eqI) (auto simp: bit_signed_drop_bit_iff bit_and_iff)

lemma flag_exponent: "fexp x < 2048 \<Longrightarrow> signed_drop_bit 11 (ucast (drop_bit 52 x AND 0x7FF) + 0x7FF :: u32) = (if fexp x = 0 then 0 else 1)"
  using nonzero_exponent [of "ucast (drop_bit 52 x AND 0x7FF) :: u32"] uint_exponent(3) [of x] by (simp add: word_uint_eq_iff)

lemma fval_nonzero: "fexp x \<noteq> 0 \<Longrightarrow> fval x = fsign x * of_int (4503599627370496 + fman x) * 2 powi (fexp x - 1075)"
  by (simp add: fval_def)

lemma FPR_zero_mantissa: "s = 0 \<or> s = 1 \<Longrightarrow> fzero (FPR s e 0)"
  using fzero_packed [of "s = 1"] by (auto simp: FPR_def Let_def)

lemma rounds_to_zero: "fzero z \<Longrightarrow> rounds_to z 0"
  by (simp add: rounds_to_def fmin_def)

lemma mul_rounds: "rounds_to (fpr_mul x y) (fval x * fval y)"
proof -
  define xu where "xu = (x AND (push_bit 52 1 - 1)) OR push_bit 52 1"
  define yu where "yu = (y AND (push_bit 52 1 - 1)) OR push_bit 52 1"
  define z where "z = mul_mantissa xu yu"
  define s where "s = (ucast (drop_bit 63 (x XOR y)) :: u32)"
  define ex where "ex = (ucast (drop_bit 52 x AND 0x7FF) :: u32)"
  define ey where "ey = (ucast (drop_bit 52 y AND 0x7FF) :: u32)"
  let ?zs = "z XOR ((z XOR (drop_bit 1 z OR (z AND 1))) AND - drop_bit 55 z)"
  let ?e = "word_of_int (fexp x + fexp y - 2100) + ucast (drop_bit 55 z) :: u32"
  have e: "ex = word_of_int (fexp x)" "ey = word_of_int (fexp y)" unfolding ex_def ey_def by (simp_all flip: uint_exponent(3))
  have "fpr_mul x y = FPR s (ex + ey - 2100 + ucast (drop_bit 55 z)) (?zs AND - scast (signed_drop_bit 11 ((ex + 0x7FF) AND (ey + 0x7FF))))"
    unfolding fpr_mul_def Let_def z_def mul_mantissa_def xu_def yu_def s_def ex_def ey_def by (rule refl)
  also have "ex + ey - 2100 + ucast (drop_bit 55 z) = ?e" unfolding e by simp
  also have "signed_drop_bit 11 ((ex + 0x7FF) AND (ey + 0x7FF)) = (if fexp x = 0 \<or> fexp y = 0 then 0 else 1)"
    unfolding signed_shift_and ex_def ey_def using flag_exponent [of x] flag_exponent [of y] field_range by simp
  finally have F: "fpr_mul x y = FPR s ?e (?zs AND - scast (if fexp x = 0 \<or> fexp y = 0 then 0 else 1 :: u32))" .
  have s: "s = 0 \<or> s = 1" "sgn_of s = fsign x * fsign y" unfolding s_def sign_xor by (simp_all add: sgn_of_def fsign_def)
  have r: "0 \<le> fexp x" "fexp x < 2048" "0 \<le> fexp y" "fexp y < 2048" by (simp_all add: field_range)
  show ?thesis
  proof (cases "fexp x = 0 \<or> fexp y = 0")
    case True
    then have "fzero (fpr_mul x y)" unfolding F using FPR_zero_mantissa s(1) by simp
    moreover have "fval x * fval y = 0" using True by (auto simp: fval_def)
    ultimately show ?thesis using rounds_to_zero by metis
  next
    case False
    define X where "X = 4503599627370496 + fman x"
    define Y where "Y = 4503599627370496 + fman y"
    have "uint z = sticky_shr 50 (X * Y)"
      unfolding z_def X_def Y_def xu_def yu_def using mul_mantissa [of xu yu] field_range(4) unfolding xu_def yu_def mantissa by simp
    then have "sticky (uint z) (of_int (X * Y) / 2 ^ 50)" using sticky_shift [OF sticky_exact, of 50 "X * Y"] by simp
    moreover have "18014398509481984 \<le> of_int (X * Y) / (2 ^ 50 :: real)" "of_int (X * Y) / (2 ^ 50 :: real) < 72057594037927936"
    proof -
      have b: "4503599627370496 \<le> X" "X < 9007199254740992" "4503599627370496 \<le> Y" "Y < 9007199254740992"
        using field_range [of x] field_range [of y] by (simp_all add: X_def Y_def)
      then have "4503599627370496 * 4503599627370496 \<le> X * Y" "X * Y < 9007199254740992 * 9007199254740992"
        by (intro mult_mono mult_strict_mono; simp)+
      then have "real_of_int (4503599627370496 * 4503599627370496) \<le> of_int (X * Y)" "real_of_int (X * Y) < of_int (9007199254740992 * 9007199254740992)"
        by (simp_all only: of_int_le_iff of_int_less_iff)
      then show "18014398509481984 \<le> of_int (X * Y) / (2 ^ 50 :: real)" "of_int (X * Y) / (2 ^ 50 :: real) < 72057594037927936" by simp_all
    qed
    ultimately have "rounds_to (FPR s ?e ?zs) (sgn_of s * (of_int (X * Y) / 2 ^ 50) * 2 powi (fexp x + fexp y - 2100))"
      using s(1) r by (intro pack_select) simp_all
    moreover have "sgn_of s * (of_int (X * Y) / 2 ^ 50) * 2 powi (fexp x + fexp y - 2100) = fval x * fval y"
    proof -
      have "fexp x + fexp y - 2100 = (fexp x - 1075) + (fexp y - 1075) + 50" by simp
      then have "(2 :: real) powi (fexp x + fexp y - 2100) = 2 powi (fexp x - 1075) * 2 powi (fexp y - 1075) * 2 powi 50"
        by (metis power_int_add zero_neq_numeral)
      then show ?thesis using False unfolding s(2) by (simp add: fval_nonzero X_def Y_def)
    qed
    ultimately show ?thesis using False unfolding F by simp
  qed
qed

text \<open>
  (C11) Multiplication of two values is correctly rounded: when the exact product is below the smallest normal
  number the result is a zero, and otherwise, when it does not overflow, the result is the number with a 53-bit
  mantissa nearest to the exact product, ties to even.
\<close>

theorem fpr_mul_correct: "rounds_to (fpr_mul x y) (fval x * fval y)"
  by (rule mul_rounds)

end
