(* ===== verification/Fpr_Div.thy ===== *)
theory Fpr_Div
  imports Fpr_Mul
begin

text \<open>
  Division and square root in fpr.c are correctly rounded. Both produce the result bit by bit; the invariants of
  the two loops relate the partial result and the remainder to the operand.
\<close>

lemma compare_mask:
  fixes a b :: u64
  assumes "uint a < 9223372036854775808" "uint b < 9223372036854775808"
  shows "drop_bit 63 (a - b) - 1 = (if uint a < uint b then 0 else - 1)"
proof -
  have gen: "9223372036854775808 \<le> (c - d) mod 18446744073709551616 \<longleftrightarrow> c < d"
    if "0 \<le> c" "c < 9223372036854775808" "0 \<le> d" "d < 9223372036854775808" for c d :: int
    using that mod_neg_once [of "c - d" 18446744073709551616] by (cases "c < d") simp_all
  have "fneg (a - b) \<longleftrightarrow> uint a < uint b"
    using gen [OF uint_nonnegative assms(1) uint_nonnegative assms(2)] by (simp add: fneg_def uint_word_ariths)
  then show ?thesis unfolding sign_bit64 by simp
qed

lemma nonzero_flag64: "drop_bit 63 (x OR - x) = (if x \<noteq> 0 then 1 else 0)" for x :: u64
proof (cases "x = 0")
  case False
  have "bit (x OR - x) 63"
  proof (cases "bit x 63")
    case nb: False
    have "0 < uint x" using False uint_nonnegative [of x] by (simp add: word_uint_eq_iff less_le)
    moreover have "uint x < 9223372036854775808" using nb sign_bit64 [of x] by (simp add: bit_iff_odd_drop_bit fneg_def split: if_splits)
    ultimately have "fneg (- x)" unfolding fneg_def uint_word_ariths by (simp add: mod_neg_once)
    then have "bit (- x) 63" using sign_bit64 [of "- x"] by (simp add: bit_iff_odd_drop_bit)
    then show ?thesis by (simp add: bit_or_iff)
  qed (simp add: bit_or_iff)
  then show ?thesis using False sign_bit64 [of "x OR - x"] by (auto simp: bit_iff_odd_drop_bit split: if_splits)
qed simp

section \<open>Division\<close>

definition div_inv :: "int \<Rightarrow> int \<Rightarrow> nat \<Rightarrow> u64 \<times> u64 \<Rightarrow> bool" where
  "div_inv X Y i st \<longleftrightarrow> (let (xu, q) = st in X * 2 ^ i = uint q * Y + uint xu \<and> uint xu < 2 * Y \<and> even (uint q))"

lemma div_step_inv:
  assumes "div_inv X (uint yu) i st" "X < 2 * uint yu" "0 < uint yu" "uint yu < 9007199254740992" "i < 60"
  shows "div_inv X (uint yu) (Suc i) (div_step yu st)"
proof (cases st)
  case (Pair xu q)
  let ?Y = "uint yu"
  have inv: "X * 2 ^ i = uint q * ?Y + uint xu" "uint xu < 2 * ?Y" "even (uint q)" using assms(1) by (simp_all add: div_inv_def Pair)
  have "uint q * ?Y \<le> X * 2 ^ i" using inv(1) uint_nonnegative [of xu] by linarith
  also have "\<dots> < 2 * ?Y * 2 ^ i" using assms(2) by simp
  finally have "uint q * ?Y < 2 ^ Suc i * ?Y" by (simp add: ac_simps)
  then have "uint q < 2 ^ Suc i" using assms(3) by (simp only: mult_less_cancel_right_pos)
  also have "(2 :: int) ^ Suc i \<le> 2 ^ 60" using assms(5) by (intro power_increasing) simp_all
  finally have q: "uint q < 1152921504606846976" by simp
  define c where "c = (\<not> uint xu < ?Y)"
  have b: "drop_bit 63 (xu - yu) - 1 = (if c then - 1 else 0)" using compare_mask [of xu yu] inv(2) assms(4) by (simp add: c_def)
  have xs: "uint (xu - (if c then yu else 0)) = uint xu - (if c then ?Y else 0)"
    using inv(2) assms(4) uint_nonnegative [of xu] by (auto simp: uint_word_ariths c_def)
  have qs: "uint (q OR (if c then 1 else 0)) = uint q + (if c then 1 else 0)" unfolding uint_set_low using inv(3) by simp
  have st: "div_step yu st = (push_bit 1 (xu - (if c then yu else 0)), push_bit 1 (q OR (if c then 1 else 0)))"
    unfolding div_step_def Pair prod.case Let_def b by simp
  have x2: "uint (push_bit 1 (xu - (if c then yu else 0))) = 2 * (uint xu - (if c then ?Y else 0))"
    unfolding uint_shl xs using inv(2) assms(4) uint_nonnegative [of xu] by (auto simp: c_def)
  have q2: "uint (push_bit 1 (q OR (if c then 1 else 0))) = 2 * (uint q + (if c then 1 else 0))"
    unfolding uint_shl qs using q uint_nonnegative [of q] by auto
  have "X * 2 ^ Suc i = 2 * (uint q * ?Y + uint xu)" using inv(1) by simp
  then show ?thesis unfolding div_inv_def st Let_def prod.case x2 q2 using inv(2) by (auto simp: c_def algebra_simps)
qed

lemma div_loop_inv:
  assumes "X = uint xu" "X < 2 * uint yu" "0 < uint yu" "uint yu < 9007199254740992" "i \<le> 60"
  shows "div_inv X (uint yu) i ((div_step yu ^^ i) (xu, 0))"
  using assms(5)
proof (induction i)
  case 0
  then show ?case using assms by (simp add: div_inv_def)
next
  case (Suc i)
  then have "div_inv X (uint yu) i ((div_step yu ^^ i) (xu, 0))" by simp
  then show ?case unfolding funpow.simps comp_def using Suc.prems assms by (intro div_step_inv) simp_all
qed

lemma div_mantissa:
  assumes "4503599627370496 \<le> uint xu" "uint xu < 9007199254740992" "4503599627370496 \<le> uint yu" "uint yu < 9007199254740992"
    and "(div_step yu ^^ 55) (xu, 0) = (r, q)"
  defines "W \<equiv> of_int (uint xu) * 2 ^ 55 / real_of_int (uint yu)"
  shows "sticky (uint (q OR drop_bit 63 (r OR - r))) W" "18014398509481984 \<le> W" "W < 72057594037927936"
proof -
  let ?X = "uint xu" and ?Y = "uint yu"
  have inv: "?X * 2 ^ 55 = uint q * ?Y + uint r" "uint r < 2 * ?Y" "even (uint q)"
    using div_loop_inv [of ?X xu yu 55] assms(1-5) by (simp_all add: div_inv_def)
  have Y: "0 < real_of_int ?Y" using assms(3) by linarith
  have "real_of_int (?X * 2 ^ 55) = of_int (uint q * ?Y + uint r)" using inv(1) by (simp only:)
  then have W: "W = of_int (uint q) + of_int (uint r) / of_int ?Y" unfolding W_def using Y by (simp add: field_simps)
  have r: "0 \<le> real_of_int (uint r) / of_int ?Y" "real_of_int (uint r) / of_int ?Y < 2"
  proof -
    have "real_of_int (uint r) < of_int (2 * ?Y)" using inv(2) by (simp only: of_int_less_iff)
    then show "real_of_int (uint r) / of_int ?Y < 2" using Y by (simp add: field_simps)
  qed (use Y in \<open>intro divide_nonneg_pos; simp only: of_int_0_le_iff uint_nonnegative\<close>)
  show "sticky (uint (q OR drop_bit 63 (r OR - r))) W"
  proof (cases "r = 0")
    case False
    then have "uint r \<noteq> 0" by (simp add: word_uint_eq_iff)
    then have "real_of_int (uint r) / of_int ?Y \<noteq> 0" using Y by (simp del: of_int_uint)
    then have "0 < real_of_int (uint r) / of_int ?Y" using r(1) by linarith
    then have "\<bar>W - of_int (uint q + 1)\<bar> < 1" unfolding W using r(2) by (simp add: abs_less_iff)
    then show ?thesis unfolding nonzero_flag64 uint_set_low sticky_def using False inv(3) by simp
  qed (simp add: W sticky_def del: of_int_uint)
  have X: "4503599627370496 \<le> real_of_int ?X" "real_of_int ?X < 9007199254740992" "4503599627370496 \<le> real_of_int ?Y" "real_of_int ?Y < 9007199254740992"
    using assms(1-4) by linarith+
  then show "18014398509481984 \<le> W" "W < 72057594037927936" unfolding W_def using Y by (simp_all add: field_simps)
qed

text \<open>
  (C12) Division by a nonzero value is correctly rounded, with the same treatment of results outside the range of
  the normal numbers as multiplication.
\<close>

theorem fpr_div_correct:
  assumes "fval y \<noteq> 0"
  shows "rounds_to (fpr_div x y) (fval x / fval y)"
proof -
  define xu where "xu = (x AND (push_bit 52 1 - 1)) OR push_bit 52 1"
  define yu where "yu = (y AND (push_bit 52 1 - 1)) OR push_bit 52 1"
  define ex where "ex = (ucast (drop_bit 52 x AND 0x7FF) :: u32)"
  define ey where "ey = (ucast (drop_bit 52 y AND 0x7FF) :: u32)"
  define s where "s = (ucast (drop_bit 63 (x XOR y)) :: u32)"
  obtain r q0 where loop: "(div_step yu ^^ 55) (xu, 0) = (r, q0)" by (metis surj_pair)
  define q where "q = q0 OR drop_bit 63 (r OR - r)"
  let ?qs = "q XOR ((q XOR (drop_bit 1 q OR (q AND 1))) AND - drop_bit 55 q)"
  let ?e = "word_of_int (fexp x - fexp y - 55) + ucast (drop_bit 55 q) :: u32"
  have e: "ex = word_of_int (fexp x)" "ey = word_of_int (fexp y)" unfolding ex_def ey_def by (simp_all flip: uint_exponent(3))
  have d: "signed_drop_bit 11 (ex + 0x7FF) = (if fexp x = 0 then 0 else 1)" unfolding ex_def by (rule flag_exponent) (rule field_range)
  have ee: "ex - ey - 55 + ucast (drop_bit 55 q) = ?e" unfolding e by simp
  have F: "fpr_div x y = FPR (s AND (if fexp x = 0 then 0 else 1)) (?e AND - (if fexp x = 0 then 0 else 1)) (?qs AND - scast (if fexp x = 0 then 0 else 1 :: u32))"
    unfolding ee [symmetric] d [symmetric] unfolding fpr_div_def Let_def xu_def [symmetric] yu_def [symmetric] loop prod.case q_def s_def ex_def ey_def by (rule refl)
  have s: "s = 0 \<or> s = 1" "sgn_of s = fsign x / fsign y" unfolding s_def sign_xor by (simp_all add: sgn_of_def fsign_def)
  have r: "0 \<le> fexp x" "fexp x < 2048" "0 \<le> fexp y" "fexp y < 2048" by (simp_all add: field_range)
  have y: "fexp y \<noteq> 0" using assms by (auto simp: fval_def)
  show ?thesis
  proof (cases "fexp x = 0")
    case True
    then have "fzero (fpr_div x y)" unfolding F using FPR_zero_mantissa by simp
    moreover have "fval x / fval y = 0" using True by (auto simp: fval_def)
    ultimately show ?thesis using rounds_to_zero by metis
  next
    case False
    define X where "X = 4503599627370496 + fman x"
    define Y where "Y = 4503599627370496 + fman y"
    have u: "uint xu = X" "uint yu = Y" unfolding xu_def yu_def X_def Y_def by (simp_all only: mantissa)
    have b: "4503599627370496 \<le> X" "X < 9007199254740992" "4503599627370496 \<le> Y" "Y < 9007199254740992"
      using field_range [of x] field_range [of y] by (simp_all add: X_def Y_def)
    have "rounds_to (FPR s ?e ?qs) (sgn_of s * (of_int X * 2 ^ 55 / of_int Y) * 2 powi (fexp x - fexp y - 55))"
      using s(1) r div_mantissa [of xu yu, OF _ _ _ _ loop, folded q_def] u b by (intro pack_select) simp_all
    moreover have "sgn_of s * (of_int X * 2 ^ 55 / of_int Y) * 2 powi (fexp x - fexp y - 55) = fval x / fval y"
    proof -
      have "fexp x - 1075 = (fexp x - fexp y - 55) + 55 + (fexp y - 1075)" by simp
      then have "(2 :: real) powi (fexp x - 1075) = 2 powi (fexp x - fexp y - 55) * 2 powi 55 * 2 powi (fexp y - 1075)"
        by (metis power_int_add zero_neq_numeral)
      then show ?thesis using False y unfolding s(2) by (simp add: fval_nonzero X_def Y_def)
    qed
    ultimately show ?thesis using False s(1) unfolding F by auto
  qed
qed

theorem fpr_div_correct_witness:
  "fval 4607182418800017408 \<noteq> 0 \<and> rounds_to (fpr_div 4611686018427387904 4607182418800017408) (fval 4611686018427387904 / fval 4607182418800017408)"
proof -
  have "fval 4607182418800017408 \<noteq> 0" by (simp add: fval_def fsign_def fexp_def fman_def fneg_def)
  then show ?thesis using fpr_div_correct [of 4607182418800017408 4611686018427387904] by blast
qed

section \<open>Square root\<close>

text \<open>After \<open>i\<close> steps the partial root \<open>q\<close> is a multiple of \<open>2^(54-i)\<close>, and the scaled remainder is exact.\<close>

definition sqrt_inv :: "int \<Rightarrow> nat \<Rightarrow> u64 \<times> u64 \<times> u64 \<times> u64 \<Rightarrow> bool" where
  "sqrt_inv X i st \<longleftrightarrow>
     (let (xu, q, s, r) = st
      in uint s = 2 * uint q \<and> uint q < 2 ^ 54 \<and> (X * 2 ^ 53 - uint q ^ 2) * 2 ^ i = uint xu * 2 ^ 53 \<and>
         X * 2 ^ 53 * (2 ^ i) ^ 2 < (uint q * 2 ^ i + 2 ^ 54) ^ 2 \<and> uint r = (if i = 54 then 0 else 2 ^ (53 - i)))"

lemma sqrt_step_inv:
  assumes "sqrt_inv X i st" "X < 2 ^ 55" "i < 54"
  shows "sqrt_inv X (Suc i) (sqrt_step st)"
proof -
  obtain xu q s r where st: "st = (xu, q, s, r)" by (metis surj_pair)
  define P where "P = (2 :: int) ^ i"
  define R where "R = (2 :: int) ^ (53 - i)"
  have PR: "P * R = 2 ^ 53" unfolding P_def R_def using assms(3) by (simp flip: power_add)
  have pos: "0 < P" "0 < R" "R \<le> 2 ^ 53" unfolding P_def R_def using power_increasing [of "53 - i" 53 "2 :: int"] by simp_all
  have inv: "uint s = 2 * uint q" "uint q < 2 ^ 54" "(X * 2 ^ 53 - uint q ^ 2) * P = uint xu * 2 ^ 53"
    "X * 2 ^ 53 * P ^ 2 < (uint q * P + 2 ^ 54) ^ 2" "uint r = R"
    using assms(1,3) unfolding sqrt_inv_def st prod.case Let_def P_def [symmetric] R_def [symmetric] by (auto simp only: split: if_splits)
  have D: "X * 2 ^ 53 - uint q ^ 2 = uint xu * R"
  proof -
    have "(X * 2 ^ 53 - uint q ^ 2) * P = uint xu * R * P" unfolding inv(3) using PR by (simp add: ac_simps)
    then show ?thesis using pos(1) by (simp only: mult_cancel_right) simp
  qed
  have up: "X * 2 ^ 53 < (uint q + 2 * R) ^ 2"
  proof -
    have "X * 2 ^ 53 * P ^ 2 < (uint q * P + 2 * (P * R)) ^ 2" using inv(4) unfolding PR by simp
    also have "\<dots> = (uint q + 2 * R) ^ 2 * P ^ 2" by algebra
    finally show ?thesis using pos(1) by (simp add: mult_less_cancel_right_pos)
  qed
  have xb: "uint xu < 4 * uint q + 4 * R"
  proof -
    have "uint xu * R < (4 * uint q + 4 * R) * R" using up D by (simp add: power2_eq_square algebra_simps)
    then show ?thesis using pos(2) by (simp only: mult_less_cancel_right_pos)
  qed
  define t where "t = s + r"
  have t: "uint t = 2 * uint q + R" unfolding t_def uint_word_ariths inv(1,5) using inv(2) pos(2,3) uint_nonnegative [of q] by simp
  define c where "c = (\<not> uint xu < uint t)"
  have b: "drop_bit 63 (xu - t) - 1 = (if c then - 1 else 0)" using compare_mask [of xu t] inv(2) xb t pos(3) by (simp add: c_def)
  define xu1 where "xu1 = xu - (if c then t else 0)"
  define q1 where "q1 = q + (if c then r else 0)"
  define s1 where "s1 = s + (if c then push_bit 1 r else 0)"
  have n: "0 \<le> uint q" "0 \<le> uint xu" by simp_all
  have u: "uint xu1 = uint xu - (if c then 2 * uint q + R else 0)" "uint q1 = uint q + (if c then R else 0)" "uint s1 = 2 * uint q1"
  proof -
    show "uint xu1 = uint xu - (if c then 2 * uint q + R else 0)"
    proof (cases c)
      case True
      then have "0 \<le> uint xu - (2 * uint q + R)" "uint xu - (2 * uint q + R) < 18446744073709551616"
        using n uint64_lt [of xu] pos(2) unfolding c_def t by linarith+
      then show ?thesis using True by (simp add: xu1_def uint_word_ariths t)
    qed (simp add: xu1_def)
    show q: "uint q1 = uint q + (if c then R else 0)" unfolding q1_def using n inv(2,5) pos by (auto simp: uint_word_ariths)
    have "uint (push_bit 1 r) = 2 * R" unfolding uint_shl inv(5) using pos by simp
    then show "uint s1 = 2 * uint q1" unfolding q s1_def using n inv(1,2) pos by (auto simp: uint_word_ariths)
  qed
  have st': "sqrt_step st = (push_bit 1 xu1, q1, s1, drop_bit 1 r)"
    unfolding sqrt_step_def st prod.case Let_def t_def [symmetric] b xu1_def q1_def s1_def by simp
  have x1: "uint (push_bit 1 xu1) = 2 * uint xu1"
  proof -
    have "0 \<le> uint xu1" "uint xu1 \<le> uint xu" using n pos(2) unfolding u(1) by (auto simp: c_def t)
    then show ?thesis unfolding uint_shl using xb inv(2) pos(3) by simp
  qed
  have D1: "X * 2 ^ 53 - uint q1 ^ 2 = uint xu1 * R"
    using D unfolding u by (cases c) (simp_all add: power2_eq_square algebra_simps)
  have up1: "X * 2 ^ 53 < (uint q1 + R) ^ 2"
  proof (cases c)
    case True
    then show ?thesis using up unfolding u by (simp add: add.assoc)
  next
    case False
    then have "uint xu * R < (2 * uint q + R) * R" using pos(2) unfolding c_def t by (intro mult_strict_right_mono) simp_all
    then show ?thesis using D False unfolding u by (simp add: power2_eq_square algebra_simps)
  qed
  have "0 \<le> uint xu1 * R" using pos(2) by (intro mult_nonneg_nonneg) simp_all
  then have "uint q1 ^ 2 < (2 ^ 54) ^ 2" using D1 assms(2) by simp
  then have q1: "uint q1 < 2 ^ 54" by (rule power2_less_imp_less) simp
  have r1: "uint (drop_bit 1 r) = (if Suc i = 54 then 0 else 2 ^ (53 - Suc i))"
  proof (cases "Suc i = 54")
    case False
    then have "R = 2 * 2 ^ (53 - Suc i)" unfolding R_def using assms(3) by (simp flip: power_Suc add: Suc_diff_Suc)
    then show ?thesis using False by (simp add: uint_shr inv(5))
  qed (simp add: uint_shr inv(5) R_def)
  have "(X * 2 ^ 53 - uint q1 ^ 2) * (2 * P) = 2 * uint xu1 * (P * R)" unfolding D1 by simp
  then have e1: "(X * 2 ^ 53 - uint q1 ^ 2) * 2 ^ Suc i = 2 * uint xu1 * 2 ^ 53" unfolding PR by (simp add: P_def)
  have "X * 2 ^ 53 * (4 * P ^ 2) < (uint q1 + R) ^ 2 * (4 * P ^ 2)" using up1 pos(1) by (intro mult_strict_right_mono) simp_all
  also have "\<dots> = (uint q1 * (2 * P) + 2 * (P * R)) ^ 2" by algebra
  also have "\<dots> = (uint q1 * 2 ^ Suc i + 2 ^ 54) ^ 2" unfolding PR by (simp add: P_def)
  finally have e2: "X * 2 ^ 53 * (2 ^ Suc i) ^ 2 < (uint q1 * 2 ^ Suc i + 2 ^ 54) ^ 2"
    by (simp add: P_def power2_eq_square)
  show ?thesis unfolding sqrt_inv_def st' prod.case Let_def x1 using u(3) q1 e1 e2 r1 by blast
qed

lemma sqrt_loop_inv:
  assumes "X = uint xu" "0 \<le> X" "X < 2 ^ 55" "i \<le> 54"
  shows "sqrt_inv X i ((sqrt_step ^^ i) (xu, 0, 0, push_bit 53 1))"
  using assms(4)
proof (induction i)
  case 0
  then show ?case using assms by (simp add: sqrt_inv_def)
next
  case (Suc i)
  then have "sqrt_inv X i ((sqrt_step ^^ i) (xu, 0, 0, push_bit 53 1))" by simp
  then show ?case unfolding funpow.simps comp_def using Suc.prems assms by (intro sqrt_step_inv) simp_all
qed

lemma sqrt_mantissa:
  assumes "9007199254740992 \<le> uint xu" "uint xu < 36028797018963968"
    and "(sqrt_step ^^ 54) (xu, 0, 0, push_bit 53 1) = (x1, q, s, r)"
  defines "W \<equiv> 2 * sqrt (of_int (uint xu) * 2 ^ 53)"
  shows "sticky (uint (push_bit 1 q OR drop_bit 63 (x1 OR - x1))) W" "18014398509481984 \<le> W" "W < 36028797018963968"
proof -
  let ?X = "uint xu"
  have "sqrt_inv ?X 54 (x1, q, s, r)" using sqrt_loop_inv [of ?X xu 54] assms(1-3) by simp
  then have i: "uint q < 2 ^ 54" "(?X * 2 ^ 53 - uint q ^ 2) * 2 ^ 54 = uint x1 * 2 ^ 53" "?X * 2 ^ 53 * (2 ^ 54) ^ 2 < (uint q * 2 ^ 54 + 2 ^ 54) ^ 2"
    unfolding sqrt_inv_def by simp_all
  define D where "D = ?X * 2 ^ 53"
  have d: "uint x1 = 2 * (D - uint q ^ 2)" using i(2) unfolding D_def by simp
  have "D * (2 ^ 54) ^ 2 < (uint q + 1) ^ 2 * (2 ^ 54) ^ 2" using i(3) unfolding D_def power_mult_distrib [symmetric] by (simp add: algebra_simps)
  then have up: "D < (uint q + 1) ^ 2" by (simp only: mult_less_cancel_right_pos zero_less_power zero_less_numeral)
  have le: "uint q ^ 2 \<le> D" using uint_nonnegative [of x1] unfolding d by simp
  define S where "S = sqrt (of_int D)"
  have W: "W = 2 * S" unfolding W_def S_def D_def by simp
  have lo: "of_int (uint q) \<le> S" unfolding S_def using le by (intro real_le_rsqrt) (simp only: of_int_power [symmetric] of_int_le_iff)
  have hi: "S < of_int (uint q + 1)" unfolding S_def
  proof (rule real_less_lsqrt)
    show "real_of_int D < (of_int (uint q + 1))\<^sup>2" using up by (simp only: of_int_power [symmetric] of_int_less_iff)
    have "0 \<le> uint q + 1" using uint_nonnegative [of q] by linarith
    then show "0 \<le> real_of_int (uint q + 1)" by (simp only: of_int_0_le_iff)
  qed
  have z: "x1 = 0" if "S = of_int (uint q)"
  proof -
    have "0 \<le> D" using le by (rule order_trans [rotated]) simp
    then have "real_of_int D = S ^ 2" unfolding S_def by simp
    then have "D = uint q ^ 2" unfolding that by (simp only: of_int_power [symmetric] of_int_eq_iff)
    then show ?thesis using d by (simp add: word_uint_eq_iff)
  qed
  have e: "S = of_int (uint q)" if "x1 = 0"
  proof -
    have "D = uint q ^ 2" using d that by simp
    then show ?thesis unfolding S_def by (simp only: of_int_power real_sqrt_abs of_int_abs [symmetric] abs_of_nonneg uint_nonnegative)
  qed
  have p: "uint (push_bit 1 q) = 2 * uint q" unfolding uint_shl using i(1) uint_nonnegative [of q] by simp
  show "sticky (uint (push_bit 1 q OR drop_bit 63 (x1 OR - x1))) W"
  proof (cases "x1 = 0")
    case True
    then show ?thesis unfolding nonzero_flag64 uint_set_low p sticky_def W using e by (simp del: of_int_uint)
  next
    case False
    then have "of_int (uint q) < S" using lo z by force
    then have "\<bar>2 * S - of_int (2 * uint q + 1)\<bar> < 1" using hi unfolding of_int_add of_int_mult abs_less_iff by simp
    then show ?thesis unfolding nonzero_flag64 uint_set_low p sticky_def W using False by simp
  qed
  have "real_of_int (2 ^ 106) \<le> of_int D" "real_of_int D < of_int (2 ^ 108)" unfolding D_def of_int_le_iff of_int_less_iff using assms(1,2) by simp_all
  then have "2 ^ 53 \<le> S" "S < 2 ^ 54" unfolding S_def by (auto intro!: real_le_rsqrt real_less_lsqrt)
  then show "18014398509481984 \<le> W" "W < 36028797018963968" unfolding W by simp_all
qed

lemma signed_shift_int:
  assumes "- 2147483648 \<le> j" "j < 2147483648"
  shows "signed_drop_bit n (word_of_int j :: u32) = word_of_int (j div 2 ^ n)"
proof -
  have "sint (word_of_int j :: u32) = j" using assms by (simp add: signed_of_int signed_take_bit_int_eq_self)
  then have "sint (signed_drop_bit n (word_of_int j :: u32)) = j div 2 ^ n" by (simp add: sint_signed_drop_bit_eq drop_bit_eq_div)
  then show ?thesis by (metis scast_eq scast_id)
qed

text \<open>
  (C13) The square root is correctly rounded. The sign of the operand is not looked at, so the result is the root of
  its absolute value.
\<close>

theorem fpr_sqrt_correct: "rounds_to (fpr_sqrt x) (sqrt \<bar>fval x\<bar>)"
proof -
  define xm where "xm = (x AND (push_bit 52 1 - 1)) OR push_bit 52 1"
  define ex where "ex = (ucast (drop_bit 52 x AND 0x7FF) :: u32)"
  define xu where "xu = push_bit 1 (xm + (xm AND - scast ((ex - 1023) AND 1)))"
  define k where "k = (fexp x - 1023) div 2"
  define o1 where "o1 = (fexp x - 1023) mod 2"
  obtain x1 q s r where loop: "(sqrt_step ^^ 54) (xu, 0, 0, push_bit 53 1) = (x1, q, s, r)" by (metis surj_pair)
  define z where "z = push_bit 1 q OR drop_bit 63 (x1 OR - x1)"
  have r: "0 \<le> fexp x" "fexp x < 2048" by (simp_all add: field_range)
  have o1: "o1 = 0 \<or> o1 = 1" unfolding o1_def by linarith
  have ko: "2 * k + o1 = fexp x - 1023" unfolding k_def o1_def by simp
  have e: "ex = word_of_int (fexp x)" unfolding ex_def by (simp_all flip: uint_exponent(3))
  have par: "(ex - 1023) AND 1 = (if o1 = 1 then 1 else 0)"
  proof -
    have "uint ((ex - 1023) AND 1) = uint (ex - 1023) mod 2" using uint_and_low [of "1 :: u32" 1 "ex - 1023"] by simp
    also have "uint (ex - 1023) = (fexp x - 1023) mod 4294967296" unfolding e by (simp add: uint_word_ariths uint_word_of_int mod_simps)
    also have "\<dots> mod 2 = o1" unfolding o1_def by (simp add: mod_mod_cancel)
    finally show ?thesis using o1 by (auto simp: word_uint_eq_iff)
  qed
  have half: "signed_drop_bit 1 (ex - 1023) = word_of_int k"
    unfolding e k_def using signed_shift_int [of "fexp x - 1023" 1] r by simp
  have d: "signed_drop_bit 11 (ex + 0x7FF) = (if fexp x = 0 then 0 else 1)" unfolding ex_def by (rule flag_exponent) (rule field_range)
  have F: "fpr_sqrt x = FPR 0 (word_of_int (k - 54)) (z AND - scast (if fexp x = 0 then 0 else 1 :: u32))"
    unfolding d [symmetric] unfolding fpr_sqrt_def Let_def xm_def [symmetric] ex_def [symmetric] xu_def [symmetric] loop prod.case z_def half by simp
  show ?thesis
  proof (cases "fexp x = 0")
    case True
    then have "fzero (fpr_sqrt x)" unfolding F using FPR_zero_mantissa by simp
    moreover have "sqrt \<bar>fval x\<bar> = 0" using True by (auto simp: fval_def)
    ultimately show ?thesis using rounds_to_zero by metis
  next
    case False
    define X where "X = 4503599627370496 + fman x"
    have X: "4503599627370496 \<le> X" "X < 9007199254740992" using field_range [of x] by (simp_all add: X_def)
    have m: "uint xm = X" unfolding xm_def X_def by (rule mantissa)
    have u: "uint xu = X * 2 * 2 ^ nat o1"
      unfolding xu_def par using o1 X by (auto simp: uint_shl uint_word_ariths m)
    have "rounds_to (FPR 0 (word_of_int (k - 54)) z) (sgn_of 0 * (2 * sqrt (of_int (uint xu) * 2 ^ 53)) * 2 powi (k - 54))"
    proof (rule FPR_rounds)
      have b: "9007199254740992 \<le> uint xu" "uint xu < 36028797018963968" unfolding u using X o1 by auto
      note sq = sqrt_mantissa [OF b loop, folded z_def]
      show "sticky (uint z) (2 * sqrt (of_int (uint xu) * 2 ^ 53))" "18014398509481984 \<le> 2 * sqrt (of_int (uint xu) * 2 ^ 53)"
        "2 * sqrt (of_int (uint xu) * 2 ^ 53) < 36028797018963968" by (rule sq)+
      show "- 100000 < k - 54" "k - 54 < 100000" using r ko o1 by linarith+
    qed simp
    moreover have "sgn_of 0 * (2 * sqrt (of_int (uint xu) * 2 ^ 53)) * 2 powi (k - 54) = sqrt \<bar>fval x\<bar>"
    proof (rule real_sqrt_unique [symmetric])
      have p: "((2 :: real) powi (k - 54)) ^ 2 = 2 powi (2 * k - 108)" 
        using power_int_mult [of "2 :: real" "k - 54" 2] by (simp add: mult.commute)
      have o2: "(2 :: real) ^ nat o1 = 2 powi o1" using o1 by auto
      have a: "\<bar>fval x\<bar> = of_int X * 2 powi (fexp x - 1075)" using False X by (simp add: fval_nonzero X_def fsign_def abs_mult)
      have "fexp x - 1075 = 2 * k - 108 + o1 + 56" using ko by simp
      then have "(2 :: real) powi (fexp x - 1075) = 2 powi (2 * k - 108) * 2 powi o1 * 2 powi 56" by (metis power_int_add zero_neq_numeral)
      then show "(sgn_of 0 * (2 * sqrt (of_int (uint xu) * 2 ^ 53)) * 2 powi (k - 54))\<^sup>2 = \<bar>fval x\<bar>"
        unfolding a u using X by (simp add: sgn_of_def power_mult_distrib p o2)
    qed (use X in \<open>simp add: sgn_of_def u\<close>)
    ultimately show ?thesis using False unfolding F by simp
  qed
qed

end
