(* ===== verification/Fpr_Add.thy ===== *)
theory Fpr_Add
  imports Fpr_Div
begin

text \<open>
  Conversion from integers and addition in fpr.c are correctly rounded: normalisation to 64 bits, and the alignment
  of the smaller operand with its dropped bits collected in a sticky bit.
\<close>

section \<open>Shifts by a variable count\<close>

lemma count_high: "uint n < 64 \<Longrightarrow> signed_drop_bit 5 n = (if 32 \<le> uint n then 1 else 0)" for n :: u32
proof -
  assume n: "uint n < 64"
  have "uint n div 32 = (if 32 \<le> uint n then 1 else 0)"
    using n uint_nonnegative [of n] int_div_pos_eq [of "uint n" 32 1 "uint n - 32"] by (auto simp: div_pos_pos_trivial)
  then show ?thesis using n by (simp add: signed_shift_small word_uint_eq_iff uint_shr)
qed

lemma count_low: "uint n < 64 \<Longrightarrow> unat (n AND 31) = (if 32 \<le> uint n then unat n - 32 else unat n)" for n :: u32
proof -
  assume n: "uint n < 64"
  have "uint (n AND 31) = uint n mod 32" using uint_and_low [of "31 :: u32" 5 n] by simp
  also have "\<dots> = (if 32 \<le> uint n then uint n - 32 else uint n)"
    using n uint_nonnegative [of n] mod_pos_pos_trivial [of "uint n - 32" 32] by (cases "32 \<le> uint n") simp_all
  finally have u: "uint (n AND 31) = (if 32 \<le> uint n then uint n - 32 else uint n)" .
  show ?thesis unfolding unat_eq_nat_uint u using n by (cases "32 \<le> uint n") (simp_all add: nat_diff_distrib)
qed

lemma flag_word: "scast (if c then 1 else 0 :: u32) = (if c then 1 else 0 :: u64)"
  by simp

lemma fpr_ulsh_eq: "uint n < 64 \<Longrightarrow> fpr_ulsh x n = push_bit (unat n) x"
proof -
  assume n: "uint n < 64"
  have "32 \<le> unat n" if "32 \<le> uint n" using that by (simp flip: nat_uint_eq)
  then show ?thesis unfolding fpr_ulsh_def Let_def count_high [OF n] count_low [OF n] flag_word select_mask
    by (cases "32 \<le> uint n") (simp_all add: push_bit_push_bit)
qed

lemma fpr_ursh_eq: "uint n < 64 \<Longrightarrow> fpr_ursh x n = drop_bit (unat n) x"
proof -
  assume n: "uint n < 64"
  have "32 \<le> unat n" if "32 \<le> uint n" using that by (simp flip: nat_uint_eq)
  then show ?thesis unfolding fpr_ursh_def Let_def count_high [OF n] count_low [OF n] flag_word select_mask
    by (cases "32 \<le> uint n") (simp_all add: drop_bit_drop_bit)
qed

section \<open>Normalisation\<close>

lemma nonzero_flag32: "drop_bit 31 (x OR - x) = (if x \<noteq> 0 then 1 else 0)" for x :: u32
proof (cases "x = 0")
  case False
  have "bit (x OR - x) 31"
  proof (cases "bit x 31")
    case nb: False
    have "0 < uint x" using False uint_nonnegative [of x] by (simp add: word_uint_eq_iff less_le)
    moreover have "uint x < 2147483648" using nb sign_shift [of x] by (simp add: bit_iff_odd_drop_bit split: if_splits)
    ultimately have "2147483648 \<le> uint (- x)" unfolding uint_word_ariths by (simp add: mod_neg_once)
    then have "bit (- x) 31" using sign_shift [of "- x"] by (simp add: bit_iff_odd_drop_bit)
    then show ?thesis by (simp add: bit_or_iff)
  qed (simp add: bit_or_iff)
  then show ?thesis using False sign_shift [of "x OR - x"] by (auto simp: bit_iff_odd_drop_bit split: if_splits)
qed simp

lemma norm64_step_spec:
  assumes "1 \<le> sh" "sh \<le> 32" "sh = 2 ^ lg" "(2 :: int) ^ (64 - 2 * sh) \<le> uint m"
  shows "\<exists>k. k \<le> sh \<and> norm64_step sh lg (m, e) = (push_bit k m, e + word_of_int (int sh - int k)) \<and>
    uint (push_bit k m) = uint m * 2 ^ k \<and> (2 :: int) ^ (64 - sh) \<le> uint (push_bit k m)"
proof -
  let ?nt = "ucast (drop_bit (64 - sh) m) :: u32"
  have pw: "(2 :: int) ^ (64 - sh) * 2 ^ sh = 2 ^ 64" using assms(2) by (simp flip: power_add)
  have z: "?nt = 0 \<longleftrightarrow> uint m < 2 ^ (64 - sh)"
  proof -
    have lt: "uint m < 2 ^ sh * 2 ^ (64 - sh)" using uint64_lt [of m] pw by (simp add: mult.commute)
    have "uint m div 2 ^ (64 - sh) * 2 ^ (64 - sh) \<le> uint m"
      using div_mult_mod_eq [of "uint m" "2 ^ (64 - sh)"] pos_mod_sign [of "2 ^ (64 - sh)" "uint m", OF zero_less_power] by linarith
    then have "uint m div 2 ^ (64 - sh) * 2 ^ (64 - sh) < 2 ^ sh * 2 ^ (64 - sh)" using lt by (rule order_le_less_trans)
    then have "uint m div 2 ^ (64 - sh) < 2 ^ sh" by (simp only: mult_less_cancel_right_pos zero_less_power zero_less_numeral)
    also have "(2 :: int) ^ sh \<le> 2 ^ 32" using assms(2) by (intro power_increasing) simp_all
    finally have "uint ?nt = uint m div 2 ^ (64 - sh)" unfolding uint_ucast_mod uint_shr
      by (simp add: pos_imp_zdiv_nonneg_iff)
    then show ?thesis using div_pos_pos_trivial [of "uint m" "2 ^ (64 - sh)"] pos_imp_zdiv_pos_iff [of "2 ^ (64 - sh)" "uint m"]
      by (auto simp: word_uint_eq_iff not_less)
  qed
  have st: "norm64_step sh lg (m, e) = (if uint m < 2 ^ (64 - sh) then (push_bit sh m, e) else (m, e + word_of_int (int sh)))"
    unfolding norm64_step_def prod.case Let_def nonzero_flag32 z using assms(3) by (auto simp: push_bit_eq_mult)
  show ?thesis
  proof (cases "uint m < 2 ^ (64 - sh)")
    case True
    then have "uint m * 2 ^ sh < 2 ^ (64 - sh) * 2 ^ sh" by simp
    then have "uint (push_bit sh m) = uint m * 2 ^ sh" unfolding pw uint_shl by simp
    moreover have "(2 :: int) ^ (64 - sh) \<le> uint m * 2 ^ sh"
    proof -
      have "(2 :: int) ^ (64 - sh) = 2 ^ (64 - 2 * sh) * 2 ^ sh" using assms(2) by (simp flip: power_add)
      also have "\<dots> \<le> uint m * 2 ^ sh" using assms(4) by simp
      finally show ?thesis .
    qed
    ultimately show ?thesis unfolding st using True by (intro exI [of _ sh]) simp
  next
    case False
    then show ?thesis unfolding st by (intro exI [of _ 0]) simp
  qed
qed

lemma FPR_NORM64_steps:
  "FPR_NORM64 m e = norm64_step 1 0 (norm64_step 2 1 (norm64_step 4 2 (norm64_step 8 3 (norm64_step 16 4 (norm64_step 32 5 (m, e - 63))))))"
proof -
  have "drop_bit 31 (nt OR - nt) = nt" if "nt = ucast (drop_bit 63 m)" for nt :: u32 and m :: u64
    unfolding nonzero_flag32 that sign_bit64 by simp
  then have last: "norm64_step 1 0 st = (let (m, e) = st; nt = ucast (drop_bit 63 m) :: u32 in (m XOR ((m XOR push_bit 1 m) AND (ucast nt - 1)), e + nt))" for st
    by (simp add: norm64_step_def Let_def split_beta)
  show ?thesis unfolding FPR_NORM64_def Let_def last by (simp add: split_beta)
qed

definition norm_at :: "u64 \<Rightarrow> u32 \<Rightarrow> nat \<Rightarrow> u64 \<times> u32 \<Rightarrow> bool" where
  "norm_at m0 e0 b st \<longleftrightarrow>
     (\<exists>k. st = (push_bit k m0, e0 - 63 + word_of_int (int b - int k)) \<and> uint (push_bit k m0) = uint m0 * 2 ^ k \<and> 2 ^ b \<le> uint (push_bit k m0))"

lemma norm_at_step:
  assumes "norm_at m0 e0 b st" "b = 64 - 2 * sh" "1 \<le> sh" "sh \<le> 32" "sh = 2 ^ lg" "b' = 64 - sh"
  shows "norm_at m0 e0 b' (norm64_step sh lg st)"
proof -
  obtain k where k: "st = (push_bit k m0, e0 - 63 + word_of_int (int b - int k))" "uint (push_bit k m0) = uint m0 * 2 ^ k" "2 ^ b \<le> uint (push_bit k m0)"
    using assms(1) unfolding norm_at_def by blast
  obtain j where j: "norm64_step sh lg st = (push_bit j (push_bit k m0), e0 - 63 + word_of_int (int b - int k) + word_of_int (int sh - int j))"
      "uint (push_bit j (push_bit k m0)) = uint (push_bit k m0) * 2 ^ j" "(2 :: int) ^ (64 - sh) \<le> uint (push_bit j (push_bit k m0))"
    using norm64_step_spec [OF assms(3-5) k(3) [unfolded assms(2)], of "e0 - 63 + word_of_int (int b - int k)"] unfolding k(1) by blast
  have p: "push_bit j (push_bit k m0) = push_bit (k + j) m0" by (simp add: push_bit_push_bit add.commute)
  have "int b - int k + (int sh - int j) = int b' - int (k + j)" unfolding assms(2,6) using assms(4) by simp
  then have "e0 - 63 + word_of_int (int b - int k) + word_of_int (int sh - int j) = e0 - 63 + word_of_int (int b' - int (k + j))"
    by (simp only: add.assoc of_int_add [symmetric])
  then show ?thesis unfolding norm_at_def using j k(2) unfolding p by (intro exI [of _ "k + j"]) (simp add: assms(6) power_add)
qed

lemma FPR_NORM64_spec:
  assumes "m \<noteq> 0"
  obtains k where "k \<le> 63" "FPR_NORM64 m e = (push_bit k m, e - word_of_int (int k))" "uint (push_bit k m) = uint m * 2 ^ k" "2 ^ 63 \<le> uint (push_bit k m)"
proof -
  have m: "1 \<le> uint m" using assms uint_nonnegative [of m] by (simp add: word_uint_eq_iff int_one_le_iff_zero_less less_le)
  then have "norm_at m e 0 (m, e - 63)" unfolding norm_at_def by (intro exI [of _ 0]) simp
  note 1 = norm_at_step [OF this, of 32 5 32]
  note 2 = norm_at_step [OF 1, of 16 4 48]
  note 3 = norm_at_step [OF 2, of 8 3 56]
  note 4 = norm_at_step [OF 3, of 4 2 60]
  note 5 = norm_at_step [OF 4, of 2 1 62]
  have "norm_at m e 63 (FPR_NORM64 m e)" unfolding FPR_NORM64_steps by (rule norm_at_step [OF 5, of 1 0 63]) simp_all
  then obtain k where k: "FPR_NORM64 m e = (push_bit k m, e - 63 + word_of_int (int 63 - int k))" "uint (push_bit k m) = uint m * 2 ^ k" "2 ^ 63 \<le> uint (push_bit k m)"
    unfolding norm_at_def by blast
  have "1 * 2 ^ k \<le> uint m * 2 ^ k" using m by (intro mult_right_mono) simp_all
  also have "\<dots> < 2 ^ 64" using uint64_lt [of "push_bit k m"] unfolding k(2) by simp
  finally have "(2 :: int) ^ k < 2 ^ 64" by simp
  then have "k \<le> 63" by (simp only: power_strict_increasing_iff one_less_numeral_iff semiring_norm)
  moreover have "e - 63 + word_of_int (int 63 - int k) = e - word_of_int (int k)" by simp
  ultimately show ?thesis using that k by metis
qed

lemma FPR_NORM64_zero: "fst (FPR_NORM64 0 e) = 0"
proof -
  have "fst (norm64_step sh lg (0, e)) = 0" for sh lg e by (simp add: norm64_step_def Let_def)
  then have z: "fst (norm64_step sh lg st) = 0" if "fst st = 0" for sh lg st using that by (metis prod.collapse)
  show ?thesis unfolding FPR_NORM64_steps by (intro z) simp
qed

section \<open>Sticky bits of a shift\<close>

lemma sticky_collect:
  fixes y :: u64
  assumes "n \<le> 60"
  shows "uint (drop_bit n (y OR ((y AND (push_bit n 1 - 1)) + (push_bit n 1 - 1)))) = sticky_shr n (uint y)"
proof -
  let ?M = "push_bit n 1 - 1 :: u64"
  have p: "(2 :: int) ^ n \<le> 1152921504606846976" using power_increasing [OF assms, of "2 :: int"] by simp
  then have up: "uint (push_bit n 1 :: u64) = 2 ^ n" unfolding uint_shl by simp
  then have uM: "uint ?M = 2 ^ n - 1" using p by (simp add: uint_word_ariths)
  have lo: "uint (y AND ?M) = uint y mod 2 ^ n" by (rule uint_and_low) (simp add: push_bit_eq_mult)
  have m: "0 \<le> uint y mod 2 ^ n" "uint y mod 2 ^ n < 2 ^ n" by simp_all
  have "0 \<le> uint y mod 2 ^ n + (2 ^ n - 1)" "uint y mod 2 ^ n + (2 ^ n - 1) < 18446744073709551616" using m p by linarith+
  then have u: "uint ((y AND ?M) + ?M) = uint y mod 2 ^ n + (2 ^ n - 1)" unfolding uint_word_ariths(1) uM lo by simp
  have "drop_bit n ((y AND ?M) + ?M) = (if uint y mod 2 ^ n \<noteq> 0 then 1 else 0)"
  proof -
    have "(uint y mod 2 ^ n + (2 ^ n - 1)) div 2 ^ n = (if uint y mod 2 ^ n \<noteq> 0 then 1 else 0)"
    proof (cases "uint y mod 2 ^ n = 0")
      case False
      then have "0 < uint y mod 2 ^ n" using m(1) by linarith
      then have "(uint y mod 2 ^ n + (2 ^ n - 1)) div 2 ^ n = 1" using m(2) by (intro int_div_pos_eq [of _ _ _ "uint y mod 2 ^ n - 1"]) linarith+
      then show ?thesis using False by simp
    qed (simp add: div_pos_pos_trivial)
    then show ?thesis unfolding word_uint_eq_iff uint_shr u by simp
  qed
  then show ?thesis unfolding drop_bit_or using sticky_or [of "drop_bit n y" "uint y" n] by (simp add: uint_shr)
qed

lemma sticky_collect9: "uint (drop_bit 9 (m OR ucast ((ucast m AND 0x1FF :: u32) + 0x1FF))) = sticky_shr 9 (uint m)" for m :: u64
proof -
  have a: "uint (ucast m AND 0x1FF :: u32) = uint m mod 512" using uint_and_low [of "0x1FF :: u32" 9 "ucast m"] by (simp add: uint_ucast_mod mod_mod_cancel)
  have b: "uint (m AND 0x1FF) = uint m mod 512" using uint_and_low [of "0x1FF :: u64" 9 m] by simp
  have "0 \<le> uint m mod 512" "uint m mod 512 < 512" by simp_all
  then have "uint (ucast ((ucast m AND 0x1FF :: u32) + 0x1FF) :: u64) = uint ((m AND 0x1FF) + 0x1FF)"
    by (simp add: uint_ucast_mod uint_word_ariths a b)
  then have "ucast ((ucast m AND 0x1FF :: u32) + 0x1FF) = (m AND (push_bit 9 1 - 1)) + (push_bit 9 1 - 1)" by (simp add: word_uint_eq_iff)
  then show ?thesis using sticky_collect [of 9 m] by simp
qed


text \<open>
  A value \<open>V\<close> known as an integer \<open>Z\<close> with a sticky bit is normalised and packed. When the sticky bit stands
  for something, the normalisation must not shift it above the bits that are dropped.
\<close>

lemma normalise_pack:
  fixes Z :: u64
  assumes "s = 0 \<or> s = 1" "sticky (uint Z) V" "of_int (uint Z) = V \<or> 18014398509481984 \<le> uint Z" "Z \<noteq> 0"
    "FPR_NORM64 Z (word_of_int e) = (m, e')" "- 90000 < e" "e < 90000"
  shows "rounds_to (FPR s (e' + 9) (drop_bit 9 (m OR ucast ((ucast m AND 0x1FF :: u32) + 0x1FF)))) (sgn_of s * V * 2 powi e)"
proof -
  obtain k where k: "k \<le> 63" "m = push_bit k Z" "e' = word_of_int e - word_of_int (int k)" "uint m = uint Z * 2 ^ k" "2 ^ 63 \<le> uint m"
    using FPR_NORM64_spec [OF assms(4), of "word_of_int e"] assms(5) by (metis Pair_inject)
  define M where "M = sticky_shr 9 (uint m)"
  define w where "w = V * 2 ^ k / 2 ^ 9"
  have st: "sticky M w"
  proof (cases "of_int (uint Z) = V")
    case True
    have "w = of_int (uint m) / 2 ^ 9" unfolding w_def k(4) True [symmetric] by simp
    then show ?thesis unfolding M_def using sticky_shift [OF sticky_exact, of 9 "uint m"] by (simp only: zero_less_numeral)
  next
    case False
    then have "18014398509481984 \<le> uint Z" using assms(3) by simp
    then have "18014398509481984 * 2 ^ k \<le> uint m" unfolding k(4) by simp
    then have "18014398509481984 * 2 ^ k < (18446744073709551616 :: int)" using uint64_lt [of m] by linarith
    then have "(2 :: int) ^ k < 2 ^ 10" by simp
    then have "k < 10" by (simp only: power_strict_increasing_iff one_less_numeral_iff semiring_norm)
    then obtain j where j: "9 = k + j" using le_Suc_ex [of k 9] by auto
    have e: "uint Z * 2 ^ k mod 2 ^ 9 = uint Z mod 2 ^ j * 2 ^ k" "uint Z * 2 ^ k div 2 ^ 9 = uint Z div 2 ^ j"
      unfolding j power_add by (simp_all add: mult.commute)
    have "M = sticky_shr j (uint Z)" unfolding M_def k(4) sticky_shr_def e by simp
    moreover have "w = V / 2 ^ j" unfolding w_def j power_add by simp
    ultimately show ?thesis using sticky_shift [OF assms(2), of j] assms(2) by (cases "j = 0") (simp_all add: sticky_shr_def)
  qed
  have "sticky M (of_int (uint m) / 2 ^ 9)" unfolding M_def using sticky_shift [OF sticky_exact, of 9 "uint m"] by simp
  note b = sticky_bounds [OF this, of 9007199254740992] sticky_bounds [OF this, of 18014398509481984]
  have "real_of_int (2 ^ 63) \<le> of_int (uint m)" "real_of_int (uint m) < of_int 18446744073709551616"
    using k(5) uint64_lt [of m] by (simp_all only: of_int_le_iff of_int_less_iff)
  then have "\<not> M < 2 * 9007199254740992" "M < 2 * 18014398509481984" unfolding b by (simp_all del: of_int_uint)
  then have w: "18014398509481984 \<le> w" "w < 36028797018963968" unfolding sticky_bounds [OF st] by simp_all
  have "e' + 9 = word_of_int (e - int k + 9)" unfolding k(3) by simp
  moreover have "uint (drop_bit 9 (m OR ucast ((ucast m AND 0x1FF :: u32) + 0x1FF))) = M" unfolding M_def by (rule sticky_collect9)
  moreover have "V * 2 powi e = w * 2 powi (e - int k + 9)"
  proof -
    have "e + 9 = (e - int k + 9) + int k" by simp
    then have "(2 :: real) powi e * 2 powi 9 = 2 powi (e - int k + 9) * 2 powi int k" by (metis power_int_add zero_neq_numeral)
    then show ?thesis unfolding w_def by simp
  qed
  ultimately show ?thesis using FPR_rounds [OF assms(1), of _ w "e - int k + 9"] st w k(1) assms(6,7) by (simp add: mult.assoc)
qed

section \<open>Conversion from integers\<close>

lemma norm64_step_add: "norm64_step sh lg (m, c + e) = (fst (norm64_step sh lg (m, e)), c + snd (norm64_step sh lg (m, e)))"
  by (simp add: norm64_step_def Let_def)

lemma FPR_NORM64_add: "FPR_NORM64 m (c + e) = (fst (FPR_NORM64 m e), c + snd (FPR_NORM64 m e))"
proof -
  have "norm64_step sh lg (fst st, c + snd st) = (fst (norm64_step sh lg st), c + snd (norm64_step sh lg st))" for sh lg st
    using norm64_step_add [of sh lg "fst st" c "snd st"] by simp
  note step = this [of _ _ "(_, _)", simplified fst_conv snd_conv] this
  have "c + e - 63 = c + (e - 63)" by simp
  then show ?thesis unfolding FPR_NORM64_steps by (simp only: step prod.collapse)
qed

lemma sint_fneg: "sint i = uint i - (if fneg i then 18446744073709551616 else 0)" for i :: u64
proof -
  have "sint i = (uint i + 9223372036854775808) mod 18446744073709551616 - 9223372036854775808"
    using int_word_sint [of "uint i", where 'a = 64] by simp
  moreover have "(uint i + 9223372036854775808) mod 18446744073709551616 = uint i + 9223372036854775808 - (if fneg i then 18446744073709551616 else 0)"
    using uint64_lt [of i] uint_nonnegative [of i] mod_pos_pos_trivial [of "uint i - 9223372036854775808" 18446744073709551616]
      minus_mod_self2 [of "uint i + 9223372036854775808" 18446744073709551616]
    by (auto simp: fneg_def)
  ultimately show ?thesis by simp
qed

lemma cond_negate64: "(i XOR - (if c then 1 else 0)) + (if c then 1 else 0) = (if c then - i else i)" for i :: u64
proof -
  have "(i XOR - 1) + 1 = - i" by (simp add: not_eq_complement)
  then show ?thesis by simp
qed

text \<open>
  (C15) A signed 64-bit integer other than \<open>-2^63\<close>, scaled by a power of two, is converted to the nearest
  representable number.
\<close>

theorem fpr_scaled_correct:
  assumes "sint i \<noteq> - 9223372036854775808" "\<bar>sint sc\<bar> < 80000"
  shows "rounds_to (fpr_scaled i sc) (of_int (sint i) * 2 powi sint sc)"
proof -
  define s where "s = (if fneg i then 1 else 0 :: u32)"
  define a where "a = (if fneg i then - i else i)"
  obtain m e where n: "FPR_NORM64 a sc = (m, e)" by fastforce
  have F: "fpr_scaled i sc = FPR s ((e + 9) AND - (if a \<noteq> 0 then 1 else 0)) (drop_bit 9 (m OR ucast ((ucast m AND 0x1FF :: u32) + 0x1FF)) AND - (if a \<noteq> 0 then 1 else 0))"
  proof -
    have "FPR_NORM64 a (9 + sc) = (m, 9 + e)" unfolding FPR_NORM64_add n by simp
    moreover have "(i XOR - scast (ucast (drop_bit 63 i) :: u32)) + scast (ucast (drop_bit 63 i) :: u32) = a"
      unfolding a_def sign_bit64 using cond_negate64 [of i "fneg i"] by (cases "fneg i") simp_all
    moreover have "(ucast (drop_bit 63 i) :: u32) = s" by (simp add: sign_bit64 s_def)
    moreover have "(ucast (drop_bit 63 (a OR - a)) :: u32) = (if a \<noteq> 0 then 1 else 0)" unfolding nonzero_flag64 by simp
    ultimately show ?thesis unfolding fpr_scaled_def Let_def by (simp add: add.commute)
  qed
  have s: "s = 0 \<or> s = 1" by (simp add: s_def)
  show ?thesis
  proof (cases "a = 0")
    case True
    then have "fzero (fpr_scaled i sc)" unfolding F using FPR_zero_mantissa s by simp
    moreover have "sint i = 0" using True by (simp add: a_def split: if_splits)
    ultimately show ?thesis by (simp add: rounds_to_zero)
  next
    case False
    have v: "of_int (sint i) = sgn_of s * of_int (uint a)"
    proof (cases "fneg i")
      case True
      have "0 < uint i" using True by (simp add: fneg_def)
      then have "uint (- i) = 18446744073709551616 - uint i" using uint64_lt [of i] by (simp add: uint_word_ariths mod_neg_once)
      then show ?thesis using True by (simp add: sint_fneg s_def a_def sgn_of_def del: of_int_uint of_int_sint)
    qed (simp add: sint_fneg s_def a_def sgn_of_def)
    have w: "word_of_int (sint sc) = sc" by (metis scast_eq scast_id)
    have "rounds_to (FPR s (e + 9) (drop_bit 9 (m OR ucast ((ucast m AND 0x1FF :: u32) + 0x1FF)))) (sgn_of s * of_int (uint a) * 2 powi sint sc)"
      using n assms(2) by (intro normalise_pack [OF s _ _ False]) (simp_all only: sticky_exact w abs_less_iff, simp_all)
    then show ?thesis using False unfolding F v by simp
  qed
qed

theorem fpr_scaled_correct_witness:
  "sint (3 :: u64) \<noteq> - 9223372036854775808 \<and> \<bar>sint (- 1 :: u32)\<bar> < 80000 \<and> rounds_to (fpr_scaled 3 (- 1)) (of_int (sint (3 :: u64)) * 2 powi sint (- 1 :: u32))"
  using fpr_scaled_correct [of 3 "- 1"] by simp

section \<open>Addition\<close>

lemma sticky_even:
  assumes "sticky m w" "even a"
  shows "sticky (a + m) (of_int a + w)" "sticky (a - m) (of_int a - w)"
  using assms by (auto simp: sticky_def abs_minus_commute)

text \<open>An operand far below the last place of the other one does not change the rounded result.\<close>

lemma fround_near:
  assumes "4503599627370496 \<le> X" "X < 9007199254740992" "\<bar>d\<bar> < 1 / 4"
  shows "fround ((of_int X + d) * 2 powi e) = of_int X * 2 powi e"
proof -
  have X: "4503599627370496 \<le> real_of_int X" "real_of_int X \<le> 9007199254740991" using assms(1,2) by linarith+
  show ?thesis
  proof (cases "4503599627370496 \<le> of_int X + d")
    case True
    have "\<lfloor>log 2 \<bar>(of_int X + d) * 2 powi e\<bar>\<rfloor> = 52 + e" using floor_log_scaled [of 52 "of_int X + d" e] True X assms(3) by simp
    moreover have "rne (of_int X + d) = X" using assms(3) by (intro rne_eqI) (simp add: nearest_def)
    ultimately show ?thesis unfolding fround_def Let_def by simp
  next
    case False
    have "\<lfloor>log 2 \<bar>(of_int X + d) * 2 powi e\<bar>\<rfloor> = 51 + e" using floor_log_scaled [of 51 "of_int X + d" e] False X assms(3) by simp
    moreover have "(of_int X + d) * 2 powi e / 2 powi (e - 1) = of_int (2 * X) + 2 * d" by (simp add: power_int_diff)
    moreover have "rne (of_int (2 * X) + 2 * d) = 2 * X" using assms(3) by (intro rne_eqI) (simp add: nearest_def abs_mult)
    ultimately show ?thesis unfolding fround_def Let_def by (simp add: power_int_diff ac_simps)
  qed
qed

lemma rounds_to_cong: "fmin \<le> \<bar>v\<bar> \<Longrightarrow> fmin \<le> \<bar>v'\<bar> \<Longrightarrow> fround v = fround v' \<Longrightarrow> rounds_to z v \<Longrightarrow> rounds_to z v'"
  by (simp add: rounds_to_def)

text \<open>The addition after the exchange that makes the first operand the larger one.\<close>

definition mant3 :: "fpr \<Rightarrow> int" where
  "mant3 x = (if fexp x = 0 then 0 else 8 * (4503599627370496 + fman x))"

lemma mant3_word:
  assumes "fvalid x"
  shows "uint (push_bit 3 ((x AND (push_bit 52 1 - 1)) OR push_bit 52 (ucast (signed_drop_bit 11 ((ucast (drop_bit 52 x) AND 0x7FF) + 0x7FF :: u32))))) = mant3 x"
proof -
  have "uint (ucast (drop_bit 52 x) AND 0x7FF :: u32) < 2048" unfolding uint_exponent by (rule field_range)
  then have f: "signed_drop_bit 11 ((ucast (drop_bit 52 x) AND 0x7FF) + 0x7FF :: u32) = (if fexp x = 0 then 0 else 1)"
    using nonzero_exponent [of "ucast (drop_bit 52 x) AND 0x7FF :: u32"] uint_exponent(2) [of x] by (simp add: word_uint_eq_iff)
  show ?thesis
  proof (cases "fexp x = 0")
    case True
    then have "fman x = 0" using assms by (simp add: fvalid_def fnormal_def fzero_def)
    then have "x AND (push_bit 52 1 - 1) = 0" using uint_low52 [of x] by (simp only: word_uint_eq_iff unsigned_0)
    then show ?thesis using True by (simp add: f mant3_def)
  next
    case False
    then show ?thesis unfolding f uint_shl using mantissa [of x] field_range [of x] by (simp add: mant3_def)
  qed
qed

lemma fval_mant3: "fval x = fsign x * of_int (mant3 x) * 2 powi (fexp x - 1078)"
proof -
  have "fexp x - 1075 = (fexp x - 1078) + 3" by simp
  then have "(2 :: real) powi (fexp x - 1075) = 2 powi (fexp x - 1078) * 2 powi 3" by (metis power_int_add zero_neq_numeral)
  then show ?thesis by (simp add: fval_def mant3_def)
qed

lemma mant3_bounds: "0 \<le> mant3 x" "mant3 x < 72057594037927936" "fexp x \<noteq> 0 \<Longrightarrow> 36028797018963968 \<le> mant3 x" "even (mant3 x)"
  using field_range [of x] by (auto simp: mant3_def)

definition align :: "u64 \<Rightarrow> u32 \<Rightarrow> u64" where
  "align yu cc =
     (let yu = yu AND - ucast (drop_bit 31 (cc - 60));
          cc = cc AND 63;
          m = fpr_ulsh 1 cc - 1;
          yu = yu OR ((yu AND m) + m)
      in fpr_ursh yu cc)"

lemma align_spec:
  assumes "0 \<le> c" "c < 4000"
  shows "uint (align yu (word_of_int c)) = (if c < 60 then sticky_shr (nat c) (uint yu) else 0)"
proof -
  define n where "n = (word_of_int c AND 63 :: u32)"
  have n: "uint n = c mod 64" unfolding n_def using uint_and_low [of "63 :: u32" 6 "word_of_int c"] assms by (simp add: word32_of_int)
  then have n64: "uint n < 64" by simp
  have un: "unat n = nat (c mod 64)" using n by (simp add: unat_eq_nat_uint)
  have "drop_bit 31 (word_of_int c - 60 :: u32) = (if c < 60 then 1 else 0)" using sign_bit32 [of "c - 60"] assms by simp
  then have f: "yu AND - ucast (drop_bit 31 (word_of_int c - 60 :: u32)) = (if c < 60 then yu else 0)" by simp
  have a: "align yu (word_of_int c) = drop_bit (unat n) ((if c < 60 then yu else 0) OR (((if c < 60 then yu else 0) AND (push_bit (unat n) 1 - 1)) + (push_bit (unat n) 1 - 1)))"
    unfolding align_def Let_def n_def [symmetric] fpr_ulsh_eq [OF n64] fpr_ursh_eq [OF n64] f by (rule refl)
  show ?thesis
  proof (cases "c < 60")
    case True
    then show ?thesis unfolding a un using assms(1) sticky_collect [of "nat c" yu] by simp
  next
    case False
    have "nat (c mod 64) \<le> 63" using pos_mod_bound [of 64 c] by linarith
    then have "(2 :: int) ^ nat (c mod 64) \<le> 9223372036854775808" using power_increasing [of "nat (c mod 64)" 63 "2 :: int"] by simp
    then have "uint (push_bit (nat (c mod 64)) 1 - 1 :: u64) = 2 ^ nat (c mod 64) - 1" unfolding uint_word_ariths(2) uint_shl by simp
    then show ?thesis unfolding a un using False by (simp add: uint_shr div_pos_pos_trivial)
  qed
qed

definition add_ordered :: "fpr \<Rightarrow> fpr \<Rightarrow> fpr" where
  "add_ordered x y =
     (let ex = ucast (drop_bit 52 x) :: u32;
          sx = signed_drop_bit 11 ex;
          ex = ex AND 0x7FF;
          m = push_bit 52 (ucast (signed_drop_bit 11 (ex + 0x7FF)));
          xu = push_bit 3 ((x AND (push_bit 52 1 - 1)) OR m);
          ex = ex - 1078;
          ey = ucast (drop_bit 52 y) :: u32;
          sy = signed_drop_bit 11 ey;
          ey = ey AND 0x7FF;
          m = push_bit 52 (ucast (signed_drop_bit 11 (ey + 0x7FF)));
          yu = push_bit 3 ((y AND (push_bit 52 1 - 1)) OR m);
          ey = ey - 1078;
          yu = align yu (ex - ey);
          xu = xu + (yu - (push_bit 1 yu AND - scast (sx XOR sy)));
          (xu, ex) = FPR_NORM64 xu ex;
          xu = xu OR ucast ((ucast xu AND 0x1FF :: u32) + 0x1FF);
          xu = drop_bit 9 xu;
          ex = ex + 9
      in FPR sx ex xu)"

definition magnitude :: "fpr \<Rightarrow> int" where
  "magnitude x = fexp x * 4503599627370496 + fman x"

lemma fpr_add_swap:
  "fpr_add x y = (if magnitude x < magnitude y \<or> magnitude x = magnitude y \<and> fneg x then add_ordered y x else add_ordered x y)"
proof -
  define M where "M = (push_bit 63 1 - 1 :: u64)"
  define za where "za = (x AND M) - (y AND M)"
  have mag: "uint (z AND M) = magnitude z" for z
  proof -
    have "uint (z AND M) = uint z mod 9223372036854775808" unfolding M_def using uint_and_low [of "push_bit 63 1 - 1 :: u64" 63 z] by (simp add: push_bit_eq_mult)
    moreover have "0 \<le> magnitude z" "magnitude z < 9223372036854775808" unfolding magnitude_def using field_range [of z] by linarith+
    ultimately show ?thesis using fields [of z] unfolding magnitude_def by (simp add: add.assoc split: if_splits)
  qed
  have r: "uint (z AND M) < 9223372036854775808" for z unfolding mag magnitude_def using field_range [of z] by linarith
  have "drop_bit 63 (a - b) = (if uint a < uint b then 1 else 0)" if "uint a < 9223372036854775808" "uint b < 9223372036854775808" for a b :: u64
    using compare_mask [OF that] by (simp split: if_splits)
  note c = this [OF r r]
  have d: "drop_bit 63 za = (if magnitude x < magnitude y then 1 else 0)" "drop_bit 63 (- za) = (if magnitude y < magnitude x then 1 else 0)"
    unfolding za_def minus_diff_eq c mag by (rule refl)+
  let ?cs = "magnitude x < magnitude y \<or> magnitude x = magnitude y \<and> fneg x"
  have cs: "ucast (drop_bit 63 za) OR ((1 - ucast (drop_bit 63 (- za))) AND ucast (drop_bit 63 x)) = (if ?cs then 1 else 0 :: u32)"
    unfolding d sign_bit64 [of x] by auto
  have "fpr_add x y = (let m = (x XOR y) AND - ucast (ucast (drop_bit 63 za) OR ((1 - ucast (drop_bit 63 (- za))) AND ucast (drop_bit 63 x)) :: u32)
      in add_ordered (x XOR m) (y XOR m))"
    unfolding fpr_add_def add_ordered_def align_def za_def M_def Let_def by (rule refl)
  moreover have "x XOR (x XOR y) = y" "y XOR (x XOR y) = x" by (simp_all add: xor.assoc [symmetric] xor.commute [of x y]) (simp add: xor.assoc)
  ultimately show ?thesis unfolding cs by (simp add: Let_def)
qed

lemma sign_word: "signed_drop_bit 11 (ucast (drop_bit 52 x) :: u32) = (if fneg x then 1 else 0)" for x :: u64
proof -
  have "uint x div 4503599627370496 < 4096" "0 \<le> uint x div 4503599627370496" using uint64_lt [of x] uint_nonnegative [of x] by linarith+
  then have u: "uint (ucast (drop_bit 52 x) :: u32) = uint x div 4503599627370496" by (simp add: uint_ucast_mod uint_shr)
  have "uint x div 4503599627370496 div 2048 = uint (drop_bit 63 x)" by (simp add: zdiv_zmult2_eq [symmetric] uint_shr)
  then have "uint (drop_bit 11 (ucast (drop_bit 52 x) :: u32)) = (if fneg x then 1 else 0)" by (simp add: uint_shr u sign_bit64)
  moreover have "signed_drop_bit 11 (ucast (drop_bit 52 x) :: u32) = drop_bit 11 (ucast (drop_bit 52 x))"
    using \<open>uint x div 4503599627370496 < 4096\<close> u by (intro signed_shift_small) simp
  ultimately show ?thesis by (simp add: word_uint_eq_iff)
qed

text \<open>The aligned operand \<open>Y\<close> of the smaller magnitude against the larger one \<open>A\<close>.\<close>

lemma aligned_bounds:
  assumes "fvalid x" "fvalid y" "magnitude y \<le> magnitude x" "c = fexp x - fexp y"
    "Y = (if c < 60 then sticky_shr (nat c) (mant3 y) else 0)"
  shows "0 \<le> c" "c < 2048" "0 \<le> Y" "Y \<le> mant3 x" "Y < 72057594037927936"
    "c < 60 \<Longrightarrow> sticky Y (of_int (mant3 y) / 2 ^ nat c)"
    "c < 60 \<Longrightarrow> of_int Y = real_of_int (mant3 y) / 2 ^ nat c \<or> Y < 4503599627370496 \<and> fexp x \<noteq> 0"
proof -
  have r: "0 \<le> fexp x" "fexp x < 2048" "0 \<le> fexp y" "fexp y < 2048" "0 \<le> fman x" "fman x < 4503599627370496" "0 \<le> fman y" "fman y < 4503599627370496"
    by (simp_all add: field_range)
  show c: "0 \<le> c" using assms(3) r unfolding magnitude_def assms(4) by linarith
  show "c < 2048" using r unfolding assms(4) by linarith
  show "0 \<le> Y" unfolding assms(5) sticky_shr_def Let_def using mant3_bounds(1) [of y] by (auto simp: pos_imp_zdiv_nonneg_iff)
  show st: "sticky Y (of_int (mant3 y) / 2 ^ nat c)" if "c < 60"
  proof (cases "c = 0")
    case False
    then have "0 < nat c" using c by simp
    then show ?thesis using sticky_shift [OF sticky_exact, of "nat c" "mant3 y"] that by (simp add: assms(5))
  qed (simp add: assms(5) sticky_shr_def)
  have small: "Y < 2 * t" if "c < 60" "2 ^ j \<le> (2 :: real) ^ nat c" "72057594037927936 \<le> of_int (2 * t) * (2 :: real) ^ j" for j t
  proof -
    have "real_of_int (mant3 y) < 72057594037927936" using mant3_bounds(2) [of y] by simp
    also have "\<dots> \<le> of_int (2 * t) * 2 ^ nat c"
    proof (rule order_trans [OF that(3)])
      have "0 < real_of_int (2 * t) * 2 ^ j" using that(3) by linarith
      then have "0 \<le> real_of_int (2 * t)" by (simp only: zero_less_mult_iff) (auto simp: not_less)
      then show "real_of_int (2 * t) * 2 ^ j \<le> of_int (2 * t) * 2 ^ nat c" using that(2) by (rule mult_left_mono [rotated])
    qed
    finally have "of_int (mant3 y) / 2 ^ nat c < real_of_int (2 * t)" by (simp add: divide_less_eq)
    then show ?thesis unfolding sticky_bounds [OF st [OF that(1)]] .
  qed
  show "Y < 72057594037927936"
  proof (cases "c < 60")
    case True
    then show ?thesis using small [of 0 36028797018963968] by simp
  qed (simp add: assms(5))
  have pw: "(2 :: real) ^ j \<le> 2 ^ nat c" if "int j \<le> c" for j using that by (intro power_increasing) simp_all
  show "of_int Y = real_of_int (mant3 y) / 2 ^ nat c \<or> Y < 4503599627370496 \<and> fexp x \<noteq> 0" if "c < 60"
  proof (cases "4 \<le> c")
    case True
    then have "fexp x \<noteq> 0" using r assms(4) by linarith
    then show ?thesis using small [of 4 2251799813685248] pw [of 4] that True by simp
  next
    case False
    then have "nat c \<le> 3" by simp
    then have "(2 :: int) ^ nat c dvd 2 ^ 3" by (rule le_imp_power_dvd)
    then have "(2 :: int) ^ nat c dvd 8 * k" for k by (simp add: dvd_mult2)
    then have "2 ^ nat c dvd mant3 y" using dvd_0_right [of "(2 :: int) ^ nat c"] by (simp only: mant3_def split: if_split) blast
    then have "Y = mant3 y div 2 ^ nat c" unfolding assms(5) sticky_shr_def using that by (simp add: dvd_imp_mod_0)
    then show ?thesis using \<open>2 ^ nat c dvd mant3 y\<close> by (simp add: real_of_int_div)
  qed
  show "Y \<le> mant3 x"
  proof (cases "c = 0")
    case True
    then have "fman y \<le> fman x" "fexp x = fexp y" using assms(3,4) by (simp_all add: magnitude_def)
    then show ?thesis using True by (simp add: assms(5) sticky_shr_def mant3_def)
  next
    case False
    then have "fexp x \<noteq> 0" "1 \<le> c" using c r assms(4) by linarith+
    then show ?thesis using small [of 1 18014398509481984] pw [of 1] mant3_bounds(1,3) [of x] by (cases "c < 60") (simp_all add: assms(5))
  qed
qed

lemma add_ordered_words:
  assumes "fvalid x" "fvalid y" "magnitude y \<le> magnitude x" "c = fexp x - fexp y"
    "Y = (if c < 60 then sticky_shr (nat c) (mant3 y) else 0)"
  obtains Z where "uint Z = mant3 x + (if fneg x = fneg y then Y else - Y)"
    "add_ordered x y = (let (m, e) = FPR_NORM64 Z (word_of_int (fexp x - 1078))
      in FPR (if fneg x then 1 else 0) (e + 9) (drop_bit 9 (m OR ucast ((ucast m AND 0x1FF :: u32) + 0x1FF))))"
proof -
  note b = aligned_bounds [OF assms]
  define xu where "xu = push_bit 3 ((x AND (push_bit 52 1 - 1)) OR push_bit 52 (ucast (signed_drop_bit 11 ((ucast (drop_bit 52 x) AND 0x7FF) + 0x7FF :: u32))))"
  define yu where "yu = push_bit 3 ((y AND (push_bit 52 1 - 1)) OR push_bit 52 (ucast (signed_drop_bit 11 ((ucast (drop_bit 52 y) AND 0x7FF) + 0x7FF :: u32))))"
  have u: "uint xu = mant3 x" "uint yu = mant3 y" unfolding xu_def yu_def by (rule mant3_word; fact)+
  have e: "(ucast (drop_bit 52 z) AND 0x7FF :: u32) = word_of_int (fexp z)" for z :: u64 by (simp flip: uint_exponent(2))
  define ya where "ya = align yu (word_of_int c)"
  have ya: "uint ya = Y" unfolding ya_def assms(5) u(2) [symmetric] by (rule align_spec) (use b in simp_all)
  have cc: "(ucast (drop_bit 52 x) AND 0x7FF :: u32) - 1078 - ((ucast (drop_bit 52 y) AND 0x7FF) - 1078) = word_of_int c"
    unfolding e assms(4) by simp
  define Z where "Z = xu + (ya - (push_bit 1 ya AND - scast ((if fneg x then 1 else 0) XOR (if fneg y then 1 else 0) :: u32)))"
  have "Z = (if fneg x = fneg y then xu + ya else xu - ya)" unfolding Z_def by (simp add: push_bit_eq_mult)
  then have "uint Z = mant3 x + (if fneg x = fneg y then Y else - Y)"
    using b(3-5) mant3_bounds(1,2) [of x] u(1) ya by (simp add: uint_word_ariths)
  moreover have "add_ordered x y = (let (m, e) = FPR_NORM64 Z (word_of_int (fexp x - 1078))
      in FPR (if fneg x then 1 else 0) (e + 9) (drop_bit 9 (m OR ucast ((ucast m AND 0x1FF :: u32) + 0x1FF))))"
  proof -
    have "(word_of_int (fexp x - 1078) :: u32) = (ucast (drop_bit 52 x) AND 0x7FF) - 1078" unfolding e by simp
    then show ?thesis unfolding add_ordered_def Let_def sign_word xu_def [symmetric] yu_def [symmetric] cc ya_def [symmetric] Z_def [symmetric] by simp
  qed
  ultimately show ?thesis using that by blast
qed

lemma add_exact_sum:
  assumes "c = fexp x - fexp y" "0 \<le> c"
  shows "fval x + fval y = fsign x * (of_int (mant3 x) + (if fneg x = fneg y then 1 else - 1) * (of_int (mant3 y) / 2 ^ nat c)) * 2 powi (fexp x - 1078)"
proof -
  have "fexp x - 1078 = (fexp y - 1078) + int (nat c)" using assms by simp
  then have "(2 :: real) powi (fexp x - 1078) = 2 powi (fexp y - 1078) * 2 ^ nat c" by (metis power_int_add power_int_of_nat zero_neq_numeral)
  then show ?thesis unfolding fval_mant3 by (simp add: fsign_def field_simps)
qed

lemma add_ordered_correct:
  assumes "fvalid x" "fvalid y" "magnitude y \<le> magnitude x"
  shows "rounds_to (add_ordered x y) (fval x + fval y)"
proof -
  define c where "c = fexp x - fexp y"
  define Y where "Y = (if c < 60 then sticky_shr (nat c) (mant3 y) else 0)"
  define s where "s = (if fneg x then 1 else 0 :: u32)"
  define g where "g = (if fneg x = fneg y then 1 else - 1 :: int)"
  note b = aligned_bounds [OF assms c_def Y_def]
  obtain Z where Z0: "uint Z = mant3 x + (if fneg x = fneg y then Y else - Y)" and
      F: "add_ordered x y = (let (m, e) = FPR_NORM64 Z (word_of_int (fexp x - 1078))
        in FPR s (e + 9) (drop_bit 9 (m OR ucast ((ucast m AND 0x1FF :: u32) + 0x1FF))))"
    using add_ordered_words [OF assms c_def Y_def] unfolding s_def by blast
  have Z: "uint Z = mant3 x + g * Y" using Z0 by (simp add: g_def)
  obtain m e where n: "FPR_NORM64 Z (word_of_int (fexp x - 1078)) = (m, e)" by fastforce
  have s: "s = 0 \<or> s = 1" "sgn_of s = fsign x" by (simp_all add: s_def sgn_of_def fsign_def)
  define w where "w = real_of_int (mant3 y) / 2 ^ nat c"
  have v: "fval x + fval y = sgn_of s * (of_int (mant3 x) + of_int g * w) * 2 powi (fexp x - 1078)"
    unfolding add_exact_sum [OF c_def b(1)] s(2) w_def g_def by simp
  have ex: "- 90000 < fexp x - 1078" "fexp x - 1078 < 90000" using field_range [of x] by linarith+
  have pack: "rounds_to (add_ordered x y) (sgn_of s * V * 2 powi (fexp x - 1078))"
    if "sticky (uint Z) V" "of_int (uint Z) = V \<or> 18014398509481984 \<le> uint Z" for V
  proof (cases "Z = 0")
    case True
    then have "V = 0" using that(1) by (auto simp: sticky_def)
    moreover have "m = 0" using FPR_NORM64_zero [of "word_of_int (fexp x - 1078)"] n True by simp
    ultimately show ?thesis unfolding F n using FPR_zero_mantissa [OF s(1)] rounds_to_zero by simp
  next
    case False
    show ?thesis unfolding F n using normalise_pack [OF s(1) that False n ex] by simp
  qed
  show ?thesis
  proof (cases "c < 60")
    case True
    have "sticky (uint Z) (of_int (mant3 x) + of_int g * w)"
      unfolding Z using sticky_even [OF b(6) [OF True] mant3_bounds(4) [of x]] by (auto simp: w_def g_def)
    moreover have "of_int (uint Z) = of_int (mant3 x) + of_int g * w \<or> 18014398509481984 \<le> uint Z"
      using b(7) [OF True] mant3_bounds(3) [of x] b(3) unfolding w_def Z g_def by auto
    ultimately show ?thesis unfolding v by (rule pack)
  next
    case False
    define X where "X = 4503599627370496 + fman x"
    define d where "d = of_int g * w / 8"
    have X: "4503599627370496 \<le> X" "X < 9007199254740992" using field_range [of x] by (simp_all add: X_def)
    have E: "60 \<le> fexp x" using False field_range [of y] unfolding c_def by linarith
    then have A: "mant3 x = 8 * X" by (simp add: mant3_def X_def)
    have w: "0 \<le> w" "w < 1"
    proof -
      have "(2 :: int) ^ 60 \<le> 2 ^ nat c" using False by (intro power_increasing) simp_all
      then have "mant3 y < 2 ^ nat c" using mant3_bounds(2) [of y] by simp
      then have "real_of_int (mant3 y) < 2 ^ nat c" by simp
      then show "w < 1" unfolding w_def by (simp add: divide_less_eq)
    qed (simp add: w_def mant3_bounds)
    then have d: "\<bar>d\<bar> < 1 / 4" by (simp add: d_def g_def abs_mult)
    have p8: "8 * 2 powi (fexp x - 1078) = (2 :: real) powi (fexp x - 1075)"
      using power_int_add [of "2 :: real" 3 "fexp x - 1078"] by simp
    have val: "(of_int (mant3 x) + of_int g * w) * 2 powi (fexp x - 1078) = (of_int X + d) * 2 powi (fexp x - 1075)"
      "real_of_int (mant3 x) * 2 powi (fexp x - 1078) = (of_int X + 0) * 2 powi (fexp x - 1075)"
      unfolding p8 [symmetric] A d_def by (simp_all add: algebra_simps)
    have big: "fmin \<le> \<bar>sgn_of s * ((of_int X + t) * 2 powi (fexp x - 1075))\<bar>" if "\<bar>t\<bar> < 1 / 4" for t
    proof -
      have "fmin \<le> 1 * 2 powi (fexp x - 1075)" unfolding fmin_def mult_1 using E by (intro power_int_increasing) simp_all
      also have "\<dots> \<le> (of_int X + t) * 2 powi (fexp x - 1075)"
      proof (rule mult_right_mono)
        show "1 \<le> real_of_int X + t" using X(1) that by linarith
      qed simp
      also have "\<dots> \<le> \<bar>(of_int X + t) * 2 powi (fexp x - 1075)\<bar>" by (rule abs_ge_self)
      finally show ?thesis by (simp add: sgn_of_def abs_mult)
    qed
    have fr: "fround (sgn_of s * ((of_int X + t) * 2 powi (fexp x - 1075))) = sgn_of s * (of_int X * 2 powi (fexp x - 1075))" if "\<bar>t\<bar> < 1 / 4" for t
      using fround_near [OF X that] fround_minus by (simp add: sgn_of_def)
    have "rounds_to (add_ordered x y) (sgn_of s * ((of_int X + 0) * 2 powi (fexp x - 1075)))"
      using pack [of "of_int (uint Z)"] False unfolding val(2) [symmetric] Z Y_def by (simp add: mult.assoc)
    then show ?thesis unfolding v mult.assoc val(1) using rounds_to_cong [OF big [of 0] big [OF d]] fr [of 0] fr [OF d] by simp
  qed
qed

lemma add_rounds:
  assumes "fvalid x" "fvalid y"
  shows "rounds_to (fpr_add x y) (fval x + fval y)"
  using add_ordered_correct [OF assms] add_ordered_correct [OF assms(2,1)] unfolding fpr_add_swap by (auto simp: add.commute)

text \<open>
  (C10) Addition of two values is correctly rounded, also when the operands cancel, when one of them is far below
  the last place of the other, and when one of them is a zero.
\<close>

theorem fpr_add_correct:
  assumes "fvalid x" "fvalid y"
  shows "rounds_to (fpr_add x y) (fval x + fval y)"
  using assms by (rule add_rounds)

theorem fpr_add_correct_witness:
  "fvalid 4607182418800017408 \<and> fvalid 0 \<and> rounds_to (fpr_add 4607182418800017408 0) (fval 4607182418800017408 + fval 0)"
proof -
  have "fvalid 4607182418800017408" "fvalid 0" by (simp_all add: fvalid_def fnormal_def fzero_def fexp_def fman_def)
  then show ?thesis using fpr_add_correct by blast
qed

end
