(* ===== verification/Fpr_Int.thy ===== *)
theory Fpr_Int
  imports Fpr_Add
begin

text \<open>
  Conversions to integers, comparison and the exact operations of fpr.h, and the fixed-point products of the
  exponential in fpr.c.
\<close>

section \<open>The mantissa as an integer of 63 bits\<close>

lemma mantissa63: "uint ((push_bit 10 x OR push_bit 62 1) AND (push_bit 63 1 - 1) :: u64) = 1024 * (4503599627370496 + fman x)"
proof -
  have lo: "uint (push_bit 10 x AND (push_bit 62 1 - 1)) = 1024 * fman x"
  proof -
    have "uint (push_bit 10 x AND (push_bit 62 1 - 1)) = uint (push_bit 10 x) mod 4611686018427387904"
      using uint_and_low [of "push_bit 62 1 - 1 :: u64" 62 "push_bit 10 x"] by (simp add: push_bit_eq_mult)
    also have "\<dots> = (1024 * uint x) mod (1024 * 4503599627370496)" unfolding uint_shl by (simp add: mod_mod_cancel mult.commute)
    also have "\<dots> = 1024 * fman x" unfolding fman_def by (rule mult_mod_right [symmetric])
    finally show ?thesis .
  qed
  have "(push_bit 10 x OR push_bit 62 1) AND (push_bit 63 1 - 1) = (push_bit 10 x AND (push_bit 62 1 - 1)) OR push_bit 62 1"
  proof -
    have m: "push_bit 63 1 - 1 = (mask 63 :: u64)" "push_bit 62 1 - 1 = (mask 62 :: u64)" by (simp_all add: mask_eq_exp_minus_1)
    have b: "bit (push_bit 62 1 :: u64) n \<longleftrightarrow> n = 62" for n unfolding bit_push_bit_iff bit_1_iff by auto
    show ?thesis unfolding m by (rule bit_word_eqI) (unfold bit_and_iff bit_or_iff b bit_mask_iff, auto)
  qed
  also have "\<dots> = (push_bit 10 x AND (push_bit 62 1 - 1)) + push_bit 62 1"
    by (rule or_shift) (use lo field_range [of x] in simp)
  finally have "uint ((push_bit 10 x OR push_bit 62 1) AND (push_bit 63 1 - 1)) = uint ((push_bit 10 x AND (push_bit 62 1 - 1)) + push_bit 62 1)" by simp
  also have "\<dots> = (1024 * fman x + 4611686018427387904) mod 18446744073709551616" unfolding uint_word_ariths(1) lo by simp
  also have "\<dots> = 1024 * fman x + 4611686018427387904" using field_range [of x] by simp
  finally show ?thesis by simp
qed

text \<open>A value of absolute value below \<open>2^63\<close> is that integer shifted down.\<close>

lemma fval_shifted:
  assumes "fexp x \<noteq> 0" "fexp x \<le> 1085"
  shows "\<bar>fval x\<bar> = of_int (1024 * (4503599627370496 + fman x)) / 2 ^ nat (1085 - fexp x)"
    "fval x = fsign x * (of_int (1024 * (4503599627370496 + fman x)) / 2 ^ nat (1085 - fexp x))"
proof -
  have "int (nat (1085 - fexp x)) + (fexp x - 1075) = 10" using assms(2) by simp
  then have "(2 :: real) ^ nat (1085 - fexp x) * 2 powi (fexp x - 1075) = 2 powi 10" by (metis power_int_add power_int_of_nat zero_neq_numeral)
  then have "(2 :: real) powi (fexp x - 1075) = 1024 / 2 ^ nat (1085 - fexp x)" by (simp add: field_simps)
  then show v: "fval x = fsign x * (of_int (1024 * (4503599627370496 + fman x)) / 2 ^ nat (1085 - fexp x))" using assms(1) by (simp add: fval_nonzero)
  show "\<bar>fval x\<bar> = of_int (1024 * (4503599627370496 + fman x)) / 2 ^ nat (1085 - fexp x)"
    unfolding v using field_range(3) [of x] by (simp add: fsign_def abs_mult)
qed

definition small63 :: "fpr \<Rightarrow> bool" where
  "small63 x \<longleftrightarrow> fexp x \<le> 1085"

lemma small63_iff: "small63 x \<longleftrightarrow> \<bar>fval x\<bar> < 9223372036854775808"
proof (cases "fexp x = 0")
  case False
  have X: "4503599627370496 \<le> real_of_int (4503599627370496 + fman x)" "real_of_int (4503599627370496 + fman x) < 9007199254740992"
    using field_range [of x] by simp_all
  show ?thesis
  proof (cases "fexp x \<le> 1085")
    case True
    have "real_of_int (1024 * (4503599627370496 + fman x)) / 2 ^ nat (1085 - fexp x) \<le> of_int (1024 * (4503599627370496 + fman x)) / 1"
      using X by (intro divide_left_mono) simp_all
    then show ?thesis using True X fval_shifted(1) [OF False True] by (simp add: small63_def)
  next
    case nle: False
    have "(2 :: real) powi 11 \<le> 2 powi (fexp x - 1075)" using nle by (intro power_int_increasing) simp_all
    then have "4503599627370496 * 2048 \<le> real_of_int (4503599627370496 + fman x) * 2 powi (fexp x - 1075)" using X by (intro mult_mono) simp_all
    also have "\<dots> = \<bar>fval x\<bar>" using False X by (simp add: fval_nonzero fsign_def abs_mult)
    finally show ?thesis using nle by (simp add: small63_def)
  qed
qed (simp add: small63_def fval_def)

section \<open>Truncation\<close>

lemma shift_count:
  assumes "small63 x"
  defines "cc \<equiv> 1085 - (ucast (drop_bit 52 x) AND 0x7FF) :: u32"
  shows "uint (cc AND 63) = (1085 - fexp x) mod 64" "drop_bit 31 (cc - 64) = (if 1085 - fexp x < 64 then 1 else 0)"
    "drop_bit 31 (63 - cc) = (if 63 < 1085 - fexp x then 1 else 0)"
proof -
  have r: "0 \<le> fexp x" "fexp x < 2048" by (simp_all add: field_range)
  have "(ucast (drop_bit 52 x) AND 0x7FF :: u32) = word_of_int (fexp x)" by (simp flip: uint_exponent(2))
  then have c: "cc = word_of_int (1085 - fexp x)" "cc - 64 = word_of_int (1085 - fexp x - 64)" "63 - cc = word_of_int (63 - (1085 - fexp x))"
    unfolding cc_def by simp_all
  have "uint cc = 1085 - fexp x" unfolding c(1) using assms(1) r by (intro word32_of_int) (simp_all add: small63_def)
  then show "uint (cc AND 63) = (1085 - fexp x) mod 64" using uint_and_low [of "63 :: u32" 6 cc] by simp
  show "drop_bit 31 (cc - 64) = (if 1085 - fexp x < 64 then 1 else 0)" unfolding c(2) using r by (subst sign_bit32) simp_all
  show "drop_bit 31 (63 - cc) = (if 63 < 1085 - fexp x then 1 else 0)" unfolding c(3) using r by (subst sign_bit32) simp_all
qed


lemma floor_shifted: "\<lfloor>real_of_int m / 2 ^ n\<rfloor> = m div 2 ^ n"
  using floor_divide_of_int_eq [of m "2 ^ n", where 'a = real] by simp

lemma uint_negate: "sint (if c then - a else a) = (if c then - uint a else uint a)" if "uint a < 9223372036854775808" for a :: u64
proof -
  have "uint (- a) = (if uint a = 0 then 0 else 18446744073709551616 - uint a)"
    using uint64_lt [of a] uint_nonnegative [of a] mod_neg_once [of "- uint a" 18446744073709551616] by (auto simp: uint_word_ariths less_le)
  then show ?thesis using that uint_nonnegative [of a] by (auto simp: sint_fneg fneg_def)
qed

text \<open>
  Truncation of a value of absolute value below \<open>2^63\<close> to a 64-bit integer rounds towards zero.
\<close>

lemma fpr_trunc_correct:
  assumes "\<bar>fval x\<bar> < 9223372036854775808"
  shows "sint (fpr_trunc x) = (if fval x < 0 then \<lceil>fval x\<rceil> else \<lfloor>fval x\<rfloor>)"
proof -
  have sm: "small63 x" using assms small63_iff by simp
  define n where "n = 1085 - fexp x"
  define M where "M = 1024 * (4503599627370496 + fman x)"
  have M: "4611686018427387904 \<le> M" "M < 9223372036854775808" unfolding M_def using field_range [of x] by simp_all
  define xu where "xu = (push_bit 10 x OR push_bit 62 1) AND (push_bit 63 1 - 1)"
  define cc where "cc = (1085 - (ucast (drop_bit 52 x) AND 0x7FF) :: u32)"
  note sc = shift_count [OF sm, folded cc_def n_def]
  define a where "a = (if n < 64 then drop_bit (nat n) xu else 0)"
  have n0: "0 \<le> n" using sm by (simp add: n_def small63_def)
  have u: "uint (cc AND 63) < 64" unfolding sc(1) by simp
  have "fpr_ursh xu (cc AND 63) AND - ucast (drop_bit 31 (cc - 64)) = a"
    unfolding fpr_ursh_eq [OF u] sc(2) a_def using sc(1) n0 by (simp add: unat_eq_nat_uint)
  then have F: "fpr_trunc x = (if fneg x then - a else a)"
    unfolding fpr_trunc_def Let_def xu_def [symmetric] cc_def [symmetric] sign_bit64 [of x] using cond_negate64 [of a "fneg x"] by simp
  have ua: "uint a = (if n < 64 then M div 2 ^ nat n else 0)"
    using mantissa63 [of x, folded xu_def M_def] by (simp add: a_def uint_shr)
  have "M div 2 ^ nat n \<le> M div 1" using M by (intro zdiv_mono2) simp_all
  then have "uint a < 9223372036854775808" using M unfolding ua by simp
  note s = uint_negate [OF this, of "fneg x", folded F]
  show ?thesis
  proof (cases "fexp x = 0")
    case True
    then show ?thesis using s ua by (simp add: n_def fval_def)
  next
    case False
    have v: "fval x = fsign x * (of_int M / 2 ^ nat n)" unfolding M_def n_def using False sm by (intro fval_shifted) (simp_all add: small63_def)
    have "uint a = M div 2 ^ nat n"
    proof (cases "n < 64")
      case nge: False
      then have "(2 :: int) ^ 64 \<le> 2 ^ nat n" by (intro power_increasing) simp_all
      then have "M div 2 ^ nat n = 0" using M by (intro div_pos_pos_trivial) simp_all
      then show ?thesis using nge ua by simp
    qed (simp add: ua)
    moreover have "0 < real_of_int M / 2 ^ nat n" using M by simp
    ultimately show ?thesis unfolding s v by (auto simp: fsign_def floor_shifted ceiling_def)
  qed
qed

section \<open>Floor\<close>

lemma fpr_irsh_eq: "uint n < 64 \<Longrightarrow> fpr_irsh x n = signed_drop_bit (unat n) x"
proof -
  assume n: "uint n < 64"
  have "32 \<le> unat n" if "32 \<le> uint n" using that by (simp flip: nat_uint_eq)
  then show ?thesis unfolding fpr_irsh_def Let_def count_high [OF n] count_low [OF n] flag_word select_mask
    by (cases "32 \<le> uint n") (simp_all add: signed_drop_bit_signed_drop_bit)
qed

text \<open>
  The floor of a value of absolute value below \<open>2^63\<close> is computed, except that the floor of the negative zero
  is -1.
\<close>

lemma fpr_floor_correct:
  assumes "\<bar>fval x\<bar> < 9223372036854775808"
  shows "sint (fpr_floor x) = (if fexp x = 0 \<and> fneg x then - 1 else \<lfloor>fval x\<rfloor>)"
proof -
  have sm: "small63 x" using assms small63_iff by simp
  define n where "n = 1085 - fexp x"
  define M where "M = 1024 * (4503599627370496 + fman x)"
  have M: "4611686018427387904 \<le> M" "M < 9223372036854775808" unfolding M_def using field_range [of x] by simp_all
  define xu where "xu = (push_bit 10 x OR push_bit 62 1) AND (push_bit 63 1 - 1)"
  define cc where "cc = (1085 - (ucast (drop_bit 52 x) AND 0x7FF) :: u32)"
  define xi where "xi = (if fneg x then - xu else xu)"
  note sc = shift_count [OF sm, folded cc_def n_def]
  have n0: "0 \<le> n" using sm by (simp add: n_def small63_def)
  have u: "uint (cc AND 63) < 64" unfolding sc(1) by simp
  have "uint xu = M" unfolding xu_def M_def by (rule mantissa63)
  then have si: "sint xi = (if fneg x then - M else M)" unfolding xi_def using uint_negate [of xu "fneg x"] M by simp
  have "fpr_floor x = (let xi = fpr_irsh xi (cc AND 63) in xi XOR ((xi XOR - drop_bit 63 x) AND - ucast (drop_bit 31 (63 - cc))))"
    unfolding fpr_floor_def Let_def xu_def [symmetric] cc_def [symmetric] sign_bit64 [of x] cond_negate64 [of xu "fneg x"] xi_def [symmetric] by (rule refl)
  also have "\<dots> = (if n < 64 then signed_drop_bit (nat n) xi else - (if fneg x then 1 else 0))"
    unfolding Let_def sc(3) sign_bit64 fpr_irsh_eq [OF u] using sc(1) n0 by (auto simp: unat_eq_nat_uint xor.assoc [symmetric])
  finally have F: "fpr_floor x = (if n < 64 then signed_drop_bit (nat n) xi else - (if fneg x then 1 else 0))" .
  have high: "sint (fpr_floor x) = (if fneg x then - 1 else 0)" if "\<not> n < 64" unfolding F using that by simp
  show ?thesis
  proof (cases "fexp x = 0")
    case True
    then show ?thesis using high by (simp add: n_def fval_def)
  next
    case False
    have "fval x = fsign x * (of_int M / 2 ^ nat n)" unfolding M_def n_def using False sm by (intro fval_shifted) (simp_all add: small63_def)
    also have "\<dots> = of_int (sint xi) / 2 ^ nat n" unfolding si by (simp add: fsign_def)
    finally have v: "\<lfloor>fval x\<rfloor> = sint xi div 2 ^ nat n" using floor_shifted by metis
    show ?thesis
    proof (cases "n < 64")
      case True
      then show ?thesis unfolding v F using False by (simp add: sint_signed_drop_bit_eq drop_bit_eq_div)
    next
      case nge: False
      then have p: "(2 :: int) ^ 64 \<le> 2 ^ nat n" by (intro power_increasing) simp_all
      have "sint xi div 2 ^ nat n = (if fneg x then - 1 else 0)"
      proof (cases "fneg x")
        case True
        have "(- M) div 2 ^ nat n = - 1" by (rule int_div_pos_eq [of _ _ _ "2 ^ nat n - M"]) (use M p in simp_all)
        then show ?thesis using True si by simp
      qed (use M p si in \<open>simp add: div_pos_pos_trivial\<close>)
      then show ?thesis unfolding v using high [OF nge] False by simp
    qed
  qed
qed

section \<open>Rounding to the nearest integer\<close>

lemma mod_split: "0 < c \<Longrightarrow> b * c = d \<Longrightarrow> k mod d = k div b mod c * b + k mod b" for b c d k :: int
  using zmod_zmult2_eq [of c k b] by (simp add: mult.commute)

lemma sticky61: "ucast (drop_bit 61 d) OR drop_bit 31 (dd OR - dd) = (if uint d mod 2305843009213693952 \<noteq> 0 then ucast (drop_bit 61 d) OR 1 else ucast (drop_bit 61 d))"
  if "dd = ucast d OR (ucast (drop_bit 32 d) AND 0x1FFFFFFF)" for d :: u64 and dd :: u32
proof -
  have "ucast d = (0 :: u32) \<longleftrightarrow> uint d mod 4294967296 = 0" by (simp add: word_uint_eq_iff uint_ucast_mod)
  moreover have "ucast (drop_bit 32 d) AND 0x1FFFFFFF = (0 :: u32) \<longleftrightarrow> uint d div 4294967296 mod 536870912 = 0"
    using uint_and_low [of "0x1FFFFFFF :: u32" 29 "ucast (drop_bit 32 d)"] by (simp add: word_uint_eq_iff uint_ucast_mod uint_shr mod_mod_cancel)
  moreover have "uint d mod 2305843009213693952 = uint d div 4294967296 mod 536870912 * 4294967296 + uint d mod 4294967296"
    using mod_split [of 536870912 4294967296 2305843009213693952 "uint d"] by fastforce
  moreover have "0 \<le> uint d div 4294967296 mod 536870912" "0 \<le> uint d mod 4294967296" by simp_all
  ultimately have "dd = 0 \<longleftrightarrow> uint d mod 2305843009213693952 = 0" unfolding that or_eq_0_iff by linarith
  then show ?thesis unfolding nonzero_flag32 by simp
qed

lemma round_bit_index:
  "0 \<le> b \<Longrightarrow> b < 8 \<Longrightarrow> uint (ucast (drop_bit (nat b) (0xC8 :: u32) AND 1) :: u64) = (if b = 3 \<or> b = 6 \<or> b = 7 then 1 else 0)"
proof -
  assume "0 \<le> b" "b < 8"
  then have "b = 0 \<or> b = 1 \<or> b = 2 \<or> b = 3 \<or> b = 4 \<or> b = 5 \<or> b = 6 \<or> b = 7" by linarith
  then show ?thesis by (elim disjE) simp_all
qed

lemma round_index:
  fixes m :: u64
  assumes "n < 64" "uint m < 9223372036854775808"
  defines "d \<equiv> push_bit (63 - n) m"
  defines "dd \<equiv> ucast d OR (ucast (drop_bit 32 d) AND 0x1FFFFFFF) :: u32"
  shows "uint (ucast (drop_bit 61 d) OR drop_bit 31 (dd OR - dd)) = sticky_shr n (4 * uint m) mod 8"
proof -
  let ?m = "uint m"
  have d: "uint d = ?m * 2 ^ (63 - n) mod 18446744073709551616" unfolding d_def uint_shl by simp
  have pn: "(2 :: int) ^ (63 - n) * 2 ^ n = 2305843009213693952 * 4" using assms(1) by (simp flip: power_add)
  define N where "N = ?m * 2 ^ (63 - n)"
  have N: "N * 2 ^ n = 2305843009213693952 * (4 * ?m)" unfolding N_def using pn by (simp add: mult.assoc) 
  have q: "N div 2305843009213693952 = (4 * ?m) div 2 ^ n"
  proof -
    have "N div 2305843009213693952 = (N * 2 ^ n) div (2305843009213693952 * 2 ^ n)" by simp
    then show ?thesis unfolding N by simp
  qed
  have r: "N mod 2305843009213693952 * 2 ^ n = 2305843009213693952 * ((4 * ?m) mod 2 ^ n)"
  proof -
    have "N mod 2305843009213693952 * 2 ^ n = (N * 2 ^ n) mod (2305843009213693952 * 2 ^ n)" by simp
    then show ?thesis unfolding N by (simp add: mult_mod_right)
  qed
  have z: "uint d mod 2305843009213693952 = 0 \<longleftrightarrow> (4 * ?m) mod 2 ^ n = 0"
  proof -
    have "uint d mod 2305843009213693952 = N mod 2305843009213693952" unfolding d N_def [symmetric] by (simp add: mod_mod_cancel)
    then show ?thesis using r by auto
  qed
  have "uint d div 2305843009213693952 = N div 2305843009213693952 mod 8"
  proof -
    have "N mod 18446744073709551616 = N div 2305843009213693952 mod 8 * 2305843009213693952 + N mod 2305843009213693952"
      by (rule mod_split) simp_all
    moreover have "0 \<le> N mod 2305843009213693952" "N mod 2305843009213693952 < 2305843009213693952" by simp_all
    ultimately show ?thesis unfolding d N_def [symmetric] by (intro int_div_pos_eq [of _ _ _ "N mod 2305843009213693952"]) linarith+
  qed
  then have t: "uint (ucast (drop_bit 61 d) :: u32) = (4 * ?m) div 2 ^ n mod 8" unfolding q by (simp add: uint_ucast_mod uint_shr)
  define q where "q = (4 * ?m) div 2 ^ n"
  have o: "uint (w OR 1) = uint w + (if even (uint w) then 1 else 0)" for w :: u32
    using unsigned_or_eq [of w 1, where 'a = int] or_one_eq [of "uint w"] by (simp only: unsigned_1) simp
  have "(q mod 8) + 1 = (q + 1) mod 8" "even (q mod 8)" if "even q" using that by presburger+
  moreover have "odd (q mod 8)" if "odd q" using that by presburger
  ultimately show ?thesis unfolding sticky61 [OF dd_def [THEN meta_eq_to_obj_eq]] z sticky_shr_def Let_def q_def [symmetric] using t [folded q_def]
    by (auto simp: o)
qed


text \<open>
  Conversion of a value of absolute value below \<open>2^63\<close> to the nearest integer, ties to even.
\<close>

lemma fpr_rint_correct:
  assumes "\<bar>fval x\<bar> < 9223372036854775808"
  shows "sint (fpr_rint x) = rne (fval x)"
proof -
  have sm: "small63 x" using assms small63_iff by simp
  define n where "n = 1085 - fexp x"
  define M where "M = 1024 * (4503599627370496 + fman x)"
  have M: "4611686018427387904 \<le> M" "M < 9223372036854775808" unfolding M_def using field_range [of x] by simp_all
  define xu where "xu = (push_bit 10 x OR push_bit 62 1) AND (push_bit 63 1 - 1)"
  define cc where "cc = (1085 - (ucast (drop_bit 52 x) AND 0x7FF) :: u32)"
  note sc = shift_count [OF sm, folded cc_def n_def]
  have n0: "0 \<le> n" using sm by (simp add: n_def small63_def)
  have ux: "uint xu = M" unfolding xu_def M_def by (rule mantissa63)
  define e where "e = cc AND 63"
  have e: "uint e = n mod 64" unfolding e_def by (rule sc(1))
  then have u: "uint e < 64" by simp
  have ue: "unat e = nat (n mod 64)" using e by (simp add: unat_eq_nat_uint)
  have "0 \<le> n mod 64" by simp
  then have "uint (63 - e) = 63 - n mod 64" using e u by (simp add: uint_word_ariths)
  then have u': "uint (63 - e) < 64" "unat (63 - e) = 63 - nat (n mod 64)" by (simp_all add: unat_eq_nat_uint nat_diff_distrib)
  define m where "m = (if n < 64 then xu else 0)"
  define d where "d = push_bit (63 - nat (n mod 64)) m"
  define f where "f = ucast (drop_bit 61 d) OR drop_bit 31 ((ucast d OR (ucast (drop_bit 32 d) AND 0x1FFFFFFF)) OR - (ucast d OR (ucast (drop_bit 32 d) AND 0x1FFFFFFF)) :: u32)"
  define r where "r = drop_bit (nat (n mod 64)) m + ucast (drop_bit (unat f) (0xC8 :: u32) AND 1)"
  have mm: "xu AND - ucast (drop_bit 31 (cc - 64)) = m" unfolding sc(2) m_def by simp
  have sh: "fpr_ulsh m (63 - e) = d" "fpr_ursh m e = drop_bit (nat (n mod 64)) m"
    unfolding fpr_ulsh_eq [OF u'(1)] fpr_ursh_eq [OF u] ue u'(2) d_def by (rule refl)+
  have F: "fpr_rint x = (if fneg x then - r else r)"
    unfolding fpr_rint_def Let_def xu_def [symmetric] cc_def [symmetric] e_def [symmetric] mm sh f_def [symmetric] r_def [symmetric]
      sign_bit64 [of x] using cond_negate64 [of r "fneg x"] by (cases "fneg x") (simp_all only: if_True if_False ucast_1 ucast_0)
  have um: "uint m = (if n < 64 then M else 0)" by (simp add: m_def ux)
  define S where "S = sticky_shr (nat (n mod 64)) (4 * uint m)"
  have uf: "uint f = S mod 8" unfolding f_def d_def S_def using um M by (intro round_index) (auto intro: nat_less_iff [THEN iffD2])
  have ur: "uint r = S div 4 + (if S mod 8 = 3 \<or> S mod 8 = 6 \<or> S mod 8 = 7 then 1 else 0)"
    and rb: "uint r < 9223372036854775808"
  proof -
    let ?k = "nat (n mod 64)" and ?b = "if S mod 8 = 3 \<or> S mod 8 = 6 \<or> S mod 8 = 7 then 1 else 0 :: int"
    have M': "M \<le> 9223372036854774784" unfolding M_def using field_range [of x] by simp
    have "uint m div 2 ^ ?k \<le> uint m div 1" using um M by (intro zdiv_mono2) simp_all
    then have b: "0 \<le> uint m div 2 ^ ?k" "uint m div 2 ^ ?k \<le> 9223372036854774784" using um M M' by (auto simp: pos_imp_zdiv_nonneg_iff split: if_splits)
    have rb: "uint (ucast (drop_bit (unat f) (0xC8 :: u32) AND 1) :: u64) = ?b"
      unfolding unat_eq_nat_uint uf by (rule round_bit_index) simp_all
    have "(q + 1) div 4 = q div 4" if "even q" for q :: int using that by presburger
    then have "(if c \<or> odd q then q else q + 1) div 4 = q div 4" for q :: int and c by simp
    then have "S div 4 = (4 * uint m) div 2 ^ ?k div 4" unfolding S_def sticky_shr_def Let_def .
    also have "\<dots> = (4 * uint m) div (2 ^ ?k * 4)" by (rule zdiv_zmult2_eq [symmetric]) simp
    also have "\<dots> = uint m div 2 ^ ?k" by (simp add: mult.commute)
    finally have "S div 4 = uint m div 2 ^ ?k" .
    moreover have "uint r = uint m div 2 ^ ?k + ?b" unfolding r_def uint_word_ariths(1) rb uint_shr using b by simp
    ultimately show "uint r = S div 4 + ?b" "uint r < 9223372036854775808" using b by simp_all
  qed
  then have rr: "uint r = rne (of_int S / 4)" unfolding rne_quarter by simp
  have zero: "uint r = 0" if "\<not> n < 64" using that rr rne_int [of 0] unfolding S_def um sticky_shr_def by simp
  note s = uint_negate [OF rb, of "fneg x", folded F]
  show ?thesis
  proof (cases "fexp x = 0")
    case True
    then show ?thesis using zero s rne_int [of 0] by (simp add: n_def fval_def)
  next
    case False
    have v: "fval x = fsign x * (of_int M / 2 ^ nat n)" unfolding M_def n_def using False sm by (intro fval_shifted) (simp_all add: small63_def)
    have "rne (of_int M / 2 ^ nat n) = uint r"
    proof (cases "n < 64")
      case True
      then have S: "S = sticky_shr (nat n) (4 * M)" unfolding S_def um using n0 by simp
      have "sticky S (of_int (4 * M) / 2 ^ nat n)"
        unfolding S using sticky_shift [OF sticky_exact, of "nat n" "4 * M"] by (cases "n = 0") (use n0 in \<open>simp_all add: sticky_shr_def sticky_def\<close>)
      then show ?thesis using rne_sticky [of S "of_int (4 * M) / 2 ^ nat n"] rr by simp
    next
      case nge: False
      have "(2 :: real) ^ 64 \<le> 2 ^ nat n" using nge by (intro power_increasing) simp_all
      then have "2 * real_of_int M < 2 ^ nat n" using M by simp
      then have "nearest (of_int M / 2 ^ nat n) 0" using M unfolding nearest_def by (intro disjI1) (simp add: field_simps)
      then show ?thesis unfolding zero [OF nge] by (rule rne_eqI)
    qed
    then show ?thesis unfolding s v by (auto simp: fsign_def rne_minus)
  qed
qed


text \<open>
  (C14) The three conversions of a value of absolute value below \<open>2^63\<close> to a 64-bit integer round to the nearest
  integer with ties to even, towards zero, and towards minus infinity; the negative zero is floored to -1.
\<close>

theorem fpr_to_int_correct:
  assumes "\<bar>fval x\<bar> < 9223372036854775808"
  shows "sint (fpr_rint x) = rne (fval x) \<and>
    sint (fpr_trunc x) = (if fval x < 0 then \<lceil>fval x\<rceil> else \<lfloor>fval x\<rfloor>) \<and>
    sint (fpr_floor x) = (if fexp x = 0 \<and> fneg x then - 1 else \<lfloor>fval x\<rfloor>)"
  using fpr_rint_correct [OF assms] fpr_trunc_correct [OF assms] fpr_floor_correct [OF assms] by blast

theorem fpr_to_int_correct_witness: "\<bar>fval 4612811918334230528\<bar> < 9223372036854775808 \<and> sint (fpr_rint 4612811918334230528) = 2 \<and>
  sint (fpr_trunc 4612811918334230528) = 2 \<and> sint (fpr_floor 4612811918334230528) = 2"
proof -
  have v: "fval 4612811918334230528 = 5 / 2" by (simp add: fval_def fexp_def fman_def fsign_def fneg_def)
  have "rne (5 / 2) = 2" by (rule rne_eqI) (simp add: nearest_def)
  moreover have "\<lfloor>5 / 2 :: real\<rfloor> = 2" "fexp 4612811918334230528 = 1024" by (simp_all add: fexp_def)
  ultimately show ?thesis using fpr_to_int_correct [of 4612811918334230528] v by simp
qed

section \<open>Comparison and exact operations\<close>

text \<open>On valid values the order of the magnitudes is the order of the absolute values.\<close>

lemma fval_magnitude_less:
  assumes "fvalid x" "fvalid y" "magnitude x < magnitude y"
  shows "\<bar>fval x\<bar> < \<bar>fval y\<bar>"
proof -
  have r: "0 \<le> fexp x" "0 \<le> fexp y" "0 \<le> fman x" "fman x < 4503599627370496" "0 \<le> fman y" "fman y < 4503599627370496" by (simp_all add: field_range)
  have le: "fexp x \<le> fexp y" using assms(3) r unfolding magnitude_def by linarith
  have y: "fexp y \<noteq> 0"
  proof
    assume "fexp y = 0"
    moreover from this have "fman y = 0" using assms(2) by (simp add: fvalid_def fnormal_def fzero_def)
    ultimately show False using assms(3) r unfolding magnitude_def by linarith
  qed
  have av: "fexp z \<noteq> 0 \<Longrightarrow> \<bar>fval z\<bar> = of_int (4503599627370496 + fman z) * 2 powi (fexp z - 1075)" for z
    using field_range(3) [of z] by (simp add: fval_nonzero fsign_def abs_mult)
  have pos: "0 < \<bar>fval y\<bar>" unfolding av [OF y] using r by simp
  show ?thesis
  proof (cases "fexp x = 0")
    case False
    show ?thesis
    proof (cases "fexp x = fexp y")
      case True
      then have "fman x < fman y" using assms(3) unfolding magnitude_def by simp
      then show ?thesis unfolding av [OF y] av [OF False] True by simp
    next
      case ne: False
      have "real_of_int (4503599627370496 + fman x) * 2 powi (fexp x - 1075) < 9007199254740992 * 2 powi (fexp x - 1075)" using r by simp
      also have "\<dots> = 4503599627370496 * 2 powi (fexp x + 1 - 1075)" using power_int_add [of "2 :: real" 1 "fexp x - 1075"] by (simp add: algebra_simps)
      also have "\<dots> \<le> real_of_int (4503599627370496 + fman y) * 2 powi (fexp y - 1075)"
        using ne le r by (intro mult_mono power_int_increasing) simp_all
      finally show ?thesis unfolding av [OF y] av [OF False] .
    qed
  qed (use pos in \<open>simp add: fval_def\<close>)
qed

lemma fields_of_magnitude: "magnitude x div 4503599627370496 = fexp x" "magnitude x mod 4503599627370496 = fman x"
  using field_range [of x] by (simp_all add: magnitude_def)

lemma fval_magnitude_eq: "magnitude x = magnitude y \<Longrightarrow> \<bar>fval x\<bar> = \<bar>fval y\<bar>"
  using fields_of_magnitude [of x] fields_of_magnitude [of y] by (simp add: fval_def fsign_def abs_mult)

definition fmag :: "fpr \<Rightarrow> real" where
  "fmag x = (if fexp x = 0 then 0 else of_int (4503599627370496 + fman x) * 2 powi (fexp x - 1075))"

lemma fval_sign: "fval x = fsign x * fmag x"
  by (simp add: fval_def fmag_def)

lemma fmag_nonneg: "0 \<le> fmag x"
  using field_range(3) [of x] by (simp add: fmag_def)

lemma fval_less_iff:
  assumes "fvalid x" "fvalid y"
  shows "fval x < fval y \<longleftrightarrow> (if fneg x then (if fneg y then magnitude y < magnitude x else 0 < magnitude x \<or> 0 < magnitude y)
    else \<not> fneg y \<and> magnitude x < magnitude y)"
proof -
  have sgn: "fval z = (if fneg z then - \<bar>fval z\<bar> else \<bar>fval z\<bar>)" for z
    unfolding fval_sign [of z] using fmag_nonneg [of z] by (simp add: fsign_def)
  have less: "\<bar>fval a\<bar> < \<bar>fval b\<bar> \<longleftrightarrow> magnitude a < magnitude b" if "fvalid a" "fvalid b" for a b
    using fval_magnitude_less [of a b] fval_magnitude_less [of b a] fval_magnitude_eq [of a b] that by (metis linorder_less_linear order_less_asym order_less_irrefl)
  have "fvalid 0" "magnitude 0 = 0" "fval 0 = 0" by (simp_all add: fvalid_def fzero_def fexp_def fman_def magnitude_def fval_def)
  then have pos: "0 < \<bar>fval a\<bar> \<longleftrightarrow> 0 < magnitude a" if "fvalid a" for a using less [OF _ that, of 0] by simp
  show ?thesis using sgn [of x] sgn [of y] less [OF assms] less [OF assms(2,1)] pos [OF assms(1)] pos [OF assms(2)] by (auto split: if_splits)
qed

lemma fields_magnitude: "uint x = (if fneg x then 9223372036854775808 else 0) + magnitude x" "0 \<le> magnitude x" "magnitude x < 9223372036854775808"
  using fields [of x] field_range [of x] by (simp_all add: magnitude_def)

text \<open>
  (C16) Comparison of two valid values, except that the negative zero counts as less than the positive zero.
\<close>

theorem fpr_lt_correct:
  assumes "fvalid x" "fvalid y"
  shows "fpr_lt x y = (if fval x < fval y \<or> fneg x \<and> \<not> fneg y then 1 else 0)"
proof -
  have s63: "signed_drop_bit 63 a = (if fneg a then - 1 else 0)" for a :: u64
  proof -
    have "bit a 63 \<longleftrightarrow> fneg a" using sign_bit64 [of a] by (simp add: bit_iff_odd_drop_bit)
    then show ?thesis by (intro bit_word_eqI) (auto simp: bit_signed_drop_bit_iff min_def not_less_eq_eq)
  qed
  have cc: "ucast (signed_drop_bit 63 a) AND 1 = (if fneg a then 1 else 0 :: u32)" for a :: u64 unfolding s63
    using bit_word_eqI [of "ucast (- 1 :: u64)" "- 1 :: u32"] by (simp add: bit_ucast_iff)
  have "fneg (x XOR y) \<longleftrightarrow> fneg x \<noteq> fneg y" using sign_xor [of x y] sign_bit64 [of "x XOR y"] by (auto split: if_splits)
  then have sy: "y AND NOT (signed_drop_bit 63 (x XOR y)) = (if fneg x = fneg y then y else 0)" unfolding s63 by simp
  have an: "drop_bit 63 (x AND y) = (if fneg x \<and> fneg y then 1 else 0)" unfolding drop_bit_and sign_bit64 by simp
  have F: "fpr_lt x y = (let s = (if fneg x = fneg y then y else 0); c0 = (if fneg (x - s) then 1 else 0); c1 = (if fneg (s - x) then 1 else 0)
      in if fneg x \<and> fneg y then c1 else c0)"
    unfolding fpr_lt_def Let_def sy cc an by auto
  have gen: "9223372036854775808 \<le> (c - d) mod 18446744073709551616 \<longleftrightarrow> c < d" if "\<bar>c - d\<bar> < 9223372036854775808" for c d :: int
    using that mod_neg_once [of "c - d" 18446744073709551616] by (cases "c < d") simp_all
  have d: "fneg (a - b) \<longleftrightarrow> uint a < uint b" if "\<bar>uint a - uint b\<bar> < 9223372036854775808" for a b :: u64
    using gen [OF that] by (simp add: fneg_def uint_word_ariths)
  show ?thesis
  proof (cases "fneg x = fneg y")
    case True
    then have "uint x - uint y = magnitude x - magnitude y" using fields_magnitude(1) [of x] fields_magnitude(1) [of y] by simp
    moreover have "\<bar>magnitude x - magnitude y\<bar> < 9223372036854775808"
      using fields_magnitude(2,3) [of x] fields_magnitude(2,3) [of y] by linarith
    ultimately have "fneg (x - y) \<longleftrightarrow> magnitude x < magnitude y" "fneg (y - x) \<longleftrightarrow> magnitude y < magnitude x"
      using d [of x y] d [of y x] by linarith+
    then show ?thesis unfolding F Let_def fval_less_iff [OF assms] using True by simp
  next
    case False
    then show ?thesis unfolding F Let_def fval_less_iff [OF assms] by auto
  qed
qed

theorem fpr_lt_correct_witness:
  "fvalid 0 \<and> fvalid 4607182418800017408 \<and> fpr_lt 0 4607182418800017408 = (if fval 0 < fval 4607182418800017408 \<or> fneg 0 \<and> \<not> fneg 4607182418800017408 then 1 else 0)"
proof -
  have "fvalid 4607182418800017408" "fvalid 0" by (simp_all add: fvalid_def fnormal_def fzero_def fexp_def fman_def)
  then show ?thesis using fpr_lt_correct by blast
qed

lemma flip_sign: "fneg (x XOR push_bit 63 1) \<longleftrightarrow> \<not> fneg x" "magnitude (x XOR push_bit 63 1) = magnitude x"
proof -
  have b: "bit z 63 \<longleftrightarrow> fneg z" for z :: u64 using sign_bit64 [of z] by (simp add: bit_iff_odd_drop_bit)
  have "bit (push_bit 63 1 :: u64) n \<longleftrightarrow> n = 63" for n unfolding bit_push_bit_iff bit_1_iff by auto
  note p = this
  show n: "fneg (x XOR push_bit 63 1) \<longleftrightarrow> \<not> fneg x" unfolding b [symmetric] bit_xor_iff p by simp
  have m: "push_bit 63 1 - 1 = (mask 63 :: u64)" by (simp add: mask_eq_exp_minus_1)
  have "(x XOR push_bit 63 1) AND mask 63 = x AND mask 63"
    by (rule bit_word_eqI) (unfold bit_and_iff bit_xor_iff p bit_mask_iff, auto)
  moreover have "uint (z AND mask 63) = uint z mod 9223372036854775808" for z :: u64
    using uint_and_low [of "mask 63 :: u64" 63 z] by (simp add: mask_eq_exp_minus_1)
  moreover have "uint z mod 9223372036854775808 = magnitude z" for z
    using fields_magnitude [of z] by (auto split: if_splits)
  ultimately show "magnitude (x XOR push_bit 63 1) = magnitude x" by metis
qed

lemma flip_sign_fields: "fexp (x XOR push_bit 63 1) = fexp x" "fman (x XOR push_bit 63 1) = fman x"
  using flip_sign(2) [of x] fields_of_magnitude [of x] fields_of_magnitude [of "x XOR push_bit 63 1"] by simp_all

lemma fval_flip: "fval (x XOR push_bit 63 1) = - fval x" "fvalid (x XOR push_bit 63 1) \<longleftrightarrow> fvalid x"
  unfolding fval_sign fmag_def fsign_def fvalid_def fnormal_def fzero_def flip_sign_fields flip_sign(1) by simp_all

text \<open>
  Subtraction is correctly rounded, and negation is exact.
\<close>

lemma fpr_sub_neg_correct:
  assumes "fvalid x" "fvalid y"
  shows "rounds_to (fpr_sub x y) (fval x - fval y) \<and> fvalid (fpr_neg y) \<and> fval (fpr_neg y) = - fval y"
proof -
  have "rounds_to (fpr_add x (fpr_neg y)) (fval x + fval (fpr_neg y))"
    using assms fval_flip(2) [of y] unfolding fpr_neg_def by (intro add_rounds) simp_all
  then show ?thesis using fval_flip [of y] assms by (simp add: fpr_sub_def fpr_neg_def)
qed

text \<open>
  Halving and doubling a valid value are exact as long as the exponent stays in the range of the normal
  numbers, and keep zeros.
\<close>

lemma fpr_half_double_exact:
  assumes "fvalid x" "fexp x \<noteq> 1" "fexp x < 2046"
  shows "fvalid (fpr_half x) \<and> fval (fpr_half x) = fval x / 2 \<and> fvalid (fpr_double x) \<and> fval (fpr_double x) = 2 * fval x"
proof -
  have r: "0 \<le> fexp x" "0 \<le> fman x" "fman x < 4503599627370496" by (simp_all add: field_range)
  show ?thesis
  proof (cases "fexp x = 0")
    case True
    then have "fman x = 0" using assms(1) by (simp add: fvalid_def fnormal_def fzero_def)
    then have "uint x = (if fneg x then 9223372036854775808 else 0)" using fields [of x] True by simp
    then have "x = 0 \<or> x = 9223372036854775808" by (simp add: word_uint_eq_iff split: if_splits)
    moreover have "fpr_half 0 = 0" "fpr_half 9223372036854775808 = 0" "fpr_double 0 = 0" "fpr_double 9223372036854775808 = 9223372036854775808"
      by (simp_all add: fpr_half_def fpr_double_def Let_def)
    moreover have "fvalid 0" "fvalid 9223372036854775808" "fval 0 = 0" "fval 9223372036854775808 = 0"
      by (simp_all add: fvalid_def fzero_def fexp_def fman_def fval_def)
    ultimately show ?thesis by auto
  next
    case False
    define s where "s = (if fneg x then 9223372036854775808 else 0 :: int)"
    have s: "0 \<le> s" "s \<le> 9223372036854775808" by (simp_all add: s_def)
    note u = fields [of x, folded s_def]
    have e2: "2 \<le> fexp x" using False assms(2) r by linarith
    have one: "uint (push_bit 52 1 :: u64) = 4503599627370496" by simp
    define h where "h = x - push_bit 52 1"
    have uh: "uint h = s + (fexp x - 1) * 4503599627370496 + fman x"
    proof -
      have "(s + fexp x * 4503599627370496 + fman x - 4503599627370496) mod 18446744073709551616 = s + fexp x * 4503599627370496 + fman x - 4503599627370496"
        using s e2 r assms(3) by (intro mod_pos_pos_trivial) linarith+
      then show ?thesis unfolding h_def uint_word_ariths(2) u one by (simp add: algebra_simps)
    qed
    have fh: "fneg h \<longleftrightarrow> fneg x" "fexp h = fexp x - 1" "fman h = fman x"
      by (rule fields_unique [of h "fneg x" "fexp x - 1" "fman x"]; use uh e2 assms(3) r in \<open>simp add: s_def\<close>)+
    have "uint ((ucast (drop_bit 52 h) AND 0x7FF) + 1 :: u32) = fexp x"
      unfolding uint_word_ariths(1) uint_exponent fh using e2 assms(3) by simp
    then have "drop_bit 11 ((ucast (drop_bit 52 h) AND 0x7FF) + 1 :: u32) = 0" using e2 assms(3) by (simp add: word_uint_eq_iff uint_shr)
    then have H: "fpr_half x = h" unfolding fpr_half_def Let_def h_def [symmetric] by simp
    define d where "d = x + push_bit 52 1"
    have ud: "uint d = s + (fexp x + 1) * 4503599627370496 + fman x"
    proof -
      have "(s + fexp x * 4503599627370496 + fman x + 4503599627370496) mod 18446744073709551616 = s + fexp x * 4503599627370496 + fman x + 4503599627370496"
        using s e2 r assms(3) by (intro mod_pos_pos_trivial) linarith+
      then show ?thesis unfolding d_def uint_word_ariths(1) u one by (simp add: algebra_simps)
    qed
    have fd: "fneg d \<longleftrightarrow> fneg x" "fexp d = fexp x + 1" "fman d = fman x"
      by (rule fields_unique [of d "fneg x" "fexp x + 1" "fman x"]; use ud e2 assms(3) r in \<open>simp add: s_def\<close>)+
    have "uint ((ucast (drop_bit 52 x) AND 0x7FF) + 0x7FF :: u32) = fexp x + 2047" unfolding uint_word_ariths(1) uint_exponent using e2 assms(3) by simp
    moreover have "(fexp x + 2047) div 2048 = 1" using e2 assms(3) by (intro int_div_pos_eq [of _ _ _ "fexp x - 1"]) linarith+
    ultimately have "drop_bit 11 ((ucast (drop_bit 52 x) AND 0x7FF) + 0x7FF :: u32) = 1" by (simp add: word_uint_eq_iff uint_shr)
    then have D: "fpr_double x = d" unfolding fpr_double_def d_def by simp
    have p: "(2 :: real) powi (fexp x - 1 - 1075) = 2 powi (fexp x - 1075) / 2" "(2 :: real) powi (fexp x + 1 - 1075) = 2 * 2 powi (fexp x - 1075)"
      using power_int_add [of "2 :: real" "- 1" "fexp x - 1075"] power_int_add [of "2 :: real" 1 "fexp x - 1075"] by (simp_all add: algebra_simps)
    show ?thesis unfolding H D fval_def fsign_def fvalid_def fnormal_def fh fd p using e2 assms(3) by simp
  qed
qed

section \<open>High products of the exponential\<close>


text \<open>
  The products of the exponential are computed in 32-bit halves; the result is the exact high half of the
  128-bit product.
\<close>

lemma mul_high_exact: "uint (mul_high z y) = uint z * uint y div 18446744073709551616"
proof -
  define W where "W = (4294967296 :: int)"
  define z0 where "z0 = uint z mod W"
  define z1 where "z1 = uint z div W"
  define y0 where "y0 = uint y mod W"
  define y1 where "y1 = uint y div W"
  have half: "uint (ucast (ucast w :: u32) :: u64) = uint w mod W" for w :: u64 by (simp add: uint_ucast_mod W_def)
  have high: "uint (ucast (ucast (drop_bit 32 w) :: u32) :: u64) = uint w div W" for w :: u64
  proof -
    have "0 \<le> uint w div 4294967296" "uint w div 4294967296 < 4294967296" using uint64_lt [of w] uint_nonnegative [of w] by linarith+
    then show ?thesis by (simp add: uint_ucast_mod uint_shr W_def)
  qed
  have b: "0 \<le> z0" "z0 \<le> W - 1" "0 \<le> z1" "z1 \<le> W - 1" "0 \<le> y0" "y0 \<le> W - 1" "0 \<le> y1" "y1 \<le> W - 1"
    using uint64_lt [of z] uint64_lt [of y] uint_nonnegative [of z] uint_nonnegative [of y] unfolding z0_def z1_def y0_def y1_def W_def by linarith+
  have pb: "0 \<le> i * j \<and> i * j \<le> (W - 1) * (W - 1)" if "0 \<le> i" "i \<le> W - 1" "0 \<le> j" "j \<le> W - 1" for i j
    using that by (auto intro: mult_mono)
  note p = pb [OF b(1,2) b(5,6)] pb [OF b(1,2) b(7,8)] pb [OF b(3,4) b(5,6)] pb [OF b(3,4) b(7,8)]
  define a where "a = z0 * y1 + z0 * y0 div W"
  have a: "0 \<le> a" "a < 18446744073709551616"
  proof -
    have gen: "0 \<le> t div 4294967296 \<and> t div 4294967296 \<le> 4294967295" if "0 \<le> t" "t \<le> 4294967295 * 4294967295" for t :: int using that by linarith
    have "0 \<le> z0 * y0 div W" "z0 * y0 div W \<le> W - 1" using p(1) gen [of "z0 * y0"] by (simp_all add: W_def)
    moreover have "s + t < 18446744073709551616" if "s \<le> (W - 1) * (W - 1)" "t \<le> W - 1" for s t using that by (simp add: W_def)
    ultimately show "0 \<le> a" "a < 18446744073709551616" unfolding a_def using p(2) by auto
  qed
  have split: "uint z = z1 * W + z0" "uint y = y1 * W + y0" unfolding z0_def z1_def y0_def y1_def by simp_all
  have zy: "uint z * uint y = ((z1 * y1) * W + (z1 * y0 + z0 * y1)) * W + z0 * y0" unfolding split by algebra
  have "uint z * uint y div (W * W) = uint z * uint y div W div W" by (rule zdiv_zmult2_eq) (simp add: W_def)
  also have "uint z * uint y div W = (z1 * y1) * W + (z1 * y0 + z0 * y1) + z0 * y0 div W" unfolding zy by (simp add: W_def)
  also have "\<dots> = (z1 * y1) * W + (a + z1 * y0)" unfolding a_def by simp
  also have "\<dots> div W = z1 * y1 + (a + z1 * y0) div W" by (simp add: W_def)
  also have "(a + z1 * y0) div W = a div W + z1 * y0 div W + (a mod W + z1 * y0 mod W) div W" by (rule div_add1_eq)
  finally have "uint z * uint y div (W * W) = z1 * y1 + (a div W + z1 * y0 div W + (a mod W + z1 * y0 mod W) div W)" .
  moreover have "W * W = 18446744073709551616" by (simp add: W_def)
  ultimately have res: "uint z * uint y div 18446744073709551616 = z1 * y1 + (a div W + z1 * y0 div W + (a mod W + z1 * y0 mod W) div W)" by (simp only:)
  have lt: "uint z * uint y div 18446744073709551616 < 18446744073709551616" "0 \<le> uint z * uint y div 18446744073709551616"
  proof -
    have "uint z * uint y < 18446744073709551616 * 18446744073709551616"
      using uint64_lt [of z] uint64_lt [of y] by (intro mult_strict_mono') simp_all
    then show "uint z * uint y div 18446744073709551616 < 18446744073709551616" by linarith
  qed (simp add: pos_imp_zdiv_nonneg_iff)
  define z0w where "z0w = (ucast (ucast z :: u32) :: u64)"
  define z1w where "z1w = (ucast (ucast (drop_bit 32 z) :: u32) :: u64)"
  define y0w where "y0w = (ucast (ucast y :: u32) :: u64)"
  define y1w where "y1w = (ucast (ucast (drop_bit 32 y) :: u32) :: u64)"
  have u: "uint z0w = z0" "uint z1w = z1" "uint y0w = y0" "uint y1w = y1"
    unfolding z0w_def z1w_def y0w_def y1w_def z0_def z1_def y0_def y1_def by (rule half high)+
  have m: "uint (i * j) = uint i * uint j" if "uint i * uint j \<le> (W - 1) * (W - 1)" for i j :: u64
    using that by (simp add: uint_word_ariths W_def)
  define aw where "aw = z0w * y1w + drop_bit 32 (z0w * y0w)"
  have q: "uint (z0w * y1w) = z0 * y1" "uint (z0w * y0w) = z0 * y0" "uint (z1w * y0w) = z1 * y0" "uint (z1w * y1w) = z1 * y1"
    using m [of z0w y1w] m [of z0w y0w] m [of z1w y0w] m [of z1w y1w] p unfolding u by simp_all
  have ua: "uint aw = a" unfolding aw_def uint_word_ariths(1) uint_shr q a_def [unfolded W_def, symmetric] using a by (simp add: W_def a_def)
  have "uint (mul_high z y) = (z1 * y1 + (a div W + z1 * y0 div W + (a mod W + z1 * y0 mod W) div W)) mod 18446744073709551616"
  proof -
    have "mul_high z y = (drop_bit 32 aw + drop_bit 32 (z1w * y0w) + drop_bit 32 (ucast (ucast aw :: u32) + ucast (ucast (z1w * y0w) :: u32))) + z1w * y1w"
      unfolding mul_high_def Let_def z0w_def z1w_def y0w_def y1w_def aw_def by (rule refl)
    moreover have "uint (ucast (ucast aw :: u32) + ucast (ucast (z1w * y0w) :: u32) :: u64) = a mod W + z1 * y0 mod W"
    proof -
      have "0 \<le> a mod W" "a mod W < W" "0 \<le> z1 * y0 mod W" "z1 * y0 mod W < W" by (simp_all add: W_def)
      then have "0 \<le> a mod W + z1 * y0 mod W" "a mod W + z1 * y0 mod W < 18446744073709551616" unfolding W_def by linarith+
      then show ?thesis unfolding uint_word_ariths(1) half ua q by simp
    qed
    ultimately have "uint (mul_high z y) = (a div W + z1 * y0 div W + (a mod W + z1 * y0 mod W) div W + z1 * y1) mod 18446744073709551616"
      by (simp add: uint_word_ariths(1) uint_shr ua q mod_simps W_def)
    then show ?thesis by (simp only: add.commute)
  qed
  then show ?thesis unfolding res [symmetric] using lt by simp
qed

end
