(* ===== verification/Exp_Poly.thy ===== *)
theory Exp_Poly
  imports Fpr_Int
begin

text \<open>
  The polynomial that fpr.c uses for the exponential is close to the exponential function: the difference from a
  Taylor polynomial is written in the Bernstein basis, where the coefficients bound the values.
\<close>

section \<open>Bounds from the Bernstein basis\<close>

definition bpoly :: "int list \<Rightarrow> real \<Rightarrow> real" where
  "bpoly xs t = (\<Sum>i<length xs. of_int (xs ! i) * t ^ i * (1 - t) ^ (length xs - 1 - i))"

definition mul_one :: "int list \<Rightarrow> int list" where
  "mul_one xs = map2 (+) (xs @ [0]) (0 # xs)"

definition bern_step :: "int \<Rightarrow> int list \<times> int list \<Rightarrow> int list \<times> int list" where
  "bern_step q st = (let row = mul_one (snd st) in (map2 (+) (0 # fst st) (map ((*) q) row), row))"

definition bern_raise :: "int list \<times> int list \<Rightarrow> int list \<times> int list" where
  "bern_raise st = (mul_one (fst st), mul_one (snd st))"

lemma length_mul_one [simp]: "length (mul_one xs) = Suc (length xs)"
  by (simp add: mul_one_def)

lemma bpoly_add: "length xs = length ys \<Longrightarrow> bpoly (map2 (+) xs ys) t = bpoly xs t + bpoly ys t"
  by (simp add: bpoly_def sum.distrib [symmetric] algebra_simps)

lemma bpoly_scale: "bpoly (map ((*) q) xs) t = of_int q * bpoly xs t"
  by (simp add: bpoly_def sum_distrib_left mult.assoc)

lemma bpoly_Cons0: "bpoly (0 # xs) t = t * bpoly xs t"
proof -
  have "bpoly (0 # xs) t = (\<Sum>i<Suc (length xs). of_int ((0 # xs) ! i) * t ^ i * (1 - t) ^ (length xs - i))" by (simp add: bpoly_def)
  also have "\<dots> = (\<Sum>i<length xs. of_int (xs ! i) * t ^ Suc i * (1 - t) ^ (length xs - Suc i))" unfolding sum.lessThan_Suc_shift by simp
  finally show ?thesis by (simp add: bpoly_def sum_distrib_left algebra_simps)
qed

lemma bpoly_snoc0: "bpoly (xs @ [0]) t = (1 - t) * bpoly xs t"
proof -
  have "bpoly (xs @ [0]) t = (\<Sum>i<length xs. of_int (xs ! i) * t ^ i * (1 - t) ^ (length xs - i))" by (simp add: bpoly_def nth_append)
  also have "\<dots> = (\<Sum>i<length xs. (1 - t) * (of_int (xs ! i) * t ^ i * (1 - t) ^ (length xs - 1 - i)))"
  proof (rule sum.cong)
    fix i assume "i \<in> {..<length xs}"
    then have "length xs - i = Suc (length xs - 1 - i)" by simp
    then show "of_int (xs ! i) * t ^ i * (1 - t) ^ (length xs - i) = (1 - t) * (of_int (xs ! i) * t ^ i * (1 - t) ^ (length xs - 1 - i))" by simp
  qed simp
  finally show ?thesis by (simp add: bpoly_def sum_distrib_left)
qed

lemma bpoly_mul_one: "bpoly (mul_one xs) t = bpoly xs t"
  unfolding mul_one_def by (subst bpoly_add) (simp_all add: bpoly_Cons0 bpoly_snoc0 algebra_simps)

text \<open>The state of the conversion: a polynomial, and the same power of one, in the Bernstein basis.\<close>

definition bern_ok :: "real \<Rightarrow> real \<Rightarrow> int list \<times> int list \<Rightarrow> bool" where
  "bern_ok t v st \<longleftrightarrow> length (fst st) = length (snd st) \<and> bpoly (fst st) t = v \<and> bpoly (snd st) t = 1"

lemma bern_ok_step: "bern_ok t v st \<Longrightarrow> bern_ok t (of_int q + t * v) (bern_step q st)"
  unfolding bern_ok_def bern_step_def Let_def by (simp add: bpoly_add bpoly_scale bpoly_Cons0 bpoly_mul_one)

lemma bern_ok_raise: "bern_ok t v st \<Longrightarrow> bern_ok t v (bern_raise st)"
  by (simp add: bern_ok_def bern_raise_def bpoly_mul_one)

lemma bern_ok_raises: "bern_ok t v st \<Longrightarrow> bern_ok t v ((bern_raise ^^ k) st)"
  by (induction k) (simp_all add: bern_ok_raise)

lemma bern_ok_fold: "bern_ok t v st \<Longrightarrow> bern_ok t (fold (\<lambda>q v. of_int q + t * v) qs v) (fold bern_step qs st)"
  by (induction qs arbitrary: v st) (simp_all add: bern_ok_step)

lemma bern_bound:
  assumes "bern_ok t v st" "list_all2 (\<lambda>a c. \<bar>a\<bar> \<le> K * c) (fst st) (snd st)" "0 \<le> t" "t \<le> 1"
  shows "\<bar>v\<bar> \<le> of_int K"
proof -
  let ?n = "length (fst st)"
  have l: "length (snd st) = ?n" "bpoly (fst st) t = v" "bpoly (snd st) t = 1" using assms(1) by (simp_all add: bern_ok_def)
  have "\<bar>v\<bar> \<le> (\<Sum>i<?n. \<bar>of_int (fst st ! i) * t ^ i * (1 - t) ^ (?n - 1 - i)\<bar>)" unfolding l(2) [symmetric] bpoly_def by (rule sum_abs)
  also have "\<dots> \<le> (\<Sum>i<?n. of_int K * (of_int (snd st ! i) * t ^ i * (1 - t) ^ (?n - 1 - i)))"
  proof (rule sum_mono)
    fix i assume "i \<in> {..<?n}"
    then have "\<bar>fst st ! i\<bar> \<le> K * (snd st ! i)" using assms(2) by (simp add: list_all2_conv_all_nth)
    then have "\<bar>real_of_int (fst st ! i)\<bar> \<le> of_int K * of_int (snd st ! i)" by (simp flip: of_int_abs of_int_mult)
    then have "\<bar>real_of_int (fst st ! i)\<bar> * (t ^ i * (1 - t) ^ (?n - 1 - i)) \<le> of_int K * of_int (snd st ! i) * (t ^ i * (1 - t) ^ (?n - 1 - i))"
      using assms(3,4) by (intro mult_right_mono) simp_all
    then show "\<bar>of_int (fst st ! i) * t ^ i * (1 - t) ^ (?n - 1 - i)\<bar> \<le> of_int K * (of_int (snd st ! i) * t ^ i * (1 - t) ^ (?n - 1 - i))"
      using assms(3,4) by (simp add: abs_mult mult.assoc)
  qed
  also have "\<dots> = of_int K * bpoly (snd st) t" unfolding bpoly_def l(1) by (simp add: sum_distrib_left)
  finally show ?thesis unfolding l(3) by simp
qed

section \<open>The polynomial and the exponential function\<close>

text \<open>The difference of the polynomial from the Taylor polynomial of degree 16, in the variable \<open>512 * x / 355\<close>.\<close>

definition diff_coeffs :: "int list" where
  "diff_coeffs =
     [0, 54139639290293515782877432729550919177338880, 141176373429576098497172959030458971691417600,
      - 1617334481761237866225795768638268720021504000, - 1965324679727146090771891101950026344038400000,
      13555081870253340812681075320863145517383680000, 8790036999200184233975765481309237726412800000,
      - 48133234137850341818211702974518684286976000000, - 16715966442017400247543592245623332536320000000,
      82431426879815657872908474081678930739200000000, 13413451065004628574196220515259395891200000000,
      - 67348416811641387970735540195735119318000000000, - 2624270077837887195595727385193842591123046875,
      21016852921360561890315268265292595200000000000, - 1040873714715820238708415211241472000000000000,
      48113303219285961554881171873792000000000000, - 2084988115581850140622902345605000000000000]"

definition diff_scale :: int where "diff_scale = 15289345839421229443450874071147608968301625324694189113344"

definition diff_bound :: int where "diff_bound = 9905619186185721436410284382281395055431885"

lemma diff_in_basis:
  "list_all2 (\<lambda>a c. \<bar>a\<bar> \<le> diff_bound * c) (fst ((bern_raise ^^ 24) (fold bern_step (tl (rev diff_coeffs)) ([last diff_coeffs], [1]))))
     (snd ((bern_raise ^^ 24) (fold bern_step (tl (rev diff_coeffs)) ([last diff_coeffs], [1]))))"
  by (simp add: diff_coeffs_def bern_step_def mul_one_def bern_raise_def numeral_eq_Suc diff_bound_def)


definition expm_poly :: "real \<Rightarrow> real" where
  "expm_poly x = fold (\<lambda>u y. real_of_int (uint (expm_coeffs ! u)) - x * y) [1..<13] (of_int (uint (expm_coeffs ! 0)))"

definition exp_taylor :: "real \<Rightarrow> real" where
  "exp_taylor x = (\<Sum>k<17. (- x) ^ k / fact k)"

lemma horner:
  "l \<noteq> [] \<Longrightarrow> fold (\<lambda>q v. real_of_int q + y * v) (tl (rev l)) (of_int (last l)) = (\<Sum>k<length l. of_int (l ! k) * y ^ k)"
proof (induction l)
  case (Cons a l)
  show ?case
  proof (cases "l = []")
    case False
    have "(\<Sum>k<length (a # l). real_of_int ((a # l) ! k) * y ^ k) = of_int a + y * (\<Sum>k<length l. of_int (l ! k) * y ^ k)"
      by (simp add: sum.lessThan_Suc_shift sum_distrib_left algebra_simps del: sum.lessThan_Suc)
    then show ?thesis using Cons.IH False by simp
  qed simp
qed simp

lemma diff_polynomial:
  "expm_poly x / 9223372036854775808 - exp_taylor x =
    fold (\<lambda>q v. of_int q + (512 * x / 355) * v) (tl (rev diff_coeffs)) (of_int (last diff_coeffs)) / of_int diff_scale"
proof -
  define cs where "cs = map uint (rev expm_coeffs) @ replicate 4 0"
  have r4: "replicate 4 (0 :: int) = [0, 0, 0, 0]" by (simp add: numeral_eq_Suc)
  have l13: "length (map uint (rev expm_coeffs)) = 13" by (simp add: expm_coeffs_def)
  have cn: "cs ! k = (if k < 13 then map uint (rev expm_coeffs) ! k else 0)" if "k < 17" for k
    unfolding cs_def nth_append l13 using that by simp
  have cs: "expm_poly x = (\<Sum>k<17. of_int (cs ! k) * (- x) ^ k)"
  proof -
    have "expm_poly x = fold (\<lambda>c y. real_of_int c + (- x) * y) (tl (rev (map uint (rev expm_coeffs)))) (of_int (last (map uint (rev expm_coeffs))))"
      by (simp add: expm_poly_def expm_coeffs_def upt_rec)
    also have "\<dots> = (\<Sum>k<13. of_int (map uint (rev expm_coeffs) ! k) * (- x) ^ k)"
    proof -
      have "map uint (rev expm_coeffs) \<noteq> []" and l: "length (map uint (rev expm_coeffs)) = 13" by (simp_all add: expm_coeffs_def)
      from horner [OF this(1), of "- x"] show ?thesis unfolding l .
    qed
    also have "\<dots> = (\<Sum>k<13. of_int (cs ! k) * (- x) ^ k)" by (rule sum.cong) (simp_all add: cn)
    also have "\<dots> = (\<Sum>k<17. of_int (cs ! k) * (- x) ^ k)" by (rule sum.mono_neutral_left) (auto simp: cn)
    finally show ?thesis .
  qed
  have co: "(of_int (cs ! k) / 9223372036854775808 - 1 / fact k) * (- 1) ^ k = real_of_int (diff_coeffs ! k) * (512 / 355) ^ k / of_int diff_scale" if "k < 17" for k
  proof -
    have "list_all (\<lambda>k. (of_int (cs ! k) / 9223372036854775808 - 1 / fact k) * (- 1) ^ k = real_of_int (diff_coeffs ! k) * (512 / 355) ^ k / of_int diff_scale) [0..<17]"
      by (simp add: upt_rec cs_def expm_coeffs_def diff_coeffs_def diff_scale_def fact_numeral r4)
    then show ?thesis using that by (simp add: list_all_iff)
  qed
  have "expm_poly x / 9223372036854775808 - exp_taylor x = (\<Sum>k<17. (of_int (cs ! k) / 9223372036854775808 - 1 / fact k) * (- 1) ^ k * x ^ k)"
    unfolding cs exp_taylor_def sum_divide_distrib sum_subtractf [symmetric] by (rule sum.cong) (simp_all add: power_minus [of x] algebra_simps)
  also have "\<dots> = (\<Sum>k<17. real_of_int (diff_coeffs ! k) * (512 * x / 355) ^ k) / of_int diff_scale"
    unfolding sum_divide_distrib by (rule sum.cong) (simp_all add: co power_mult_distrib power_divide)
  also have "(\<Sum>k<17. real_of_int (diff_coeffs ! k) * (512 * x / 355) ^ k) =
      fold (\<lambda>q v. of_int q + (512 * x / 355) * v) (tl (rev diff_coeffs)) (of_int (last diff_coeffs))"
  proof -
    have "diff_coeffs \<noteq> []" and l: "length diff_coeffs = 17" by (simp_all add: diff_coeffs_def)
    from horner [OF this(1), of "512 * x / 355"] show ?thesis unfolding l by (rule sym)
  qed
  finally show ?thesis .
qed

lemma expm_poly_taylor:
  assumes "0 \<le> x" "x \<le> 355 / 512"
  shows "\<bar>expm_poly x / 9223372036854775808 - exp_taylor x\<bar> \<le> of_int diff_bound / of_int diff_scale"
proof -
  define t where "t = 512 * x / 355"
  have t: "0 \<le> t" "t \<le> 1" using assms by (simp_all add: t_def)
  let ?st = "(bern_raise ^^ 24) (fold bern_step (tl (rev diff_coeffs)) ([last diff_coeffs], [1]))"
  have "bern_ok t (of_int (last diff_coeffs)) ([last diff_coeffs], [1])" by (simp add: bern_ok_def bpoly_def)
  then have "bern_ok t (fold (\<lambda>q v. of_int q + t * v) (tl (rev diff_coeffs)) (of_int (last diff_coeffs))) ?st"
    by (intro bern_ok_raises bern_ok_fold)
  from bern_bound [OF this diff_in_basis t]
  have "\<bar>fold (\<lambda>q v. of_int q + t * v) (tl (rev diff_coeffs)) (of_int (last diff_coeffs))\<bar> \<le> real_of_int diff_bound" .
  moreover have "0 < real_of_int diff_scale" by (simp add: diff_scale_def)
  ultimately show ?thesis unfolding diff_polynomial t_def by (simp add: divide_right_mono)
qed

lemma taylor_exp:
  assumes "0 \<le> x" "x \<le> 355 / 512"
  shows "\<bar>exp (- x) - exp_taylor x\<bar> \<le> 1 / 36028797018963968"
proof -
  obtain s where s: "\<bar>s\<bar> \<le> \<bar>- x\<bar>" "exp (- x) = (\<Sum>k<17. (- x) ^ k / fact k) + exp s / fact 17 * (- x) ^ 17"
    using Maclaurin_exp_le [of "- x" 17] by blast
  have "exp s \<le> exp 1" using s(1) assms by simp
  then have e: "exp s \<le> 3" using exp_le by linarith
  have "\<bar>exp (- x) - exp_taylor x\<bar> = exp s / fact 17 * x ^ 17" unfolding s(2) exp_taylor_def using assms by (simp add: abs_mult)
  also have "\<dots> \<le> 3 / fact 17 * (355 / 512) ^ 17" using e assms by (intro mult_mono divide_right_mono power_mono) simp_all
  also have "\<dots> \<le> 1 / 36028797018963968" by (simp add: fact_numeral power_divide)
  finally show ?thesis .
qed

lemma expm_poly_exp:
  assumes "0 \<le> x" "x \<le> 355 / 512"
  shows "\<bar>expm_poly x / 9223372036854775808 - exp (- x)\<bar> \<le> 4 / 5 / 1125899906842624"
proof -
  have "of_int diff_bound / of_int diff_scale + 1 / 36028797018963968 \<le> (4 / 5 / 1125899906842624 :: real)"
    by (simp add: diff_bound_def diff_scale_def)
  then show ?thesis using expm_poly_taylor [OF assms] taylor_exp [OF assms] by linarith
qed

end
