(* ===== verification/Fpr_Exp.thy ===== *)
theory Fpr_Exp
  imports Exp_Poly
begin

text \<open>
  The accuracy of the exponential in fpr.c: the polynomial is evaluated in fixed point, and every step adds an error
  below one unit in the last of 63 bits.
\<close>

text \<open>A value between 0 and 1 is turned into a fixed-point number of 64 bits without rounding of its upper 63 bits.\<close>

lemma fval_ptwo63: "fval fpr_ptwo63 = 9223372036854775808"
  by (simp add: fval_def fpr_ptwo63_def fexp_def fman_def fsign_def fneg_def)

lemma scale63:
  assumes "0 \<le> fval x" "fval x < 1"
  defines "z \<equiv> push_bit 1 (fpr_trunc (fpr_mul x fpr_ptwo63))"
  shows "uint z = 2 * \<lfloor>fval x * 9223372036854775808\<rfloor>"
    "of_int (uint z) / 18446744073709551616 \<le> fval x" "fval x - of_int (uint z) / 18446744073709551616 \<le> 1 / 9223372036854775808"
proof -
  define v where "v = fval x * 9223372036854775808"
  define p where "p = fpr_mul x fpr_ptwo63"
  have r: "rounds_to p v" unfolding p_def v_def fval_ptwo63 [symmetric] by (rule mul_rounds)
  have v: "0 \<le> v" "v < 9223372036854775808" using assms by (simp_all add: v_def)
  have fp: "fval p = v"
  proof (cases "fval x = 0")
    case True
    then have "fzero p" using r by (simp add: v_def rounds_to_def fmin_def)
    then show ?thesis using True by (simp add: v_def fval_def fzero_def)
  next
    case False
    then have e0: "fexp x \<noteq> 0" by (auto simp: fval_def)
    have s: "fsign x = 1" using assms(1) False fmag_nonneg [of x] unfolding fval_sign by (auto simp: fsign_def split: if_splits)
    define X where "X = 4503599627370496 + fman x"
    have X: "4503599627370496 \<le> X" "X < 9007199254740992" using field_range [of x] by (simp_all add: X_def)
    have "(2 :: real) powi (fexp x - 1075) * 2 powi 63 = 2 powi (fexp x - 1012)" using power_int_add [of "2 :: real" "fexp x - 1075" 63] by simp
    then have ve: "v = (of_int X + 0) * 2 powi (fexp x - 1012)" unfolding v_def fval_nonzero [OF e0] s X_def by (simp add: algebra_simps)
    have f: "fround v = v" unfolding ve using fround_near [OF X, of 0 "fexp x - 1012"] by simp
    have "fmin \<le> 1 * 2 powi (fexp x - 1012)" unfolding fmin_def mult_1 using e0 field_range(1) [of x] by (intro power_int_increasing) simp_all
    also have "\<dots> \<le> v" unfolding ve using X by (intro mult_right_mono) simp_all
    finally have lo: "fmin \<le> v" .
    have "(2 :: real) powi 63 \<le> fmax" unfolding fmax_def by (intro power_int_increasing) simp_all
    then have "v < fmax" using v(2) by simp
    then show ?thesis using r lo v(1) f by (simp add: rounds_to_def)
  qed
  have "sint (fpr_trunc p) = \<lfloor>v\<rfloor>" using fpr_trunc_correct [of p] fp v by simp
  moreover have fl: "0 \<le> \<lfloor>v\<rfloor>" "\<lfloor>v\<rfloor> < 9223372036854775808" using v by (simp_all add: floor_less_iff)
  moreover have "a = f" if "a - (if b then N else 0) = f" "0 \<le> f" "a < N" for a f N :: int and b using that by (simp split: if_splits)
  ultimately have "uint (fpr_trunc p) = \<lfloor>v\<rfloor>" using uint64_lt [of "fpr_trunc p"] unfolding sint_fneg by blast
  then show u: "uint z = 2 * \<lfloor>fval x * 9223372036854775808\<rfloor>" unfolding z_def p_def [symmetric] v_def [symmetric] uint_shl using fl by simp
  have "of_int \<lfloor>v\<rfloor> \<le> v" "v - of_int \<lfloor>v\<rfloor> \<le> 1" by linarith+
  then show "of_int (uint z) / 18446744073709551616 \<le> fval x" "fval x - of_int (uint z) / 18446744073709551616 \<le> 1 / 9223372036854775808"
    unfolding u v_def [symmetric] by (simp_all add: v_def field_simps)
qed

text \<open>The evaluation loop: no subtraction wraps around, and each step adds an error below one unit.\<close>

lemma coeffs_increase: "i < 12 \<Longrightarrow> uint (expm_coeffs ! i) \<le> uint (expm_coeffs ! Suc i)" "uint (expm_coeffs ! i) < 18446744073709551616"
proof -
  have "list_all (\<lambda>i. uint (expm_coeffs ! i) \<le> uint (expm_coeffs ! Suc i)) [0..<12]" by (simp add: expm_coeffs_def upt_rec)
  then show "i < 12 \<Longrightarrow> uint (expm_coeffs ! i) \<le> uint (expm_coeffs ! Suc i)" by (simp add: list_all_iff)
qed (rule uint64_lt)

lemma expm_loop:
  fixes z :: u64
  assumes "k \<le> 12"
  defines "x \<equiv> of_int (uint z) / 18446744073709551616"
  defines "y \<equiv> fold (\<lambda>u y. expm_coeffs ! u - mul_high z y) [1..<Suc k] (expm_coeffs ! 0)"
  shows "uint y \<le> uint (expm_coeffs ! k) \<and>
    \<bar>of_int (uint y) - fold (\<lambda>u y. real_of_int (uint (expm_coeffs ! u)) - x * y) [1..<Suc k] (of_int (uint (expm_coeffs ! 0)))\<bar> \<le> of_nat k"
  using assms(1) unfolding y_def
proof (induction k)
  case (Suc k)
  define w where "w = fold (\<lambda>u y. expm_coeffs ! u - mul_high z y) [1..<Suc k] (expm_coeffs ! 0)"
  define h where "h = fold (\<lambda>u y. real_of_int (uint (expm_coeffs ! u)) - x * y) [1..<Suc k] (of_int (uint (expm_coeffs ! 0)))"
  define c where "c = uint (expm_coeffs ! Suc k)"
  have IH: "uint w \<le> uint (expm_coeffs ! k)" "\<bar>of_int (uint w) - h\<bar> \<le> of_nat k" using Suc by (simp_all add: w_def h_def)
  have x: "0 \<le> x" "x \<le> 1"
  proof -
    have "0 \<le> real_of_int (uint z)" "real_of_int (uint z) \<le> of_int 18446744073709551616" using uint64_lt [of z] uint_nonnegative [of z] by linarith+
    then show "0 \<le> x" "x \<le> 1" by (simp_all add: x_def)
  qed
  define q where "q = uint z * uint w div 18446744073709551616"
  have q: "of_int q \<le> x * of_int (uint w)" "x * of_int (uint w) < of_int q + 1"
  proof -
    have "x * of_int (uint w) = of_int (uint z * uint w) / of_int 18446744073709551616" by (simp add: x_def del: of_int_uint)
    then have "q = \<lfloor>x * of_int (uint w)\<rfloor>" unfolding q_def by (simp only: floor_divide_of_int_eq)
    then show "of_int q \<le> x * of_int (uint w)" "x * of_int (uint w) < of_int q + 1" by linarith+
  qed
  have q0: "0 \<le> q" unfolding q_def by (simp add: pos_imp_zdiv_nonneg_iff)
  have "x * of_int (uint w) \<le> 1 * of_int (uint w)" using x(2) by (rule mult_right_mono) (simp only: of_int_0_le_iff uint_nonnegative)
  then have "q \<le> uint w" using q(1) by linarith
  then have qc: "q \<le> c" using IH(1) coeffs_increase(1) [of k] Suc.prems unfolding c_def by simp
  have c: "c < 18446744073709551616" unfolding c_def by (rule coeffs_increase)
  have "uint (expm_coeffs ! Suc k - mul_high z w) = (c - q) mod 18446744073709551616"
    unfolding uint_word_ariths(2) mul_high_exact c_def q_def by simp
  then have u: "uint (expm_coeffs ! Suc k - mul_high z w) = c - q" using qc q0 c by simp
  have "\<bar>of_int (c - q) - (of_int c - x * h)\<bar> \<le> \<bar>x * h - x * of_int (uint w)\<bar> + 1" using q by simp
  also have "\<bar>x * h - x * of_int (uint w)\<bar> = x * \<bar>of_int (uint w) - h\<bar>" using x by (simp add: right_diff_distrib [symmetric] abs_mult abs_minus_commute)
  also have "\<dots> \<le> 1 * of_nat k" using x IH(2) by (intro mult_mono) simp_all
  finally have "\<bar>of_int (c - q) - (of_int c - x * h)\<bar> \<le> of_nat (Suc k)" by simp
  moreover have "[1..<Suc (Suc k)] = [1..<Suc k] @ [Suc k]" by simp
  ultimately show ?case using u q0 by (simp only: fold_append comp_def fold_simps w_def [symmetric] h_def [symmetric] c_def [symmetric]) simp
qed simp

text \<open>
  (C9) The exponential used by the Bernoulli sampler is accurate: for \<open>0 \<le> x \<le> 355/512\<close>, which includes all
  reduced arguments up to \<open>ln 2\<close>, and a scaling factor below 1, the result is within \<open>2^-50\<close> of
  \<open>ccs * exp (- x)\<close>, as a fixed-point number with 63 fractional bits.
\<close>

theorem fpr_expm_p63_accurate:
  assumes "0 \<le> fval x" "fval x \<le> 355 / 512" "0 \<le> fval ccs" "fval ccs < 1"
  shows "\<bar>of_int (uint (fpr_expm_p63 x ccs)) / 9223372036854775808 - fval ccs * exp (- fval x)\<bar> \<le> 1 / 1125899906842624"
proof -
  define z where "z = push_bit 1 (fpr_trunc (fpr_mul x fpr_ptwo63))"
  define z2 where "z2 = push_bit 1 (fpr_trunc (fpr_mul ccs fpr_ptwo63))"
  define s where "s = real_of_int (uint z) / 18446744073709551616"
  define c where "c = real_of_int (uint z2) / 18446744073709551616"
  define y where "y = fold (\<lambda>u y. expm_coeffs ! u - mul_high z y) [1..<13] (expm_coeffs ! 0)"
  have s: "0 \<le> s" "s \<le> fval x" "fval x - s \<le> 1 / 9223372036854775808"
    using scale63 [OF assms(1), folded z_def s_def] assms(2) uint_nonnegative [of z] by (simp_all add: s_def del: uint_nonnegative)
  have c: "0 \<le> c" "c \<le> fval ccs" "fval ccs - c \<le> 1 / 9223372036854775808"
    using scale63 [OF assms(3,4), folded z2_def c_def] uint_nonnegative [of z2] by (simp_all add: c_def del: uint_nonnegative)
  have y: "\<bar>of_int (uint y) - expm_poly s\<bar> \<le> 12" using expm_loop [of 12 z, folded s_def] by (simp add: y_def expm_poly_def)
  have F: "fpr_expm_p63 x ccs = mul_high z2 y" unfolding fpr_expm_p63_def Let_def z_def [symmetric] z2_def [symmetric] y_def by (rule refl)
  have r: "\<bar>of_int (uint (fpr_expm_p63 x ccs)) - c * of_int (uint y)\<bar> \<le> 1"
  proof -
    have "c * of_int (uint y) = of_int (uint z2 * uint y) / of_int 18446744073709551616" by (simp add: c_def del: of_int_uint)
    then have "uint (fpr_expm_p63 x ccs) = \<lfloor>c * of_int (uint y)\<rfloor>" unfolding F mul_high_exact by (simp only: floor_divide_of_int_eq)
    then show ?thesis by linarith
  qed
  define Y where "Y = real_of_int (uint y) / 9223372036854775808"
  define R where "R = real_of_int (uint (fpr_expm_p63 x ccs)) / 9223372036854775808"
  have 1: "\<bar>R - c * Y\<bar> \<le> 1 / 9223372036854775808"
  proof -
    have "R - c * Y = (of_int (uint (fpr_expm_p63 x ccs)) - c * of_int (uint y)) / 9223372036854775808" unfolding R_def Y_def by (simp add: diff_divide_distrib del: of_int_uint)
    then show ?thesis using r by (simp only: abs_divide) simp
  qed
  have e1: "exp (- s) \<le> 1" "exp (- fval x) \<le> 1" using s(1) assms(1) by simp_all
  have 2: "\<bar>Y - exp (- s)\<bar> \<le> 12 / 9223372036854775808 + 4 / 5 / 1125899906842624"
  proof -
    have "Y - expm_poly s / 9223372036854775808 = (of_int (uint y) - expm_poly s) / 9223372036854775808" unfolding Y_def by (simp add: diff_divide_distrib)
    then have "\<bar>Y - expm_poly s / 9223372036854775808\<bar> \<le> 12 / 9223372036854775808" using y by (simp only: abs_divide) simp
    then show ?thesis using expm_poly_exp [of s] s assms(2) by linarith
  qed
  have "c * \<bar>Y - exp (- s)\<bar> \<le> 1 * (12 / 9223372036854775808 + 4 / 5 / 1125899906842624)" using 2 c assms(4) by (intro mult_mono) simp_all
  then have 3: "\<bar>c * Y - c * exp (- s)\<bar> \<le> 12 / 9223372036854775808 + 4 / 5 / 1125899906842624"
    using c(1) by (simp add: right_diff_distrib [symmetric] abs_mult)
  have "\<bar>c - fval ccs\<bar> * exp (- s) \<le> 1 / 9223372036854775808 * 1" using c e1 by (intro mult_mono) simp_all
  then have 4: "\<bar>c * exp (- s) - fval ccs * exp (- s)\<bar> \<le> 1 / 9223372036854775808" by (simp add: left_diff_distrib [symmetric] abs_mult)
  have "exp (- s) - exp (- fval x) \<le> 1 / 9223372036854775808"
  proof -
    have "exp (- fval x) = exp (- s) * exp (- (fval x - s))" by (simp flip: exp_add)
    moreover have "1 - (fval x - s) \<le> exp (- (fval x - s))" using exp_ge_add_one_self [of "- (fval x - s)"] by linarith
    ultimately have "exp (- s) - exp (- fval x) \<le> exp (- s) * (fval x - s)"
      using mult_left_mono [of "1 - (fval x - s)" "exp (- (fval x - s))" "exp (- s)"] by (simp add: algebra_simps)
    also have "\<dots> \<le> 1 * (1 / 9223372036854775808)" using e1 s by (intro mult_mono) simp_all
    finally show ?thesis by simp
  qed
  moreover have "exp (- fval x) \<le> exp (- s)" using s by simp
  ultimately have "fval ccs * \<bar>exp (- s) - exp (- fval x)\<bar> \<le> 1 * (1 / 9223372036854775808)" using assms(3,4) by (intro mult_mono) simp_all
  then have 5: "\<bar>fval ccs * exp (- s) - fval ccs * exp (- fval x)\<bar> \<le> 1 / 9223372036854775808"
    using assms(3) by (simp add: right_diff_distrib [symmetric] abs_mult)
  have "\<bar>R - fval ccs * exp (- fval x)\<bar> \<le> 1 / 1125899906842624" using 1 3 4 5 by linarith
  then show ?thesis unfolding R_def .
qed

text \<open>The bound of the theorem is above the reduced arguments of the sampler.\<close>

lemma ln2_below: "ln 2 < (355 / 512 :: real)"
proof -
  have "2 < (\<Sum>k<9. (355 / 512) ^ k / fact k :: real)" by (simp add: lessThan_nat_numeral lessThan_Suc fact_numeral power_divide)
  also have "\<dots> \<le> exp (355 / 512)"
  proof -
    obtain s where "exp (355 / 512) = (\<Sum>k<9. (355 / 512) ^ k / fact k) + exp s / fact 9 * (355 / 512 :: real) ^ 9"
      using Maclaurin_exp_le [of "355 / 512" 9] by blast
    then show ?thesis by simp
  qed
  finally have "2 < exp (355 / 512 :: real)" .
  then have "ln 2 < ln (exp (355 / 512 :: real))" by (subst ln_less_cancel_iff) simp_all
  then show ?thesis by simp
qed

theorem fpr_expm_p63_accurate_witness:
  "0 \<le> fval 4602678819172646912 \<and> fval 4602678819172646912 \<le> 355 / 512 \<and> fval 4602678819172646912 < 1 \<and>
   \<bar>of_int (uint (fpr_expm_p63 4602678819172646912 4602678819172646912)) / 9223372036854775808 - 1 / 2 * exp (- 1 / 2)\<bar> \<le> (1 :: real) / 1125899906842624"
proof -
  have v: "fval 4602678819172646912 = 1 / 2" by (simp add: fval_def fexp_def fman_def fsign_def fneg_def)
  show ?thesis using fpr_expm_p63_accurate [of 4602678819172646912 4602678819172646912] unfolding v by simp
qed

end
