(* ===== verification/Spec2Isabelle.thy ===== *)
theory Spec2Isabelle
  imports Rng Falcon_Api Bezout Generated_Keys Fpr_Exp
begin

text \<open>
  Falcon-512 over RPO: a verification development of the C code of miden-crypto (src/crypto), that is the
  signature scheme Miden assembly programs verify, its hash function, and the parts of the Falcon reference
  implementation that are compiled with it.

  \<^bold>\<open>The program.\<close> \<^verbatim>\<open>falcon.c\<close> offers key generation from a seed, detached signatures and their verification.
  Key generation draws a key with \<^verbatim>\<open>keygen.c\<close> from a SHAKE256 context (\<^verbatim>\<open>fips202.c\<close>) and encodes it
  (\<^verbatim>\<open>codec.c\<close>). Signing decodes the private key, recomputes its fourth polynomial (\<^verbatim>\<open>vrfy.c\<close>), hashes a random
  nonce and the message to a point with RPO (\<^verbatim>\<open>rpo.c\<close>) and calls the sampler \<^verbatim>\<open>sign_dyn\<close> until the compressed
  result fits. Verification decodes the public key and the signature, hashes again, and checks with the
  number-theoretic transform of \<^verbatim>\<open>vrfy.c\<close> and the norm bound of \<^verbatim>\<open>common.c\<close>. \<^verbatim>\<open>pqclean.c\<close> is the same scheme
  over SHAKE256, with the constant-time hash-to-point of \<^verbatim>\<open>common.c\<close> and with signed messages. \<^verbatim>\<open>rng.c\<close> is the
  ChaCha20 generator of the sampler.

  \<^bold>\<open>Machine model.\<close> Little-endian, 32-bit \<^verbatim>\<open>int\<close>, 64-bit \<^verbatim>\<open>size_t\<close> and pointers. C integers are words of their
  width, signed ones are read with \<open>sint\<close>; wrap-around is that of the words. Arrays are lists, loop counters
  natural numbers, output parameters part of the result, and temporary buffers local lists. \<^verbatim>\<open>randombytes\<close> reads
  from a tape of bytes. A call that may fail to return a value (a read past a buffer, a loop that may not end)
  has an option type with \<open>None\<close> for that case; loops without a bound are partial functions, and the theorems
  state when they return.

  \<^bold>\<open>Theories.\<close>

  \<^item> \<open>Prelude\<close>: integer types, loop shapes, word and list lemmas. \<open>Modular\<close>: primality certificates and Fermat's
    theorem. \<open>Negacyclic\<close>: loops of butterflies and products modulo \<open>X^n + 1\<close>. \<open>Retry\<close>: loops that repeat an attempt.
  \<^item> \<open>Rpo_Field\<close>, \<open>Rpo_Permutation\<close>, \<open>Rpo_Sponge\<close> (\<^verbatim>\<open>rpo.c\<close>): the field arithmetic is exact for all words, the
    permutation is a bijection of the canonical states, and the sponge is a streaming hash.
  \<^item> \<open>Xof\<close>: the contract of a streaming hash as a locale, interpreted by the RPO sponge and by SHAKE256.
  \<^item> \<open>Keccak\<close>, \<open>Fips202\<close> (\<^verbatim>\<open>fips202.c\<close>): the unrolled permutation is Keccak-f[1600], and every SHAKE and SHA-3
    function is the sponge of the standard, in one call or incrementally.
  \<^item> \<open>Codec\<close>, \<open>Codec_Comp\<close> (\<^verbatim>\<open>codec.c\<close>): the fixed-width formats over the locale of a field codec, and the
    compressed format; round trips, canonicity, exact lengths and safety of the decoders.
  \<^item> \<open>Mq_Tables\<close>, \<open>Zq\<close>, \<open>Mq_Arith\<close>, \<open>Ntt\<close>, \<open>Vrfy\<close> (\<^verbatim>\<open>vrfy.c\<close>): arithmetic modulo 12289, the transform and its
    inverse, and what verification and the key routines decide, in terms of products modulo \<open>X^n + 1\<close>.
  \<^item> \<open>Norm\<close>, \<open>Compaction\<close>, \<open>Hash_To_Point\<close> (\<^verbatim>\<open>common.c\<close>): the saturating norm checks are exact, and the
    constant-time hash-to-point agrees with the reference loop.
  \<^item> \<open>Rng\<close> (\<^verbatim>\<open>rng.c\<close>, \<^verbatim>\<open>inner.h\<close>): the refill writes eight ChaCha20 blocks; every reachable state is well formed.
  \<^item> \<open>Modp\<close>, \<open>Modp_Ntt\<close>, \<open>Small_Primes\<close> (\<^verbatim>\<open>keygen.c\<close>): arithmetic and transforms modulo 31-bit primes over the
    locales \<open>small_modulus\<close> and \<open>ntt_modulus\<close>, interpreted on the table of primes.
  \<^item> \<open>Zint\<close>, \<open>Zint_Bezout\<close>, \<open>Bezout\<close>, \<open>Crt\<close> (\<^verbatim>\<open>keygen.c\<close>): multi-word integers, the extended binary GCD with its
    invariant, and Chinese remaindering.
  \<^item> \<open>Keygen_Sampling\<close>, \<open>Keygen\<close> (\<^verbatim>\<open>keygen.c\<close>): the Gaussian sampler equals the inversion of its table, the check
    of the NTRU equation is exact, and every key the outer loop returns is a valid key.
  \<^item> \<open>Falcon_Keys\<close>, \<open>Falcon_Rpo\<close>, \<open>Falcon_Api\<close>, \<open>Generated_Keys\<close> (\<^verbatim>\<open>falcon.c\<close>, \<^verbatim>\<open>pqclean.c\<close>): encoded keys,
    signing, verification and signed messages over the locale of a scheme with a message hash; what verification
    accepts, that signatures verify, and that generated keys are
    restored from their encoding.

  \<^item> \<open>Fpr\<close>, \<open>Fpr_Round\<close>, \<open>Fpr_Bits\<close>, \<open>Fpr_Mul\<close>, \<open>Fpr_Div\<close>, \<open>Fpr_Add\<close>, \<open>Fpr_Int\<close>, \<open>Exp_Poly\<close>, \<open>Fpr_Exp\<close> (\<^verbatim>\<open>fpr.h\<close>,
    \<^verbatim>\<open>fpr.c\<close>): the emulated floating point. \<open>rounds_to\<close> is the contract of an operation; addition, multiplication,
    division, square root and the conversions are shown to be correctly rounded for all inputs in range, and the
    exponential to be within \<open>2^-50\<close> of its value.

  \<^bold>\<open>Arguments of the model.\<close> Two computations of the program in emulated floating point are arguments of the
  definitions that call them, and every theorem quantifies over them. The sampler \<^verbatim>\<open>sign_dyn\<close> (\<^verbatim>\<open>sign.c\<close>) is
  assumed to return short preimages where a theorem says so, which is what \<^verbatim>\<open>inner.h\<close> documents. The steps of the
  NTRU solver and the test of the orthogonalised vector (\<^verbatim>\<open>keygen.c\<close>) are arbitrary: key generation checks their
  result, and \<open>keygen_sound\<close> rests on that check alone.

  \<^bold>\<open>Not modelled.\<close> The ARM SVE version of the permutation (intrinsics whose semantics the sources do not give);
  the FFT, the sampler and the Babai reduction of the solver (\<^verbatim>\<open>fft.c\<close>, \<^verbatim>\<open>sign.c\<close>, part of \<^verbatim>\<open>keygen.c\<close>), whose
  correctness is a statement about the accumulation of rounding errors; SHA-2, cSHAKE, AES and
  the NIST seed expander, which nothing calls; the operating system's randomness; the other PQClean schemes, which
  are not compiled; and the Rust crates of the virtual machine.
\<close>

end
